(* ===== verification/Snabb_Prelude.thy ===== *)
theory Snabb_Prelude
  imports "HOL-Library.Word" "HOL-Library.Monad_Syntax"
begin

text \<open>
  Shared vocabulary of the development: the machine types of the C sources, the byte-order
  functions of an x86-64 host, bounds-checked array access, and the generic facts on lists and
  words that the component theories use.

  A C function whose undefined behaviour matters returns an \<open>option\<close>: \<open>None\<close> is an access
  outside an array, a null dereference or a failed \<^verbatim>\<open>assert\<close>. A theorem that such a
  function returns \<open>Some\<close> is therefore a memory-safety statement.
\<close>

unbundle bit_operations_syntax

type_synonym u8 = "8 word"
type_synonym u16 = "16 word"
type_synonym u32 = "32 word"
type_synonym u64 = "64 word"

text \<open>A C \<^verbatim>\<open>int\<close> is a \<^typ>\<open>u32\<close> read with \<^const>\<open>sint\<close>; a pointer is its 64-bit address.\<close>

type_synonym c_int = "32 word"
type_synonym ptr = "64 word"

text \<open>The implicit widenings and the explicit narrowings of the C sources.\<close>

abbreviation u16_of_u8 :: "u8 \<Rightarrow> u16" where "u16_of_u8 \<equiv> ucast"
abbreviation u32_of_u8 :: "u8 \<Rightarrow> u32" where "u32_of_u8 \<equiv> ucast"
abbreviation u64_of_u8 :: "u8 \<Rightarrow> u64" where "u64_of_u8 \<equiv> ucast"
abbreviation u32_of_u16 :: "u16 \<Rightarrow> u32" where "u32_of_u16 \<equiv> ucast"
abbreviation u64_of_u16 :: "u16 \<Rightarrow> u64" where "u64_of_u16 \<equiv> ucast"
abbreviation u64_of_u32 :: "u32 \<Rightarrow> u64" where "u64_of_u32 \<equiv> ucast"
abbreviation u8_of_u16 :: "u16 \<Rightarrow> u8" where "u8_of_u16 \<equiv> ucast"
abbreviation u8_of_u32 :: "u32 \<Rightarrow> u8" where "u8_of_u32 \<equiv> ucast"
abbreviation u16_of_u32 :: "u32 \<Rightarrow> u16" where "u16_of_u32 \<equiv> ucast"
abbreviation u32_of_u64 :: "u64 \<Rightarrow> u32" where "u32_of_u64 \<equiv> ucast"

named_theorems wf_intros \<open>well-formedness invariants kept by the operations\<close>
named_theorems refine_simps \<open>how an operation acts on the abstraction of its state\<close>

subsection \<open>Arrays\<close>

definition aget :: "'a list \<Rightarrow> nat \<Rightarrow> 'a option" where
  "aget xs i = (if i < length xs then Some (xs ! i) else None)"

definition aset :: "'a list \<Rightarrow> nat \<Rightarrow> 'a \<Rightarrow> 'a list option" where
  "aset xs i v = (if i < length xs then Some (xs[i := v]) else None)"

text \<open>Indexing with a signed \<^verbatim>\<open>int\<close>: a negative index is out of bounds.\<close>

definition aget_int :: "'a list \<Rightarrow> c_int \<Rightarrow> 'a option" where
  "aget_int xs i = (if 0 \<le> sint i then aget xs (nat (sint i)) else None)"

definition aset_int :: "'a list \<Rightarrow> c_int \<Rightarrow> 'a \<Rightarrow> 'a list option" where
  "aset_int xs i v = (if 0 \<le> sint i then aset xs (nat (sint i)) v else None)"

lemma aget_Some [simp]: "i < length xs \<Longrightarrow> aget xs i = Some (xs ! i)"
  by (simp add: aget_def)

lemma aset_Some [simp]: "i < length xs \<Longrightarrow> aset xs i v = Some (xs[i := v])"
  by (simp add: aset_def)

lemma aget_eq_Some_iff: "aget xs i = Some v \<longleftrightarrow> i < length xs \<and> xs ! i = v"
  by (auto simp: aget_def)

lemma aset_eq_Some_iff: "aset xs i v = Some ys \<longleftrightarrow> i < length xs \<and> ys = xs[i := v]"
  by (auto simp: aset_def)

lemma sint_nonneg_unat:
  fixes w :: "'a::len word"
  assumes "0 \<le> sint w"
  shows "nat (sint w) = unat w"
proof -
  have "(2::int) ^ (LENGTH('a) - 1) \<le> 2 ^ LENGTH('a)" by simp
  with sint_lt [of w] have "sint w < 2 ^ LENGTH('a)" by linarith
  with assms have "uint w = sint w"
    by (simp add: uint_sint take_bit_int_eq_self)
  then show ?thesis by (simp add: unat_eq_nat_uint)
qed

lemma sint_of_small:
  fixes w :: "'a::len word"
  assumes "unat w < 2 ^ (LENGTH('a) - 1)"
  shows "sint w = int (unat w)"
proof -
  have "int (unat w) < 2 ^ (LENGTH('a) - 1)"
    using assms by (metis of_nat_less_iff of_nat_numeral of_nat_power)
  then have "uint w < 2 ^ (LENGTH('a) - 1)" by simp
  moreover have "- (2 ^ (LENGTH('a) - 1)) \<le> uint w"
    by (rule order_trans [OF _ uint_ge_0]) simp
  ultimately have "signed_take_bit (LENGTH('a) - 1) (uint w) = uint w"
    by (rule signed_take_bit_int_eq_self [rotated])
  then show ?thesis by (simp add: sint_uint)
qed

lemma aget_int_small: "unat i < 2 ^ 31 \<Longrightarrow> aget_int xs i = aget xs (unat i)"
  by (simp add: aget_int_def sint_of_small)

lemma aset_int_small: "unat i < 2 ^ 31 \<Longrightarrow> aset_int xs i v = aset xs (unat i) v"
  by (simp add: aset_int_def sint_of_small)

lemma unat_and_mask:
  fixes w :: "'a::len word"
  shows "unat (w AND mask n) = unat w mod 2 ^ n"
  by (metis take_bit_eq_mask take_bit_eq_mod unsigned_take_bit_eq)

subsection \<open>Words as numbers\<close>

lemma unat_ucast_widen:
  fixes w :: "'a::len word"
  assumes "LENGTH('a) \<le> LENGTH('b::len)"
  shows "unat (ucast w :: 'b word) = unat w"
proof -
  have "unat w < 2 ^ LENGTH('a)" by (rule unsigned_less)
  also have "\<dots> \<le> 2 ^ LENGTH('b)" using assms by simp
  finally show ?thesis
    by (simp add: unsigned_ucast_eq take_bit_nat_eq_self)
qed

lemma unat_widen [simp]:
  "unat (u16_of_u8 b) = unat b" "unat (u32_of_u8 b) = unat b" "unat (u64_of_u8 b) = unat b"
  "unat (u32_of_u16 h) = unat h" "unat (u64_of_u16 h) = unat h" "unat (u64_of_u32 w) = unat w"
  by (simp_all add: unat_ucast_widen)

lemma narrow_widen [simp]:
  "u8_of_u16 (u16_of_u8 b) = b" "u8_of_u32 (u32_of_u8 b) = b" "u16_of_u32 (u32_of_u16 h) = h"
  "u32_of_u64 (u64_of_u32 w) = w"
  by (rule bit_eqI, simp add: bit_simps)+

lemma unat_narrow:
  "unat (u8_of_u16 h) = unat h mod 256" "unat (u8_of_u32 w) = unat w mod 256"
  "unat (u16_of_u32 w) = unat w mod 65536" "unat (u32_of_u64 d) = unat d mod 4294967296"
  by (simp_all add: unsigned_ucast_eq take_bit_eq_mod)

lemma unat_less_8: "unat (b :: u8) < 256"
  using unsigned_less [of b] by simp

lemma unat_less_16: "unat (h :: u16) < 65536"
  using unsigned_less [of h] by simp

lemma unat_less_32: "unat (w :: u32) < 4294967296"
  using unsigned_less [of w] by simp

lemma unat_less_64: "unat (d :: u64) < 18446744073709551616"
  using unsigned_less [of d] by simp

lemma unat_plus_small:
  fixes a b :: "'a::len word"
  shows "unat a + unat b < 2 ^ LENGTH('a) \<Longrightarrow> unat (a + b) = unat a + unat b"
  by (simp add: unat_word_ariths)

lemma unat_drop_bit_div: "unat (drop_bit n w) = unat w div 2 ^ n"
  for w :: "'a::len word"
  by (simp only: unat_drop_bit_eq) (simp only: drop_bit_eq_div)

lemma unat_push_bit_small:
  fixes w :: "'a::len word"
  assumes "unat w * 2 ^ n < 2 ^ LENGTH('a)"
  shows "unat (push_bit n w) = unat w * 2 ^ n"
proof -
  have "unat (push_bit n w) = take_bit LENGTH('a) (push_bit n (unat w))"
    by (rule unsigned_push_bit_eq)
  with assms show ?thesis by (simp add: push_bit_eq_mult take_bit_nat_eq_self)
qed

lemma unat_power2: "n < LENGTH('a) \<Longrightarrow> unat (2 ^ n :: 'a::len word) = 2 ^ n"
  using unat_push_bit_small [of "1 :: 'a word" n] by (simp add: push_bit_eq_mult)

lemma unat_or_disjoint:
  fixes a b :: "'a::len word"
  assumes "a AND b = 0"
  shows "unat (a OR b) = unat a + unat b"
proof -
  have "unat a AND unat b = 0"
    using assms by (metis unsigned_0 unsigned_and_eq)
  then show ?thesis by (simp add: unsigned_or_eq disjunctive_add_eq_or)
qed

lemma unat_not:
  fixes w :: "'a::len word"
  shows "unat (NOT w) = 2 ^ LENGTH('a) - 1 - unat w"
proof -
  have "NOT w = - 1 - w" by (simp add: not_eq_complement)
  moreover have "unat (- 1 - w) = unat (- 1 :: 'a word) - unat w"
    by (rule unat_sub) (rule word_order.extremum)
  ultimately show ?thesis by (simp add: unsigned_minus_1_eq_mask mask_eq_exp_minus_1)
qed

lemma unat_low16: "unat ((w :: u32) AND 0xffff) = unat w mod 65536"
  using unat_and_mask [of w 16] by (simp add: mask_eq_exp_minus_1)

lemma unat_high16: "unat (drop_bit 16 (w :: u32)) = unat w div 65536"
  by (simp add: unat_drop_bit_div)

end
