(* ===== verification/Ring.thy ===== *)
theory Ring
  imports Snabb_Prelude
begin

text \<open>
  Ring buffers with two cursors, as \<^verbatim>\<open>delay_buffer.c\<close> and \<^verbatim>\<open>core/link.h\<close> have them: the
  abstraction of a ring to the list of its readable elements, and the interface
  \<open>bounded_queue\<close> that a client of such a ring relies on. The cursor facts are proved
  once here for any size; the component theories interpret the interface.
\<close>

subsection \<open>Contents of a ring\<close>

definition ring_count :: "nat \<Rightarrow> nat \<Rightarrow> nat \<Rightarrow> nat" where
  "ring_count n r w = (w + n - r) mod n"

definition ring_contents :: "'a list \<Rightarrow> nat \<Rightarrow> nat \<Rightarrow> 'a list" where
  "ring_contents xs r w =
     map (\<lambda>i. xs ! ((r + i) mod length xs)) [0..<ring_count (length xs) r w]"

lemma ring_count_alt:
  assumes "r < n" "w < n"
  shows "ring_count n r w = (if r \<le> w then w - r else w + n - r)"
proof (cases "r \<le> w")
  case True
  with assms have "w + n - r = (w - r) + n" by simp
  then have "ring_count n r w = (w - r) mod n"
    by (simp only: ring_count_def mod_add_self2)
  with True assms show ?thesis by simp
qed (use assms in \<open>simp add: ring_count_def\<close>)

lemma mod_Suc_wrap: "(i::nat) < n \<Longrightarrow> Suc i mod n = (if Suc i = n then 0 else Suc i)"
  by simp

lemma ring_count_less: "0 < n \<Longrightarrow> ring_count n r w < n"
  by (simp add: ring_count_def)

lemma ring_count_eq_0: "r < n \<Longrightarrow> w < n \<Longrightarrow> ring_count n r w = 0 \<longleftrightarrow> r = w"
  by (auto simp: ring_count_alt)

lemma ring_count_enq:
  assumes "r < n" "w < n" "Suc w mod n \<noteq> r"
  shows "ring_count n r (Suc w mod n) = Suc (ring_count n r w)"
  using assms by (auto simp: ring_count_alt mod_Suc_wrap split: if_splits)

lemma ring_count_deq:
  assumes "r < n" "w < n" "r \<noteq> w"
  shows "Suc (ring_count n (Suc r mod n) w) = ring_count n r w"
  using assms by (auto simp: ring_count_alt mod_Suc_wrap split: if_splits)

lemma ring_count_full:
  assumes "r < n" "w < n"
  shows "Suc w mod n = r \<longleftrightarrow> ring_count n r w = n - 1"
  using assms by (auto simp: ring_count_alt mod_Suc_wrap split: if_splits)

lemma ring_index_end:
  assumes "r < n" "w < n"
  shows "(r + ring_count n r w) mod n = w"
  using assms by (auto simp: ring_count_alt)

lemma ring_index_inside:
  assumes "r < n" "w < n" "i < ring_count n r w"
  shows "(r + i) mod n \<noteq> w"
proof -
  have "i < n" using assms ring_count_less [of n r w] by linarith
  then have "(r + i) mod n = (if r + i < n then r + i else r + i - n)"
    using assms by (simp add: mod_if)
  with assms show ?thesis by (auto simp: ring_count_alt split: if_splits)
qed

lemma length_ring_contents [simp]:
  "length (ring_contents xs r w) = ring_count (length xs) r w"
  by (simp add: ring_contents_def)

lemma ring_contents_enq:
  assumes "r < length xs" "w < length xs" "Suc w mod length xs \<noteq> r"
  shows "ring_contents (xs[w := v]) r (Suc w mod length xs) = ring_contents xs r w @ [v]"
proof -
  let ?n = "length xs"
  have "xs[w := v] ! ((r + i) mod ?n) = xs ! ((r + i) mod ?n)" if "i < ring_count ?n r w" for i
    using ring_index_inside [OF assms(1,2) that] by (metis nth_list_update_neq)
  then have "map (\<lambda>i. xs[w := v] ! ((r + i) mod ?n)) [0..<ring_count ?n r w]
      = map (\<lambda>i. xs ! ((r + i) mod ?n)) [0..<ring_count ?n r w]"
    by (intro map_cong) auto
  with assms show ?thesis
    by (simp add: ring_contents_def ring_count_enq ring_index_end)
qed

lemma ring_contents_deq:
  assumes "r < length xs" "w < length xs" "r \<noteq> w"
  shows "ring_contents xs r w = xs ! r # ring_contents xs (Suc r mod length xs) w"
proof -
  let ?n = "length xs"
  have "(Suc r mod ?n + i) mod ?n = (r + Suc i) mod ?n" for i
    by (simp add: mod_add_left_eq)
  moreover have "ring_count ?n r w = Suc (ring_count ?n (Suc r mod ?n) w)"
    using assms by (simp add: ring_count_deq)
  ultimately show ?thesis
    using assms by (simp add: ring_contents_def upt_conv_Cons map_Suc_upt [symmetric]
        del: upt_Suc)
qed

lemma ring_contents_eq_Nil:
  "r < length xs \<Longrightarrow> w < length xs \<Longrightarrow> ring_contents xs r w = [] \<longleftrightarrow> r = w"
  using ring_count_eq_0 [of r "length xs" w] by (simp add: ring_contents_def)

subsection \<open>The interface of a bounded queue\<close>

text \<open>
  What the users of a packet queue rely on. \<open>enq\<close> answers whether the element was taken;
  \<open>deq\<close> is only called on a queue that is not empty and returns a view of the element.
\<close>

fun enq_all :: "('s \<Rightarrow> 'a \<Rightarrow> (bool \<times> 's) option) \<Rightarrow> 'a list \<Rightarrow> 's \<Rightarrow> 's option" where
  "enq_all enq [] s = Some s"
| "enq_all enq (x # xs) s =
     (case enq s x of None \<Rightarrow> None | Some (ok, s') \<Rightarrow> enq_all enq xs s')"

fun deq_many :: "('s \<Rightarrow> ('b \<times> 's) option) \<Rightarrow> nat \<Rightarrow> 's \<Rightarrow> ('b list \<times> 's) option" where
  "deq_many deq 0 s = Some ([], s)"
| "deq_many deq (Suc n) s =
     (case deq s of None \<Rightarrow> None | Some (y, s') \<Rightarrow>
        (case deq_many deq n s' of None \<Rightarrow> None | Some (ys, s'') \<Rightarrow> Some (y # ys, s'')))"

locale bounded_queue =
  fixes inv :: "'s \<Rightarrow> bool"
    and contents :: "'s \<Rightarrow> 'a list"
    and capacity :: nat
    and enq :: "'s \<Rightarrow> 'a \<Rightarrow> (bool \<times> 's) option"
    and deq :: "'s \<Rightarrow> ('b \<times> 's) option"
    and view :: "'a \<Rightarrow> 'b"
  assumes bound: "inv s \<Longrightarrow> length (contents s) \<le> capacity"
    and enq_room: "inv s \<Longrightarrow> length (contents s) < capacity \<Longrightarrow>
        \<exists>s'. enq s x = Some (True, s') \<and> inv s' \<and> contents s' = contents s @ [x]"
    and enq_full: "inv s \<Longrightarrow> length (contents s) = capacity \<Longrightarrow>
        \<exists>s'. enq s x = Some (False, s') \<and> inv s' \<and> contents s' = contents s"
    and deq_some: "inv s \<Longrightarrow> contents s = x # xs \<Longrightarrow>
        \<exists>s'. deq s = Some (view x, s') \<and> inv s' \<and> contents s' = xs"
begin

lemma enq_all_contents:
  "inv s \<Longrightarrow> \<exists>s'. enq_all enq xs s = Some s' \<and> inv s' \<and>
     contents s' = contents s @ take (capacity - length (contents s)) xs"
proof (induction xs arbitrary: s)
  case (Cons x xs)
  show ?case
  proof (cases "length (contents s) < capacity")
    case True
    with enq_room [OF Cons.prems True, of x] obtain s1 where s1:
      "enq s x = Some (True, s1)" "inv s1" "contents s1 = contents s @ [x]" by blast
    from Cons.IH [OF s1(2)] s1 True show ?thesis
      by (auto simp: take_Cons' Suc_diff_Suc)
  next
    case False
    with bound [OF Cons.prems] have full: "length (contents s) = capacity" by simp
    from enq_full [OF Cons.prems full, of x] obtain s1 where s1:
      "enq s x = Some (False, s1)" "inv s1" "contents s1 = contents s" by blast
    from Cons.IH [OF s1(2)] s1 full show ?thesis by auto
  qed
qed auto

lemma deq_many_contents:
  "inv s \<Longrightarrow> n \<le> length (contents s) \<Longrightarrow>
     \<exists>s'. deq_many deq n s = Some (map view (take n (contents s)), s') \<and> inv s' \<and>
          contents s' = drop n (contents s)"
proof (induction n arbitrary: s)
  case (Suc n)
  then obtain x xs where xs: "contents s = x # xs" by (cases "contents s") auto
  from deq_some [OF Suc.prems(1) xs] obtain s1 where s1:
    "deq s = Some (view x, s1)" "inv s1" "contents s1 = xs" by blast
  from Suc.prems(2) xs s1(3) have "n \<le> length (contents s1)" by simp
  from Suc.IH [OF s1(2) this] s1 xs show ?case by auto
qed auto

lemma fifo:
  assumes "inv s" "contents s = []" "length xs \<le> capacity"
  shows "\<exists>s1 s2. enq_all enq xs s = Some s1 \<and>
           deq_many deq (length xs) s1 = Some (map view xs, s2) \<and> inv s2 \<and> contents s2 = []"
proof -
  from enq_all_contents [OF assms(1), of xs] assms(2,3) obtain s1 where s1:
    "enq_all enq xs s = Some s1" "inv s1" "contents s1 = xs" by auto
  from deq_many_contents [OF s1(2), of "length xs"] s1(1,3) show ?thesis by auto
qed

end

end
