(* ===== verification/Delay_Buffer.thy ===== *)
theory Delay_Buffer
  imports Ring
begin

text \<open>
  \<^verbatim>\<open>src/program/hybrid_access/base/delay_buffer.c\<close>: the ring of timed packets in which the
  hybrid-access delayer keeps a packet until its sending time. The cursors are C \<^verbatim>\<open>int\<close>s;
  every array access is bounds-checked, so the theorems below include that the code stays
  inside the array. The component interprets \<open>bounded_queue\<close>.
\<close>

subsection \<open>State and operations\<close>

definition DELAY_BUFFER_SIZE :: c_int where
  "DELAY_BUFFER_SIZE = 256 * 1024"

record timed_packet =
  tp_packet :: ptr
  tp_sending_time :: u64

record delay_buffer =
  db_packets :: "timed_packet list"
  db_read :: c_int
  db_write :: c_int

text \<open>\<open>db_new\<close> takes what \<^verbatim>\<open>malloc\<close> returned: nothing, or a block with arbitrary contents.\<close>

definition db_new :: "delay_buffer option \<Rightarrow> delay_buffer option" where
  "db_new block =
     (case block of
        None \<Rightarrow> None
      | Some b \<Rightarrow> Some (b\<lparr>db_read := 0, db_write := 0\<rparr>))"

definition buffer_is_empty :: "delay_buffer \<Rightarrow> bool" where
  "buffer_is_empty b \<longleftrightarrow> db_read b = db_write b"

definition buffer_is_full :: "delay_buffer \<Rightarrow> bool" where
  "buffer_is_full b \<longleftrightarrow> (db_write b + 1) AND (DELAY_BUFFER_SIZE - 1) = db_read b"

definition db_enqueue :: "delay_buffer \<Rightarrow> ptr \<Rightarrow> u64 \<Rightarrow> (c_int \<times> delay_buffer) option" where
  "db_enqueue b pkt t =
     (if buffer_is_full b then Some (0, b)
      else do {
        ps \<leftarrow> aset_int (db_packets b) (db_write b) \<lparr>tp_packet = pkt, tp_sending_time = t\<rparr>;
        Some (1, b\<lparr>db_packets := ps,
                   db_write := (db_write b + 1) AND (DELAY_BUFFER_SIZE - 1)\<rparr>)
      })"

definition db_dequeue :: "delay_buffer \<Rightarrow> (ptr \<times> delay_buffer) option" where
  "db_dequeue b = do {
     p \<leftarrow> aget_int (db_packets b) (db_read b);
     Some (tp_packet p, b\<lparr>db_read := (db_read b + 1) AND (DELAY_BUFFER_SIZE - 1)\<rparr>)
   }"

definition db_peek_time :: "delay_buffer \<Rightarrow> u64 option" where
  "db_peek_time b =
     (if buffer_is_empty b then Some (- 1)
      else map_option tp_sending_time (aget_int (db_packets b) (db_read b)))"

definition db_size :: "delay_buffer \<Rightarrow> c_int" where
  "db_size b =
     (if sint (db_read b) \<le> sint (db_write b) then db_write b - db_read b
      else db_write b + DELAY_BUFFER_SIZE - db_read b)"

text \<open>\<open>db_free\<close> answers which block is given back to the allocator, if any.\<close>

definition db_free :: "delay_buffer option \<Rightarrow> delay_buffer option" where
  "db_free b = (case b of None \<Rightarrow> None | Some blk \<Rightarrow> Some blk)"

subsection \<open>Invariant and abstraction\<close>

definition db_cells :: nat where
  "db_cells = 262144"

definition db_wf :: "delay_buffer \<Rightarrow> bool" where
  "db_wf b \<longleftrightarrow> length (db_packets b) = db_cells \<and> unat (db_read b) < db_cells \<and>
     unat (db_write b) < db_cells"

definition db_queue :: "delay_buffer \<Rightarrow> timed_packet list" where
  "db_queue b = ring_contents (db_packets b) (unat (db_read b)) (unat (db_write b))"

definition db_entry :: "delay_buffer \<Rightarrow> timed_packet \<Rightarrow> (bool \<times> delay_buffer) option" where
  "db_entry b e =
     map_option (\<lambda>(r, b'). (r \<noteq> 0, b')) (db_enqueue b (tp_packet e) (tp_sending_time e))"

lemma unat_cursor_next:
  assumes "unat c < db_cells"
  shows "unat ((c + 1) AND (DELAY_BUFFER_SIZE - 1)) = Suc (unat c) mod db_cells"
proof -
  have "DELAY_BUFFER_SIZE - 1 = (mask 18 :: c_int)"
    by (simp add: DELAY_BUFFER_SIZE_def mask_eq_exp_minus_1)
  moreover have "unat (c + 1) = Suc (unat c)"
    using assms by (simp add: db_cells_def unat_word_ariths)
  ultimately show ?thesis by (simp add: unat_and_mask db_cells_def)
qed

lemma cursor_small: "unat c < db_cells \<Longrightarrow> unat c < 2 ^ 31"
  by (simp add: db_cells_def)

lemmas db_access = aget_int_small [OF cursor_small] aset_int_small [OF cursor_small]

lemma db_empty_queue: "db_wf b \<Longrightarrow> buffer_is_empty b \<longleftrightarrow> db_queue b = []"
  by (simp add: db_wf_def buffer_is_empty_def db_queue_def ring_contents_eq_Nil word_unat_eq_iff)

lemma db_full_queue: "db_wf b \<Longrightarrow> buffer_is_full b \<longleftrightarrow> length (db_queue b) = db_cells - 1"
  by (simp add: db_wf_def buffer_is_full_def db_queue_def word_unat_eq_iff unat_cursor_next
      ring_count_full)

lemma db_queue_bound: "db_wf b \<Longrightarrow> length (db_queue b) \<le> db_cells - 1"
  using ring_count_less [of db_cells "unat (db_read b)" "unat (db_write b)"]
  by (simp add: db_wf_def db_queue_def db_cells_def)

lemma db_enqueue_room:
  assumes "db_wf b" "\<not> buffer_is_full b"
  shows "\<exists>b'. db_enqueue b p t = Some (1, b') \<and> db_wf b' \<and>
           db_queue b' = db_queue b @ [\<lparr>tp_packet = p, tp_sending_time = t\<rparr>]"
proof -
  let ?w' = "(db_write b + 1) AND (DELAY_BUFFER_SIZE - 1)"
  from assms have w': "unat ?w' = Suc (unat (db_write b)) mod db_cells"
    by (simp add: db_wf_def unat_cursor_next)
  with assms have "Suc (unat (db_write b)) mod db_cells \<noteq> unat (db_read b)"
    by (auto simp: buffer_is_full_def word_unat_eq_iff)
  with assms w' ring_contents_enq [of "unat (db_read b)" "db_packets b" "unat (db_write b)"]
  show ?thesis
    by (simp add: db_enqueue_def db_wf_def db_access db_queue_def)
qed

lemma db_dequeue_some:
  assumes "db_wf b" "\<not> buffer_is_empty b"
  shows "\<exists>b'. db_dequeue b = Some (tp_packet (hd (db_queue b)), b') \<and> db_wf b' \<and>
           db_queue b' = tl (db_queue b)"
proof -
  have "unat (db_read b) \<noteq> unat (db_write b)"
    using assms(2) by (simp add: buffer_is_empty_def word_unat_eq_iff)
  with assms show ?thesis
    by (simp add: db_dequeue_def db_wf_def db_access db_queue_def ring_contents_deq
        unat_cursor_next)
qed

interpretation dq: bounded_queue db_wf db_queue "db_cells - 1" db_entry db_dequeue tp_packet
proof unfold_locales
  fix b x xs
  assume wf: "db_wf b"
  show "length (db_queue b) \<le> db_cells - 1" by (rule db_queue_bound [OF wf])
  show "\<exists>b'. db_entry b x = Some (True, b') \<and> db_wf b' \<and> db_queue b' = db_queue b @ [x]"
    if "length (db_queue b) < db_cells - 1"
    using db_enqueue_room [OF wf, of "tp_packet x" "tp_sending_time x"] that
    by (auto simp: db_entry_def db_full_queue [OF wf])
  show "\<exists>b'. db_entry b x = Some (False, b') \<and> db_wf b' \<and> db_queue b' = db_queue b"
    if "length (db_queue b) = db_cells - 1"
    using that wf by (auto simp: db_entry_def db_enqueue_def db_full_queue [OF wf])
  show "\<exists>b'. db_dequeue b = Some (tp_packet x, b') \<and> db_wf b' \<and> db_queue b' = xs"
    if "db_queue b = x # xs"
    using db_dequeue_some [OF wf] that by (auto simp: db_empty_queue [OF wf])
qed

subsection \<open>Properties\<close>

text \<open>
  A concrete buffer: freshly allocated, every cell holding the null packet.
\<close>

definition db_sample :: delay_buffer where
  "db_sample = \<lparr>db_packets = replicate 262144 \<lparr>tp_packet = 0, tp_sending_time = 0\<rparr>,
                db_read = 0, db_write = 0\<rparr>"

lemma db_sample_wf [simp]: "db_wf db_sample"
  by (simp add: db_wf_def db_sample_def db_cells_def)

lemma db_sample_queue [simp]: "db_queue db_sample = []"
  by (simp add: db_queue_def db_sample_def ring_contents_eq_Nil)

lemma db_sample_peek: "db_peek_time db_sample = Some (- 1)"
  by (simp add: db_peek_time_def buffer_is_empty_def db_sample_def)

lemma unat_db_size:
  assumes "db_wf b"
  shows "unat (db_size b) = ring_count db_cells (unat (db_read b)) (unat (db_write b))"
proof -
  let ?r = "db_read b" and ?w = "db_write b"
  have small: "unat ?r < 262144" "unat ?w < 262144"
    using assms by (simp_all add: db_wf_def db_cells_def)
  then have "sint ?r = int (unat ?r)" "sint ?w = int (unat ?w)"
    by (simp_all add: sint_of_small del: of_nat_unat)
  then have sints: "sint ?r \<le> sint ?w \<longleftrightarrow> unat ?r \<le> unat ?w"
    by (simp del: of_nat_unat)
  show ?thesis
  proof (cases "unat ?r \<le> unat ?w")
    case True
    with small show ?thesis
      by (simp add: db_size_def sints ring_count_alt db_cells_def unat_sub word_le_nat_alt)
  next
    case False
    have sum: "unat (?w + DELAY_BUFFER_SIZE) = unat ?w + 262144"
      using small by (simp add: DELAY_BUFFER_SIZE_def unat_word_ariths)
    then have "?r \<le> ?w + DELAY_BUFFER_SIZE"
      using small by (simp add: word_le_nat_alt)
    with False small sum show ?thesis
      by (simp add: db_size_def sints ring_count_alt db_cells_def unat_sub)
  qed
qed

lemma db_peek_queue:
  assumes "db_wf b"
  shows "db_peek_time b = Some (if db_queue b = [] then - 1 else tp_sending_time (hd (db_queue b)))"
proof (cases "buffer_is_empty b")
  case True
  with assms show ?thesis by (simp add: db_peek_time_def db_empty_queue)
next
  case False
  then have "unat (db_read b) \<noteq> unat (db_write b)"
    by (simp add: buffer_is_empty_def word_unat_eq_iff)
  with assms False show ?thesis
    by (simp add: db_peek_time_def db_wf_def db_access db_queue_def ring_contents_deq)
qed

text \<open>Packets leave the delay buffer in the order in which they entered it, none is lost and
  no access is out of bounds: filling an empty buffer with any packets that fit and then
  dequeuing as many returns exactly those packets in that order.\<close>

theorem db_fifo:
  assumes "db_wf b" "db_queue b = []" "length es < 262144"
  shows "\<exists>b1 b2. enq_all db_entry es b = Some b1 \<and>
           deq_many db_dequeue (length es) b1 = Some (map tp_packet es, b2) \<and>
           db_wf b2 \<and> db_queue b2 = []"
  using dq.fifo [OF assms(1,2), of es] assms(3) by (simp add: db_cells_def)

theorem db_fifo_witness:
  "\<exists>b1 b2. enq_all db_entry [\<lparr>tp_packet = 7, tp_sending_time = 1\<rparr>] db_sample = Some b1 \<and>
     deq_many db_dequeue 1 b1 = Some ([7], b2) \<and> db_wf b2 \<and> db_queue b2 = []"
  using db_fifo [of db_sample "[\<lparr>tp_packet = 7, tp_sending_time = 1\<rparr>]"] by simp

text \<open>C4: each operation of the delay buffer refines the corresponding operation of a list of
  timed packets bounded by 262143: enqueue appends and answers 1, or answers 0 and changes
  nothing exactly when the list is full; dequeue of a non-empty list returns the packet at its
  head; the peeked time is the head's, or \<^verbatim>\<open>UINT64_MAX\<close> for the empty list; the size is the
  length. Every operation keeps the invariant and stays inside the array.\<close>

theorem db_refines_list:
  assumes "db_wf b"
  shows "(\<exists>r b'. db_enqueue b p t = Some (r, b') \<and> db_wf b' \<and>
           (if length (db_queue b) < 262143
            then r = 1 \<and> db_queue b' = db_queue b @ [\<lparr>tp_packet = p, tp_sending_time = t\<rparr>]
            else r = 0 \<and> b' = b))
       \<and> (db_queue b \<noteq> [] \<longrightarrow> (\<exists>b'. db_dequeue b = Some (tp_packet (hd (db_queue b)), b') \<and>
           db_wf b' \<and> db_queue b' = tl (db_queue b)))
       \<and> db_peek_time b = Some (if db_queue b = [] then - 1 else tp_sending_time (hd (db_queue b)))
       \<and> unat (db_size b) = length (db_queue b)"
proof (intro conjI impI)
  have full: "buffer_is_full b \<longleftrightarrow> \<not> length (db_queue b) < 262143"
    using db_full_queue [OF assms] db_queue_bound [OF assms] by (auto simp: db_cells_def)
  show "\<exists>r b'. db_enqueue b p t = Some (r, b') \<and> db_wf b' \<and>
      (if length (db_queue b) < 262143
       then r = 1 \<and> db_queue b' = db_queue b @ [\<lparr>tp_packet = p, tp_sending_time = t\<rparr>]
       else r = 0 \<and> b' = b)"
    using db_enqueue_room [OF assms, of p t] assms
    by (cases "buffer_is_full b") (auto simp: full db_enqueue_def)
  show "\<exists>b'. db_dequeue b = Some (tp_packet (hd (db_queue b)), b') \<and>
      db_wf b' \<and> db_queue b' = tl (db_queue b)" if "db_queue b \<noteq> []"
    using db_dequeue_some [OF assms] that by (simp add: db_empty_queue [OF assms])
  show "unat (db_size b) = length (db_queue b)"
    using assms by (simp add: unat_db_size db_queue_def db_wf_def)
  show "db_peek_time b = Some (if db_queue b = [] then - 1 else tp_sending_time (hd (db_queue b)))"
    by (rule db_peek_queue [OF assms])
qed

theorem db_refines_list_witness:
  "(\<exists>b'. db_enqueue db_sample 9 4 = Some (1, b') \<and>
      db_queue b' = [\<lparr>tp_packet = 9, tp_sending_time = 4\<rparr>] \<and>
      (\<exists>b''. db_dequeue b' = Some (9, b'') \<and> db_queue b'' = [])) \<and>
   unat (db_size db_sample) = 0"
proof -
  obtain b1 where b1: "db_enqueue db_sample 9 4 = Some (1, b1)" "db_wf b1"
    "db_queue b1 = [\<lparr>tp_packet = 9, tp_sending_time = 4\<rparr>]"
    using db_refines_list [OF db_sample_wf, of 9 4] by auto
  from b1 db_refines_list [OF b1(2)]
  have "\<exists>b'. db_dequeue b1 = Some (9, b') \<and> db_queue b' = []" by auto
  with b1 show ?thesis using db_refines_list [OF db_sample_wf] by auto
qed

end
