(* ===== verification/Checksum.thy ===== *)
theory Checksum
  imports Snabb_Prelude
begin

text \<open>
  \<^verbatim>\<open>src/lib/checksum.c\<close>: the portable internet checksum, its incremental updates and the
  pseudo-header sum, on a little-endian host. The reference is RFC 1071: the one's complement
  of the one's complement sum of the big-endian 16-bit words of the data.
\<close>

subsection \<open>Byte order\<close>

definition htons :: "u16 \<Rightarrow> u16" where
  "htons w = push_bit 8 w OR drop_bit 8 w"

abbreviation ntohs :: "u16 \<Rightarrow> u16" where
  "ntohs \<equiv> htons"

definition htonl :: "u32 \<Rightarrow> u32" where
  "htonl w = push_bit 24 w OR (push_bit 8 w AND 0xFF0000) OR (drop_bit 8 w AND 0xFF00) OR drop_bit 24 w"

abbreviation ntohl :: "u32 \<Rightarrow> u32" where
  "ntohl \<equiv> htonl"

text \<open>A 16-bit load at a byte offset.\<close>

definition load16 :: "u8 list \<Rightarrow> nat \<Rightarrow> u16 option" where
  "load16 p off = do {
     lo \<leftarrow> aget p off;
     hi \<leftarrow> aget p (off + 1);
     Some (u16_of_u8 lo + push_bit 8 (u16_of_u8 hi))
   }"

subsection \<open>The generic checksum\<close>

text \<open>The two summing loops; \<open>off\<close> is the byte offset of the moving pointer \<^verbatim>\<open>u16\<close>.\<close>

fun cksum_loop4 :: "u8 list \<Rightarrow> nat \<Rightarrow> nat \<Rightarrow> u32 \<Rightarrow> (nat \<times> nat \<times> u32) option" where
  "cksum_loop4 p off len acc =
     (if 8 \<le> len then do {
        w0 \<leftarrow> load16 p off;
        w1 \<leftarrow> load16 p (off + 2);
        w2 \<leftarrow> load16 p (off + 4);
        w3 \<leftarrow> load16 p (off + 6);
        cksum_loop4 p (off + 8) (len - 8)
          (acc + u32_of_u16 w0 + u32_of_u16 w1 + u32_of_u16 w2 + u32_of_u16 w3)
      } else Some (off, len, acc))"

fun cksum_loop1 :: "u8 list \<Rightarrow> nat \<Rightarrow> nat \<Rightarrow> u32 \<Rightarrow> (nat \<times> nat \<times> u32) option" where
  "cksum_loop1 p off len acc =
     (if 2 \<le> len then do {
        w \<leftarrow> load16 p off;
        cksum_loop1 p (off + 2) (len - 2) (acc + u32_of_u16 w)
      } else Some (off, len, acc))"

declare cksum_loop4.simps [simp del] cksum_loop1.simps [simp del]

lemma fold_step:
  fixes s :: u32
  assumes "drop_bit 16 s \<noteq> 0"
  shows "unat ((s AND 0xFFFF) + drop_bit 16 s) < unat s"
    and "unat ((s AND 0xFFFF) + drop_bit 16 s) = unat s mod 65536 + unat s div 65536"
proof -
  note lo = unat_low16 [of s] and hi = unat_high16 [of s]
  have pos: "0 < unat s div 65536"
    using assms hi by (metis neq0_conv unat_eq_0)
  have "unat s = unat s div 65536 * 65536 + unat s mod 65536" by simp
  with pos have less: "unat s mod 65536 + unat s div 65536 < unat s"
    by linarith
  also have "unat s < 2 ^ 32" using unat_less_32 [of s] by simp
  finally show eq: "unat ((s AND 0xFFFF) + drop_bit 16 s) = unat s mod 65536 + unat s div 65536"
    using lo hi by (simp add: unat_plus_small)
  show "unat ((s AND 0xFFFF) + drop_bit 16 s) < unat s"
    using less by (simp only: eq)
qed

function cksum_fold :: "u32 \<Rightarrow> u32" where
  "cksum_fold s = (if drop_bit 16 s \<noteq> 0 then cksum_fold ((s AND 0xFFFF) + drop_bit 16 s) else s)"
  by pat_completeness auto
termination
  by (relation "measure unat") (auto intro: fold_step)

declare cksum_fold.simps [simp del]

definition cksum_odd_byte :: "u8 list \<Rightarrow> nat \<Rightarrow> nat \<Rightarrow> u32 \<Rightarrow> u32 option" where
  "cksum_odd_byte p off len acc =
     (if len = 1 then do { b \<leftarrow> aget p off; Some (acc + u32_of_u8 b) } else Some acc)"

definition cksum_generic :: "u8 list \<Rightarrow> nat \<Rightarrow> u16 \<Rightarrow> u16 option" where
  "cksum_generic p len initial = do {
     (off, len, acc) \<leftarrow> cksum_loop4 p 0 len (u32_of_u16 (htons initial));
     (off, len, acc) \<leftarrow> cksum_loop1 p off len acc;
     acc \<leftarrow> cksum_odd_byte p off len acc;
     Some (ntohs (u16_of_u32 (NOT (cksum_fold acc))))
   }"

subsection \<open>Incremental updates and the pseudo header\<close>

text \<open>Both updates take and return the two cells as they are in memory (network byte order).\<close>

definition checksum_update_incremental_16 :: "u16 \<Rightarrow> u16 \<Rightarrow> u16 \<Rightarrow> u16 \<times> u16" where
  "checksum_update_incremental_16 checksum_cell value_cell new_value =
     (let acc = u32_of_u16 (NOT (ntohs checksum_cell)) AND 0xffff;
          acc = acc + ((u32_of_u16 (NOT (ntohs value_cell)) AND 0xffff) + u32_of_u16 new_value);
          acc = drop_bit 16 acc + (acc AND 0xffff);
          acc = acc + drop_bit 16 acc
      in (htons (u16_of_u32 (NOT acc AND 0xffff)), htons new_value))"

definition checksum_update_incremental_32 :: "u16 \<Rightarrow> u32 \<Rightarrow> u32 \<Rightarrow> u16 \<times> u32" where
  "checksum_update_incremental_32 checksum_cell value_cell new_value =
     (let old_value = NOT (ntohl value_cell);
          acc = u32_of_u16 (NOT (ntohs checksum_cell)) AND 0xffff;
          acc = acc + (drop_bit 16 old_value + (old_value AND 0xffff));
          acc = acc + (drop_bit 16 new_value + (new_value AND 0xffff));
          acc = drop_bit 16 acc + (acc AND 0xffff);
          acc = acc + drop_bit 16 acc
      in (htons (u16_of_u32 (NOT acc AND 0xffff)), htonl new_value))"

fun cksum_ua_loop_run :: "u8 list \<Rightarrow> nat \<Rightarrow> nat \<Rightarrow> u32 \<Rightarrow> u32 \<Rightarrow> (u32 \<times> u32) option" where
  "cksum_ua_loop_run p off 0 s0 s1 = Some (s0, s1)"
| "cksum_ua_loop_run p off (Suc n) s0 s1 = do {
     a \<leftarrow> aget p off;
     b \<leftarrow> aget p (off + 1);
     cksum_ua_loop_run p (off + 2) n (s0 + u32_of_u8 a) (s1 + u32_of_u8 b)
   }"

definition cksum_ua_loop :: "u8 list \<Rightarrow> u16 \<Rightarrow> u32 option" where
  "cksum_ua_loop p n = do {
     (s0, s1) \<leftarrow> cksum_ua_loop_run p 0 (unat n) 0 0;
     Some (push_bit 8 s0 + s1)
   }"

fun sum_hwords :: "u8 list \<Rightarrow> nat list \<Rightarrow> u32 \<Rightarrow> u32 option" where
  "sum_hwords p [] acc = Some acc"
| "sum_hwords p (i # is) acc = do { w \<leftarrow> load16 p (2 * i); sum_hwords p is (acc + u32_of_u16 w) }"

definition pseudo_fold :: "u32 \<Rightarrow> u32" where
  "pseudo_fold acc =
     (let acc = drop_bit 16 (acc AND 0xffff0000) + (acc AND 0xffff);
          acc = drop_bit 16 (acc AND 0xffff0000) + (acc AND 0xffff)
      in u32_of_u16 (ntohs (u16_of_u32 acc)))"

text \<open>
  \<open>len\<close> is a \<^verbatim>\<open>size_t\<close>, so subtracting the header size wraps; the protocol byte is kept as the
  unsigned byte, which only matters for the two values the code compares it with.
\<close>

definition pseudo_header_initial :: "u8 list \<Rightarrow> u64 \<Rightarrow> u32 option" where
  "pseudo_header_initial buf len = do {
     b0 \<leftarrow> aget buf 0;
     let ipv = drop_bit 4 (b0 AND 0xF0);
     (if ipv = 4 \<or> ipv = 6 then do {
        proto \<leftarrow> aget buf (if ipv = 4 then 9 else 6);
        let headersize = (if ipv = 4 then unat (b0 AND 0x0F) * 4 else 40);
        (if proto = 6 \<or> proto = 17 then do {
           let len = len - of_nat headersize;
           (if ipv = 4 then do {
              c \<leftarrow> cksum_generic buf headersize 0;
              (if c \<noteq> 0 then Some 0xFFFF0002
               else do {
                 acc \<leftarrow> sum_hwords buf [6, 7, 8, 9]
                    (u32_of_u16 (htons (ucast (len AND 0xFFFF))) + push_bit 8 (u32_of_u8 proto));
                 Some (pseudo_fold acc) })
            } else do {
              w \<leftarrow> load16 buf 4;
              acc \<leftarrow> sum_hwords buf [4..<20] (u32_of_u16 w + push_bit 8 (u32_of_u8 proto));
              Some (pseudo_fold acc) })
         } else Some 0xFFFF0001)
      } else Some 0xFFFF0001)
   }"

subsection \<open>One's complement sums\<close>

text \<open>Sums of the 16-bit words of a byte string in either byte order; an odd last byte is
  padded with a zero byte.\<close>

fun le_sum :: "u8 list \<Rightarrow> nat" where
  "le_sum [] = 0"
| "le_sum [a] = unat a"
| "le_sum (a # b # r) = unat a + 256 * unat b + le_sum r"

fun be_sum :: "u8 list \<Rightarrow> nat" where
  "be_sum [] = 0"
| "be_sum [a] = 256 * unat a"
| "be_sum (a # b # r) = 256 * unat a + unat b + be_sum r"

text \<open>The one's complement reduction of a sum to 16 bits: only a zero sum reduces to 0.\<close>

definition oc_fold :: "nat \<Rightarrow> nat" where
  "oc_fold n = (if n = 0 then 0 else Suc ((n - 1) mod 65535))"

definition swap16 :: "nat \<Rightarrow> nat" where
  "swap16 x = x mod 256 * 256 + x div 256"

lemma oc_fold_le: "oc_fold n \<le> 65535"
  using mod_less_divisor [of 65535 "n - 1"] unfolding oc_fold_def by (simp del: mod_less_divisor)

lemma oc_fold_small: "n \<le> 65535 \<Longrightarrow> oc_fold n = n"
  by (simp add: oc_fold_def)

lemma oc_fold_add: "0 < n \<Longrightarrow> oc_fold (n + 65535 * k) = oc_fold n"
proof -
  assume "0 < n"
  then have "n + 65535 * k - 1 = (n - 1) + k * 65535" by simp
  with \<open>0 < n\<close> show ?thesis by (simp only: oc_fold_def mod_mult_self1) simp
qed

lemma oc_fold_cong: "0 < m \<Longrightarrow> 0 < n \<Longrightarrow> m + 65535 * j = n + 65535 * k \<Longrightarrow> oc_fold m = oc_fold n"
  using oc_fold_add [of m j] oc_fold_add [of n k] by simp

lemma oc_fold_eq_0: "oc_fold n = 0 \<longleftrightarrow> n = 0"
  by (simp add: oc_fold_def)

lemma oc_fold_decomp: "\<exists>k. n = oc_fold n + 65535 * k"
proof (cases "n = 0")
  case False
  have "n - 1 = (n - 1) mod 65535 + 65535 * ((n - 1) div 65535)" by simp
  with False show ?thesis by (intro exI [of _ "(n - 1) div 65535"]) (simp add: oc_fold_def)
qed (simp add: oc_fold_def)

lemma oc_fold_carry: "0 < n \<Longrightarrow> oc_fold (n mod 65536 + n div 65536) = oc_fold n"
proof (rule oc_fold_cong [where j = "n div 65536" and k = 0])
  have "n = n div 65536 * 65536 + n mod 65536" by simp
  moreover assume "0 < n"
  ultimately show "0 < n mod 65536 + n div 65536" by linarith
  show "n mod 65536 + n div 65536 + 65535 * (n div 65536) = n + 65535 * 0"
    using \<open>n = n div 65536 * 65536 + n mod 65536\<close> by linarith
qed

lemma unat_cksum_fold: "unat (cksum_fold s) = oc_fold (unat s)"
proof (induction s rule: cksum_fold.induct)
  case (1 s)
  show ?case
  proof (cases "drop_bit 16 s = 0")
    case True
    then have "unat s div 65536 = 0"
      using unat_drop_bit_div [of 16 s] by simp
    with True show ?thesis by (subst cksum_fold.simps) (simp add: oc_fold_small)
  next
    case False
    then have "0 < unat s" using fold_step(1) [of s] by simp
    with False 1 show ?thesis
      by (subst cksum_fold.simps) (simp add: fold_step(2) oc_fold_carry)
  qed
qed

lemma unat_htons: "unat (htons w) = swap16 (unat w)"
proof -
  have "push_bit 8 w AND drop_bit 8 w = 0"
    by (rule bit_word_eqI) (auto simp: bit_simps dest: bit_imp_le_length)
  then have "unat (htons w) = unat (push_bit 8 w) + unat (drop_bit 8 w)"
    by (simp add: htons_def unat_or_disjoint)
  moreover have "unat (push_bit 8 w) = take_bit 16 (push_bit 8 (unat w))"
    using unsigned_push_bit_eq [of 8 w, where 'a = nat] by simp
  then have "unat (push_bit 8 w) = unat w mod 256 * 256"
    using mult_mod_left [of "unat w" 256 256] by (simp add: push_bit_eq_mult take_bit_eq_mod)
  ultimately show ?thesis by (simp add: unat_drop_bit_div swap16_def)
qed

lemma split_bytes:
  obtains q r where "x = 256 * q + r" "x div 256 = q" "x mod 256 = r" "r < (256::nat)"
proof
  show "x = 256 * (x div 256) + x mod 256" by simp
qed auto

lemma swap16_le: "x \<le> 65535 \<Longrightarrow> swap16 x \<le> 65535"
  by (rule split_bytes [of x]) (auto simp: swap16_def)

lemma swap16_mult_back: "256 * x = swap16 x + 65535 * (x div 256)"
  by (rule split_bytes [of x]) (simp add: swap16_def)

lemma swap16_mult: "256 * swap16 x = x + 65535 * (x mod 256)"
  by (rule split_bytes [of x]) (simp add: swap16_def)

lemma swap16_eq_0: "swap16 x = 0 \<longleftrightarrow> x = 0"
  by (rule split_bytes [of x]) (auto simp: swap16_def)

lemma swap16_compl:
  assumes "x \<le> 65535"
  shows "swap16 (65535 - x) = 65535 - swap16 x"
proof (rule split_bytes [of x])
  fix q r assume qr: "x = 256 * q + r" "x div 256 = q" "x mod 256 = r" "r < 256"
  with assms have q: "q \<le> 255" by linarith
  have "65535 - x = 256 * (255 - q) + (255 - r)" using qr q by linarith
  then have "(65535 - x) div 256 = 255 - q" "(65535 - x) mod 256 = 255 - r" by simp_all
  with qr q show ?thesis by (simp add: swap16_def)
qed

text \<open>The byte-order independence of the one's complement sum (RFC 1071, section 2 (B)).\<close>

lemma swap_oc_fold:
  assumes "256 * l + 65535 * j = b + 65535 * k" and "l = 0 \<longleftrightarrow> b = 0"
  shows "swap16 (oc_fold l) = oc_fold b"
proof (cases "l = 0")
  case False
  obtain f m where f: "f = oc_fold l" and m: "l = f + 65535 * m" using oc_fold_decomp by blast
  let ?s = "swap16 (oc_fold l)"
  have "swap16 f + 65535 * (f div 256 + 256 * m + j) = b + 65535 * k"
    using assms(1) swap16_mult_back [of f] by (simp add: m algebra_simps)
  then have eq: "?s + 65535 * (f div 256 + 256 * m + j) = b + 65535 * k" by (simp only: f)
  have "0 < ?s" using False by (metis gr0I oc_fold_eq_0 swap16_eq_0)
  moreover have "0 < b" using False assms(2) by simp
  ultimately have "oc_fold ?s = oc_fold b" using eq by (rule oc_fold_cong)
  then show ?thesis by (simp add: oc_fold_small swap16_le oc_fold_le)
qed (use assms in \<open>simp add: oc_fold_def swap16_def\<close>)

lemma be_le_sum: "\<exists>k. 256 * le_sum xs = be_sum xs + 65535 * k"
proof (induction xs rule: le_sum.induct)
  case (3 a b r)
  then obtain k where "256 * le_sum r = be_sum r + 65535 * k" by blast
  then show ?case by (intro exI [of _ "k + unat b"]) (simp add: algebra_simps)
qed auto

lemma be_sum_eq_0: "be_sum xs = 0 \<longleftrightarrow> le_sum xs = 0"
  by (induction xs rule: le_sum.induct) auto

lemma le_sum_bound: "le_sum xs \<le> 65535 * ((length xs + 1) div 2)"
proof (induction xs rule: le_sum.induct)
  case (2 a)
  then show ?case using unat_less_8 [of a] by simp
next
  case (3 a b r)
  then show ?case using unat_less_8 [of a] unat_less_8 [of b] by simp
qed simp

subsection \<open>The loops compute the sums\<close>

lemma load16_in_range:
  assumes "off + 1 < length p"
  obtains w where "load16 p off = Some w" "unat w = unat (p ! off) + 256 * unat (p ! (off + 1))"
proof
  let ?a = "p ! off" and ?b = "p ! (off + 1)"
  let ?w = "u16_of_u8 ?a + push_bit 8 (u16_of_u8 ?b)"
  have hi: "unat (push_bit 8 (u16_of_u8 ?b)) = unat ?b * 256"
    using unat_less_8 [of ?b] by (simp add: unat_push_bit_small)
  show "load16 p off = Some ?w" using assms by (simp add: load16_def)
  show "unat ?w = unat ?a + 256 * unat ?b"
    using hi unat_less_8 [of ?a] unat_less_8 [of ?b] by (simp add: unat_plus_small)
qed

lemma le_sum_append: "even (length xs) \<Longrightarrow> le_sum (xs @ ys) = le_sum xs + le_sum ys"
  by (induction xs rule: le_sum.induct) auto

lemma le_sum_seg:
  assumes "off + m \<le> length p" "even m"
  shows "le_sum (take (m + n) (drop off p))
       = le_sum (take m (drop off p)) + le_sum (take n (drop (off + m) p))"
  using assms by (simp add: take_add le_sum_append add.commute)

lemma load16_sum:
  assumes "off + 2 \<le> length p"
  shows "\<exists>w. load16 p off = Some w \<and> u32_of_u16 w = of_nat (le_sum (take 2 (drop off p)))"
proof -
  obtain w where w: "load16 p off = Some w" "unat w = unat (p ! off) + 256 * unat (p ! (off + 1))"
    using load16_in_range [of off p] assms by auto
  have "take 2 (drop off p) = [p ! off, p ! (off + 1)]"
    using assms by (simp add: numeral_2_eq_2 take_Suc_conv_app_nth)
  with w(2) have "le_sum (take 2 (drop off p)) = unat w" by simp
  with w(1) show ?thesis by simp
qed

lemma cksum_loop4_step:
  assumes "off + len \<le> length p" "8 \<le> len"
  shows "cksum_loop4 p off len acc =
           cksum_loop4 p (off + 8) (len - 8) (acc + of_nat (le_sum (take 8 (drop off p))))"
proof -
  let ?s = "\<lambda>i. le_sum (take 2 (drop (off + i) p))"
  have "le_sum (take 8 (drop off p)) = ?s 0 + (?s 2 + (?s 4 + ?s 6))"
    using assms le_sum_seg [of off 2 p 6] le_sum_seg [of "off + 2" 2 p 4]
      le_sum_seg [of "off + 4" 2 p 2]
    by (simp add: add.commute [of off] del: add_2_eq_Suc' add_2_eq_Suc)
  moreover obtain w0 w1 w2 w3 where
    "load16 p off = Some w0" "u32_of_u16 w0 = of_nat (?s 0)"
    "load16 p (off + 2) = Some w1" "u32_of_u16 w1 = of_nat (?s 2)"
    "load16 p (off + 4) = Some w2" "u32_of_u16 w2 = of_nat (?s 4)"
    "load16 p (off + 6) = Some w3" "u32_of_u16 w3 = of_nat (?s 6)"
    using assms load16_sum [of off p] load16_sum [of "off + 2" p] load16_sum [of "off + 4" p]
      load16_sum [of "off + 6" p] by (auto simp del: add_2_eq_Suc')
  ultimately show ?thesis
    using assms(2) by (subst cksum_loop4.simps) (simp add: add.assoc del: add_2_eq_Suc')
qed

lemma cksum_loop1_step:
  assumes "off + len \<le> length p" "2 \<le> len"
  shows "cksum_loop1 p off len acc =
           cksum_loop1 p (off + 2) (len - 2) (acc + of_nat (le_sum (take 2 (drop off p))))"
  using assms load16_sum [of off p] by (subst cksum_loop1.simps) (auto simp del: add_2_eq_Suc')

lemma cksum_loop4_sum:
  "off + len \<le> length p \<Longrightarrow> \<exists>m. even m \<and> m \<le> len \<and>
   cksum_loop4 p off len acc =
     Some (off + m, len - m, acc + of_nat (le_sum (take m (drop off p))))"
proof (induction len arbitrary: off acc rule: less_induct)
  case (less len)
  show ?case
  proof (cases "8 \<le> len")
    case True
    let ?acc = "acc + of_nat (le_sum (take 8 (drop off p)))"
    obtain m where m: "even m" "m \<le> len - 8" "cksum_loop4 p (off + 8) (len - 8) ?acc =
        Some (off + 8 + m, len - 8 - m, ?acc + of_nat (le_sum (take m (drop (off + 8) p))))"
      using less.IH [of "len - 8" "off + 8" ?acc] less.prems True by auto
    then show ?thesis
      using less.prems True le_sum_seg [of off 8 p m]
      by (intro exI [of _ "8 + m"]) (simp add: cksum_loop4_step add.assoc)
  next
    case False
    then show ?thesis by (intro exI [of _ 0]) (subst cksum_loop4.simps, simp)
  qed
qed

lemma cksum_loop1_sum:
  "off + len \<le> length p \<Longrightarrow> \<exists>m. even m \<and> m \<le> len \<and> len - m < 2 \<and>
   cksum_loop1 p off len acc =
     Some (off + m, len - m, acc + of_nat (le_sum (take m (drop off p))))"
proof (induction len arbitrary: off acc rule: less_induct)
  case (less len)
  show ?case
  proof (cases "2 \<le> len")
    case True
    let ?acc = "acc + of_nat (le_sum (take 2 (drop off p)))"
    obtain m where m: "even m" "m \<le> len - 2" "len - 2 - m < 2"
      "cksum_loop1 p (off + 2) (len - 2) ?acc =
        Some (off + 2 + m, len - 2 - m, ?acc + of_nat (le_sum (take m (drop (off + 2) p))))"
      using less.IH [of "len - 2" "off + 2" ?acc] less.prems True
      by (auto simp del: add_2_eq_Suc')
    then show ?thesis
      using less.prems True le_sum_seg [of off 2 p m]
      by (intro exI [of _ "2 + m"])
         (simp add: cksum_loop1_step add.assoc del: add_2_eq_Suc' add_2_eq_Suc)
  next
    case False
    then show ?thesis by (intro exI [of _ 0]) (subst cksum_loop1.simps, simp)
  qed
qed

lemma cksum_odd_byte_sum:
  assumes "off + len \<le> length p" "len < 2"
  shows "cksum_odd_byte p off len acc = Some (acc + of_nat (le_sum (take len (drop off p))))"
proof (cases "len = 1")
  case True
  with assms have "take len (drop off p) = [p ! off]"
    by (simp add: take_Suc_conv_app_nth)
  with True assms show ?thesis by (simp add: cksum_odd_byte_def)
next
  case False
  with assms have "len = 0" by simp
  then show ?thesis by (simp add: cksum_odd_byte_def)
qed

lemma cksum_generic_sum:
  assumes "len \<le> length p"
  shows "cksum_generic p len init =
    Some (ntohs (u16_of_u32 (NOT (cksum_fold
       (u32_of_u16 (htons init) + of_nat (le_sum (take len p)))))))"
proof -
  let ?i = "u32_of_u16 (htons init)"
  obtain m where m: "even m" "m \<le> len"
    "cksum_loop4 p 0 len ?i = Some (m, len - m, ?i + of_nat (le_sum (take m p)))"
    using cksum_loop4_sum [of 0 len p ?i] assms by auto
  let ?i1 = "?i + of_nat (le_sum (take m p))"
  obtain m1 where m1: "even m1" "m1 \<le> len - m" "len - m - m1 < 2"
    "cksum_loop1 p m (len - m) ?i1
       = Some (m + m1, len - m - m1, ?i1 + of_nat (le_sum (take m1 (drop m p))))"
    using cksum_loop1_sum [of m "len - m" p ?i1] assms m by auto
  have "le_sum (take len p) = le_sum (take m p) + (le_sum (take m1 (drop m p)) +
      le_sum (take (len - m - m1) (drop (m + m1) p)))"
    using assms m m1 le_sum_seg [of 0 m p "len - m"] le_sum_seg [of m m1 p "len - m - m1"] by simp
  moreover have "m + m1 + (len - m - m1) \<le> length p" using assms m m1 by simp
  ultimately show ?thesis
    using m m1 by (simp add: cksum_generic_def cksum_odd_byte_sum add.assoc)
qed

lemma narrow_not: "u16_of_u32 (NOT w) = NOT (u16_of_u32 w)"
  by (rule bit_word_eqI) (simp add: bit_simps)

lemma unat_cksum_result:
  assumes "unat s \<le> 65535"
  shows "unat (ntohs (u16_of_u32 (NOT s))) = 65535 - swap16 (unat s)"
  using assms by (simp add: unat_htons narrow_not unat_not unat_narrow swap16_compl)

lemma cksum_generic_value:
  assumes "len \<le> length p" "len \<le> 131070"
  shows "\<exists>c. cksum_generic p len init = Some c \<and>
           unat c = 65535 - oc_fold (unat init + be_sum (take len p))"
proof -
  let ?l = "swap16 (unat init) + le_sum (take len p)"
  let ?s = "u32_of_u16 (htons init) + of_nat (le_sum (take len p))"
  have "(length (take len p) + 1) div 2 \<le> 65535" using assms by simp
  then have "le_sum (take len p) \<le> 65535 * 65535"
    using le_sum_bound [of "take len p"] by linarith
  moreover have "swap16 (unat init) \<le> 65535"
    using unat_less_16 [of init] by (simp add: swap16_le)
  ultimately have s: "unat ?s = ?l"
    by (subst unat_plus_small) (simp_all add: unat_htons unat_of_nat)
  obtain k where "256 * le_sum (take len p) = be_sum (take len p) + 65535 * k"
    using be_le_sum by blast
  then have "256 * ?l + 65535 * 0 = (unat init + be_sum (take len p)) + 65535 * (k + unat init mod 256)"
    using swap16_mult [of "unat init"] by simp
  then have "swap16 (oc_fold ?l) = oc_fold (unat init + be_sum (take len p))"
    by (rule swap_oc_fold) (simp add: swap16_eq_0 be_sum_eq_0)
  then show ?thesis
    using assms(1) by (simp add: cksum_generic_sum unat_cksum_result unat_cksum_fold s oc_fold_le)
qed

text \<open>C10: the portable checksum computes the internet checksum of RFC 1071 for every byte string
  of at most 131070 bytes (a packet holds at most 10240) and never reads outside it: the result
  is the complement of the one's complement sum of the initial value and the big-endian 16-bit
  words, although the code adds the words in little-endian order and swaps once at the end.\<close>

theorem cksum_generic_correct:
  assumes "len \<le> length p" "len \<le> 131070"
  shows "\<exists>c. cksum_generic p len init = Some c \<and>
           unat c = 65535 - oc_fold (unat init + be_sum (take len p))"
  using assms by (rule cksum_generic_value)

theorem cksum_generic_correct_witness:
  "\<exists>c. cksum_generic [0x45, 0x00, 0x01] 3 7 = Some c \<and> unat c = 65535 - (7 + 0x4500 + 0x100)"
  using cksum_generic_correct [of 3 "[0x45, 0x00, 0x01]" 7] by (simp add: oc_fold_small)

subsection \<open>Incremental updates\<close>

text \<open>The two carry additions at the end of both updates.\<close>

definition add_carries :: "u32 \<Rightarrow> u32" where
  "add_carries acc = (let acc = drop_bit 16 acc + (acc AND 0xffff) in acc + drop_bit 16 acc)"

lemma unat_add_carries:
  assumes "unat acc < 6 * 65536"
  shows "unat (add_carries acc) mod 65536 = oc_fold (unat acc)"
proof -
  define n where "n = unat acc"
  define h l where "h = n div 65536" and "l = n mod 65536"
  have hl: "n = 65536 * h + l" "l < 65536" "h < 6" using assms by (auto simp: h_def l_def n_def)
  have a1: "unat (drop_bit 16 acc + (acc AND 0xffff)) = h + l"
    using hl by (subst unat_plus_small) (simp_all add: unat_high16 unat_low16 h_def l_def n_def)
  have a2: "unat (add_carries acc) = h + l + (h + l) div 65536"
    unfolding add_carries_def Let_def
    using hl by (subst unat_plus_small) (simp_all add: unat_high16 a1)
  have "oc_fold n = oc_fold (h + l)"
    using oc_fold_carry [of n] by (cases "n = 0") (simp_all add: h_def l_def add.commute)
  show ?thesis
  proof (cases "h + l < 65536")
    case True
    then show ?thesis using a2 \<open>oc_fold n = oc_fold (h + l)\<close> by (simp add: oc_fold_small n_def)
  next
    case False
    then have "(h + l) div 65536 = 1" using hl by simp
    moreover have "oc_fold (h + l) = h + l - 65535"
      using False hl oc_fold_add [of "h + l - 65535" 1] by (simp add: oc_fold_small)
    moreover have "(h + l + 1) mod 65536 = h + l - 65535"
      using False hl by (simp add: mod_if)
    ultimately show ?thesis using a2 \<open>oc_fold n = oc_fold (h + l)\<close> by (simp add: n_def)
  qed
qed

lemma u16_not_masked: "unat (u32_of_u16 (NOT h) AND 0xffff) = 65535 - unat h"
  using unat_less_16 [of h] by (simp add: unat_low16 unat_not)

lemma unat_carry_result:
  assumes "unat acc < 6 * 65536"
  shows "unat (u16_of_u32 (NOT (add_carries acc) AND 0xffff)) = 65535 - oc_fold (unat acc)"
proof -
  have "u16_of_u32 (NOT w AND 0xffff) = NOT (u16_of_u32 w)" for w
    using narrow_not [of w] by (simp add: word_unat_eq_iff unat_narrow unat_low16)
  with assms show ?thesis
    by (simp add: unat_not unat_narrow unat_add_carries)
qed

text \<open>A checksum \<open>c\<close> (host order) of a packet whose other words sum to \<open>rest\<close>.\<close>

definition valid_checksum :: "u16 \<Rightarrow> nat \<Rightarrow> bool" where
  "valid_checksum c n \<longleftrightarrow> unat c = 65535 - oc_fold n"

lemma htons_htons [simp]: "htons (htons w) = w"
  by (rule bit_word_eqI) (auto simp: htons_def bit_simps dest: bit_imp_le_length)

lemma bit_htonl:
  "bit (htonl w) n \<longleftrightarrow> n < 32 \<and>
     bit w (if n < 8 then n + 24 else if n < 16 then n + 8 else if n < 24 then n - 8 else n - 24)"
proof -
  have m: "(0xFF0000 :: u32) = push_bit 16 (mask 8)" "(0xFF00 :: u32) = push_bit 8 (mask 8)"
    by (simp_all add: push_bit_eq_mult mask_eq_exp_minus_1)
  have "bit (0xFF0000 :: u32) n \<longleftrightarrow> 16 \<le> n \<and> n < 24" "bit (0xFF00 :: u32) n \<longleftrightarrow> 8 \<le> n \<and> n < 16"
    unfolding m by (auto simp: bit_simps)
  then show ?thesis
    by (auto simp: htonl_def bit_simps add.commute dest: bit_imp_le_length)
qed

lemma htonl_htonl [simp]: "htonl (htonl w) = w"
  by (rule bit_word_eqI) (auto simp: bit_htonl)

lemma incremental_sum:
  assumes "0 < rest" "acc = oc_fold (rest + old) + nold + new" "nold + old = 65535 * j"
  shows "oc_fold acc = oc_fold (rest + new)"
proof -
  obtain k where "rest + old = oc_fold (rest + old) + 65535 * k" using oc_fold_decomp by blast
  moreover have "0 < oc_fold (rest + old)" using assms(1) by (simp add: oc_fold_def)
  ultimately show ?thesis
    using assms oc_fold_cong [of acc "rest + new" k j] by simp
qed

text \<open>Changing a 16-bit field of a packet and updating its checksum incrementally gives the
  checksum of the changed packet, for every packet whose other words are not all zero.\<close>

theorem checksum_update_16_correct:
  assumes "0 < rest" "valid_checksum (ntohs c) (rest + unat (ntohs v))"
  shows "valid_checksum (ntohs (fst (checksum_update_incremental_16 c v new))) (rest + unat new) \<and>
         ntohs (snd (checksum_update_incremental_16 c v new)) = new"
proof -
  let ?acc = "(u32_of_u16 (NOT (ntohs c)) AND 0xffff)
     + ((u32_of_u16 (NOT (ntohs v)) AND 0xffff) + u32_of_u16 new)"
  note b = unat_less_16 [of "ntohs c"] unat_less_16 [of "ntohs v"] unat_less_16 [of new]
  have "unat ?acc = (65535 - unat (ntohs c)) + ((65535 - unat (ntohs v)) + unat new)"
    using b by (simp add: unat_plus_small u16_not_masked)
  moreover have "65535 - unat (ntohs c) = oc_fold (rest + unat (ntohs v))"
    using assms(2) oc_fold_le [of "rest + unat (ntohs v)"] by (simp add: valid_checksum_def)
  ultimately have acc: "unat ?acc = oc_fold (rest + unat (ntohs v)) + (65535 - unat (ntohs v)) + unat new"
    by simp
  then have "oc_fold (unat ?acc) = oc_fold (rest + unat new)"
    using b by (intro incremental_sum [OF assms(1) acc, where j = 1]) simp
  moreover have "fst (checksum_update_incremental_16 c v new)
      = htons (u16_of_u32 (NOT (add_carries ?acc) AND 0xffff))"
    by (simp add: checksum_update_incremental_16_def add_carries_def Let_def)
  moreover have "unat ?acc < 6 * 65536"
    using b oc_fold_le [of "rest + unat (ntohs v)"] unfolding acc by linarith
  ultimately show ?thesis
    by (simp add: valid_checksum_def unat_carry_result)
       (simp add: checksum_update_incremental_16_def Let_def)
qed

theorem checksum_update_16_correct_witness:
  "valid_checksum (ntohs (fst (checksum_update_incremental_16 (htons 0xBAF8) (htons 7) 9)))
     (0x4500 + 9)"
proof -
  have "valid_checksum (ntohs (htons 0xBAF8)) (0x4500 + unat (ntohs (htons 7)))"
    by (simp add: valid_checksum_def oc_fold_small)
  from checksum_update_16_correct [OF _ this, of 9] show ?thesis by simp
qed

lemma halves_bound: "unat (w :: u32) div 65536 \<le> 65535" "unat (w :: u32) mod 65536 \<le> 65535"
proof -
  have "unat w div 65536 < 65536"
    by (rule less_mult_imp_div_less) (use unat_less_32 [of w] in simp)
  then show "unat w div 65536 \<le> 65535" by simp
  have "unat w mod 65536 < 65536" by simp
  then show "unat w mod 65536 \<le> 65535" by linarith
qed

lemma halves_sum: "unat (w :: u32) div 65536 + unat w mod 65536 +
    (unat (NOT w) div 65536 + unat (NOT w) mod 65536) = 65535 * 2"
proof -
  define q r where "q = unat w div 65536" and "r = unat w mod 65536"
  then have qr: "unat w = 65536 * q + r" "q \<le> 65535" "r \<le> 65535"
    using halves_bound [of w] by simp_all
  then have "unat (NOT w) = 65536 * (65535 - q) + (65535 - r)" by (simp add: unat_not)
  then have "unat (NOT w) div 65536 = 65535 - q" "unat (NOT w) mod 65536 = 65535 - r" by simp_all
  with qr show ?thesis by (simp flip: q_def r_def)
qed

lemma unat_halves: "unat (drop_bit 16 w + (w AND 0xffff)) = unat w div 65536 + unat w mod 65536"
  for w :: u32
  using halves_bound [of w] by (subst unat_plus_small) (simp_all add: unat_high16 unat_low16)

text \<open>The contribution of a 32-bit field is the sum of its two halves.\<close>

abbreviation halves :: "u32 \<Rightarrow> nat" where
  "halves w \<equiv> unat w div 65536 + unat w mod 65536"

text \<open>The same for a 32-bit field (an address or a port pair), which contributes its two
  16-bit halves to the sum.\<close>

theorem checksum_update_32_correct:
  assumes "0 < rest" "valid_checksum (ntohs c) (rest + halves (ntohl v))"
  shows "valid_checksum (ntohs (fst (checksum_update_incremental_32 c v new))) (rest + halves new) \<and>
         ntohl (snd (checksum_update_incremental_32 c v new)) = new"
proof -
  let ?o = "NOT (ntohl v)"
  let ?acc = "(u32_of_u16 (NOT (ntohs c)) AND 0xffff)
     + (drop_bit 16 ?o + (?o AND 0xffff)) + (drop_bit 16 new + (new AND 0xffff))"
  have h: "halves w \<le> 131070" for w :: u32 using halves_bound [of w] by linarith
  note b = unat_less_16 [of "ntohs c"] h [of ?o] h [of new] halves_sum [of "ntohl v"]
  have s1: "unat ((u32_of_u16 (NOT (ntohs c)) AND 0xffff) + (drop_bit 16 ?o + (?o AND 0xffff)))
      = (65535 - unat (ntohs c)) + halves ?o"
    using b by (subst unat_plus_small) (simp_all add: u16_not_masked unat_halves)
  have "(65535 - unat (ntohs c)) + halves ?o + halves new < 2 ^ LENGTH(32)"
    using b(2,3) by simp
  then have "unat ?acc = (65535 - unat (ntohs c)) + halves ?o + halves new"
    by (subst unat_plus_small) (simp_all only: s1 unat_halves)
  moreover have "65535 - unat (ntohs c) = oc_fold (rest + halves (ntohl v))"
    using assms(2) oc_fold_le [of "rest + halves (ntohl v)"] by (simp add: valid_checksum_def)
  ultimately have acc: "unat ?acc = oc_fold (rest + halves (ntohl v)) + halves ?o + halves new"
    by simp
  then have "oc_fold (unat ?acc) = oc_fold (rest + halves new)"
    using b by (intro incremental_sum [OF assms(1) acc, where j = 2]) simp
  moreover have "fst (checksum_update_incremental_32 c v new)
      = htons (u16_of_u32 (NOT (add_carries ?acc) AND 0xffff))"
    by (simp add: checksum_update_incremental_32_def add_carries_def Let_def)
  moreover have "unat ?acc < 6 * 65536"
    using b oc_fold_le [of "rest + halves (ntohl v)"] unfolding acc by linarith
  ultimately show ?thesis
    by (simp add: valid_checksum_def unat_carry_result)
       (simp add: checksum_update_incremental_32_def Let_def)
qed

theorem checksum_update_32_correct_witness:
  "valid_checksum (ntohs (fst (checksum_update_incremental_32 (htons 0xBAF8) (htonl 7) 9)))
     (0x4500 + halves 9)"
proof -
  have "valid_checksum (ntohs (htons 0xBAF8)) (0x4500 + halves (ntohl (htonl 7)))"
    by (simp add: valid_checksum_def oc_fold_small)
  from checksum_update_32_correct [OF _ this, of 9] show ?thesis by simp
qed

subsection \<open>The pseudo header\<close>

lemma oc_fold_twice: "oc_fold (oc_fold a + b) = oc_fold (a + b)"
proof (cases "a = 0")
  case False
  obtain k where "a = oc_fold a + 65535 * k" using oc_fold_decomp by blast
  moreover have "0 < oc_fold a" using False by (simp add: oc_fold_def)
  ultimately show ?thesis
    using False by (intro oc_fold_cong [where j = k and k = 0]) simp_all
qed (simp add: oc_fold_def)

lemma sum_hwords_upt:
  "i \<le> j \<Longrightarrow> 2 * j \<le> length p \<Longrightarrow>
   sum_hwords p [i..<j] acc = Some (acc + of_nat (le_sum (take (2 * (j - i)) (drop (2 * i) p))))"
proof (induction "j - i" arbitrary: i acc)
  case (Suc n)
  then have "[i..<j] = i # [Suc i..<j]" by (simp add: upt_conv_Cons)
  moreover have "2 * i + 2 \<le> length p" using Suc(2-4) by linarith
  have eq: "2 * (j - i) = 2 + 2 * (j - Suc i)" using Suc(2) by linarith
  from load16_sum [OF \<open>2 * i + 2 \<le> length p\<close>] obtain w where "load16 p (2 * i) = Some w"
    "u32_of_u16 w = of_nat (le_sum (take 2 (drop (2 * i) p)))" by blast
  moreover have "le_sum (take (2 * (j - i)) (drop (2 * i) p)) = le_sum (take 2 (drop (2 * i) p)) +
      le_sum (take (2 * (j - Suc i)) (drop (2 * i + 2) p))"
    using le_sum_seg [OF \<open>2 * i + 2 \<le> length p\<close>, of "2 * (j - Suc i)"] Suc(2)
    by (simp add: eq del: add_2_eq_Suc add_2_eq_Suc')
  moreover have "sum_hwords p [Suc i..<j] (acc + u32_of_u16 w) = Some (acc + u32_of_u16 w +
      of_nat (le_sum (take (2 * (j - Suc i)) (drop (2 * Suc i) p))))"
    using Suc by (intro Suc(1)) auto
  ultimately show ?case by (simp add: add.assoc)
qed simp

lemma unat_pseudo_fold:
  assumes "unat acc < 2 ^ 24"
  shows "unat (pseudo_fold acc) = swap16 (oc_fold (unat acc))"
proof -
  have hi: "drop_bit 16 (w AND 0xffff0000) = drop_bit 16 w" for w :: u32
  proof -
    have m: "(0xffff0000 :: u32) = push_bit 16 (mask 16)"
      by (simp add: push_bit_eq_mult mask_eq_exp_minus_1)
    show ?thesis
      unfolding m by (rule bit_word_eqI) (auto simp: bit_simps dest: bit_imp_le_length)
  qed
  let ?a = "drop_bit 16 acc + (acc AND 0xffff)"
  have fold: "unat (drop_bit 16 w + (w AND 0xffff)) = halves w" for w :: u32
    by (rule unat_halves)
  have small: "halves acc < 65536 + 256" using assms by simp
  have "oc_fold (halves acc) = oc_fold (unat acc)"
    using oc_fold_carry [of "unat acc"] by (cases "unat acc = 0") (simp_all add: add.commute)
  moreover have "halves ?a = oc_fold (halves acc)"
  proof (cases "halves acc < 65536")
    case True
    then show ?thesis by (simp add: fold oc_fold_small)
  next
    case False
    then obtain d where d: "halves acc = 65536 + d" by (metis le_iff_add not_less)
    with small have "d < 256" by linarith
    then have "oc_fold (65536 + d) = 1 + d" using oc_fold_add [of "1 + d" 1] by (simp add: oc_fold_small)
    moreover have "(65536 + d) div 65536 = 1" "(65536 + d) mod 65536 = d"
      using \<open>d < 256\<close> by simp_all
    ultimately show ?thesis unfolding fold d by (simp only:)
  qed
  ultimately have "unat (drop_bit 16 ?a + (?a AND 0xffff)) = oc_fold (unat acc)"
    by (simp only: fold)
  moreover have "oc_fold (unat acc) < 65536" using oc_fold_le [of "unat acc"] by simp
  ultimately show ?thesis
    unfolding pseudo_fold_def Let_def hi by (simp add: unat_htons unat_narrow)
qed

text \<open>The IPv4 header length in bytes and the pseudo-header sums of RFC 793 / RFC 2460.\<close>

definition ipv4_header_size :: "u8 list \<Rightarrow> nat" where
  "ipv4_header_size buf = unat (buf ! 0) mod 16 * 4"

definition pseudo_sum4 :: "u8 list \<Rightarrow> u64 \<Rightarrow> nat" where
  "pseudo_sum4 buf len =
     unat (len - of_nat (ipv4_header_size buf)) mod 65536 + unat (buf ! 9) +
     be_sum (take 8 (drop 12 buf))"

definition pseudo_sum6 :: "u8 list \<Rightarrow> nat" where
  "pseudo_sum6 buf = be_sum (take 2 (drop 4 buf)) + unat (buf ! 6) + be_sum (take 32 (drop 8 buf))"

lemma version_nibble: "drop_bit 4 ((b :: u8) AND 0xF0) = of_nat (unat b div 16)"
proof -
  have m: "(0xF0 :: u8) = push_bit 4 (mask 4)" by (simp add: push_bit_eq_mult mask_eq_exp_minus_1)
  have "drop_bit 4 (b AND 0xF0) = drop_bit 4 b"
    unfolding m by (rule bit_word_eqI) (auto simp: bit_simps dest: bit_imp_le_length)
  moreover have "unat (drop_bit 4 b) = unat b div 16" by (simp add: unat_drop_bit_div)
  moreover have "drop_bit 4 b = of_nat (unat (drop_bit 4 b))" by simp
  ultimately show ?thesis by simp
qed

lemma header_nibble: "unat ((b :: u8) AND 0x0F) = unat b mod 16"
  using unat_and_mask [of b 4] by (simp add: mask_eq_exp_minus_1)

lemma pseudo_fold_be:
  assumes "unat acc = l" "l < 2 ^ 24" "256 * l = b + 65535 * k" "0 < l" "0 < b"
  shows "unat (pseudo_fold acc) = oc_fold b"
  using assms swap_oc_fold [of l 0 b k] by (auto simp: unat_pseudo_fold)

lemma word16_of_u64: "unat (ucast (x AND 0xFFFF) :: u16) = unat (x :: u64) mod 65536"
proof -
  have "unat (x AND 0xFFFF) = unat x mod 65536"
    using unat_and_mask [of x 16] by (simp add: mask_eq_exp_minus_1)
  then show ?thesis by (simp add: unsigned_ucast_eq take_bit_eq_mod)
qed

lemma le_sum_seg_bound: "le_sum (take n (drop off p)) \<le> 65535 * ((n + 1) div 2)"
proof -
  have "length (take n (drop off p)) \<le> n" by simp
  then have "(length (take n (drop off p)) + 1) div 2 \<le> (n + 1) div 2" by (simp add: div_le_mono)
  with le_sum_bound [of "take n (drop off p)"] show ?thesis by (meson le_trans mult_le_mono2)
qed

lemma unat_proto_shift: "unat (push_bit 8 (u32_of_u8 b)) = 256 * unat b"
  using unat_less_8 [of b] by (simp add: unat_push_bit_small)

lemma pseudo_header_v4:
  assumes "20 \<le> length buf" "unat (buf ! 0) div 16 = 4" "buf ! 9 = 6 \<or> buf ! 9 = 17"
    "ipv4_header_size buf \<le> length buf"
  shows "\<exists>r. pseudo_header_initial buf len = Some r \<and>
           (if oc_fold (be_sum (take (ipv4_header_size buf) buf)) = 65535
            then unat r = oc_fold (pseudo_sum4 buf len) else r = 0xFFFF0002)"
proof -
  let ?h = "ipv4_header_size buf" and ?p = "buf ! 9"
  let ?n = "unat (len - of_nat ?h) mod 65536" and ?seg = "take 8 (drop 12 buf)"
  let ?acc = "u32_of_u16 (htons (ucast (len - of_nat ?h AND 0xFFFF))) + push_bit 8 (u32_of_u8 ?p)
      + of_nat (le_sum ?seg)"
  have h: "unat (buf ! 0 AND 0x0F) * 4 = ?h" by (simp add: header_nibble ipv4_header_size_def)
  have "?h < 131070" by (simp add: ipv4_header_size_def)
  then obtain c where c: "cksum_generic buf ?h 0 = Some c"
    "unat c = 65535 - oc_fold (be_sum (take ?h buf))"
    using cksum_generic_value [of ?h buf 0] assms(4) by auto
  then have c0: "c = 0 \<longleftrightarrow> oc_fold (be_sum (take ?h buf)) = 65535"
    using oc_fold_le [of "be_sum (take ?h buf)"] by (auto simp: word_unat_eq_iff)
  have hw: "sum_hwords buf [6, 7, 8, 9] a = Some (a + of_nat (le_sum ?seg))" for a
    using sum_hwords_upt [of 6 10 buf a] assms(1) by (simp add: upt_rec del: sum_hwords.simps)
  have get: "aget buf 0 = Some (buf ! 0)" "aget buf 9 = Some ?p"
    using assms(1) by (auto simp: aget_def)
  have run: "pseudo_header_initial buf len =
      Some (if c \<noteq> 0 then 0xFFFF0002 else pseudo_fold ?acc)"
    using assms(2,3) c(1) get unfolding pseudo_header_initial_def version_nibble
    by (auto simp: h hw Let_def simp del: sum_hwords.simps)
  have sw: "swap16 ?n \<le> 65535" by (rule swap16_le) simp
  have seg: "le_sum ?seg \<le> 65535 * 4" using le_sum_seg_bound [of 8 12 buf] by simp
  have p: "0 < unat ?p" using assms(3) by auto
  have acc: "unat ?acc = swap16 ?n + 256 * unat ?p + le_sum ?seg"
    using sw seg unat_less_8 [of ?p]
    by (subst unat_plus_small; subst unat_plus_small)
       (simp_all add: unat_htons word16_of_u64 unat_proto_shift unat_of_nat)
  obtain k where "256 * le_sum ?seg = be_sum ?seg + 65535 * k" using be_le_sum by blast
  then have eq: "256 * (swap16 ?n + 256 * unat ?p + le_sum ?seg) =
      pseudo_sum4 buf len + 65535 * (k + ?n mod 256 + unat ?p)"
    using swap16_mult [of ?n] by (simp add: pseudo_sum4_def)
  have "unat (pseudo_fold ?acc) = oc_fold (pseudo_sum4 buf len)"
    by (rule pseudo_fold_be [OF acc _ eq])
       (use sw seg p unat_less_8 [of ?p] in \<open>simp_all add: pseudo_sum4_def\<close>)
  with run c0 show ?thesis by auto
qed

lemma pseudo_header_v6:
  assumes "40 \<le> length buf" "unat (buf ! 0) div 16 = 6" "buf ! 6 = 6 \<or> buf ! 6 = 17"
  shows "\<exists>r. pseudo_header_initial buf len = Some r \<and> unat r = oc_fold (pseudo_sum6 buf)"
proof -
  let ?p = "buf ! 6" and ?n = "le_sum (take 2 (drop 4 buf))" and ?seg = "take 32 (drop 8 buf)"
  obtain w where w: "load16 buf 4 = Some w" "u32_of_u16 w = of_nat ?n"
    using load16_sum [of 4 buf] assms(1) by auto
  let ?acc = "u32_of_u16 w + push_bit 8 (u32_of_u8 ?p) + of_nat (le_sum ?seg)"
  have hw: "sum_hwords buf [4..<20] a = Some (a + of_nat (le_sum ?seg))" for a
    using sum_hwords_upt [of 4 20 buf a] assms(1) by (simp del: sum_hwords.simps upt_rec_numeral)
  have "aget buf 0 = Some (buf ! 0)" "aget buf 6 = Some ?p"
    using assms(1) by (auto simp: aget_def)
  then have run: "pseudo_header_initial buf len = Some (pseudo_fold ?acc)"
    using assms(2,3) w(1) unfolding pseudo_header_initial_def version_nibble
    by (auto simp: hw Let_def simp del: sum_hwords.simps upt_rec_numeral)
  have n: "?n \<le> 65535" using le_sum_seg_bound [of 2 4 buf] by simp
  have seg: "le_sum ?seg \<le> 65535 * 16" using le_sum_seg_bound [of 32 8 buf] by simp
  have p: "0 < unat ?p" using assms(3) by auto
  have acc: "unat ?acc = ?n + 256 * unat ?p + le_sum ?seg"
    using n seg unat_less_8 [of ?p]
    by (subst unat_plus_small; subst unat_plus_small)
       (simp_all only: w(2) unat_of_nat unat_proto_shift, simp_all)
  obtain k where k: "256 * le_sum ?seg = be_sum ?seg + 65535 * k" using be_le_sum by blast
  obtain j where "256 * ?n = be_sum (take 2 (drop 4 buf)) + 65535 * j"
    using be_le_sum by blast
  with k have eq: "256 * (?n + 256 * unat ?p + le_sum ?seg) =
      pseudo_sum6 buf + 65535 * (k + j + unat ?p)"
    by (simp add: pseudo_sum6_def)
  have "unat (pseudo_fold ?acc) = oc_fold (pseudo_sum6 buf)"
    by (rule pseudo_fold_be [OF acc _ eq])
       (use n seg p unat_less_8 [of ?p] in \<open>simp_all add: pseudo_sum6_def\<close>)
  with run show ?thesis by auto
qed

text \<open>The buffer holds the whole IP header that its first byte announces: 20 bytes and the IHL field
  for IPv4, 40 bytes for IPv6. Of anything else only the first byte is needed.\<close>

definition ip_header_complete :: "u8 list \<Rightarrow> bool" where
  "ip_header_complete buf \<longleftrightarrow> buf \<noteq> [] \<and>
     (unat (buf ! 0) div 16 = 4 \<longrightarrow> 20 \<le> length buf \<and> ipv4_header_size buf \<le> length buf) \<and>
     (unat (buf ! 0) div 16 = 6 \<longrightarrow> 40 \<le> length buf)"

lemma pseudo_header_other:
  assumes "ip_header_complete buf"
    "unat (buf ! 0) div 16 \<noteq> 4 \<or> (buf ! 9 \<noteq> 6 \<and> buf ! 9 \<noteq> 17)"
    "unat (buf ! 0) div 16 \<noteq> 6 \<or> (buf ! 6 \<noteq> 6 \<and> buf ! 6 \<noteq> 17)"
  shows "pseudo_header_initial buf len = Some 0xFFFF0001"
proof -
  have v: "(of_nat (unat (buf ! 0) div 16) :: u8) = of_nat v \<longleftrightarrow> unat (buf ! 0) div 16 = v"
    if "v < 16" for v
    using that unat_less_8 [of "buf ! 0"] by (simp add: word_unat_eq_iff unat_of_nat)
  from v [of 4] v [of 6] have v46:
    "(of_nat (unat (buf ! 0) div 16) :: u8) = 4 \<longleftrightarrow> unat (buf ! 0) div 16 = 4"
    "(of_nat (unat (buf ! 0) div 16) :: u8) = 6 \<longleftrightarrow> unat (buf ! 0) div 16 = 6" by simp_all
  have "aget buf 0 = Some (buf ! 0)"
    "unat (buf ! 0) div 16 = 6 \<Longrightarrow> aget buf 6 = Some (buf ! 6)"
    "unat (buf ! 0) div 16 = 4 \<Longrightarrow> aget buf 9 = Some (buf ! 9)"
    using assms(1) by (auto simp: aget_def ip_header_complete_def)
  with assms(2,3) show ?thesis
    unfolding pseudo_header_initial_def version_nibble by (auto simp: v46 Let_def)
qed

text \<open>C15: for a TCP or UDP packet with a complete IP header, the checksum of a payload of at most
  131070 bytes, started from the pseudo-header value, is the internet checksum of pseudo header
  plus payload: the one's complement of the sum over addresses, protocol, length and payload. An IPv4 header whose
  own checksum is wrong is reported as 0xFFFF0002 and anything but TCP or UDP over IPv4 or IPv6
  as 0xFFFF0001.\<close>

theorem pseudo_header_checksum:
  assumes "ip_header_complete buf" "n \<le> length payload" "n \<le> 131070"
  shows "\<exists>r. pseudo_header_initial buf len = Some r \<and>
    (if unat (buf ! 0) div 16 = 4 \<and> (buf ! 9 = 6 \<or> buf ! 9 = 17) then
       if oc_fold (be_sum (take (ipv4_header_size buf) buf)) = 65535 then
         \<exists>c. cksum_generic payload n (u16_of_u32 r) = Some c \<and>
             unat c = 65535 - oc_fold (pseudo_sum4 buf len + be_sum (take n payload))
       else r = 0xFFFF0002
     else if unat (buf ! 0) div 16 = 6 \<and> (buf ! 6 = 6 \<or> buf ! 6 = 17) then
       \<exists>c. cksum_generic payload n (u16_of_u32 r) = Some c \<and>
           unat c = 65535 - oc_fold (pseudo_sum6 buf + be_sum (take n payload))
     else r = 0xFFFF0001)"
proof -
  define v where "v = unat (buf ! 0) div 16"
  have fin: "\<exists>c. cksum_generic payload n (u16_of_u32 r) = Some c \<and>
      unat c = 65535 - oc_fold (s + be_sum (take n payload))" if "unat r = oc_fold s" for r s
  proof -
    have "unat (u16_of_u32 r) = oc_fold s"
      using that oc_fold_le [of s] by (simp add: unat_narrow)
    then show ?thesis
      using cksum_generic_value [OF assms(2,3), of "u16_of_u32 r"] by (simp add: oc_fold_twice)
  qed
  consider (v4) "v = 4 \<and> (buf ! 9 = 6 \<or> buf ! 9 = 17)"
    | (v6) "v = 6 \<and> (buf ! 6 = 6 \<or> buf ! 6 = 17)"
    | (other) "\<not> (v = 4 \<and> (buf ! 9 = 6 \<or> buf ! 9 = 17))" "\<not> (v = 6 \<and> (buf ! 6 = 6 \<or> buf ! 6 = 17))"
    by blast
  then show ?thesis
  proof cases
    case v4
    then show ?thesis using pseudo_header_v4 [of buf len] assms(1) fin by (auto simp: v_def ip_header_complete_def)
  next
    case v6
    then show ?thesis using pseudo_header_v6 [of buf len] assms(1) fin by (auto simp: v_def ip_header_complete_def)
  next
    case other
    then show ?thesis using pseudo_header_other [of buf len] assms(1) by (auto simp: v_def)
  qed
qed

text \<open>An IPv4 header of 20 bytes and nothing else, with its checksum; and an IPv6 header.\<close>

theorem pseudo_header_checksum_witness:
  "(\<exists>r c. pseudo_header_initial [0x45, 0, 0, 30, 0, 0, 0, 0, 64, 17, 0x66, 0xcd, 10, 0, 0, 1, 10, 0, 0, 2] 30 = Some r \<and>
     cksum_generic [1, 2] 2 (u16_of_u32 r) = Some c \<and> unat c = 65535 - (0x1400 + 3 + 17 + 10 + 0x102)) \<and>
   (\<exists>r c. pseudo_header_initial ([0x60, 0, 0, 0, 0, 0, 17, 0, 0, 0, 0, 0, 0, 0, 0, 0, 0, 0, 0, 0, 0, 0, 0, 0, 0, 0, 0, 0, 0, 0, 0, 0, 0, 0, 0, 0, 0, 0, 0, 0]) 40 = Some r \<and>
     cksum_generic [1, 2] 2 (u16_of_u32 r) = Some c \<and> unat c = 65535 - (17 + 0x102))"
  using pseudo_header_checksum [of "[0x45, 0, 0, 30, 0, 0, 0, 0, 64, 17, 0x66, 0xcd, 10, 0, 0, 1, 10, 0, 0, 2]" 2 "[1, 2]" 30]
    pseudo_header_checksum [of "[0x60, 0, 0, 0, 0, 0, 17, 0, 0, 0, 0, 0, 0, 0, 0, 0, 0, 0, 0, 0, 0, 0, 0, 0, 0, 0, 0, 0, 0, 0, 0, 0, 0, 0, 0, 0, 0, 0, 0, 0]" 2 "[1, 2]" 40]
  by (simp add: ip_header_complete_def ipv4_header_size_def pseudo_sum4_def pseudo_sum6_def oc_fold_small)

subsection \<open>The unaligned loop\<close>

lemma cksum_ua_loop_run_sum:
  "off + 2 * n \<le> length p \<Longrightarrow> \<exists>a b. cksum_ua_loop_run p off n s0 s1 = Some (s0 + of_nat a, s1 + of_nat b)
     \<and> 256 * a + b = be_sum (take (2 * n) (drop off p)) \<and> a \<le> 255 * n \<and> b \<le> 255 * n"
proof (induction n arbitrary: off s0 s1)
  case (Suc n)
  let ?x = "p ! off" and ?y = "p ! (off + 1)"
  have room: "off + 2 + 2 * n \<le> length p" using Suc.prems by simp
  have tk: "take (2 * Suc n) (drop off p) = ?x # ?y # take (2 * n) (drop (off + 2) p)"
    using Suc.prems by (simp add: Cons_nth_drop_Suc [symmetric])
  obtain a b where ab: "cksum_ua_loop_run p (off + 2) n (s0 + u32_of_u8 ?x) (s1 + u32_of_u8 ?y)
      = Some (s0 + u32_of_u8 ?x + of_nat a, s1 + u32_of_u8 ?y + of_nat b)"
    "256 * a + b = be_sum (take (2 * n) (drop (off + 2) p))" "a \<le> 255 * n" "b \<le> 255 * n"
    using Suc.IH [OF room, of "s0 + u32_of_u8 ?x" "s1 + u32_of_u8 ?y"] by blast
  then have "cksum_ua_loop_run p off (Suc n) s0 s1
      = Some (s0 + of_nat (unat ?x + a), s1 + of_nat (unat ?y + b))"
    using Suc.prems by (simp add: add.assoc)
  moreover have "256 * (unat ?x + a) + (unat ?y + b) = be_sum (take (2 * Suc n) (drop off p))"
    using ab(2) unfolding tk by simp
  moreover have "unat ?x + a \<le> 255 * Suc n" "unat ?y + b \<le> 255 * Suc n"
    using ab(3,4) unat_less_8 [of ?x] unat_less_8 [of ?y] by simp_all
  ultimately show ?case by blast
qed auto

text \<open>C16: the unaligned summing loop returns the exact sum of the big-endian words it is asked to
  add; with a 16-bit word count its two 32-bit accumulators cannot overflow.\<close>

theorem cksum_ua_loop_exact:
  assumes "2 * unat n \<le> length p"
  shows "\<exists>s. cksum_ua_loop p n = Some s \<and> unat s = be_sum (take (2 * unat n) p)"
proof -
  obtain a b where ab: "cksum_ua_loop_run p 0 (unat n) 0 0 = Some (of_nat a, of_nat b)"
    "256 * a + b = be_sum (take (2 * unat n) p)" "a \<le> 255 * unat n" "b \<le> 255 * unat n"
    using cksum_ua_loop_run_sum [of 0 "unat n" p 0 0] assms by auto
  then have small: "a < 16777216" "b < 16777216" using unat_less_16 [of n] by linarith+
  have "unat (push_bit 8 (of_nat a :: u32)) = a * 256"
    using small by (subst unat_push_bit_small) (simp_all add: unat_of_nat)
  moreover have "a \<le> 255 * 65535" "b \<le> 255 * 65535" using ab(3,4) unat_less_16 [of n] by linarith+
  then have "256 * a + b < 2 ^ 32" by simp
  ultimately have "unat (push_bit 8 (of_nat a :: u32) + of_nat b) = 256 * a + b"
    using small by (subst unat_plus_small) (simp_all add: unat_of_nat)
  with ab show ?thesis by (simp add: cksum_ua_loop_def)
qed

theorem cksum_ua_loop_exact_witness:
  "\<exists>s. cksum_ua_loop [1, 2, 3, 4] 2 = Some s \<and> unat s = 0x102 + 0x304"
  using cksum_ua_loop_exact [of 2 "[1, 2, 3, 4]"] by simp

end
