(* ===== verification/Seq_Tracker.thy ===== *)
theory Seq_Tracker
  imports Snabb_Prelude
begin

text \<open>
  The ESP anti-replay window of \<^verbatim>\<open>lib/ipsec/track_seq_no.c\<close> (RFC 4303, appendix A): a bit array of
  \<open>W\<close> bits remembers which of the last \<open>W\<close> sequence numbers up to the highest one, \<open>T\<close>, were
  received. The high half of a 64-bit sequence number is not on the wire; \<^verbatim>\<open>check_seq_no\<close> infers
  it. The theory ends with the way \<^verbatim>\<open>lib/ipsec/esp.lua\<close> uses the two functions for a packet; the
  integrity check of the packet is a parameter, and the resynchronisation that \<^verbatim>\<open>esp.lua\<close> attempts
  after a run of failed integrity checks (its lines 225-226 and 311) is left out.
\<close>

definition LO32 :: "u64 \<Rightarrow> u32" where
  "LO32 d = ucast (d mod 4294967296)"

definition HI32 :: "u64 \<Rightarrow> u32" where
  "HI32 d = ucast (d div 4294967296)"

definition MK64 :: "u32 \<Rightarrow> u32 \<Rightarrow> u64" where
  "MK64 l h = u64_of_u32 h * 4294967296 + u64_of_u32 l"

text \<open>\<^verbatim>\<open>seq % W\<close> is undefined for a zero \<^verbatim>\<open>W\<close>.\<close>

definition set_bit_win :: "bool \<Rightarrow> u64 \<Rightarrow> u8 list \<Rightarrow> u32 \<Rightarrow> u8 list option" where
  "set_bit_win on s window W =
     (if W = 0 then None else
      let bitno = u32_of_u64 (s mod u64_of_u32 W);
          blockno = unat (bitno div 8);
          bitno = unat (bitno mod 8)
      in do {
        b \<leftarrow> aget window blockno;
        let b = u8_of_u32 (u32_of_u8 b AND NOT (push_bit bitno 1));
        window \<leftarrow> aset window blockno b;
        aset window blockno (b OR u8_of_u32 (push_bit bitno (of_bool on)))
      })"

definition get_bit_win :: "u64 \<Rightarrow> u8 list \<Rightarrow> u32 \<Rightarrow> bool option" where
  "get_bit_win s window W =
     (if W = 0 then None else
      let bitno = u32_of_u64 (s mod u64_of_u32 W);
          blockno = unat (bitno div 8);
          bitno = unat (bitno mod 8)
      in do {
        b \<leftarrow> aget window blockno;
        Some (u32_of_u8 b AND push_bit bitno 1 \<noteq> 0)
      })"

text \<open>\<^verbatim>\<open>while (diff--) set_bit(0, seq--, window, W)\<close> runs its body \<^verbatim>\<open>diff\<close> times.\<close>

fun clear_bits :: "nat \<Rightarrow> u64 \<Rightarrow> u8 list \<Rightarrow> u32 \<Rightarrow> u8 list option" where
  "clear_bits 0 s window W = Some window"
| "clear_bits (Suc diff) s window W = do {
     window \<leftarrow> set_bit_win False s window W;
     clear_bits diff (s - 1) window W
   }"

definition advance_window :: "u64 \<Rightarrow> u64 \<Rightarrow> u8 list \<Rightarrow> u32 \<Rightarrow> u8 list option" where
  "advance_window s T window W =
     (let diff = s - T;
          diff = (if diff > u64_of_u32 W then u64_of_u32 W else diff)
      in clear_bits (unat diff) s window W)"

definition infer_hi :: "u32 \<Rightarrow> u64 \<Rightarrow> u32 \<Rightarrow> u32" where
  "infer_hi seq_lo T W =
     (let Tl = LO32 T; Th = HI32 T
      in if Tl \<ge> W - 1
         then if seq_lo \<ge> Tl - W + 1 then Th else Th + 1
         else if seq_lo \<ge> Tl - W + 1 then Th - 1 else Th)"

text \<open>The result is an \<^verbatim>\<open>int64_t\<close>: minus one, or the zero-extended high half.\<close>

definition check_seq_no :: "u32 \<Rightarrow> u64 \<Rightarrow> u8 list \<Rightarrow> u32 \<Rightarrow> u64 option" where
  "check_seq_no seq_lo T window W =
     (let seq_hi = infer_hi seq_lo T W;
          s = MK64 seq_lo seq_hi
      in if s \<le> T
         then do {
           b \<leftarrow> get_bit_win s window W;
           Some (if b then - 1 else u64_of_u32 seq_hi)
         }
         else Some (u64_of_u32 seq_hi))"

definition track_seq_no :: "u32 \<Rightarrow> u32 \<Rightarrow> u64 \<Rightarrow> u8 list \<Rightarrow> u32 \<Rightarrow> (u64 \<times> u8 list) option" where
  "track_seq_no seq_hi seq_lo T window W =
     (let s = MK64 seq_lo seq_hi
      in if s > T
         then do {
           window \<leftarrow> advance_window s T window W;
           window \<leftarrow> set_bit_win True s window W;
           Some (s, window)
         }
         else do {
           window \<leftarrow> set_bit_win True s window W;
           Some (T, window)
         })"

subsection \<open>The window as a set of numbers\<close>

definition win_wf :: "u8 list \<Rightarrow> u32 \<Rightarrow> bool" where
  "win_wf window W \<longleftrightarrow> 0 < unat W \<and> unat W \<le> 8 * length window"

text \<open>The bit of sequence number \<open>s\<close>.\<close>

definition win_bit :: "u8 list \<Rightarrow> u32 \<Rightarrow> nat \<Rightarrow> bool" where
  "win_bit window W s = bit (window ! (s mod unat W div 8)) (s mod unat W mod 8)"

lemma unat_bitno:
  assumes "0 < unat W"
  shows "unat (u32_of_u64 (s mod u64_of_u32 W)) = unat s mod unat W"
proof -
  have "unat s mod unat W < 4294967296"
    using assms unat_less_32 [of W] by (meson less_trans mod_less_divisor)
  then show ?thesis by (simp add: unat_narrow unat_mod)
qed

lemma block_in_range: "win_wf window W \<Longrightarrow> s mod unat W div 8 < length window"
proof -
  assume "win_wf window W"
  then have "s mod unat W < 8 * length window"
    by (auto simp: win_wf_def intro: less_le_trans [OF mod_less_divisor])
  then show ?thesis by (simp add: less_mult_imp_div_less mult.commute)
qed

lemma W_nonzero: "win_wf window W \<Longrightarrow> W \<noteq> 0"
  by (auto simp: win_wf_def)

lemma and_bit_nonzero: "u32_of_u8 b AND push_bit n 1 \<noteq> 0 \<longleftrightarrow> bit b n" if "n < 8"
proof
  assume "bit b n"
  then have "bit (u32_of_u8 b AND push_bit n 1) n" using that by (simp add: bit_simps)
  then show "u32_of_u8 b AND push_bit n 1 \<noteq> 0" by (metis bit_0_eq bot_apply bot_bool_def)
next
  assume "u32_of_u8 b AND push_bit n 1 \<noteq> 0"
  then obtain m where "bit (u32_of_u8 b AND push_bit n 1) m"
    by (auto simp: bit_eq_iff bit_simps)
  then show "bit b n" by (auto simp: bit_simps)
qed

lemma get_bit_win_eq: "win_wf window W \<Longrightarrow> get_bit_win s window W = Some (win_bit window W (unat s))"
  using block_in_range [of window W "unat s"] W_nonzero [of window W]
  by (simp add: get_bit_win_def win_bit_def unat_bitno unat_div unat_mod and_bit_nonzero win_wf_def
      del: push_bit_of_1)

lemma set_byte_bit:
  assumes "n < 8" "m < 8"
  shows "bit (u8_of_u32 (u32_of_u8 b AND NOT (push_bit n 1)) OR u8_of_u32 (push_bit n (of_bool on))) m
    \<longleftrightarrow> (if m = n then on else bit b m)"
  using assms by (auto simp: bit_simps)

text \<open>Writing the bit of \<open>s\<close> changes the bits of the numbers congruent to \<open>s\<close> and no other.\<close>

lemma set_bit_win_eq:
  assumes "win_wf window W"
  shows "\<exists>window'. set_bit_win on s window W = Some window' \<and> length window' = length window \<and>
    (\<forall>t. win_bit window' W t = (if t mod unat W = unat s mod unat W then on else win_bit window W t))"
proof -
  let ?i = "unat s mod unat W div 8" and ?n = "unat s mod unat W mod 8"
  define b where "b = u8_of_u32 (u32_of_u8 (window ! ?i) AND NOT (push_bit ?n 1))
      OR u8_of_u32 (push_bit ?n (of_bool on))"
  have i: "?i < length window" using assms by (rule block_in_range)
  have set: "set_bit_win on s window W = Some (window[?i := b])"
    using i W_nonzero [OF assms] assms
    by (simp add: set_bit_win_def unat_bitno unat_div unat_mod win_wf_def Let_def b_def)
  have b: "bit b m \<longleftrightarrow> (if m = ?n then on else bit (window ! ?i) m)" if "m < 8" for m
    unfolding b_def using that by (intro set_byte_bit) simp_all
  have "win_bit (window[?i := b]) W t =
      (if t mod unat W = unat s mod unat W then on else win_bit window W t)" for t
  proof (cases "t mod unat W div 8 = ?i")
    case True
    moreover have "t mod unat W = unat s mod unat W \<longleftrightarrow> t mod unat W mod 8 = ?n"
      using True by (metis mult_div_mod_eq)
    ultimately show ?thesis using i by (simp add: win_bit_def b)
  next
    case False
    then show ?thesis by (auto simp: win_bit_def)
  qed
  with set show ?thesis by (intro exI [of _ "window[?i := b]"]) simp
qed

lemma unat_pred: "0 < unat s \<Longrightarrow> unat (s - 1) = unat s - 1" for s :: u64
  by (metis One_nat_def Suc_leI unat_1 unat_sub word_le_nat_alt)

lemma clear_bits_eq:
  assumes "win_wf window W" "d \<le> unat s"
  shows "\<exists>window'. clear_bits d s window W = Some window' \<and> length window' = length window \<and>
    (\<forall>t. win_bit window' W t \<longleftrightarrow>
       win_bit window W t \<and> (\<forall>r. unat s - d < r \<and> r \<le> unat s \<longrightarrow> t mod unat W \<noteq> r mod unat W))"
  using assms
proof (induction d arbitrary: s window)
  case (Suc d)
  obtain w1 where w1: "set_bit_win False s window W = Some w1" "length w1 = length window"
    "\<And>t. win_bit w1 W t = (if t mod unat W = unat s mod unat W then False else win_bit window W t)"
    using set_bit_win_eq [OF Suc.prems(1), of False s] by blast
  have s1: "unat (s - 1) = unat s - 1" using Suc.prems(2) by (intro unat_pred) simp
  have d1: "d \<le> unat (s - 1)" using Suc.prems(2) s1 by simp
  have "win_wf w1 W" using Suc.prems(1) w1(2) by (simp add: win_wf_def)
  then obtain w2 where w2: "clear_bits d (s - 1) w1 W = Some w2" "length w2 = length w1"
    "\<And>t. win_bit w2 W t \<longleftrightarrow> win_bit w1 W t \<and>
       (\<forall>r. unat (s - 1) - d < r \<and> r \<le> unat (s - 1) \<longrightarrow> t mod unat W \<noteq> r mod unat W)"
    using Suc.IH [OF _ d1, of w1] by blast
  have rng: "unat s - Suc d < r \<and> r \<le> unat s \<longleftrightarrow>
      r = unat s \<or> (unat (s - 1) - d < r \<and> r \<le> unat (s - 1))" for r
    using Suc.prems(2) by (auto simp: s1)
  have "win_bit w2 W t \<longleftrightarrow> win_bit window W t \<and>
      (\<forall>r. unat s - Suc d < r \<and> r \<le> unat s \<longrightarrow> t mod unat W \<noteq> r mod unat W)" for t
    unfolding rng by (auto simp: w2(3) w1(3))
  with w1 w2 show ?case by (intro exI [of _ w2]) simp
qed simp

lemma mod_inj_window:
  assumes "a mod w = b mod w" "a < b + w" "b < a + w"
  shows "a = (b :: nat)"
proof (rule ccontr)
  assume "a \<noteq> b"
  then consider "a < b" | "b < a" by linarith
  then show False
  proof cases
    case 1
    then have "w dvd b - a" using assms(1) by (metis mod_eq_dvd_iff_nat less_imp_le)
    with 1 assms(3) show False by (auto dest: dvd_imp_le)
  next
    case 2
    then have "w dvd a - b" using assms(1) by (metis mod_eq_dvd_iff_nat less_imp_le)
    with 2 assms(2) show False by (auto dest: dvd_imp_le)
  qed
qed

definition in_window :: "nat \<Rightarrow> nat \<Rightarrow> nat \<Rightarrow> bool" where
  "in_window T W t \<longleftrightarrow> t \<le> T \<and> T < t + W"

text \<open>After advancing to \<open>s\<close>, the in-window bits are the old in-window bits up to \<open>T\<close>.\<close>

lemma advance_window_eq:
  assumes "win_wf window W" "T < s"
  shows "\<exists>window'. advance_window s T window W = Some window' \<and> length window' = length window \<and>
    (\<forall>t. in_window (unat s) (unat W) t \<longrightarrow> (win_bit window' W t \<longleftrightarrow> t \<le> unat T \<and> win_bit window W t))"
proof -
  define d where "d = min (unat s - unat T) (unat W)"
  have lt: "unat T < unat s" using assms(2) by (simp add: word_less_nat_alt)
  then have sub: "unat (s - T) = unat s - unat T" by (intro unat_sub) (simp add: word_le_nat_alt)
  have d: "unat (if s - T > u64_of_u32 W then u64_of_u32 W else s - T) = d"
    by (simp add: d_def word_less_nat_alt sub min_def)
  have "d \<le> unat s" by (simp add: d_def)
  with clear_bits_eq [OF assms(1), of d s] obtain w where
    w: "clear_bits d s window W = Some w" "length w = length window"
    "\<And>t. win_bit w W t \<longleftrightarrow> win_bit window W t \<and>
       (\<forall>r. unat s - d < r \<and> r \<le> unat s \<longrightarrow> t mod unat W \<noteq> r mod unat W)" by blast
  have "win_bit w W t \<longleftrightarrow> t \<le> unat T \<and> win_bit window W t" if t: "in_window (unat s) (unat W) t" for t
  proof (cases "t \<le> unat s - d")
    case True
    have "t mod unat W \<noteq> r mod unat W" if "unat s - d < r \<and> r \<le> unat s" for r
      using mod_inj_window [of t "unat W" r] True t that by (auto simp: in_window_def)
    moreover have "t \<le> unat T"
      using True t lt by (auto simp: d_def in_window_def min_def split: if_splits)
    ultimately show ?thesis by (simp add: w(3))
  next
    case False
    then have "\<not> t \<le> unat T" using lt by (auto simp: d_def)
    moreover have "\<not> win_bit w W t" using False t by (auto simp: w(3) in_window_def not_le intro!: exI [of _ t])
    ultimately show ?thesis by simp
  qed
  with w show ?thesis by (simp add: advance_window_def Let_def d)
qed

subsection \<open>The abstract receiver: the set of accepted numbers\<close>

definition seen_rel :: "nat set \<Rightarrow> u64 \<Rightarrow> u8 list \<Rightarrow> u32 \<Rightarrow> bool" where
  "seen_rel seen T window W \<longleftrightarrow> win_wf window W \<and> (\<forall>t\<in>seen. t \<le> unat T) \<and>
     (\<forall>t. in_window (unat T) (unat W) t \<longrightarrow> (win_bit window W t \<longleftrightarrow> t \<in> seen))"

lemma track_seq_no_rel:
  assumes rel: "seen_rel seen T window W" and s: "s = unat (MK64 lo hi)"
    "unat T < s + unat W"
  shows "\<exists>T' window'. track_seq_no hi lo T window W = Some (T', window') \<and>
    unat T' = max (unat T) s \<and> seen_rel (insert s seen) T' window' W"
proof -
  have wf: "win_wf window W" and le: "\<And>t. t \<in> seen \<Longrightarrow> t \<le> unat T"
    and bits: "\<And>t. in_window (unat T) (unat W) t \<Longrightarrow> win_bit window W t \<longleftrightarrow> t \<in> seen"
    using rel by (auto simp: seen_rel_def)
  have res: "\<exists>w2. set_bit_win True (MK64 lo hi) w1 W = Some w2 \<and> seen_rel (insert s seen) T' w2 W"
    if w1: "length w1 = length window"
      "\<And>t. in_window (unat T') (unat W) t \<Longrightarrow> win_bit w1 W t \<longleftrightarrow> t \<in> seen"
    and T': "unat T' = max (unat T) s" for w1 T'
  proof -
    have "win_wf w1 W" using wf w1(1) by (simp add: win_wf_def)
    from set_bit_win_eq [OF this, of True "MK64 lo hi"] obtain w2 where
      w2: "set_bit_win True (MK64 lo hi) w1 W = Some w2" "length w2 = length w1"
      "\<And>t. win_bit w2 W t = (if t mod unat W = s mod unat W then True else win_bit w1 W t)"
      by (auto simp: s)
    have "t mod unat W = s mod unat W \<longleftrightarrow> t = s" if "in_window (unat T') (unat W) t" for t
      using mod_inj_window [of t "unat W" s] that s T' by (auto simp: in_window_def)
    then have "seen_rel (insert s seen) T' w2 W"
      using w1 w2 wf T' by (auto simp: seen_rel_def win_wf_def dest: le)
    with w2(1) show ?thesis by blast
  qed
  show ?thesis
  proof (cases "T < MK64 lo hi")
    case True
    from advance_window_eq [OF wf this] obtain w1 where
      w1: "advance_window (MK64 lo hi) T window W = Some w1" "length w1 = length window"
      "\<And>t. in_window s (unat W) t \<Longrightarrow> win_bit w1 W t \<longleftrightarrow> t \<le> unat T \<and> win_bit window W t"
      by (auto simp: s)
    have mx: "unat (MK64 lo hi) = max (unat T) s" using True by (simp add: s word_less_nat_alt)
    have "win_bit w1 W t \<longleftrightarrow> t \<in> seen" if "in_window (unat (MK64 lo hi)) (unat W) t" for t
      using that w1(3) [of t] bits [of t] le [of t] True
      by (auto simp: s in_window_def word_less_nat_alt)
    with res [of w1 "MK64 lo hi"] w1(2) mx obtain w2 where
      "set_bit_win True (MK64 lo hi) w1 W = Some w2" "seen_rel (insert s seen) (MK64 lo hi) w2 W"
      by blast
    with True w1(1) mx show ?thesis by (simp add: track_seq_no_def Let_def)
  next
    case False
    then have mx: "unat T = max (unat T) s" by (simp add: s word_less_nat_alt)
    with res [of window T] bits obtain w2 where
      "set_bit_win True (MK64 lo hi) window W = Some w2" "seen_rel (insert s seen) T w2 W"
      by blast
    with False mx show ?thesis by (simp add: track_seq_no_def Let_def)
  qed
qed

subsection \<open>Inferring the high half\<close>

text \<open>The only number with low half \<open>lo\<close> among the \<open>2^32\<close> numbers that start at the lower edge
  \<open>T - W + 1\<close> of the window.\<close>

definition inferred :: "u32 \<Rightarrow> u64 \<Rightarrow> u32 \<Rightarrow> int" where
  "inferred lo T W = (let b = uint T - uint W + 1 in b + (uint lo - b) mod 2 ^ 32)"

lemma uint_MK64: "uint (MK64 l h) = uint h * 4294967296 + uint l"
proof -
  have "unat h * 4294967296 + unat l < 18446744073709551616"
    using unat_less_32 [of h] unat_less_32 [of l] by simp
  then have "unat (MK64 l h) = unat h * 4294967296 + unat l"
    by (simp add: MK64_def unat_word_ariths)
  then have "int (unat (MK64 l h)) = int (unat h * 4294967296 + unat l)" by (rule arg_cong)
  then show ?thesis by simp
qed

lemma uint_halves: "uint T = uint (HI32 T) * 4294967296 + uint (LO32 T)"
proof -
  have "uint T div 4294967296 < 4294967296"
    using uint_bounded [of T] by (simp add: div_less_iff_less_mult)
  moreover have "0 \<le> uint T div 4294967296" by (simp add: pos_imp_zdiv_nonneg_iff)
  ultimately have "uint (HI32 T) = uint T div 4294967296"
    by (simp add: HI32_def unsigned_ucast_eq take_bit_eq_mod uint_div)
  moreover have "uint (LO32 T) = uint T mod 4294967296"
    by (simp add: LO32_def unsigned_ucast_eq take_bit_eq_mod uint_mod)
  ultimately show ?thesis by simp
qed

lemma mult_add_mod: "0 \<le> l \<Longrightarrow> l < m \<Longrightarrow> (x * m + l) mod (m * m) = (x mod m) * m + (l :: int)"
  by (subst zmod_zmult2_eq) (simp_all add: mult.commute)

lemma mod_in_range: "0 \<le> x - k * m \<Longrightarrow> x - k * m < m \<Longrightarrow> x mod m = x - k * (m :: int)"
  by (metis mod_mult_self2 add.commute diff_add_cancel mod_pos_pos_trivial mult.commute)

lemma infer_hi_spec:
  assumes "0 < unat W"
  shows "\<exists>h. uint (infer_hi lo T W) = h mod 4294967296 \<and> inferred lo T W = h * 4294967296 + uint lo"
proof -
  define tl th w l where "tl = uint (LO32 T)" "th = uint (HI32 T)" "w = uint W" "l = uint lo"
  note defs = this
  have "0 < w" using assms by (metis defs(3) of_nat_0_less_iff uint_nat)
  then have r: "0 \<le> tl" "tl < 4294967296" "0 < w" "w < 4294967296" "0 \<le> l" "l < 4294967296"
    using uint_bounded [of "LO32 T"] uint_bounded [of W] uint_bounded [of lo]
    by (simp_all add: defs)
  have T: "uint T = th * 4294967296 + tl" using uint_halves [of T] by (simp add: defs)
  have w1: "uint (W - 1) = w - 1" using r by (simp add: defs uint_word_ariths)
  have edge: "uint (LO32 T - W + 1) = (if tl \<ge> w - 1 then tl - w + 1 else 4294967296 + tl - w + 1)"
  proof -
    have "uint (LO32 T - W + 1) = (tl - w + 1) mod 4294967296"
      by (simp add: defs uint_word_ariths mod_simps)
    then show ?thesis
      using r mod_in_range [of "tl - w + 1" "-1" 4294967296] by auto
  qed
  have A: "LO32 T \<ge> W - 1 \<longleftrightarrow> tl \<ge> w - 1" by (simp add: word_le_def w1 defs)
  have E: "lo \<ge> LO32 T - W + 1 \<longleftrightarrow> l \<ge> (if tl \<ge> w - 1 then tl - w + 1 else 4294967296 + tl - w + 1)"
    by (simp only: word_le_def edge) (simp add: defs)
  define h where "h = (if tl \<ge> w - 1 then if l \<ge> tl - w + 1 then th else th + 1
      else if l \<ge> 4294967296 + tl - w + 1 then th - 1 else th)"
  have hi: "uint (HI32 T) mod 4294967296 = uint (HI32 T)" using uint_bounded [of "HI32 T"] by simp
  have "uint (infer_hi lo T W) = h mod 4294967296"
    unfolding infer_hi_def Let_def A E
    using r hi by (auto simp: h_def defs uint_word_ariths)
  moreover have "inferred lo T W = h * 4294967296 + l"
    unfolding inferred_def T Let_def defs(3,4) [symmetric]
    using r mod_in_range [of "l - (th * 4294967296 + tl - w + 1)" "- th" 4294967296]
      mod_in_range [of "l - (th * 4294967296 + tl - w + 1)" "- th - 1" 4294967296]
      mod_in_range [of "l - (th * 4294967296 + tl - w + 1)" "1 - th" 4294967296]
    by (auto simp: h_def algebra_simps)
  ultimately show ?thesis by (auto simp: defs)
qed

lemma infer_hi_number:
  assumes "0 < unat W"
  shows "uint (MK64 lo (infer_hi lo T W)) = inferred lo T W mod 2 ^ 64"
proof -
  obtain h where "uint (infer_hi lo T W) = h mod 4294967296" "inferred lo T W = h * 4294967296 + uint lo"
    using infer_hi_spec [OF assms] by blast
  with mult_add_mod [of "uint lo" 4294967296 h] uint_bounded [of lo] show ?thesis
    by (simp add: uint_MK64)
qed

lemma inferred_bounds: "uint T - uint W < inferred lo T W" "inferred lo T W \<le> uint T - uint W + 2 ^ 32"
proof -
  have "0 \<le> x mod 2 ^ 32" "x mod 2 ^ 32 < 2 ^ 32" for x :: int by simp_all
  from this [of "uint lo - (uint T - uint W + 1)"]
  show "uint T - uint W < inferred lo T W" "inferred lo T W \<le> uint T - uint W + 2 ^ 32"
    by (simp_all add: inferred_def Let_def)
qed

subsection \<open>Rejecting exactly the replays\<close>

lemma u64_of_u32_not_minus_1: "u64_of_u32 h \<noteq> - 1"
proof
  assume "u64_of_u32 h = - 1"
  then have "unat (u64_of_u32 h) = unat (- 1 :: u64)" by (rule arg_cong)
  with unat_less_32 [of h] show False by (simp add: unsigned_minus_1_eq_mask mask_eq_exp_minus_1)
qed

lemma check_seq_no_rel:
  assumes rel: "seen_rel seen T window W"
    and n: "0 \<le> inferred lo T W" "inferred lo T W < 2 ^ 64"
  shows "check_seq_no lo T window W =
    Some (if nat (inferred lo T W) \<in> seen then - 1 else u64_of_u32 (infer_hi lo T W))"
proof -
  let ?s = "MK64 lo (infer_hi lo T W)"
  have wf: "win_wf window W" using rel by (simp add: seen_rel_def)
  then have "uint ?s = inferred lo T W" using infer_hi_number [of W lo T] n by (simp add: win_wf_def)
  then have s: "unat ?s = nat (inferred lo T W)" by (simp add: unat_eq_nat_uint)
  have "int (unat T) - int (unat W) < int (unat ?s)"
    using inferred_bounds(1) [of T W lo] s n(1) by simp
  then have low: "unat T < unat ?s + unat W" by linarith
  show ?thesis
  proof (cases "?s \<le> T")
    case True
    then have "in_window (unat T) (unat W) (unat ?s)" using low by (simp add: in_window_def word_le_nat_alt)
    then have "win_bit window W (unat ?s) \<longleftrightarrow> unat ?s \<in> seen" using rel by (simp add: seen_rel_def)
    with True show ?thesis by (simp add: check_seq_no_def Let_def get_bit_win_eq [OF wf] s)
  next
    case False
    then have "unat ?s \<notin> seen" using rel by (auto simp: seen_rel_def word_le_nat_alt)
    with False show ?thesis by (simp add: check_seq_no_def Let_def s)
  qed
qed

lemma infer_hi_div:
  assumes "0 < unat W"
  shows "uint (infer_hi lo T W) = inferred lo T W div 2 ^ 32 mod 2 ^ 32"
proof -
  obtain h where h: "uint (infer_hi lo T W) = h mod 4294967296" "inferred lo T W = h * 4294967296 + uint lo"
    using infer_hi_spec [OF assms] by blast
  then have "inferred lo T W div 2 ^ 32 = h" using uint_bounded [of lo] by simp
  with h(1) show ?thesis by simp
qed

text \<open>The inferred number is negative only at the start of a session; it then wraps to a number
  above \<open>T\<close>, and the high half is all ones.\<close>

lemma check_seq_no_negative:
  assumes "win_wf window W" "inferred lo T W < 0"
  shows "check_seq_no lo T window W = Some 0xFFFFFFFF"
proof -
  let ?n = "inferred lo T W" and ?s = "MK64 lo (infer_hi lo T W)"
  have W: "0 < unat W" "uint W < 2 ^ 32" using assms(1) uint_bounded [of W] by (simp_all add: win_wf_def)
  have n: "- (2 ^ 32) < ?n" "uint T - uint W < ?n"
    using inferred_bounds(1) [of T W lo] W uint_ge_0 [of T] by linarith+
  then have "uint ?s = ?n + 2 ^ 64"
    using infer_hi_number [OF W(1)] mod_in_range [of ?n "- 1" "2 ^ 64"] assms(2) by simp
  then have "\<not> ?s \<le> T" using n W by (simp add: word_le_def)
  moreover have "?n div 2 ^ 32 = - 1"
    using n(1) assms(2) by (simp add: div_pos_neg_trivial)
  then have "uint (infer_hi lo T W) = 4294967295" using infer_hi_div [OF W(1)] by simp
  then have "infer_hi lo T W = 0xFFFFFFFF" by (simp add: word_uint_eq_iff)
  ultimately show ?thesis by (simp add: check_seq_no_def Let_def)
qed

text \<open>At the end of the 64-bit space it may pass \<open>2^64\<close>; it then wraps to a number far below \<open>T\<close>.\<close>

lemma check_seq_no_exhausted:
  assumes "win_wf window W" "2 ^ 64 \<le> inferred lo T W"
  shows "check_seq_no lo T window W = Some (if win_bit window W (nat (inferred lo T W - 2 ^ 64)) then - 1 else 0)"
proof -
  let ?n = "inferred lo T W" and ?s = "MK64 lo (infer_hi lo T W)"
  have W: "0 < unat W" "0 \<le> uint W" "uint T < 2 ^ 64" using assms(1) uint_bounded [of T] by (simp_all add: win_wf_def)
  then have n: "?n < 2 ^ 64 + 2 ^ 32" "?n - 2 ^ 64 \<le> uint T"
    using inferred_bounds(2) [of lo T W] uint_ge_0 [of W] by (simp, linarith)+
  then have s: "uint ?s = ?n - 2 ^ 64"
    using infer_hi_number [OF W(1)] mod_in_range [of ?n 1 "2 ^ 64"] assms(2) by simp
  with n have "?s \<le> T" by (simp add: word_le_def)
  moreover have "?n div 2 ^ 32 = 2 ^ 32"
    using n(1) assms(2) by (intro int_div_pos_eq [where r = "?n - 2 ^ 64"]) simp_all
  then have "uint (infer_hi lo T W) = 0" using infer_hi_div [OF W(1)] by simp
  then have "infer_hi lo T W = 0" by (simp add: uint_0_iff)
  moreover have "unat ?s = nat (?n - 2 ^ 64)" using s by (simp add: unat_eq_nat_uint)
  ultimately show ?thesis
    by (simp add: check_seq_no_def Let_def get_bit_win_eq [OF assms(1)])
qed

text \<open>C17: while the window holds exactly the accepted sequence numbers, the check rejects a packet
  precisely when the number it stands for was accepted before, and otherwise returns the high
  half of that number: the number with the given low half among the \<open>2^32\<close> numbers from the lower
  edge of the window. Where that number is negative, which happens when fewer than \<open>W\<close> numbers
  precede \<open>T\<close>, the packet is not rejected and the high half returned is 0xFFFFFFFF. Where it
  exceeds 64 bits, the high half is 0 and the bit of the number modulo \<open>2^64\<close> decides. The window
  is never accessed out of bounds.\<close>

theorem check_seq_no_exact:
  assumes "seen_rel seen T window W"
  shows "\<exists>r. check_seq_no lo T window W = Some r \<and>
    (if inferred lo T W < 0 then r = 0xFFFFFFFF
     else if 2 ^ 64 \<le> inferred lo T W then
       r = (if win_bit window W (nat (inferred lo T W - 2 ^ 64)) then - 1 else 0)
     else if nat (inferred lo T W) \<in> seen then r = - 1
     else r \<noteq> - 1 \<and> int (unat r) = inferred lo T W div 2 ^ 32)"
proof -
  have wf: "win_wf window W" and W: "0 < unat W" using assms by (simp_all add: seen_rel_def win_wf_def)
  consider (neg) "inferred lo T W < 0" | (big) "2 ^ 64 \<le> inferred lo T W"
    | (mid) "0 \<le> inferred lo T W" "inferred lo T W < 2 ^ 64" by linarith
  then show ?thesis
  proof cases
    case neg
    then show ?thesis by (simp add: check_seq_no_negative [OF wf])
  next
    case big
    then show ?thesis by (simp add: check_seq_no_exhausted [OF wf])
  next
    case mid
    then have "uint (MK64 lo (infer_hi lo T W)) = inferred lo T W"
      using infer_hi_number [OF W, of lo T] by simp
    then have "inferred lo T W = uint (infer_hi lo T W) * 4294967296 + uint lo" by (simp add: uint_MK64)
    then have "inferred lo T W div 2 ^ 32 = uint (infer_hi lo T W)"
      using uint_bounded [of lo] by simp
    then show ?thesis
      using check_seq_no_rel [OF assms mid] u64_of_u32_not_minus_1 mid by simp
  qed
qed

lemma seen_rel_empty: "0 < unat W \<Longrightarrow> unat W \<le> 8 * k \<Longrightarrow> seen_rel {} T (replicate k 0) W"
  using block_in_range [of "replicate k 0" W]
  by (auto simp: seen_rel_def win_wf_def win_bit_def)

theorem check_seq_no_exact_witness:
  "(\<exists>r. check_seq_no 5 (2 ^ 32 + 3) (replicate 16 0) 128 = Some r \<and> r \<noteq> - 1 \<and> uint r = 1) \<and>
   check_seq_no 0xFFFFFFFF 0 (replicate 16 0) 128 = Some 0xFFFFFFFF"
  using check_seq_no_exact [of "{}" "2 ^ 32 + 3" "replicate 16 0" 128 5]
    check_seq_no_exact [of "{}" 0 "replicate 16 0" 128 "0xFFFFFFFF"]
    seen_rel_empty [of 128 16 "2 ^ 32 + 3"] seen_rel_empty [of 128 16 0]
  by (auto simp: inferred_def)

text \<open>The receiver without resynchronisation: a packet whose low half passes the check and whose
  number passes the integrity check is recorded. Each packet carries its own integrity check, the
  numbers it would verify for.\<close>

definition esp_receive ::
  "u32 \<Rightarrow> u32 \<times> (u64 \<Rightarrow> bool) \<Rightarrow> u64 \<times> u8 list \<Rightarrow> (u64 list \<times> u64 \<times> u8 list) option" where
  "esp_receive W pkt st =
     (case (pkt, st) of ((lo, auth), (T, window)) \<Rightarrow> do {
        r \<leftarrow> check_seq_no lo T window W;
        if r = - 1 then Some ([], T, window)
        else let hi = u32_of_u64 r; s = MK64 lo hi
          in if auth s then do {
               (T, window) \<leftarrow> track_seq_no hi lo T window W;
               Some ([s], T, window)
             }
             else Some ([], T, window)
      })"

fun esp_run ::
  "u32 \<Rightarrow> (u32 \<times> (u64 \<Rightarrow> bool)) list \<Rightarrow> u64 \<times> u8 list \<Rightarrow> (u64 list \<times> u64 \<times> u8 list) option" where
  "esp_run W [] st = Some ([], st)"
| "esp_run W (pkt # pkts) st = do {
     (acc, st) \<leftarrow> esp_receive W pkt st;
     (accs, st) \<leftarrow> esp_run W pkts st;
     Some (acc @ accs, st)
   }"

lemma esp_receive_step:
  assumes rel: "seen_rel seen T window W" and T: "unat T < 2 ^ 64 - 2 ^ 32"
    and auth: "\<And>s. auth s \<Longrightarrow> unat s < 2 ^ 64 - 2 ^ 32"
  shows "\<exists>acc T' window'. esp_receive W (lo, auth) (T, window) = Some (acc, T', window') \<and>
    seen_rel (unat ` set acc \<union> seen) T' window' W \<and> unat T' < 2 ^ 64 - 2 ^ 32 \<and>
    distinct acc \<and> unat ` set acc \<inter> seen = {} \<and> (\<forall>s\<in>set acc. auth s)"
proof -
  let ?h = "infer_hi lo T W" and ?n = "inferred lo T W"
  let ?s = "MK64 lo ?h"
  have wf: "win_wf window W" using rel by (simp add: seen_rel_def)
  have s: "uint ?s = ?n mod 2 ^ 64" using wf infer_hi_number by (simp add: win_wf_def)
  have W: "uint W < 2 ^ 32" using uint_bounded [of W] by simp
  have W0: "0 < uint W" using wf by (metis of_nat_0_less_iff uint_nat win_wf_def)
  have "int (unat T) < int (2 ^ 64 - 2 ^ 32)" using T by (simp only: of_nat_less_iff)
  then have Ti: "uint T < 2 ^ 64 - 2 ^ 32" by simp
  have n: "?n < 2 ^ 64" "- (2 ^ 32) < ?n" using inferred_bounds(1) [of T W lo] inferred_bounds(2) [of lo T W] W W0 Ti uint_ge_0 [of T] by linarith+
  show ?thesis
  proof (cases "auth ?s")
    case True
    have "0 \<le> ?n"
    proof (rule ccontr)
      assume "\<not> 0 \<le> ?n"
      then have "uint ?s = ?n + 2 ^ 64"
        using s n mod_in_range [of ?n "- 1" "2 ^ 64"] by simp
      moreover have "int (unat ?s) < int (2 ^ 64 - 2 ^ 32)"
        using auth [OF True] by (simp only: of_nat_less_iff)
      ultimately show False using n by simp
    qed
    with n s have sn: "unat ?s = nat ?n" by (simp add: unat_eq_nat_uint)
    have low: "unat T < unat ?s + unat W"
    proof -
      have "int (unat T) - int (unat W) < int (unat ?s)"
        using inferred_bounds(1) [of T W lo] sn \<open>0 \<le> ?n\<close> by simp
      then show ?thesis by linarith
    qed
    note chk = check_seq_no_rel [OF rel \<open>0 \<le> ?n\<close> n(1)]
    show ?thesis
    proof (cases "nat ?n \<in> seen")
      case True
      with chk rel T show ?thesis by (simp add: esp_receive_def)
    next
      case False
      from track_seq_no_rel [OF rel refl low] obtain T' w' where
        "track_seq_no ?h lo T window W = Some (T', w')" "unat T' = max (unat T) (unat ?s)"
        "seen_rel (insert (unat ?s) seen) T' w' W" by blast
      with chk False True T auth [OF True] sn show ?thesis
        by (simp add: esp_receive_def u64_of_u32_not_minus_1 Let_def)
    qed
  next
    case False
    have "\<exists>r. check_seq_no lo T window W = Some r \<and> (r = - 1 \<or> r = u64_of_u32 ?h)"
      by (auto simp: check_seq_no_def Let_def get_bit_win_eq [OF wf])
    then obtain r where "check_seq_no lo T window W = Some r" "r = - 1 \<or> r = u64_of_u32 ?h" by blast
    with False rel T show ?thesis by (auto simp: esp_receive_def Let_def)
  qed
qed

lemma esp_run_distinct:
  assumes "seen_rel seen T window W" "unat T < 2 ^ 64 - 2 ^ 32"
    "\<And>lo auth s. (lo, auth) \<in> set pkts \<Longrightarrow> auth s \<Longrightarrow> unat s < 2 ^ 64 - 2 ^ 32"
  shows "\<exists>acc st. esp_run W pkts (T, window) = Some (acc, st) \<and> distinct acc \<and> unat ` set acc \<inter> seen = {} \<and>
    (\<forall>s\<in>set acc. \<exists>(lo, auth)\<in>set pkts. auth s)"
  using assms
proof (induction pkts arbitrary: seen T window)
  case (Cons pkt pkts)
  obtain lo auth where pkt: "pkt = (lo, auth)" by (cases pkt)
  from esp_receive_step [OF Cons.prems(1,2), of auth lo] Cons.prems(3) pkt obtain acc T' w' where
    step: "esp_receive W (lo, auth) (T, window) = Some (acc, T', w')"
    "seen_rel (unat ` set acc \<union> seen) T' w' W" "unat T' < 2 ^ 64 - 2 ^ 32"
    "distinct acc" "unat ` set acc \<inter> seen = {}" "\<forall>s\<in>set acc. auth s" by (metis list.set_intros(1))
  from Cons.IH [OF step(2,3)] Cons.prems(3) obtain accs st where
    run: "esp_run W pkts (T', w') = Some (accs, st)" "distinct accs"
    "unat ` set accs \<inter> (unat ` set acc \<union> seen) = {}"
    "\<forall>s\<in>set accs. \<exists>(lo, auth)\<in>set pkts. auth s" by (metis list.set_intros(2))
  have "set acc \<inter> set accs = {}" using run(3) by blast
  with step run pkt show ?case by fastforce
qed simp

text \<open>C3: a receiver that starts with an empty window, asks \<^verbatim>\<open>check_seq_no\<close> and records every
  packet that passes its integrity check with \<^verbatim>\<open>track_seq_no\<close> never accepts a sequence number
  twice, whatever packets arrive in whatever order, and accepts only authentic numbers. The
  sender is assumed not to come within \<open>2^32\<close> packets of exhausting the 64-bit sequence space.\<close>

theorem esp_no_replay:
  assumes "0 < unat W" "unat W \<le> 8 * k"
    "\<And>lo auth s. (lo, auth) \<in> set pkts \<Longrightarrow> auth s \<Longrightarrow> unat s < 2 ^ 64 - 2 ^ 32"
  shows "\<exists>acc st. esp_run W pkts (0, replicate k 0) = Some (acc, st) \<and> distinct acc \<and>
    (\<forall>s\<in>set acc. \<exists>(lo, auth)\<in>set pkts. auth s)"
  using esp_run_distinct [OF seen_rel_empty [OF assms(1,2)], of 0 pkts] assms(3) by fastforce

theorem esp_no_replay_witness:
  "\<exists>acc st. esp_run 128 [(1, \<lambda>s. s = 1), (2, \<lambda>s. s = 2), (1, \<lambda>s. s = 1)] (0, replicate 16 0) = Some (acc, st)
     \<and> distinct acc"
proof -
  have "\<exists>acc st. esp_run 128 [(1, \<lambda>s. s = 1), (2, \<lambda>s. s = 2), (1, \<lambda>s. s = 1)] (0, replicate 16 0)
      = Some (acc, st) \<and> distinct acc \<and>
      (\<forall>s\<in>set acc. \<exists>(lo, auth)\<in>set [(1 :: u32, \<lambda>s :: u64. s = 1), (2, \<lambda>s. s = 2), (1, \<lambda>s. s = 1)]. auth s)"
    by (rule esp_no_replay) auto
  then show ?thesis by blast
qed

end
