(* ===== verification/Lpm.thy ===== *)
theory Lpm
  imports Snabb_Prelude
begin

text \<open>
  Longest-prefix-match lookups on IPv4 addresses: the DXR interval search of
  \<^verbatim>\<open>lib/lpm/lpm4_dxr.c\<close> and the 24-8 direct lookup of \<^verbatim>\<open>lib/lpm/lpm4_248.c\<close>, with the table builder
  of \<^verbatim>\<open>lib/lpm/lpm4_248.lua\<close> that fills the arrays the C code reads.

  The cursors \<^verbatim>\<open>bottom\<close>, \<^verbatim>\<open>top\<close> and \<^verbatim>\<open>mid\<close> of the DXR search are C \<^verbatim>\<open>int\<close>s; the tables hold a few
  million entries, so they are modelled as unbounded integers, with C's division that truncates
  towards zero.
\<close>

section \<open>DXR\<close>

definition aget_i :: "'a list \<Rightarrow> int \<Rightarrow> 'a option" where
  "aget_i xs i = (if 0 \<le> i then aget xs (nat i) else None)"

text \<open>\<^verbatim>\<open>x / 2\<close> on \<^verbatim>\<open>int\<close>.\<close>

definition half :: "int \<Rightarrow> int" where
  "half x = (if x < 0 then - (- x div 2) else x div 2)"

text \<open>\<^verbatim>\<open>while(bottom < top && ip <= ints[top-1]) top = top - 1;\<close>\<close>

function dxr_linear :: "u32 \<Rightarrow> u16 list \<Rightarrow> int \<Rightarrow> int \<Rightarrow> int option" where
  "dxr_linear ip ints bottom tp =
     (if bottom < tp then do {
        v \<leftarrow> aget_i ints (tp - 1);
        if ip \<le> u32_of_u16 v then dxr_linear ip ints bottom (tp - 1) else Some tp
      } else Some tp)"
  by pat_completeness auto
termination
  by (relation "measure (\<lambda>(ip, ints, bottom, tp). nat (tp - bottom))") auto

declare dxr_linear.simps [simp del]

definition dxr_step :: "u32 \<Rightarrow> u16 list \<Rightarrow> int \<times> int \<Rightarrow> (int \<times> int) option" where
  "dxr_step ip ints = (\<lambda>(bottom, tp).
     let mid = bottom + half (tp - bottom) in do {
       v \<leftarrow> aget_i ints mid;
       Some (if u32_of_u16 v < ip then (mid + 1, tp) else (bottom, mid))
     })"

text \<open>The loop body is unrolled four times, without a test in between.\<close>

definition dxr_body :: "u32 \<Rightarrow> u16 list \<Rightarrow> int \<times> int \<Rightarrow> (int \<times> int) option" where
  "dxr_body ip ints s = do {
     s \<leftarrow> dxr_step ip ints s;
     s \<leftarrow> dxr_step ip ints s;
     s \<leftarrow> dxr_step ip ints s;
     dxr_step ip ints s
   }"

lemma dxr_step_shrinks:
  assumes "dxr_step ip ints (b, t) = Some (b', t')"
  shows "if b < t then b' \<le> t' \<and> t' - b' < t - b else t' \<le> b'"
  using assms by (auto simp: dxr_step_def half_def Let_def split: Option.bind_splits if_splits)

lemma dxr_body_shrinks:
  assumes "dxr_body ip ints (b, t) = Some (b', t')" "b < t"
  shows "nat (t' - b') < nat (t - b)"
proof -
  obtain b1 t1 b2 t2 b3 t3 where "dxr_step ip ints (b, t) = Some (b1, t1)"
    "dxr_step ip ints (b1, t1) = Some (b2, t2)" "dxr_step ip ints (b2, t2) = Some (b3, t3)"
    "dxr_step ip ints (b3, t3) = Some (b', t')"
    using assms(1) by (auto simp: dxr_body_def split: Option.bind_splits)
  from this [THEN dxr_step_shrinks] assms(2) show ?thesis by (auto split: if_splits)
qed

function dxr_binary :: "u32 \<Rightarrow> u16 list \<Rightarrow> int \<Rightarrow> int \<Rightarrow> int option" where
  "dxr_binary ip ints bottom tp =
     (if bottom < tp then
        case dxr_body ip ints (bottom, tp) of
          None \<Rightarrow> None
        | Some (bottom, tp) \<Rightarrow> dxr_binary ip ints bottom tp
      else Some tp)"
  by pat_completeness auto
termination
  by (relation "measure (\<lambda>(ip, ints, bottom, tp). nat (tp - bottom))")
     (auto dest: dxr_body_shrinks)

declare dxr_binary.simps [simp del]

definition lpm4_dxr_search ::
  "u32 \<Rightarrow> u16 list \<Rightarrow> u16 list \<Rightarrow> u32 list \<Rightarrow> u32 list \<Rightarrow> u16 option" where
  "lpm4_dxr_search ip ints keys bottoms tops =
     (let base = unat (drop_bit 16 ip); ip = ip AND 0xffff in do {
        bottom \<leftarrow> aget bottoms base;
        tp \<leftarrow> aget tops base;
        let bottom = sint bottom;
        let tp = sint tp;
        if tp \<le> bottom then aget_i keys tp
        else if tp - bottom < 32 then do {
          tp \<leftarrow> dxr_linear ip ints bottom tp;
          aget_i keys tp
        } else do {
          tp \<leftarrow> dxr_binary ip ints bottom tp;
          aget_i keys tp
        }
      })"

subsection \<open>Both searches find the interval of the address\<close>

text \<open>\<open>k\<close> is the first interval from \<open>b\<close> on that ends at or after \<open>ip\<close>, or the last one.\<close>

definition interval_of :: "u32 \<Rightarrow> u16 list \<Rightarrow> int \<Rightarrow> int \<Rightarrow> int \<Rightarrow> bool" where
  "interval_of ip ints b t k \<longleftrightarrow> b \<le> k \<and> k \<le> t \<and>
     (\<forall>j. b \<le> j \<and> j < k \<longrightarrow> u32_of_u16 (ints ! nat j) < ip) \<and>
     (k < t \<longrightarrow> ip \<le> u32_of_u16 (ints ! nat k))"

definition ascending :: "u16 list \<Rightarrow> int \<Rightarrow> int \<Rightarrow> bool" where
  "ascending ints b t \<longleftrightarrow> (\<forall>i j. b \<le> i \<and> i \<le> j \<and> j < t \<longrightarrow> unat (ints ! nat i) \<le> unat (ints ! nat j))"

lemma aget_i_eq: "0 \<le> i \<Longrightarrow> i < int (length xs) \<Longrightarrow> aget_i xs i = Some (xs ! nat i)"
  by (simp add: aget_i_def nat_less_iff)

lemma dxr_linear_finds:
  assumes "0 \<le> b" "b \<le> t" "t \<le> int (length ints)" "ascending ints b t"
  shows "\<exists>k. dxr_linear ip ints b t = Some k \<and> interval_of ip ints b t k"
  using assms
proof (induction "nat (t - b)" arbitrary: t)
  case 0
  then show ?case by (subst dxr_linear.simps) (auto simp: interval_of_def)
next
  case (Suc n)
  then have lt: "b < t" by simp
  let ?v = "u32_of_u16 (ints ! nat (t - 1))"
  have get: "aget_i ints (t - 1) = Some (ints ! nat (t - 1))" using Suc.prems lt by (intro aget_i_eq) auto
  show ?case
  proof (cases "ip \<le> ?v")
    case True
    have "ascending ints b (t - 1)" using Suc.prems(4) by (auto simp: ascending_def)
    moreover have "n = nat (t - 1 - b)" using Suc.hyps(2) by simp
    ultimately obtain k where
      "dxr_linear ip ints b (t - 1) = Some k" "interval_of ip ints b (t - 1) k"
      using Suc.hyps(1) [of "t - 1"] Suc.prems lt by auto
    moreover from this have "interval_of ip ints b t k"
      using True by (cases "k = t - 1") (auto simp: interval_of_def)
    ultimately show ?thesis
      using True lt get by (subst dxr_linear.simps) simp
  next
    case False
    have "u32_of_u16 (ints ! nat j) < ip" if "b \<le> j" "j < t" for j
    proof -
      have "unat (ints ! nat j) \<le> unat (ints ! nat (t - 1))"
        using Suc.prems(4) that by (simp add: ascending_def)
      with False show ?thesis by (simp add: word_le_nat_alt word_less_nat_alt)
    qed
    with False lt get show ?thesis
      by (subst dxr_linear.simps) (simp add: interval_of_def)
  qed
qed

text \<open>One unrolled step keeps the invariant that everything below \<open>bottom\<close> is smaller and \<open>tp\<close> is
  not. It needs the interval at \<open>tp\<close> to end at or after the address.\<close>

definition dxr_inv :: "u32 \<Rightarrow> u16 list \<Rightarrow> int \<Rightarrow> int \<Rightarrow> int \<times> int \<Rightarrow> bool" where
  "dxr_inv ip ints b0 t0 = (\<lambda>(b, t). b0 \<le> b \<and> b \<le> t \<and> t \<le> t0 \<and>
     (\<forall>j. b0 \<le> j \<and> j < b \<longrightarrow> u32_of_u16 (ints ! nat j) < ip) \<and> ip \<le> u32_of_u16 (ints ! nat t))"

lemma dxr_step_inv:
  assumes "dxr_inv ip ints b0 t0 s" "0 \<le> b0" "t0 < int (length ints)" "ascending ints b0 t0"
  shows "\<exists>s'. dxr_step ip ints s = Some s' \<and> dxr_inv ip ints b0 t0 s'"
proof -
  obtain b t where s: "s = (b, t)" by (cases s)
  let ?m = "b + (t - b) div 2"
  have bt: "b0 \<le> b" "b \<le> t" "t \<le> t0" and low: "\<And>j. b0 \<le> j \<Longrightarrow> j < b \<Longrightarrow> u32_of_u16 (ints ! nat j) < ip"
    and up: "ip \<le> u32_of_u16 (ints ! nat t)"
    using assms(1) by (auto simp: dxr_inv_def s)
  have m: "b \<le> ?m" "?m \<le> t" "b < t \<Longrightarrow> ?m < t" using bt by auto
  have get: "aget_i ints ?m = Some (ints ! nat ?m)" using bt m assms by (intro aget_i_eq) auto
  have step: "dxr_step ip ints s =
      Some (if u32_of_u16 (ints ! nat ?m) < ip then (?m + 1, t) else (b, ?m))"
    using bt get by (simp add: dxr_step_def s half_def Let_def)
  show ?thesis
  proof (cases "u32_of_u16 (ints ! nat ?m) < ip")
    case True
    then have "?m \<noteq> t" using up by auto
    then have lt: "?m < t" using m by linarith
    have "u32_of_u16 (ints ! nat j) < ip" if "b0 \<le> j" "j \<le> ?m" for j
    proof -
      have "unat (ints ! nat j) \<le> unat (ints ! nat ?m)"
        using assms(4) that lt bt unfolding ascending_def by simp
      with True show ?thesis by (simp add: word_less_nat_alt)
    qed
    with True step bt m lt up show ?thesis by (auto simp: dxr_inv_def)
  next
    case False
    with step bt m low show ?thesis by (auto simp: dxr_inv_def)
  qed
qed

lemma dxr_body_inv:
  assumes "dxr_inv ip ints b0 t0 s" "0 \<le> b0" "t0 < int (length ints)" "ascending ints b0 t0"
  shows "\<exists>s'. dxr_body ip ints s = Some s' \<and> dxr_inv ip ints b0 t0 s'"
proof -
  note step = dxr_step_inv [OF _ assms(2-4)]
  obtain s1 where s1: "dxr_step ip ints s = Some s1" "dxr_inv ip ints b0 t0 s1"
    using step [OF assms(1)] by blast
  obtain s2 where s2: "dxr_step ip ints s1 = Some s2" "dxr_inv ip ints b0 t0 s2"
    using step [OF s1(2)] by blast
  obtain s3 where s3: "dxr_step ip ints s2 = Some s3" "dxr_inv ip ints b0 t0 s3"
    using step [OF s2(2)] by blast
  from step [OF s3(2)] s1(1) s2(1) s3(1) show ?thesis by (auto simp: dxr_body_def)
qed

lemma dxr_binary_finds:
  assumes "dxr_inv ip ints b0 t0 (b, t)" "0 \<le> b0" "t0 < int (length ints)" "ascending ints b0 t0"
  shows "\<exists>k. dxr_binary ip ints b t = Some k \<and> interval_of ip ints b0 t0 k"
  using assms(1)
proof (induction "nat (t - b)" arbitrary: b t rule: less_induct)
  case less
  show ?case
  proof (cases "b < t")
    case True
    obtain b' t' where body: "dxr_body ip ints (b, t) = Some (b', t')" "dxr_inv ip ints b0 t0 (b', t')"
      using dxr_body_inv [OF less.prems assms(2-4)] by (metis surj_pair)
    from less.hyps [OF dxr_body_shrinks [OF body(1) True] body(2)] True body(1)
    show ?thesis by (subst dxr_binary.simps) simp
  next
    case False
    with less.prems have "b = t" by (simp add: dxr_inv_def)
    with False less.prems show ?thesis
      by (subst dxr_binary.simps) (auto simp: dxr_inv_def interval_of_def)
  qed
qed

lemma sint_small_index: "unat (w :: u32) < 2 ^ 31 \<Longrightarrow> sint w = int (unat w)"
  using sint_of_small [of w] by simp

lemma lpm4_dxr_search_run:
  assumes "unat ip div 65536 < length bottoms" "unat ip div 65536 < length tops"
    "b = unat (bottoms ! (unat ip div 65536))" "t = unat (tops ! (unat ip div 65536))"
    "b < 2 ^ 31" "t < 2 ^ 31"
  shows "lpm4_dxr_search ip ints keys bottoms tops =
      (if t \<le> b then aget_i keys (int t)
       else (if t - b < 32 then dxr_linear (ip AND 0xffff) ints (int b) (int t)
             else dxr_binary (ip AND 0xffff) ints (int b) (int t)) \<bind> aget_i keys)"
proof -
  let ?base = "unat ip div 65536"
  have sb: "sint (bottoms ! ?base) = int b" "sint (tops ! ?base) = int t"
    using assms by (simp_all add: sint_small_index)
  then show ?thesis
    using assms(1,2) by (auto simp: lpm4_dxr_search_def unat_high16 Let_def)
qed

text \<open>C18: for every address the search returns the key of the interval that contains it, reading
  only inside the tables: with fewer than 32 candidate intervals by the linear scan, otherwise
  by the unrolled binary search provided the last candidate interval ends (in its low 16 bits)
  at or after the address.\<close>

theorem lpm4_dxr_search_interval:
  assumes "unat ip div 65536 < length bottoms" "unat ip div 65536 < length tops"
    "b = unat (bottoms ! (unat ip div 65536))" "t = unat (tops ! (unat ip div 65536))"
    "b \<le> t" "t < length ints" "length ints \<le> length keys" "length keys < 2 ^ 31"
    "ascending ints (int b) (int t)"
    "t - b < 32 \<or> unat ip mod 65536 \<le> unat (ints ! t)"
  shows "\<exists>k. lpm4_dxr_search ip ints keys bottoms tops = Some (keys ! k) \<and>
    interval_of (ip AND 0xffff) ints (int b) (int t) (int k)"
proof -
  let ?ip = "ip AND 0xffff"
  have "b < 2 ^ 31" "t < 2 ^ 31" using assms(5-8) by simp_all
  note run = lpm4_dxr_search_run [OF assms(1-4) this, of ints keys]
  consider (one) "t \<le> b" | (lin) "b < t" "t - b < 32" | (bin) "b < t" "\<not> t - b < 32" by linarith
  then have "\<exists>k. lpm4_dxr_search ip ints keys bottoms tops = aget_i keys k \<and>
      interval_of ?ip ints (int b) (int t) k"
  proof cases
    case one
    with assms(5) show ?thesis
      by (intro exI [of _ "int t"]) (auto simp: run interval_of_def)
  next
    case lin
    then show ?thesis
      using dxr_linear_finds [of "int b" "int t" ints ?ip] assms(5-9) by (auto simp: run)
  next
    case bin
    then have "?ip \<le> u32_of_u16 (ints ! t)" using assms(10) by (simp add: word_le_nat_alt unat_low16)
    then have "dxr_inv ?ip ints (int b) (int t) (int b, int t)" using bin by (auto simp: dxr_inv_def)
    then obtain k where "dxr_binary ?ip ints (int b) (int t) = Some k" "interval_of ?ip ints (int b) (int t) k"
      using dxr_binary_finds [of ?ip ints "int b" "int t" "int b" "int t"] assms(5-9) by auto
    then show ?thesis using bin by (auto simp: run)
  qed
  then obtain k where k: "lpm4_dxr_search ip ints keys bottoms tops = aget_i keys k"
    "interval_of ?ip ints (int b) (int t) k" by blast
  then have "0 \<le> k" "k < int (length keys)" using assms(5-8) by (auto simp: interval_of_def)
  with k show ?thesis by (intro exI [of _ "nat k"]) (simp add: aget_i_eq)
qed

theorem lpm4_dxr_search_interval_witness:
  "\<exists>k. lpm4_dxr_search 7 [5, 9, 0xffff] [1, 2, 3] [0] [2] = Some ([1, 2, 3] ! k) \<and>
     interval_of 7 [5, 9, 0xffff] 0 2 (int k)"
proof -
  have "ascending [5, 9, 0xffff] 0 2"
    unfolding ascending_def
  proof (intro allI impI)
    fix i j :: int
    assume "0 \<le> i \<and> i \<le> j \<and> j < 2"
    then have "(i = 0 \<or> i = 1) \<and> (j = 0 \<or> j = 1) \<and> i \<le> j" by linarith
    then show "unat ([5, 9, 0xffff :: u16] ! nat i) \<le> unat ([5, 9, 0xffff :: u16] ! nat j)" by auto
  qed
  then have "\<exists>k. lpm4_dxr_search 7 [5, 9, 0xffff] [1, 2, 3] [0] [2] = Some ([1, 2, 3] ! k) \<and>
      interval_of (7 AND 0xffff) [5, 9, 0xffff] (int 0) (int 2) (int k)"
    by (intro lpm4_dxr_search_interval) simp_all
  moreover have "(7 :: u32) AND 0xffff = 7" by simp
  ultimately show ?thesis by (simp only: int_ops of_nat_numeral)
qed

text \<open>Where all candidate intervals end before the address, a comparison moves \<^verbatim>\<open>bottom\<close> up and leaves
  \<^verbatim>\<open>top\<close> alone; the distance between them goes from \<open>n\<close> to \<open>n - n div 2 - 1\<close>.\<close>

lemma dxr_step_up:
  assumes "0 \<le> n" "n \<le> t" "t < int (length ints)" "u32_of_u16 (ints ! nat (t - n + n div 2)) < ip"
  shows "dxr_step ip ints (t - n, t) = Some (t - (n - n div 2 - 1), t)"
  using assms by (simp add: dxr_step_def half_def Let_def aget_i_eq)

lemma dxr_distance:
  "2 * k + 1 \<le> n \<Longrightarrow> k \<le> n - n div 2 - 1" "n \<le> 2 * k + 2 \<Longrightarrow> n - n div 2 - 1 \<le> k" for k n :: int
  by linarith+

lemma dxr_body_up:
  assumes "15 \<le> n" "n \<le> t" "t < int (length ints)"
    "\<And>j. t - n \<le> j \<Longrightarrow> j \<le> t \<Longrightarrow> u32_of_u16 (ints ! nat j) < ip"
    "n1 = n - n div 2 - 1" "n2 = n1 - n1 div 2 - 1" "n3 = n2 - n2 div 2 - 1" "n4 = n3 - n3 div 2 - 1"
  shows "dxr_body ip ints (t - n, t) = Some (t - n4, t)"
proof -
  have 1: "7 \<le> n1" "n1 < n" using assms(1) unfolding assms(5) by linarith+
  then have 2: "3 \<le> n2" "n2 < n1" unfolding assms(6) by linarith+
  then have 3: "1 \<le> n3" "n3 < n2" unfolding assms(7) by linarith+
  have up: "dxr_step ip ints (t - m, t) = Some (t - (m - m div 2 - 1), t)" if "0 \<le> m" "m \<le> n" for m
    using that assms(2,3) by (intro dxr_step_up assms(4)) auto
  show ?thesis
    using up [of n] up [of n1] up [of n2] up [of n3] 1 2 3 assms(1) unfolding assms(5-8) [symmetric]
    by (simp add: dxr_body_def)
qed

text \<open>When \<^verbatim>\<open>bottom\<close> has passed \<^verbatim>\<open>top\<close> inside the body, the next comparison reads the interval after the last
  candidate, and moves \<^verbatim>\<open>top\<close> up to it.\<close>

lemma dxr_step_past:
  assumes "0 \<le> t" "t + 1 < int (length ints)" "ip \<le> u32_of_u16 (ints ! nat (t + 1))"
  shows "dxr_step ip ints (t + 1, t) = Some (t + 1, t + 1)"
    "dxr_step ip ints (t + 1, t + 1) = Some (t + 1, t + 1)"
  using assms by (simp_all add: dxr_step_def half_def Let_def aget_i_eq not_less)

lemma dxr_body_past:
  assumes "1 \<le> n" "n \<le> 6" "n \<le> t" "t + 1 < int (length ints)" "ip \<le> u32_of_u16 (ints ! nat (t + 1))"
    "\<And>j. t - n \<le> j \<Longrightarrow> j \<le> t \<Longrightarrow> u32_of_u16 (ints ! nat j) < ip"
  shows "dxr_body ip ints (t - n, t) = Some (t + 1, t + 1)"
proof -
  have up: "dxr_step ip ints (t - m, t) = Some (t - (m - m div 2 - 1), t)" if "0 \<le> m" "m \<le> n" for m
    using that assms(3,4) by (intro dxr_step_up assms(6)) auto
  have "0 \<le> t" using assms(1,3) by simp
  note past = dxr_step_past [OF this assms(4,5)]
  from assms(1,2) have "n = 1 \<or> n = 2 \<or> n = 3 \<or> n = 4 \<or> n = 5 \<or> n = 6" by linarith
  then show ?thesis
    using up [of n] up [of 0] up [of 1] up [of 2] past by (elim disjE) (simp_all add: dxr_body_def)
qed

lemma dxr_binary_overrun:
  assumes "0 \<le> b" "32 \<le> t - b" "t - b \<le> 126" "t + 1 < int (length ints)" "ip \<le> u32_of_u16 (ints ! nat (t + 1))"
    "\<And>j. b \<le> j \<Longrightarrow> j \<le> t \<Longrightarrow> u32_of_u16 (ints ! nat j) < ip"
  shows "dxr_binary ip ints b t = Some (t + 1)"
proof -
  define n n1 n2 n3 n4 where "n = t - b" and "n1 = n - n div 2 - 1" and "n2 = n1 - n1 div 2 - 1"
    and "n3 = n2 - n2 div 2 - 1" and "n4 = n3 - n3 div 2 - 1"
  note n_defs = this
  have "15 \<le> n1" "n1 \<le> 62" unfolding n_defs(2) by (intro dxr_distance; use assms(2,3) in \<open>simp add: n_defs(1)\<close>)+
  then have "7 \<le> n2" "n2 \<le> 30" unfolding n_defs(3) by (intro dxr_distance; simp)+
  then have "3 \<le> n3" "n3 \<le> 14" unfolding n_defs(4) by (intro dxr_distance; simp)+
  then have n4: "1 \<le> n4" "n4 \<le> 6" unfolding n_defs(5) by (intro dxr_distance; simp)+
  have b: "t - n = b" "15 \<le> n" "n \<le> t" "n4 \<le> t" using assms(1,2) n4 by (auto simp: n_defs(1))
  have low: "u32_of_u16 (ints ! nat j) < ip" if "t - m \<le> j" "j \<le> t" "m \<le> n" for j m
    using that b(1) by (intro assms(6)) auto
  have "t < int (length ints)" using assms(4) by simp
  from dxr_body_up [OF b(2,3) this low [of n] n_defs(2-5)] have "dxr_body ip ints (b, t) = Some (t - n4, t)"
    unfolding b(1) by simp
  moreover have "dxr_body ip ints (t - n4, t) = Some (t + 1, t + 1)"
    using n4 b assms(4,5) low by (intro dxr_body_past) auto
  ultimately have "dxr_binary ip ints b t = dxr_binary ip ints (t + 1) (t + 1)"
    using assms(2) n4 by (simp add: dxr_binary.simps [of ip ints b] dxr_binary.simps [of ip ints "t - n4"])
  then show ?thesis by (simp add: dxr_binary.simps)
qed

text \<open>C19: without that proviso the unrolled search is wrong: for every block with 33 to 127 candidate
  intervals that all end (in their low 16 bits) before the address, because the last of them
  reaches into the next /16 block, the key of the interval after the last one is returned, when
  that interval ends at or after the address. The address belongs to the last candidate, which the
  linear scan of the same function finds. Once \<^verbatim>\<open>bottom\<close> and \<^verbatim>\<open>top\<close> have met inside the unrolled body,
  the remaining copies still compare: \<^verbatim>\<open>bottom\<close> moves past \<^verbatim>\<open>top\<close>, and \<^verbatim>\<open>top\<close> follows it.\<close>

theorem lpm4_dxr_search_overrun:
  assumes "unat ip div 65536 < length bottoms" "unat ip div 65536 < length tops"
    "b = unat (bottoms ! (unat ip div 65536))" "t = unat (tops ! (unat ip div 65536))"
    "32 \<le> t - b" "t - b \<le> 126" "t + 1 < length ints" "length ints \<le> length keys" "length keys < 2 ^ 31"
    "\<And>j. b \<le> j \<Longrightarrow> j \<le> t \<Longrightarrow> unat (ints ! j) < unat ip mod 65536"
    "unat ip mod 65536 \<le> unat (ints ! (t + 1))"
  shows "lpm4_dxr_search ip ints keys bottoms tops = Some (keys ! (t + 1)) \<and>
    interval_of (ip AND 0xffff) ints (int b) (int t) (int t) \<and>
    dxr_linear (ip AND 0xffff) ints (int b) (int t) = Some (int t)"
proof -
  let ?ip = "ip AND 0xffff"
  have bt: "b < 2 ^ 31" "t < 2 ^ 31" using assms(5,7-9) by simp_all
  have "b < t" using assms(5) by simp
  have low: "u32_of_u16 (ints ! nat j) < ?ip" if "int b \<le> j" "j \<le> int t" for j
    using that assms(10) [of "nat j"] by (simp add: word_less_nat_alt unat_low16 le_nat_iff nat_le_iff)
  have "?ip \<le> u32_of_u16 (ints ! nat (int t + 1))"
    using assms(11) by (simp add: word_le_nat_alt unat_low16 nat_add_distrib)
  then have "dxr_binary ?ip ints (int b) (int t) = Some (int t + 1)"
    using assms(5-7) low by (intro dxr_binary_overrun) auto
  then have "lpm4_dxr_search ip ints keys bottoms tops = Some (keys ! (t + 1))"
    using lpm4_dxr_search_run [OF assms(1-4) bt, of ints keys] assms(5,7,8) \<open>b < t\<close>
    by (simp add: aget_i_eq nat_add_distrib)
  moreover have "interval_of ?ip ints (int b) (int t) (int t)"
    using assms(5) low by (auto simp: interval_of_def)
  moreover have "dxr_linear ?ip ints (int b) (int t) = Some (int t)"
    using assms(7) \<open>b < t\<close> low [of "int t - 1"]
    by (subst dxr_linear.simps) (auto simp: aget_i_eq dest: leD)
  ultimately show ?thesis by blast
qed

text \<open>Interval 33 is the one from \<open>0x21\<close> to \<open>0x17fff\<close> and holds address \<open>0xc800\<close>, but the search answers with
  interval 34, which starts at \<open>0x18000\<close>.\<close>

theorem lpm4_dxr_search_overrun_witness:
  "lpm4_dxr_search 0xc800 (map of_nat [0..<33] @ [0x7fff, 0xffff]) (map of_nat [0..<35]) [0, 34] [33, 34] = Some 34"
proof -
  let ?ints = "map of_nat [0..<33] @ [0x7fff, 0xffff] :: u16 list"
  have small: "unat (?ints ! j) < 51200" if "0 \<le> j" "j \<le> 33" for j
    using that by (cases "j = 33") (auto simp: nth_append unat_of_nat simp del: upt_rec_numeral upt_Suc)
  have "lpm4_dxr_search 0xc800 ?ints (map of_nat [0..<35]) [0, 34] [33, 34] = Some (map of_nat [0..<35] ! (33 + 1))"
    using lpm4_dxr_search_overrun [of "0xc800" "[0, 34]" "[33, 34]" 0 33 ?ints "map of_nat [0..<35]"] small
    by (simp add: nth_append del: upt_rec_numeral upt_Suc)
  then show ?thesis by simp
qed

section \<open>24-8\<close>

text \<open>\<^verbatim>\<open>v - 0x8000\<close> and the shift are computed in \<^verbatim>\<open>int\<close> for 16-bit keys and cannot overflow.\<close>

definition lpm4_248_search :: "u32 \<Rightarrow> u16 list \<Rightarrow> u16 list \<Rightarrow> u16 option" where
  "lpm4_248_search ip big little = do {
     v \<leftarrow> aget big (unat (drop_bit 8 ip));
     if v > 0x8000
     then aget little (unat (push_bit 8 (u32_of_u16 v - 0x8000) + (ip AND 0xff)))
     else Some v
   }"

text \<open>For 32-bit keys the index is an \<^verbatim>\<open>unsigned int\<close> and the shift drops the upper bits.\<close>

definition lpm4_248_search32 :: "u32 \<Rightarrow> u32 list \<Rightarrow> u32 list \<Rightarrow> u32 option" where
  "lpm4_248_search32 ip big little = do {
     v \<leftarrow> aget big (unat (drop_bit 8 ip));
     if v > 0x80000000
     then aget little (unat (push_bit 8 (v - 0x80000000) + (ip AND 0xff)))
     else Some v
   }"

text \<open>The builder, for 15-bit keys. An entry is a prefix with its key; the arrays are the
  \<^verbatim>\<open>lpm4_248_bigarry\<close> of \<open>2^24\<close> cells and the \<^verbatim>\<open>lpm4_248_lilarry\<close>, which grows.\<close>

record entry =
  e_ip :: u32
  e_len :: nat
  e_key :: u16

record lpm248 =
  bigarry :: "u16 list"
  lilarry :: "u16 list"
  taboff :: nat

definition lpm248_new :: lpm248 where
  "lpm248_new = \<lparr>bigarry = replicate (2 ^ 24) 0, lilarry = replicate (1024 * 256) 0, taboff = 1\<rparr>"

text \<open>\<^verbatim>\<open>for i = 0, n - 1 do a[off + i] = v end\<close>\<close>

fun fill :: "'a list \<Rightarrow> nat \<Rightarrow> nat \<Rightarrow> 'a \<Rightarrow> 'a list option" where
  "fill xs off 0 v = Some xs"
| "fill xs off (Suc n) v = do { xs \<leftarrow> aset xs off v; fill xs (off + 1) n v }"

definition add_short :: "entry \<Rightarrow> lpm248 \<Rightarrow> lpm248 option" where
  "add_short e st = do {
     big \<leftarrow> fill (bigarry st) (unat (drop_bit 8 (e_ip e))) (2 ^ (24 - e_len e)) (e_key e);
     Some (st\<lparr>bigarry := big\<rparr>)
   }"

text \<open>The first prefix longer than 24 bits in a /24 allocates a table of 256 cells.\<close>

definition new_table :: "nat \<Rightarrow> u16 \<Rightarrow> lpm248 \<Rightarrow> lpm248 option" where
  "new_table base e st = do {
     little \<leftarrow> (if e \<noteq> 0 then fill (lilarry st) (256 * taboff st) 256 e else Some (lilarry st));
     big \<leftarrow> aset (bigarry st) base (of_nat (taboff st) + 0x8000);
     let off = taboff st + 1;
     Some \<lparr>bigarry = big,
           lilarry = (if 256 * off = length little then little @ replicate (length little) 0 else little),
           taboff = off\<rparr>
   }"

definition add_long :: "entry \<Rightarrow> lpm248 \<Rightarrow> lpm248 option" where
  "add_long en st = do {
     let base = unat (drop_bit 8 (e_ip en));
     e \<leftarrow> aget (bigarry st) base;
     st \<leftarrow> (if e AND 0x8000 \<noteq> 0x8000 then new_table base e st else Some st);
     v \<leftarrow> aget (bigarry st) base;
     little \<leftarrow> fill (lilarry st) (256 * unat (v AND 0x7fff) + unat (e_ip en AND 0xff)) (2 ^ (32 - e_len en)) (e_key en);
     Some (st\<lparr>lilarry := little\<rparr>)
   }"

definition lpm248_add :: "entry \<Rightarrow> lpm248 \<Rightarrow> lpm248 option" where
  "lpm248_add e st = (if e_len e < 25 then add_short e st else add_long e st)"

fun lpm248_build :: "entry list \<Rightarrow> lpm248 \<Rightarrow> lpm248 option" where
  "lpm248_build [] st = Some st"
| "lpm248_build (e # es) st = do { st \<leftarrow> lpm248_add e st; lpm248_build es st }"

subsection \<open>The tables answer with the longest matching prefix\<close>

definition covers :: "entry \<Rightarrow> nat \<Rightarrow> bool" where
  "covers e a \<longleftrightarrow> unat (e_ip e) \<le> a \<and> a < unat (e_ip e) + 2 ^ (32 - e_len e)"

definition valid_entry :: "entry \<Rightarrow> bool" where
  "valid_entry e \<longleftrightarrow> e_len e \<le> 32 \<and> 2 ^ (32 - e_len e) dvd unat (e_ip e) \<and> unat (e_key e) < 0x8000"

text \<open>The order in which the trie lists its entries: by address, then by length.\<close>

definition entry_before :: "entry \<Rightarrow> entry \<Rightarrow> bool" where
  "entry_before e e' \<longleftrightarrow> e_ip e < e_ip e' \<or> e_ip e = e_ip e' \<and> e_len e < e_len e'"

text \<open>\<open>slot\<close> is the cell of the big table; a flagged one points to a table of 256 cells.\<close>

abbreviation flagged :: "lpm248 \<Rightarrow> nat \<Rightarrow> bool" where
  "flagged st slot \<equiv> 0x8000 < unat (bigarry st ! slot)"

definition answer :: "lpm248 \<Rightarrow> nat \<Rightarrow> u16" where
  "answer st a = (if flagged st (a div 256)
     then lilarry st ! (256 * (unat (bigarry st ! (a div 256)) - 0x8000) + a mod 256)
     else bigarry st ! (a div 256))"

text \<open>The arrays represent the address map \<open>L\<close>, with tables for the slots in \<open>F\<close>.\<close>

definition represents :: "lpm248 \<Rightarrow> (nat \<Rightarrow> u16) \<Rightarrow> nat set \<Rightarrow> bool" where
  "represents st L F \<longleftrightarrow>
     length (bigarry st) = 2 ^ 24 \<and> 256 dvd length (lilarry st) \<and> 256 * taboff st < length (lilarry st) \<and>
     finite F \<and> taboff st = card F + 1 \<and> F \<subseteq> {..<2 ^ 24} \<and>
     (\<forall>slot<2 ^ 24. (flagged st slot \<longleftrightarrow> slot \<in> F) \<and>
        (slot \<in> F \<longrightarrow> unat (bigarry st ! slot) - 0x8000 < taboff st) \<and>
        (slot \<notin> F \<longrightarrow> unat (bigarry st ! slot) < 0x8000)) \<and>
     inj_on (\<lambda>slot. bigarry st ! slot) F \<and>
     (\<forall>i. 256 * taboff st \<le> i \<and> i < length (lilarry st) \<longrightarrow> lilarry st ! i = 0) \<and>
     (\<forall>a<2 ^ 32. answer st a = L a)"

lemma fill_eq:
  "off + n \<le> length xs \<Longrightarrow> \<exists>ys. fill xs off n v = Some ys \<and> length ys = length xs \<and>
     (\<forall>i. ys ! i = (if off \<le> i \<and> i < off + n then v else xs ! i))"
proof (induction n arbitrary: xs off)
  case (Suc n)
  then have off: "off < length xs" by simp
  obtain ys where ys: "fill (xs[off := v]) (off + 1) n v = Some ys" "length ys = length xs"
    "\<And>i. ys ! i = (if off + 1 \<le> i \<and> i < off + 1 + n then v else xs[off := v] ! i)"
    using Suc.IH [of "off + 1" "xs[off := v]"] Suc.prems by auto
  have "ys ! i = (if off \<le> i \<and> i < off + Suc n then v else xs ! i)" for i
    using off by (cases "i = off") (auto simp: ys(3))
  with ys(1,2) off show ?case by (intro exI [of _ ys]) simp
qed auto

lemma lpm248_new_represents: "represents lpm248_new (\<lambda>_. 0) {}"
  unfolding represents_def answer_def lpm248_new_def
  by (simp add: less_mult_imp_div_less nth_replicate)

lemma short_range:
  assumes "valid_entry e" "e_len e < 25"
  shows "unat (e_ip e) = 256 * (unat (e_ip e) div 256)"
    "2 ^ (32 - e_len e) = 256 * (2 ^ (24 - e_len e) :: nat)"
    "unat (e_ip e) div 256 + 2 ^ (24 - e_len e) \<le> 2 ^ 24"
proof -
  define n :: nat where "n = 2 ^ (24 - e_len e)"
  have "32 - e_len e = 8 + (24 - e_len e)" using assms(2) by simp
  then show n: "2 ^ (32 - e_len e) = 256 * (2 ^ (24 - e_len e) :: nat)" by (simp only: power_add) simp
  have "256 * n dvd unat (e_ip e)" using assms(1) n by (simp add: valid_entry_def n_def)
  then obtain q where q: "unat (e_ip e) = 256 * n * q" by (rule dvdE)
  then show "unat (e_ip e) = 256 * (unat (e_ip e) div 256)" by simp
  have "n * 2 ^ e_len e = 2 ^ 24" using assms(2) by (simp add: n_def flip: power_add)
  moreover have "256 * (n * q) < 256 * (2 ^ 24)" using unat_less_32 [of "e_ip e"] q by simp
  ultimately have "n * q < n * 2 ^ e_len e" by (simp only: mult_less_cancel1)
  then have "Suc q \<le> 2 ^ e_len e" by simp
  then have "n * Suc q \<le> n * 2 ^ e_len e" by (rule mult_le_mono2)
  with \<open>n * 2 ^ e_len e = 2 ^ 24\<close> q show "unat (e_ip e) div 256 + 2 ^ (24 - e_len e) \<le> 2 ^ 24"
    by (simp add: n_def [symmetric])
qed

lemma short_covers:
  assumes "valid_entry e" "e_len e < 25"
  shows "covers e a \<longleftrightarrow> unat (e_ip e) div 256 \<le> a div 256 \<and>
    a div 256 < unat (e_ip e) div 256 + 2 ^ (24 - e_len e)"
  unfolding covers_def short_range(2) [OF assms] using short_range(1) [OF assms] by auto

lemma add_short_represents:
  assumes rep: "represents st L F" and e: "valid_entry e" "e_len e < 25"
    and free: "\<And>slot. slot \<in> F \<Longrightarrow> \<not> covers e (256 * slot)"
  shows "\<exists>st'. add_short e st = Some st' \<and> represents st' (\<lambda>a. if covers e a then e_key e else L a) F"
proof -
  let ?off = "unat (e_ip e) div 256" and ?n = "2 ^ (24 - e_len e) :: nat"
  note cov = short_covers [OF e]
  have room: "?off + ?n \<le> length (bigarry st)"
    using rep short_range(3) [OF e] by (simp add: represents_def)
  from fill_eq [OF this, of "e_key e"] obtain big where
    big: "fill (bigarry st) ?off ?n (e_key e) = Some big" "length big = length (bigarry st)"
    "\<And>i. big ! i = (if ?off \<le> i \<and> i < ?off + ?n then e_key e else bigarry st ! i)" by blast
  have out: "\<not> (?off \<le> slot \<and> slot < ?off + ?n)" if "slot \<in> F" for slot
    using free [OF that] by (simp add: cov)
  have k: "unat (e_key e) < 0x8000" using e(1) by (simp add: valid_entry_def)
  let ?st = "st\<lparr>bigarry := big\<rparr>"
  have add: "add_short e st = Some ?st"
    using big(1) by (simp add: add_short_def unat_drop_bit_div)
  have sl: "(flagged ?st slot \<longleftrightarrow> slot \<in> F) \<and> (slot \<in> F \<longrightarrow> unat (big ! slot) - 0x8000 < taboff st) \<and>
      (slot \<notin> F \<longrightarrow> unat (big ! slot) < 0x8000)" if "slot < 2 ^ 24" for slot
    using rep that out [of slot] k by (auto simp: represents_def big(3))
  have inj: "inj_on (\<lambda>slot. big ! slot) F"
    using rep out by (auto simp: represents_def inj_on_def big(3))
  have ans: "answer ?st a = (if covers e a then e_key e else L a)" if a: "a < 2 ^ 32" for a
  proof -
    have "answer st a = L a" using rep a by (simp add: represents_def)
    then show ?thesis using k by (auto simp: answer_def cov big(3))
  qed
  have "represents ?st (\<lambda>a. if covers e a then e_key e else L a) F"
    unfolding represents_def using rep sl inj ans big(2) by (simp add: represents_def)
  with add show ?thesis by blast
qed

lemma unat_table_index: "n < 0x8000 \<Longrightarrow> unat (of_nat n + 0x8000 :: u16) = n + 0x8000"
  by (subst unat_plus_small) (simp_all add: unat_of_nat)

lemma new_table_represents:
  assumes rep: "represents st L F" and base: "base < 2 ^ 24" "base \<notin> F" and room: "taboff st < 0x8000"
  shows "\<exists>st'. new_table base (bigarry st ! base) st = Some st' \<and> represents st' L (insert base F)"
proof -
  let ?e = "bigarry st ! base" and ?t = "taboff st"
  have len: "length (bigarry st) = 2 ^ 24" and d: "256 dvd length (lilarry st)"
    and t: "256 * ?t < length (lilarry st)" "?t = card F + 1" "finite F" "F \<subseteq> {..<2 ^ 24}"
    and slots: "\<And>slot. slot < 2 ^ 24 \<Longrightarrow> (flagged st slot \<longleftrightarrow> slot \<in> F) \<and>
        (slot \<in> F \<longrightarrow> unat (bigarry st ! slot) - 0x8000 < ?t) \<and>
        (slot \<notin> F \<longrightarrow> unat (bigarry st ! slot) < 0x8000)"
    and inj: "inj_on (\<lambda>slot. bigarry st ! slot) F"
    and zero: "\<And>i. 256 * ?t \<le> i \<Longrightarrow> i < length (lilarry st) \<Longrightarrow> lilarry st ! i = 0"
    and ans: "\<And>a. a < 2 ^ 32 \<Longrightarrow> answer st a = L a"
    using rep by (auto simp: represents_def)
  have fits: "256 * ?t + 256 \<le> length (lilarry st)" using t(1) d by (auto elim!: dvdE)
  from fill_eq [OF this, of ?e] obtain ys where
    ys: "fill (lilarry st) (256 * ?t) 256 ?e = Some ys" "length ys = length (lilarry st)"
    "\<And>i. ys ! i = (if 256 * ?t \<le> i \<and> i < 256 * ?t + 256 then ?e else lilarry st ! i)" by blast
  define little where "little = (if ?e \<noteq> 0 then ys else lilarry st)"
  have little: "length little = length (lilarry st)"
    "\<And>i. i < length (lilarry st) \<Longrightarrow> little ! i =
       (if 256 * ?t \<le> i \<and> i < 256 * ?t + 256 then ?e else lilarry st ! i)"
    using ys(2,3) zero by (auto simp: little_def)
  let ?v = "of_nat ?t + 0x8000 :: u16"
  have v: "unat ?v = ?t + 0x8000" using room by (rule unat_table_index)
  let ?big = "(bigarry st)[base := ?v]"
  let ?lil = "if 256 * (?t + 1) = length little then little @ replicate (length little) 0 else little"
  let ?st = "\<lparr>bigarry = ?big, lilarry = ?lil, taboff = ?t + 1\<rparr>"
  have new: "new_table base ?e st = Some ?st"
    using base(1) ys(1) len by (simp add: new_table_def little_def)
  have lil: "?lil ! i = little ! i" if "i < length little" for i using that by (simp add: nth_append)
  have bigF: "?big ! slot = bigarry st ! slot" if "slot \<in> F" for slot
    using that base(2) by (metis nth_list_update_neq)
  have fl: "0x8000 < unat (bigarry st ! slot)" "unat (bigarry st ! slot) - 0x8000 < ?t" if "slot \<in> F" for slot
    using slots [of slot] that t(4) by auto
  have sl: "(flagged ?st slot \<longleftrightarrow> slot \<in> insert base F) \<and>
      (slot \<in> insert base F \<longrightarrow> unat (?big ! slot) - 0x8000 < ?t + 1) \<and>
      (slot \<notin> insert base F \<longrightarrow> unat (?big ! slot) < 0x8000)" if "slot < 2 ^ 24" for slot
    using slots [OF that] v len base t(2) by (cases "slot = base") auto
  have "?v \<noteq> bigarry st ! slot" "bigarry st ! slot \<noteq> ?v" if "slot \<in> F" for slot
    using fl [OF that] v by auto
  then have inj': "inj_on (\<lambda>slot. ?big ! slot) (insert base F)"
    using inj bigF len base by (auto simp: inj_on_def)
  have ans': "answer ?st a = L a" if a: "a < 2 ^ 32" for a
  proof -
    have slot: "a div 256 < 2 ^ 24" using a by (simp add: less_mult_imp_div_less)
    have old: "answer st a = L a" using ans [OF a] .
    show ?thesis
    proof (cases "a div 256 = base")
      case True
      have "a mod 256 < 256" by simp
      then have "?lil ! (256 * ?t + a mod 256) = ?e"
        using fits little by (subst lil) auto
      moreover have "L a = ?e" using old slots [OF slot] base(2) True by (simp add: answer_def)
      ultimately show ?thesis using v True len base t(2) by (simp add: answer_def)
    next
      case False
      have "?lil ! (256 * (unat (bigarry st ! (a div 256)) - 0x8000) + a mod 256) =
          lilarry st ! (256 * (unat (bigarry st ! (a div 256)) - 0x8000) + a mod 256)"
        if "a div 256 \<in> F"
      proof -
        have "256 * (unat (bigarry st ! (a div 256)) - 0x8000) + a mod 256 < 256 * ?t"
          using fl(2) [OF that] mod_less_divisor [of 256 a] by linarith
        then show ?thesis using little t(1) by (subst lil) auto
      qed
      with False old slots [OF slot] show ?thesis by (auto simp: answer_def)
    qed
  qed
  have zero': "?lil ! i = 0" if "256 * (?t + 1) \<le> i" "i < length ?lil" for i
    using that little zero [of i] by (auto simp: nth_append split: if_splits)
  have "represents ?st L (insert base F)"
    unfolding represents_def
  proof (intro conjI)
    show "256 * taboff ?st < length (lilarry ?st)" using fits little(1) by auto
    show "256 dvd length (lilarry ?st)" using d little(1) by auto
  qed (use len t base sl inj' ans' zero' in simp_all)
  with new show ?thesis by blast
qed

lemma block_range:
  assumes "r < 256" "b + n \<le> 256"
  shows "256 * x + b \<le> 256 * q + r \<and> 256 * q + r < 256 * x + b + n \<longleftrightarrow> q = x \<and> b \<le> r \<and> r < b + (n :: nat)"
proof -
  consider "q = x" | "q + 1 \<le> x" | "x + 1 \<le> q" by linarith
  then show ?thesis
  proof cases
    case 2
    then have "256 * q + 256 \<le> 256 * x" by simp
    with 2 assms(1) show ?thesis by auto
  next
    case 3
    then have "256 * x + 256 \<le> 256 * q" by simp
    with 3 assms(2) show ?thesis by auto
  qed auto
qed

text \<open>A prefix longer than 24 bits stays inside one slot.\<close>

lemma long_range:
  assumes "valid_entry e" "\<not> e_len e < 25"
  shows "unat (e_ip e) mod 256 + 2 ^ (32 - e_len e) \<le> 256"
    "covers e a \<longleftrightarrow> a div 256 = unat (e_ip e) div 256 \<and>
       unat (e_ip e) mod 256 \<le> a mod 256 \<and> a mod 256 < unat (e_ip e) mod 256 + 2 ^ (32 - e_len e)"
proof -
  define n :: nat where "n = 2 ^ (32 - e_len e)"
  have d: "n dvd 256"
    using le_imp_power_dvd [of "32 - e_len e" 8 "2 :: nat"] assms by (simp add: n_def)
  then have "n dvd unat (e_ip e) mod 256" using assms(1) by (simp add: valid_entry_def n_def dvd_mod)
  then obtain q where q: "unat (e_ip e) mod 256 = n * q" by (rule dvdE)
  from d obtain m where m: "256 = n * m" by (rule dvdE)
  have "n * q < n * m" using q m mod_less_divisor [of 256 "unat (e_ip e)"] by linarith
  then have "Suc q \<le> m" by simp
  then have "n * Suc q \<le> n * m" by (rule mult_le_mono2)
  then show r: "unat (e_ip e) mod 256 + 2 ^ (32 - e_len e) \<le> 256" using q m by (simp add: n_def)
  define x b where "x = unat (e_ip e) div 256" "b = unat (e_ip e) mod 256"
  have "unat (e_ip e) = 256 * x + b" by (simp add: x_b_def)
  then have cov: "covers e a \<longleftrightarrow> 256 * x + b \<le> a \<and> a < 256 * x + b + n"
    by (simp add: covers_def n_def)
  show "covers e a \<longleftrightarrow> a div 256 = unat (e_ip e) div 256 \<and>
       unat (e_ip e) mod 256 \<le> a mod 256 \<and> a mod 256 < unat (e_ip e) mod 256 + 2 ^ (32 - e_len e)"
    using block_range [of "a mod 256" b n x "a div 256"] r cov
    unfolding n_def [symmetric] x_b_def [symmetric] by simp
qed

lemma table_masks: "unat (v AND 0x7fff) = unat v mod 32768" "v AND 0x8000 \<noteq> 0x8000 \<longleftrightarrow> unat v < 0x8000"
  for v :: u16
proof -
  show "unat (v AND 0x7fff) = unat v mod 32768"
    using unat_and_mask [of v 15] by (simp add: mask_eq_exp_minus_1)
  have m: "(0x8000 :: u16) = push_bit 15 1" by simp
  have "v AND 0x8000 = 0x8000 \<longleftrightarrow> bit v 15"
  proof
    assume v: "bit v 15"
    show "v AND 0x8000 = 0x8000"
      unfolding m
    proof (rule bit_word_eqI)
      fix n
      assume "n < LENGTH(16)"
      with v show "bit (v AND push_bit 15 1) n = bit (push_bit 15 1 :: u16) n"
        by (cases "n = 15") (auto simp: bit_simps simp del: push_bit_of_1)
    qed
  next
    assume "v AND 0x8000 = 0x8000"
    then have "bit (v AND push_bit 15 1) 15 = bit (push_bit 15 1 :: u16) 15" unfolding m by simp
    then show "bit v 15" by (simp add: bit_simps del: push_bit_of_1)
  qed
  also have "\<dots> \<longleftrightarrow> bit (unat v) 15" by (simp add: bit_unsigned_iff)
  also have "\<dots> \<longleftrightarrow> odd (unat v div 32768)" by (simp add: bit_iff_odd)
  also have "\<dots> \<longleftrightarrow> \<not> unat v < 0x8000"
  proof -
    have "unat v div 32768 < 2" using unat_less_16 [of v] by simp
    then have "unat v div 32768 = 0 \<or> unat v div 32768 = 1" by linarith
    then show ?thesis by (auto simp: div_eq_0_iff)
  qed
  finally show "v AND 0x8000 \<noteq> 0x8000 \<longleftrightarrow> unat v < 0x8000" by blast
qed

lemma fill_table_represents:
  assumes rep: "represents st L F" and e: "valid_entry e" "\<not> e_len e < 25"
    and base: "unat (e_ip e) div 256 \<in> F" and room: "taboff st \<le> 0x8000"
  shows "\<exists>little. fill (lilarry st) (256 * unat (bigarry st ! (unat (e_ip e) div 256) AND 0x7fff)
             + unat (e_ip e AND 0xff)) (2 ^ (32 - e_len e)) (e_key e) = Some little \<and>
    represents (st\<lparr>lilarry := little\<rparr>) (\<lambda>a. if covers e a then e_key e else L a) F"
proof -
  let ?b = "unat (e_ip e) div 256" and ?n = "2 ^ (32 - e_len e) :: nat" and ?lo = "unat (e_ip e) mod 256"
  let ?v = "\<lambda>slot. unat (bigarry st ! slot)" and ?t = "taboff st"
  have slots: "\<And>slot. slot \<in> F \<Longrightarrow> 0x8000 < ?v slot \<and> ?v slot - 0x8000 < ?t"
    and inj: "inj_on (\<lambda>slot. bigarry st ! slot) F" and t: "256 * ?t < length (lilarry st)"
    and fl: "\<And>slot. slot < 2 ^ 24 \<Longrightarrow> flagged st slot \<longleftrightarrow> slot \<in> F"
    using rep by (auto simp: represents_def)
  have tab: "unat (bigarry st ! ?b AND 0x7fff) = ?v ?b - 0x8000"
    using slots [OF base] room unat_less_16 [of "bigarry st ! ?b"] by (simp add: table_masks le_mod_geq)
  have lo: "unat (e_ip e AND 0xff) = ?lo" using unat_and_mask [of "e_ip e" 8] by (simp add: mask_eq_exp_minus_1)
  let ?off = "256 * (?v ?b - 0x8000) + ?lo"
  have end_le: "?off + ?n \<le> 256 * ?t" using long_range(1) [OF e] slots [OF base] by linarith
  then have "?off + ?n \<le> length (lilarry st)" using t by linarith
  from fill_eq [OF this, of "e_key e"] obtain little where
    little: "fill (lilarry st) ?off ?n (e_key e) = Some little" "length little = length (lilarry st)"
    "\<And>i. little ! i = (if ?off \<le> i \<and> i < ?off + ?n then e_key e else lilarry st ! i)" by blast
  let ?st = "st\<lparr>lilarry := little\<rparr>"
  have ans: "answer ?st a = (if covers e a then e_key e else L a)" if a: "a < 2 ^ 32" for a
  proof (cases "a div 256 \<in> F")
    case True
    let ?i = "256 * (?v (a div 256) - 0x8000) + a mod 256"
    have "answer st a = L a" using rep a by (simp add: represents_def)
    moreover have "?v (a div 256) - 0x8000 = ?v ?b - 0x8000 \<longleftrightarrow> a div 256 = ?b"
    proof
      assume "?v (a div 256) - 0x8000 = ?v ?b - 0x8000"
      then have "?v (a div 256) = ?v ?b" using slots [OF True] slots [OF base] by linarith
      then show "a div 256 = ?b" using inj base True by (metis inj_onD word_unat_eq_iff)
    qed simp
    then have "?off \<le> ?i \<and> ?i < ?off + ?n \<longleftrightarrow> covers e a"
      unfolding block_range [OF mod_less_divisor [OF zero_less_numeral] long_range(1) [OF e]]
        long_range(2) [OF e] by simp
    ultimately show ?thesis using slots [OF True] by (simp add: answer_def little(3))
  next
    case False
    have "a div 256 < 2 ^ 24" using a by (simp add: less_mult_imp_div_less)
    with False fl have "\<not> flagged st (a div 256)" by blast
    moreover have "\<not> covers e a" using False base long_range(2) [OF e, of a] by auto
    moreover have "answer st a = L a" using rep a by (simp add: represents_def)
    ultimately show ?thesis by (simp add: answer_def)
  qed
  have "\<forall>i. 256 * ?t \<le> i \<and> i < length (lilarry st) \<longrightarrow> little ! i = 0"
    using end_le rep by (auto simp: represents_def little(3))
  then have "represents ?st (\<lambda>a. if covers e a then e_key e else L a) F"
    using rep ans little(2) unfolding represents_def by (elim conjE, intro conjI) simp_all
  with little(1) show ?thesis unfolding tab lo by blast
qed

lemma add_long_represents:
  assumes rep: "represents st L F" and e: "valid_entry e" "\<not> e_len e < 25" and room: "card F < 0x7fff"
  shows "\<exists>st'. add_long e st = Some st' \<and>
    represents st' (\<lambda>a. if covers e a then e_key e else L a) (insert (unat (e_ip e) div 256) F)"
proof -
  let ?b = "unat (e_ip e) div 256"
  have b: "?b < 2 ^ 24" using unat_less_32 [of "e_ip e"] by (simp add: less_mult_imp_div_less)
  have len: "length (bigarry st) = 2 ^ 24" and t: "taboff st = card F + 1"
    and unfl: "bigarry st ! ?b AND 0x8000 \<noteq> 0x8000 \<longleftrightarrow> ?b \<notin> F"
    using rep b unfolding represents_def table_masks by (auto simp: not_less)
  have "\<exists>st1. (if bigarry st ! ?b AND 0x8000 \<noteq> 0x8000 then new_table ?b (bigarry st ! ?b) st else Some st)
      = Some st1 \<and> represents st1 L (insert ?b F)"
    using new_table_represents [OF rep b] room t rep unfl by (auto simp: insert_absorb)
  then obtain st1 where st1: "(if bigarry st ! ?b AND 0x8000 \<noteq> 0x8000
      then new_table ?b (bigarry st ! ?b) st else Some st) = Some st1"
    "represents st1 L (insert ?b F)" by blast
  have "finite F" using rep by (simp add: represents_def)
  then have "card (insert ?b F) \<le> card F + 1" by (simp add: card_insert_if)
  then have "taboff st1 \<le> 0x8000" using st1(2) room by (auto simp: represents_def)
  from fill_table_represents [OF st1(2) e _ this] obtain little where
    "fill (lilarry st1) (256 * unat (bigarry st1 ! ?b AND 0x7fff) + unat (e_ip e AND 0xff))
       (2 ^ (32 - e_len e)) (e_key e) = Some little"
    "represents (st1\<lparr>lilarry := little\<rparr>) (\<lambda>a. if covers e a then e_key e else L a) (insert ?b F)"
    by blast
  moreover have "aget (bigarry st) ?b = Some (bigarry st ! ?b)" "aget (bigarry st1) ?b = Some (bigarry st1 ! ?b)"
    using b len st1(2) by (auto simp: represents_def aget_def)
  ultimately show ?thesis
    using st1(1) by (simp add: add_long_def unat_drop_bit_div)
qed

text \<open>The key of the last listed prefix that covers the address.\<close>

fun last_match :: "entry list \<Rightarrow> (nat \<Rightarrow> u16) \<Rightarrow> nat \<Rightarrow> u16" where
  "last_match [] L a = L a"
| "last_match (e # es) L a = last_match es (\<lambda>a. if covers e a then e_key e else L a) a"

lemma covers_before:
  assumes "valid_entry e" "valid_entry e'" "covers e a" "covers e' a" "e_len e \<le> e_len e'"
  shows "e_ip e \<le> e_ip e'"
proof -
  define m n where "m = (2 ^ (32 - e_len e) :: nat)" "n = (2 ^ (32 - e_len e') :: nat)"
  note mn = this
  have "n dvd m" using assms(5) by (simp add: mn le_imp_power_dvd)
  moreover have "m dvd unat (e_ip e)" "n dvd unat (e_ip e')" using assms(1,2) by (simp_all add: valid_entry_def mn)
  ultimately obtain p q where p: "unat (e_ip e) = n * p" "unat (e_ip e') = n * q"
    by (meson dvdE dvd_trans)
  have "n * p < n * Suc q" using assms(3,4) p by (simp add: covers_def mn)
  then have "p < Suc q" by (simp only: mult_less_cancel1)
  then have "p \<le> q" by simp
  then have "n * p \<le> n * q" by (rule mult_le_mono2)
  with p show ?thesis by (simp add: word_le_nat_alt)
qed

lemma lpm248_build_represents:
  assumes "represents st L F" "\<And>e. e \<in> set es \<Longrightarrow> valid_entry e" "sorted_wrt entry_before es"
    "card F + length (filter (\<lambda>e. \<not> e_len e < 25) es) \<le> 0x7fff"
    "\<And>e slot. e \<in> set es \<Longrightarrow> e_len e < 25 \<Longrightarrow> slot \<in> F \<Longrightarrow> \<not> covers e (256 * slot)"
  shows "\<exists>st' F'. lpm248_build es st = Some st' \<and> represents st' (last_match es L) F' \<and>
    card F' \<le> card F + length (filter (\<lambda>e. \<not> e_len e < 25) es)"
  using assms
proof (induction es arbitrary: st L F)
  case (Cons e es)
  let ?L = "\<lambda>a. if covers e a then e_key e else L a"
  have v: "valid_entry e" using Cons.prems(2) by simp
  show ?case
  proof (cases "e_len e < 25")
    case True
    have free: "\<And>slot. slot \<in> F \<Longrightarrow> \<not> covers e (256 * slot)" using Cons.prems(5) True by simp
    from add_short_represents [OF Cons.prems(1) v True free] obtain st1 where
      st1: "add_short e st = Some st1" "represents st1 ?L F" by blast
    have "\<exists>st' F'. lpm248_build es st1 = Some st' \<and> represents st' (last_match es ?L) F' \<and>
        card F' \<le> card F + length (filter (\<lambda>e. \<not> e_len e < 25) es)"
      by (rule Cons.IH [OF st1(2)]) (use Cons.prems True in auto)
    with st1(1) True show ?thesis by (auto simp: lpm248_add_def)
  next
    case False
    let ?F = "insert (unat (e_ip e) div 256) F"
    have fin: "finite F" using Cons.prems(1) by (simp add: represents_def)
    from add_long_represents [OF Cons.prems(1) v False] Cons.prems(4) False obtain st1 where
      st1: "add_long e st = Some st1" "represents st1 ?L ?F" by auto
    have "\<exists>st' F'. lpm248_build es st1 = Some st' \<and> represents st' (last_match es ?L) F' \<and>
        card F' \<le> card ?F + length (filter (\<lambda>e. \<not> e_len e < 25) es)"
    proof (rule Cons.IH [OF st1(2)])
      show "card ?F + length (filter (\<lambda>e. \<not> e_len e < 25) es) \<le> 0x7fff"
        using Cons.prems(4) False fin by (simp add: card_insert_if)
      fix e' slot
      assume e': "e' \<in> set es" "e_len e' < 25" and slot: "slot \<in> ?F"
      show "\<not> covers e' (256 * slot)"
      proof (cases "slot \<in> F")
        case True
        then show ?thesis using Cons.prems(5) e' by auto
      next
        case new: False
        have v': "valid_entry e'" using Cons.prems(2) e' by simp
        have b: "entry_before e e'" using Cons.prems(3) e' by simp
        show ?thesis
        proof
          assume "covers e' (256 * slot)"
          then have "covers e' (unat (e_ip e))"
            using slot new by (simp add: short_covers [OF v' e'(2)])
          moreover have "covers e (unat (e_ip e))" by (simp add: covers_def)
          ultimately have "e_ip e' \<le> e_ip e"
            using covers_before [OF v' v] e'(2) False by simp
          with b e'(2) False show False by (auto simp: entry_before_def)
        qed
      qed
    qed (use Cons.prems in auto)
    moreover have "card ?F \<le> card F + 1" using fin by (simp add: card_insert_if)
    moreover have "lpm248_build (e # es) st = lpm248_build es st1"
      using st1(1) False by (simp add: lpm248_add_def)
    ultimately show ?thesis using False by fastforce
  qed
next
  case Nil
  have "last_match [] L = L" by (rule ext) simp
  with Nil show ?case by auto
qed

lemma lpm4_248_search_answer:
  assumes "represents st L F" "taboff st \<le> 0x8000"
  shows "lpm4_248_search a (bigarry st) (lilarry st) = Some (L (unat a))"
proof -
  let ?slot = "unat a div 256"
  have slot: "?slot < 2 ^ 24" using unat_less_32 [of a] by (simp add: less_mult_imp_div_less)
  have len: "length (bigarry st) = 2 ^ 24" "256 * taboff st < length (lilarry st)"
    and fl: "flagged st ?slot \<Longrightarrow> unat (bigarry st ! ?slot) - 0x8000 < taboff st"
    and ans: "answer st (unat a) = L (unat a)"
    using assms(1) slot unat_less_32 [of a] by (auto simp: represents_def)
  let ?v = "bigarry st ! ?slot"
  have get: "aget (bigarry st) (unat (drop_bit 8 a)) = Some ?v"
    using slot len by (simp add: unat_drop_bit_div aget_def)
  show ?thesis
  proof (cases "flagged st ?slot")
    case True
    let ?t = "unat ?v - 0x8000"
    have "unat (u32_of_u16 ?v - 0x8000) = ?t"
      using True by (subst unat_sub) (simp_all add: word_le_nat_alt)
    moreover have t: "?t < 0x8000" using fl [OF True] assms(2) by linarith
    ultimately have p: "unat (push_bit 8 (u32_of_u16 ?v - 0x8000)) = 256 * ?t"
      by (subst unat_push_bit_small) simp_all
    have lo: "unat (a AND 0xff) = unat a mod 256" using unat_and_mask [of a 8] by (simp add: mask_eq_exp_minus_1)
    have idx: "unat (push_bit 8 (u32_of_u16 ?v - 0x8000) + (a AND 0xff)) = 256 * ?t + unat a mod 256"
      using t mod_less_divisor [of 256 "unat a"] by (subst unat_plus_small) (simp_all add: p lo)
    have "256 * ?t + unat a mod 256 < length (lilarry st)"
      using fl [OF True] len(2) mod_less_divisor [of 256 "unat a"] by linarith
    with True get ans idx show ?thesis
      by (simp add: lpm4_248_search_def answer_def word_less_nat_alt)
  next
    case False
    with get ans show ?thesis by (simp add: lpm4_248_search_def answer_def word_less_nat_alt)
  qed
qed

text \<open>The result of a lookup: the key of a covering prefix that no covering prefix exceeds in length,
  or zero when no prefix covers the address.\<close>

definition longest_match :: "entry list \<Rightarrow> nat \<Rightarrow> u16 \<Rightarrow> bool" where
  "longest_match es a r \<longleftrightarrow>
     (if \<exists>e\<in>set es. covers e a
      then \<exists>e\<in>set es. covers e a \<and> e_key e = r \<and> (\<forall>e'\<in>set es. covers e' a \<longrightarrow> e_len e' \<le> e_len e)
      else r = 0)"

lemma last_match_longest:
  assumes "\<And>e. e \<in> set es \<Longrightarrow> valid_entry e" "sorted_wrt entry_before es"
  shows "if \<exists>e\<in>set es. covers e a
    then \<exists>e\<in>set es. covers e a \<and> e_key e = last_match es L a \<and> (\<forall>e'\<in>set es. covers e' a \<longrightarrow> e_len e' \<le> e_len e)
    else last_match es L a = L a"
  using assms
proof (induction es arbitrary: L)
  case (Cons e es)
  let ?L = "\<lambda>a. if covers e a then e_key e else L a"
  have IH: "if \<exists>e\<in>set es. covers e a
    then \<exists>e\<in>set es. covers e a \<and> e_key e = last_match es ?L a \<and> (\<forall>e'\<in>set es. covers e' a \<longrightarrow> e_len e' \<le> e_len e)
    else last_match es ?L a = ?L a"
    using Cons.prems by (intro Cons.IH) auto
  have "e_len e \<le> e_len e'" if "e' \<in> set es" "covers e a" "covers e' a" for e'
  proof (rule ccontr)
    assume "\<not> e_len e \<le> e_len e'"
    then have len: "e_len e' < e_len e" by simp
    then have "e_ip e' \<le> e_ip e" using that Cons.prems(1) by (intro covers_before [of e' e a]) auto
    moreover have "entry_before e e'" using that Cons.prems(2) by simp
    ultimately show False using len by (auto simp: entry_before_def)
  qed
  with IH show ?case by (cases "\<exists>e\<in>set es. covers e a") auto
qed auto

text \<open>C8: from an empty table, building a list of prefixes in the order of the trie succeeds, and
  the C lookup of every IPv4 address then returns the key of the longest prefix that covers it,
  or zero; no access is out of bounds. Keys have 15 bits, and at most 32767 prefixes are longer
  than 24 bits, the number of tables the flagged cells can name.\<close>

theorem lpm4_248_longest_prefix:
  assumes "\<And>e. e \<in> set es \<Longrightarrow> valid_entry e" "sorted_wrt entry_before es"
    "length (filter (\<lambda>e. \<not> e_len e < 25) es) \<le> 0x7fff"
  shows "\<exists>st. lpm248_build es lpm248_new = Some st \<and>
    (\<forall>a. \<exists>r. lpm4_248_search a (bigarry st) (lilarry st) = Some r \<and> longest_match es (unat a) r)"
proof -
  from lpm248_build_represents [OF lpm248_new_represents assms(1,2)] assms(3) obtain st F where
    st: "lpm248_build es lpm248_new = Some st" "represents st (last_match es (\<lambda>_. 0)) F"
    "card F \<le> length (filter (\<lambda>e. \<not> e_len e < 25) es)" by auto
  then have "taboff st \<le> 0x8000" using assms(3) by (auto simp: represents_def)
  with st show ?thesis
    using lpm4_248_search_answer [OF st(2)] last_match_longest [OF assms(1,2)]
    by (simp add: longest_match_def)
qed

theorem lpm4_248_longest_prefix_witness:
  "\<exists>st. lpm248_build [\<lparr>e_ip = 0, e_len = 0, e_key = 1\<rparr>, \<lparr>e_ip = 0x0a000000, e_len = 8, e_key = 2\<rparr>,
       \<lparr>e_ip = 0x0a000010, e_len = 28, e_key = 3\<rparr>] lpm248_new = Some st \<and>
    (\<forall>a. \<exists>r. lpm4_248_search a (bigarry st) (lilarry st) = Some r \<and>
       longest_match [\<lparr>e_ip = 0, e_len = 0, e_key = 1\<rparr>, \<lparr>e_ip = 0x0a000000, e_len = 8, e_key = 2\<rparr>,
       \<lparr>e_ip = 0x0a000010, e_len = 28, e_key = 3\<rparr>] (unat a) r)"
  by (rule lpm4_248_longest_prefix) (auto simp: valid_entry_def entry_before_def)

end
