(* ===== verification/Mac_Table.thy ===== *)
theory Mac_Table
  imports Snabb_Prelude
begin

text \<open>
  The MAC table of the learning bridge (\<^verbatim>\<open>apps/bridge/mac_table.c\<close>, \<^verbatim>\<open>apps/bridge/learning.h\<close>): a
  hash table of fixed-size buckets, kept twice (main and shadow table), and the sorting of
  packets into the unicast, flooding and discard forwarding tables. The caller computes the hash
  index. Port lists are shared through pointers, so they live in an explicit store.
\<close>

type_synonym handle = u16

record port_list =
  pl_length :: u16
  pl_ports :: "handle list"

record pft_entry =
  pfe_p :: ptr
  pfe_plist :: ptr

record pft =
  pft_length :: u16
  pft_entries :: "pft_entry list"

record mac_entry =
  me_mac :: u64
  me_port :: handle
  me_group :: handle

record hash_table =
  ubuckets :: u32
  entries :: u32
  overflow :: u8
  buckets :: "mac_entry list list"

record lookup_result =
  res_port :: handle
  res_group :: handle

definition BUCKET_SIZE :: nat where
  "BUCKET_SIZE = 6"

section \<open>Operations\<close>

text \<open>The inner loop of the insertion: the first slot from \<open>j\<close> on that is free or holds the address;
  \<open>BUCKET_SIZE\<close> when there is none. The second argument counts the remaining slots.\<close>

fun insert_slot :: "u64 \<Rightarrow> nat \<Rightarrow> nat \<Rightarrow> mac_entry list \<Rightarrow> nat option" where
  "insert_slot mac 0 j bucket = Some j"
| "insert_slot mac (Suc n) j bucket = do {
     me \<leftarrow> aget bucket j;
     if me_mac me = 0 \<or> me_mac me = mac then Some j else insert_slot mac n (j + 1) bucket
   }"

definition insert_table :: "u64 \<Rightarrow> handle \<Rightarrow> handle \<Rightarrow> nat \<Rightarrow> hash_table \<Rightarrow> hash_table option" where
  "insert_table mac port grp index t = do {
     bucket \<leftarrow> aget (buckets t) index;
     j \<leftarrow> insert_slot mac BUCKET_SIZE 0 bucket;
     if j = BUCKET_SIZE then Some (t\<lparr>overflow := 1\<rparr>)
     else do {
       me \<leftarrow> aget bucket j;
       let t = (if me_mac me = 0
                then t\<lparr>ubuckets := (if j = 0 then ubuckets t + 1 else ubuckets t), entries := entries t + 1\<rparr>
                else t);
       bucket \<leftarrow> aset bucket j \<lparr>me_mac = mac, me_port = port, me_group = grp\<rparr>;
       bs \<leftarrow> aset (buckets t) index bucket;
       Some (t\<lparr>buckets := bs\<rparr>)
     }
   }"

text \<open>The main and the shadow table.\<close>

definition mac_table_insert ::
  "u64 \<Rightarrow> handle \<Rightarrow> handle \<Rightarrow> hash_table \<times> hash_table \<Rightarrow> u32 \<Rightarrow> (hash_table \<times> hash_table) option" where
  "mac_table_insert mac port grp tables index = do {
     main \<leftarrow> insert_table mac port grp (unat index) (fst tables);
     shadow \<leftarrow> insert_table mac port grp (unat index) (snd tables);
     Some (main, shadow)
   }"

text \<open>The search loop shared by both lookups: the entry at which it breaks, if any.\<close>

fun lookup_loop :: "u64 \<Rightarrow> nat \<Rightarrow> nat \<Rightarrow> mac_entry list \<Rightarrow> mac_entry option option" where
  "lookup_loop mac 0 i bucket = Some None"
| "lookup_loop mac (Suc n) i bucket = do {
     me \<leftarrow> aget bucket i;
     if me_mac me = 0 then Some None
     else if me_mac me = mac then Some (Some me)
     else lookup_loop mac n (i + 1) bucket
   }"

text \<open>The result is a static variable: its group keeps the value of the previous call on a miss.\<close>

definition mac_table_lookup :: "u64 \<Rightarrow> mac_entry list \<Rightarrow> lookup_result \<Rightarrow> lookup_result option" where
  "mac_table_lookup mac bucket result = do {
     let result = result\<lparr>res_port := 0\<rparr>;
     r \<leftarrow> lookup_loop mac BUCKET_SIZE 0 bucket;
     Some (case r of None \<Rightarrow> result
       | Some me \<Rightarrow> result\<lparr>res_port := me_port me, res_group := me_group me\<rparr>)
   }"

text \<open>Append the packet to a forwarding table, updating the entry's port list pointer.\<close>

definition pft_put :: "ptr \<Rightarrow> (ptr \<Rightarrow> ptr) \<Rightarrow> pft \<Rightarrow> pft option" where
  "pft_put p plist t = do {
     pfe \<leftarrow> aget (pft_entries t) (unat (pft_length t));
     es \<leftarrow> aset (pft_entries t) (unat (pft_length t)) \<lparr>pfe_p = p, pfe_plist = plist (pfe_plist pfe)\<rparr>;
     Some (t\<lparr>pft_entries := es, pft_length := pft_length t + 1\<rparr>)
   }"

text \<open>The port lists, by address.\<close>

type_synonym pl_store = "ptr \<rightharpoonup> port_list"

definition store_port :: "ptr \<Rightarrow> handle \<Rightarrow> pl_store \<Rightarrow> pl_store option" where
  "store_port a port h = do {
     pl \<leftarrow> h a;
     ports \<leftarrow> aset (pl_ports pl) 0 port;
     Some (h(a \<mapsto> pl\<lparr>pl_ports := ports\<rparr>))
   }"

text \<open>\<^verbatim>\<open>pfts[0]\<close> is the unicast table, \<^verbatim>\<open>pfts[1]\<close> the flooding table and \<^verbatim>\<open>pfts[2]\<close> the discard table.\<close>

definition mac_table_lookup_pft ::
  "u64 \<Rightarrow> mac_entry list \<Rightarrow> handle \<Rightarrow> handle \<Rightarrow> ptr \<Rightarrow> pft \<times> pft \<times> pft \<Rightarrow> ptr \<Rightarrow> pl_store
     \<Rightarrow> ((pft \<times> pft \<times> pft) \<times> pl_store) option" where
  "mac_table_lookup_pft mac bucket port grp p pfts flood_pl h =
     (case pfts of (unicast, flooding, discard) \<Rightarrow> do {
        r \<leftarrow> lookup_loop mac BUCKET_SIZE 0 bucket;
        case r of
          Some me \<Rightarrow>
            if (grp \<noteq> 0 \<and> grp = me_group me) \<or> port = me_port me
            then do {
              discard \<leftarrow> pft_put p (\<lambda>pl. pl) discard;
              Some ((unicast, flooding, discard), h)
            }
            else do {
              pfe \<leftarrow> aget (pft_entries unicast) (unat (pft_length unicast));
              h \<leftarrow> store_port (pfe_plist pfe) (me_port me) h;
              unicast \<leftarrow> pft_put p (\<lambda>pl. pl) unicast;
              Some ((unicast, flooding, discard), h)
            }
        | None \<Rightarrow> do {
            flooding \<leftarrow> pft_put p (\<lambda>_. flood_pl) flooding;
            Some ((unicast, flooding, discard), h)
          }
      })"

section \<open>A bucket as a map\<close>

definition used :: "mac_entry list \<Rightarrow> mac_entry list" where
  "used b = takeWhile (\<lambda>e. me_mac e \<noteq> 0) b"

definition wf_bucket :: "mac_entry list \<Rightarrow> bool" where
  "wf_bucket b \<longleftrightarrow> length b = BUCKET_SIZE \<and> (\<forall>e\<in>set (drop (length (used b)) b). me_mac e = 0) \<and>
     distinct (map me_mac (used b))"

definition bucket_map :: "mac_entry list \<Rightarrow> u64 \<rightharpoonup> handle \<times> handle" where
  "bucket_map b = map_of (map (\<lambda>e. (me_mac e, me_port e, me_group e)) (used b))"

text \<open>Every bucket is well formed and the statistics count the used slots and buckets.\<close>

definition wf_table :: "hash_table \<Rightarrow> bool" where
  "wf_table t \<longleftrightarrow> (\<forall>b\<in>set (buckets t). wf_bucket b) \<and>
     entries t = of_nat (sum_list (map (\<lambda>b. length (used b)) (buckets t))) \<and>
     ubuckets t = of_nat (length (filter (\<lambda>b. used b \<noteq> []) (buckets t)))"

lemma lookup_loop_find:
  "length b = i + n \<Longrightarrow> lookup_loop mac n i b = Some (find (\<lambda>e. me_mac e = mac) (used (drop i b)))"
proof (induction n arbitrary: i)
  case (Suc n)
  then have "drop i b = b ! i # drop (i + 1) b" by (simp add: Cons_nth_drop_Suc)
  with Suc show ?case by (auto simp: used_def)
qed (simp add: used_def)

lemma find_map_of:
  "map_option (\<lambda>e. (me_port e, me_group e)) (find (\<lambda>e. me_mac e = mac) es) =
     map_of (map (\<lambda>e. (me_mac e, me_port e, me_group e)) es) mac"
  by (induction es) auto

lemma lookup_loop_bucket_map:
  "wf_bucket b \<Longrightarrow> \<exists>r. lookup_loop mac BUCKET_SIZE 0 b = Some r \<and>
     map_option (\<lambda>e. (me_port e, me_group e)) r = bucket_map b mac"
  by (simp add: wf_bucket_def lookup_loop_find find_map_of bucket_map_def)

text \<open>The slot found by the insertion splits the bucket: used slots of other addresses, then the
  slot of the address or a free one.\<close>

lemma insert_slot_split:
  "length b = j + n \<Longrightarrow> \<exists>k. insert_slot mac n j b = Some k \<and> j \<le> k \<and> k \<le> length b \<and>
     (\<forall>i. j \<le> i \<and> i < k \<longrightarrow> me_mac (b ! i) \<noteq> 0 \<and> me_mac (b ! i) \<noteq> mac) \<and>
     (k < length b \<longrightarrow> me_mac (b ! k) = 0 \<or> me_mac (b ! k) = mac)"
proof (induction n arbitrary: j)
  case (Suc n)
  show ?case
  proof (cases "me_mac (b ! j) = 0 \<or> me_mac (b ! j) = mac")
    case True
    with Suc.prems show ?thesis by (intro exI [of _ j]) auto
  next
    case False
    from Suc.IH [of "j + 1"] Suc.prems obtain k where
      k: "insert_slot mac n (j + 1) b = Some k" "j + 1 \<le> k" "k \<le> length b"
      "\<And>i. j + 1 \<le> i \<Longrightarrow> i < k \<Longrightarrow> me_mac (b ! i) \<noteq> 0 \<and> me_mac (b ! i) \<noteq> mac"
      "k < length b \<Longrightarrow> me_mac (b ! k) = 0 \<or> me_mac (b ! k) = mac" by auto
    have "me_mac (b ! i) \<noteq> 0 \<and> me_mac (b ! i) \<noteq> mac" if "j \<le> i" "i < k" for i
      using that False k(4) [of i] by (cases "i = j") auto
    with False k Suc.prems show ?thesis by (intro exI [of _ k]) auto
  qed
qed auto

lemma used_append_used: "(\<And>e. e \<in> set us \<Longrightarrow> me_mac e \<noteq> 0) \<Longrightarrow> used (us @ rest) = us @ used rest"
  by (simp add: used_def takeWhile_append2)

lemma used_Cons: "used (e # es) = (if me_mac e = 0 then [] else e # used es)"
  by (simp add: used_def)

lemma bucket_map_update:
  assumes "mac \<notin> me_mac ` set us" "me_mac e = mac" "me_mac e' = mac"
  shows "map_of (map (\<lambda>e. (me_mac e, me_port e, me_group e)) (us @ e' # rest)) =
    (map_of (map (\<lambda>e. (me_mac e, me_port e, me_group e)) (us @ e # rest)))(mac \<mapsto> (me_port e', me_group e'))"
  using assms by (induction us) (auto simp: fun_eq_iff)

lemma bucket_map_append:
  assumes "mac \<notin> me_mac ` set us" "me_mac e' = mac"
  shows "map_of (map (\<lambda>e. (me_mac e, me_port e, me_group e)) (us @ [e'])) =
    (map_of (map (\<lambda>e. (me_mac e, me_port e, me_group e)) us))(mac \<mapsto> (me_port e', me_group e'))"
  using assms by (induction us) (auto simp: fun_eq_iff)

text \<open>What the insertion does to the bucket: nothing when it is full of other addresses, otherwise
  it overwrites the slot found and the map gains the binding.\<close>

lemma insert_bucket:
  assumes wf: "wf_bucket b" and mac: "mac \<noteq> 0"
    and new_def: "new = \<lparr>me_mac = mac, me_port = port, me_group = grp\<rparr>"
  obtains (full) "insert_slot mac BUCKET_SIZE 0 b = Some BUCKET_SIZE" "length (used b) = BUCKET_SIZE"
      "bucket_map b mac = None"
    | (store) k where "insert_slot mac BUCKET_SIZE 0 b = Some k" "k < BUCKET_SIZE" "wf_bucket (b[k := new])"
      "bucket_map (b[k := new]) = (bucket_map b)(mac \<mapsto> (port, grp))"
      "length (used (b[k := new])) = length (used b) + of_bool (me_mac (b ! k) = 0)"
      "k = 0 \<and> me_mac (b ! k) = 0 \<longleftrightarrow> used b = []"
      "bucket_map b mac \<noteq> None \<or> length (used b) < BUCKET_SIZE"
proof -
  have len: "length b = BUCKET_SIZE" using wf by (simp add: wf_bucket_def)
  from insert_slot_split [of b 0 BUCKET_SIZE mac] len obtain k where
    k: "insert_slot mac BUCKET_SIZE 0 b = Some k" "k \<le> BUCKET_SIZE"
    "\<And>i. i < k \<Longrightarrow> me_mac (b ! i) \<noteq> 0 \<and> me_mac (b ! i) \<noteq> mac"
    "k < BUCKET_SIZE \<Longrightarrow> me_mac (b ! k) = 0 \<or> me_mac (b ! k) = mac" by auto
  define us rest where "us = take k b" "rest = drop (Suc k) b"
  have us: "me_mac e \<noteq> 0 \<and> me_mac e \<noteq> mac" if e: "e \<in> set us" for e
  proof -
    obtain i where "i < k" "e = b ! i" using e k(2) len by (auto simp: us_rest_def in_set_conv_nth)
    then show ?thesis using k(3) by blast
  qed
  then have notin: "mac \<notin> me_mac ` set us" by auto
  show thesis
  proof (cases "k = BUCKET_SIZE")
    case True
    then have "us = b" using len by (simp add: us_rest_def)
    then have "used b = b" using us used_append_used [of b "[]"] by (simp add: used_def)
    with \<open>us = b\<close> notin have "bucket_map b mac = None"
      by (simp add: bucket_map_def map_of_eq_None_iff image_image)
    with full True k(1) \<open>used b = b\<close> len show thesis by simp
  next
    case False
    then have lt: "k < BUCKET_SIZE" using k(2) by simp
    have b: "b = us @ b ! k # rest" "length us = k"
      using lt len by (simp_all add: us_rest_def id_take_nth_drop)
    then have b': "b[k := new] = us @ new # rest" by (metis list_update_length)
    have len': "length (us @ new # rest) = BUCKET_SIZE" using b' len by (metis length_list_update)
    have nz: "me_mac new = mac" "me_port new = port" "me_group new = grp" by (simp_all add: new_def)
    have used': "used (b[k := new]) = us @ new # used rest"
      unfolding b' using us mac nz by (simp add: used_append_used used_Cons)
    show thesis
    proof (cases "me_mac (b ! k) = 0")
      case True
      have ub: "used b = us" using b us True by (metis append_Nil2 used_Cons used_append_used)
      have rest0: "me_mac e = 0" if "e \<in> set rest" for e
      proof -
        have "drop (length (used b)) b = b ! k # rest" using b(2) unfolding ub by (subst b(1)) simp
        with wf that show ?thesis by (simp add: wf_bucket_def)
      qed
      have ur: "used rest = []" using rest0 by (cases rest) (auto simp: used_def)
      have wf': "wf_bucket (b[k := new])"
        using wf rest0 notin nz len' b(2) unfolding wf_bucket_def used' ur ub
        by (simp add: b')
      show thesis
        by (rule store [OF k(1) lt wf'])
           (use ub ur b(2) used' True lt nz bucket_map_append [OF notin nz(1)] in
             \<open>auto simp: bucket_map_def simp del: map_append\<close>)
    next
      case False
      then have bk: "me_mac (b ! k) = mac" using k(4) lt by simp
      have ub: "used b = us @ b ! k # used rest"
        using b us False by (metis used_Cons used_append_used)
      have dr: "drop (length (used b)) b = drop (length (used rest)) rest"
        using b(2) unfolding ub by (subst b(1)) simp
      have zero: "\<forall>e\<in>set (drop (length (used rest)) rest). me_mac e = 0"
        using wf unfolding wf_bucket_def dr by simp
      have "distinct (map me_mac (us @ b ! k # used rest))" using wf ub by (simp add: wf_bucket_def)
      then have wf': "wf_bucket (b[k := new])"
        using zero len' bk nz unfolding wf_bucket_def used' by (simp add: b')
      show thesis
        by (rule store [OF k(1) lt wf'])
           (use ub used' False bk notin nz bucket_map_update [OF notin bk nz(1)] in
             \<open>auto simp: bucket_map_def map_of_eq_None_iff\<close>)
    qed
  qed
qed

section \<open>The table\<close>

lemma wf_table_update:
  assumes "wf_table t" "buckets t = B1 @ b # B2" "wf_bucket b'" "length (used b') = length (used b) + d"
    "used b' \<noteq> []"
  shows "wf_table (t\<lparr>ubuckets := ubuckets t + of_bool (used b = []), entries := entries t + of_nat d,
    buckets := B1 @ b' # B2\<rparr>)"
  using assms by (cases "used b = []") (auto simp: wf_table_def)

lemma insert_table_spec:
  assumes wf: "wf_table t" and index: "index < length (buckets t)" and mac: "mac \<noteq> 0"
  shows "\<exists>t'. insert_table mac port grp index t = Some t' \<and> wf_table t' \<and>
    length (buckets t') = length (buckets t) \<and>
    (\<forall>i. i \<noteq> index \<longrightarrow> buckets t' ! i = buckets t ! i) \<and>
    (if bucket_map (buckets t ! index) mac = None \<and> length (used (buckets t ! index)) = BUCKET_SIZE
     then t' = t\<lparr>overflow := 1\<rparr>
     else bucket_map (buckets t' ! index) = (bucket_map (buckets t ! index))(mac \<mapsto> (port, grp)) \<and>
       overflow t' = overflow t)"
proof -
  let ?b = "buckets t ! index" and ?new = "\<lparr>me_mac = mac, me_port = port, me_group = grp\<rparr>"
  have wfb: "wf_bucket ?b" using wf index by (simp add: wf_table_def)
  then have len: "length ?b = BUCKET_SIZE" by (simp add: wf_bucket_def)
  from wfb mac refl [of ?new] show ?thesis
  proof (cases rule: insert_bucket)
    case full
    then have "insert_table mac port grp index t = Some (t\<lparr>overflow := 1\<rparr>)"
      using index by (simp add: insert_table_def)
    with full wf show ?thesis by (simp add: wf_table_def)
  next
    case (store k)
    let ?b' = "?b[k := ?new]" and ?fresh = "me_mac (?b ! k) = 0"
    let ?t = "t\<lparr>ubuckets := ubuckets t + of_bool (k = 0 \<and> ?fresh), entries := entries t + of_bool ?fresh,
        buckets := (buckets t)[index := ?b']\<rparr>"
    have ins: "insert_table mac port grp index t = Some ?t"
      using store(1,2) index len by (cases ?fresh; cases "k = 0") (simp_all add: insert_table_def)
    obtain B1 B2 where B: "buckets t = B1 @ ?b # B2" "length B1 = index"
      using index by (metis id_take_nth_drop length_take min.absorb2 less_imp_le)
    then have B': "(buckets t)[index := ?b'] = B1 @ ?b' # B2" by (metis list_update_length)
    have ne: "used ?b' \<noteq> []" using store(5,6) by (cases "used ?b = []") auto
    have wf': "wf_table ?t"
      unfolding B' store(6)
      using wf_table_update [OF wf B(1) store(3) _ ne, of "of_bool ?fresh"] store(5) by simp
    show ?thesis
      using ins wf' store(4,7) index by (intro exI [of _ ?t]) auto
  qed
qed

text \<open>C20: inserting a non-zero address into well-formed main and shadow tables keeps them well
  formed (used slots first, no address twice, statistics equal to the number of used slots and
  buckets) and touches only the addressed bucket. In each table the bucket then maps the address to the
  new port and group and every other address as before, unless it is full of other addresses:
  then only the overflow flag of that table is raised.\<close>

theorem mac_table_insert_correct:
  assumes "wf_table main" "wf_table shadow" "mac \<noteq> 0"
    "unat index < length (buckets main)" "unat index < length (buckets shadow)"
  shows "\<exists>main' shadow'. mac_table_insert mac port grp (main, shadow) index = Some (main', shadow') \<and>
    (\<forall>(t, t')\<in>{(main, main'), (shadow, shadow')}. wf_table t' \<and>
       length (buckets t') = length (buckets t) \<and>
       (\<forall>i. i \<noteq> unat index \<longrightarrow> buckets t' ! i = buckets t ! i) \<and>
       (if bucket_map (buckets t ! unat index) mac = None \<and> length (used (buckets t ! unat index)) = BUCKET_SIZE
        then t' = t\<lparr>overflow := 1\<rparr>
        else bucket_map (buckets t' ! unat index) = (bucket_map (buckets t ! unat index))(mac \<mapsto> (port, grp)) \<and>
          overflow t' = overflow t))"
proof -
  obtain main' shadow' where
    "insert_table mac port grp (unat index) main = Some main'"
    "insert_table mac port grp (unat index) shadow = Some shadow'"
    and spec: "\<forall>(t, t')\<in>{(main, main'), (shadow, shadow')}. wf_table t' \<and>
       length (buckets t') = length (buckets t) \<and>
       (\<forall>i. i \<noteq> unat index \<longrightarrow> buckets t' ! i = buckets t ! i) \<and>
       (if bucket_map (buckets t ! unat index) mac = None \<and> length (used (buckets t ! unat index)) = BUCKET_SIZE
        then t' = t\<lparr>overflow := 1\<rparr>
        else bucket_map (buckets t' ! unat index) = (bucket_map (buckets t ! unat index))(mac \<mapsto> (port, grp)) \<and>
          overflow t' = overflow t)"
    using insert_table_spec [OF assms(1,4,3), of port grp] insert_table_spec [OF assms(2,5,3), of port grp]
    by (auto simp only: ball_simps prod.case)
  then show ?thesis by (intro exI [of _ main'] exI [of _ shadow']) (simp add: mac_table_insert_def)
qed

definition free_entry :: mac_entry where
  "free_entry = \<lparr>me_mac = 0, me_port = 0, me_group = 0\<rparr>"

definition sample_table :: hash_table where
  "sample_table = \<lparr>ubuckets = 0, entries = 0, overflow = 0, buckets = [replicate 6 free_entry]\<rparr>"

lemma sample_table_wf: "wf_table sample_table"
  by (simp add: sample_table_def wf_table_def wf_bucket_def used_def free_entry_def BUCKET_SIZE_def)

theorem mac_table_insert_correct_witness:
  "\<exists>main' shadow'. mac_table_insert 7 3 1 (sample_table, sample_table) 0 = Some (main', shadow') \<and>
     bucket_map (buckets main' ! 0) = (bucket_map (buckets sample_table ! 0))(7 \<mapsto> (3, 1)) \<and>
     wf_table shadow'"
proof -
  have "bucket_map (buckets sample_table ! 0) = Map.empty" "length (used (buckets sample_table ! 0)) \<noteq> BUCKET_SIZE"
    "length (buckets sample_table) = 1"
    by (simp_all add: sample_table_def bucket_map_def used_def free_entry_def BUCKET_SIZE_def)
  then show ?thesis
    using mac_table_insert_correct [OF sample_table_wf sample_table_wf, of 7 0 3 1] by auto
qed

text \<open>A lookup in a well-formed bucket returns the port and group stored for the address, and
  port zero when there is none.\<close>

theorem mac_table_lookup_correct:
  assumes "wf_bucket b"
  shows "\<exists>r. mac_table_lookup mac b result = Some r \<and>
    (case bucket_map b mac of Some (p, g) \<Rightarrow> res_port r = p \<and> res_group r = g | None \<Rightarrow> res_port r = 0)"
proof -
  obtain r where "lookup_loop mac BUCKET_SIZE 0 b = Some r"
    "map_option (\<lambda>e. (me_port e, me_group e)) r = bucket_map b mac"
    using lookup_loop_bucket_map [OF assms] by blast
  then show ?thesis by (cases r) (auto simp: mac_table_lookup_def split: option.splits)
qed

theorem mac_table_lookup_correct_witness:
  "\<exists>r. mac_table_lookup 7 (\<lparr>me_mac = 7, me_port = 3, me_group = 1\<rparr> # replicate 5 free_entry)
     \<lparr>res_port = 9, res_group = 9\<rparr> = Some r \<and> res_port r = 3 \<and> res_group r = 1"
  using mac_table_lookup_correct [of "\<lparr>me_mac = 7, me_port = 3, me_group = 1\<rparr> # replicate 5 free_entry" 7]
  by (simp add: wf_bucket_def used_def free_entry_def BUCKET_SIZE_def bucket_map_def)

section \<open>Sorting packets\<close>

text \<open>The packets queued in a forwarding table, with the port list each refers to.\<close>

definition queued :: "pft \<Rightarrow> (ptr \<times> ptr) list" where
  "queued t = map (\<lambda>e. (pfe_p e, pfe_plist e)) (take (unat (pft_length t)) (pft_entries t))"

definition has_room :: "pft \<Rightarrow> bool" where
  "has_room t \<longleftrightarrow> unat (pft_length t) < length (pft_entries t) \<and> unat (pft_length t) < 65535"

lemma pft_put_queued:
  assumes "has_room t"
  shows "\<exists>t'. pft_put p f t = Some t' \<and>
    queued t' = queued t @ [(p, f (pfe_plist (pft_entries t ! unat (pft_length t))))]"
proof -
  let ?n = "unat (pft_length t)"
  have "unat (pft_length t + 1) = ?n + 1"
    using assms by (subst unat_plus_small) (simp_all add: has_room_def)
  moreover have "take (?n + 1) ((pft_entries t)[?n := x]) = take ?n (pft_entries t) @ [x]" for x
    using assms by (simp add: has_room_def take_Suc_conv_app_nth)
  ultimately show ?thesis
    using assms by (simp add: pft_put_def has_room_def queued_def)
qed

text \<open>A packet is queued in exactly one forwarding table, at its end: discarded when its
  destination is known and lies behind the ingress port or in the ingress port's non-zero
  split-horizon group; otherwise forwarded to the one port of a known destination, written into
  the port list of the queue entry; and flooded when the destination is unknown.\<close>

theorem mac_table_lookup_pft_correct:
  assumes "wf_bucket b" "has_room unicast" "has_room flooding" "has_room discard"
    "h (pfe_plist (pft_entries unicast ! unat (pft_length unicast))) = Some pl" "pl_ports pl \<noteq> []"
  shows "\<exists>u f d h'. mac_table_lookup_pft mac b port grp p (unicast, flooding, discard) flood_pl h = Some ((u, f, d), h') \<and>
    (case bucket_map b mac of
       None \<Rightarrow> u = unicast \<and> d = discard \<and> h' = h \<and> queued f = queued flooding @ [(p, flood_pl)]
     | Some (eport, egrp) \<Rightarrow> f = flooding \<and>
         (if (grp \<noteq> 0 \<and> grp = egrp) \<or> port = eport
          then u = unicast \<and> h' = h \<and> map fst (queued d) = map fst (queued discard) @ [p]
          else d = discard \<and>
            (\<exists>a. queued u = queued unicast @ [(p, a)] \<and> h' = h(a \<mapsto> pl\<lparr>pl_ports := (pl_ports pl)[0 := eport]\<rparr>))))"
proof -
  obtain r where r: "lookup_loop mac BUCKET_SIZE 0 b = Some r"
    "map_option (\<lambda>e. (me_port e, me_group e)) r = bucket_map b mac"
    using lookup_loop_bucket_map [OF assms(1)] by blast
  show ?thesis
  proof (cases r)
    case None
    with r pft_put_queued [OF assms(3), of p "\<lambda>_. flood_pl"] show ?thesis
      by (auto simp: mac_table_lookup_pft_def)
  next
    case (Some me)
    with r have m: "bucket_map b mac = Some (me_port me, me_group me)" by simp
    show ?thesis
    proof (cases "(grp \<noteq> 0 \<and> grp = me_group me) \<or> port = me_port me")
      case True
      with Some r m pft_put_queued [OF assms(4), of p "\<lambda>pl. pl"] show ?thesis
        by (auto simp: mac_table_lookup_pft_def)
    next
      case False
      with Some r m pft_put_queued [OF assms(2), of p "\<lambda>pl. pl"] assms(2,5,6) show ?thesis
        by (auto simp: mac_table_lookup_pft_def store_port_def has_room_def)
    qed
  qed
qed

definition sample_pft :: pft where
  "sample_pft = \<lparr>pft_length = 0, pft_entries = [\<lparr>pfe_p = 0, pfe_plist = 0x100\<rparr>]\<rparr>"

theorem mac_table_lookup_pft_correct_witness:
  "\<exists>u f d h'. mac_table_lookup_pft 7 (\<lparr>me_mac = 7, me_port = 3, me_group = 1\<rparr> # replicate 5 free_entry)
       2 0 0x500 (sample_pft, sample_pft, sample_pft) 0x900 [0x100 \<mapsto> \<lparr>pl_length = 1, pl_ports = [0]\<rparr>]
     = Some ((u, f, d), h') \<and> d = sample_pft \<and> map fst (queued u) = [0x500]"
  using mac_table_lookup_pft_correct [where b = "\<lparr>me_mac = 7, me_port = 3, me_group = 1\<rparr> # replicate 5 free_entry"
      and unicast = sample_pft and flooding = sample_pft and discard = sample_pft
      and h = "[0x100 \<mapsto> \<lparr>pl_length = 1, pl_ports = [0]\<rparr>]" and pl = "\<lparr>pl_length = 1, pl_ports = [0]\<rparr>"
      and mac = 7 and port = 2 and grp = 0 and p = "0x500" and flood_pl = "0x900"]
  by (auto simp: wf_bucket_def used_def free_entry_def BUCKET_SIZE_def bucket_map_def has_room_def
      sample_pft_def queued_def)

end
