(* ===== verification/Device_Poll.thy ===== *)
theory Device_Poll
  imports Snabb_Prelude
begin

text \<open>
  The batch polling of SolarFlare interfaces (\<^verbatim>\<open>apps/solarflare/poll.c\<close>): a table of at most 256
  device pointers, polled in one call. The ef_vi library is not part of the repository: its
  \<^verbatim>\<open>eventq_poll\<close> is a parameter, a function of the hardware state \<^typ>\<open>'w\<close>, and \<open>code\<close> gives the
  function found at an address, for the calls through the pointer \<^verbatim>\<open>transmit_unbundle\<close> that
  \<^verbatim>\<open>add_device\<close> sets. The device structures live in a store indexed by their address.
\<close>

definition MAX_DEVICES :: nat where
  "MAX_DEVICES = 256"

definition EVENTS_PER_POLL :: nat where
  "EVENTS_PER_POLL = 256"

definition EF_EVENT_TYPE_TX :: u16 where
  "EF_EVENT_TYPE_TX = 1"

text \<open>The union \<^verbatim>\<open>ef_event\<close>: all members start with the type, the only part that \<^verbatim>\<open>poll.c\<close> reads;
  the library interprets the rest.\<close>

record ef_event =
  ev_type :: u16
  ev_rest :: "u16 list"

record unbundled_tx_request_ids =
  n_tx_done :: nat
  tx_request_ids :: "u32 list"

record device =
  dev_vi :: ptr
  n_ev :: nat
  dev_events :: "ef_event list"
  unbundled :: "unbundled_tx_request_ids list"

record poll_state =
  devices :: "ptr list"
  n_devices :: nat
  transmit_unbundle :: ptr

type_synonym 'w poller = "ptr \<Rightarrow> nat \<Rightarrow> 'w \<Rightarrow> ef_event list \<times> 'w"

type_synonym 'w unbundler = "ptr \<Rightarrow> ef_event \<Rightarrow> 'w \<Rightarrow> u32 list \<times> 'w"

text \<open>Writing the results of a library call over the start of an array.\<close>

definition overwrite :: "'a list \<Rightarrow> 'a list \<Rightarrow> 'a list option" where
  "overwrite new old = (if length new \<le> length old then Some (new @ drop (length new) old) else None)"

text \<open>A call through a pointer at which there is no function is \<open>None\<close>.\<close>

fun unbundle_loop :: "'w unbundler option \<Rightarrow> nat \<Rightarrow> nat \<Rightarrow> device \<Rightarrow> 'w \<Rightarrow> (device \<times> 'w) option" where
  "unbundle_loop target 0 i d w = Some (d, w)"
| "unbundle_loop target (Suc n) i d w = do {
     ev \<leftarrow> aget (dev_events d) i;
     (d, w) \<leftarrow> (if ev_type ev = EF_EVENT_TYPE_TX then do {
          unbundle \<leftarrow> target;
          let (ids, w) = unbundle (dev_vi d) ev w;
          u \<leftarrow> aget (unbundled d) i;
          arr \<leftarrow> overwrite ids (tx_request_ids u);
          us \<leftarrow> aset (unbundled d) i \<lparr>n_tx_done = length ids, tx_request_ids = arr\<rparr>;
          Some (d\<lparr>unbundled := us\<rparr>, w)
        }
      else Some (d, w));
     unbundle_loop target n (i + 1) d w
   }"

definition poll_device ::
  "'w poller \<Rightarrow> (ptr \<rightharpoonup> 'w unbundler) \<Rightarrow> poll_state \<Rightarrow> device \<Rightarrow> 'w \<Rightarrow> (device \<times> 'w) option" where
  "poll_device eventq_poll code st d w =
     (case eventq_poll (dev_vi d) EVENTS_PER_POLL w of (evs, w) \<Rightarrow> do {
        arr \<leftarrow> overwrite evs (dev_events d);
        unbundle_loop (code (transmit_unbundle st)) (length evs) 0
          (d\<lparr>n_ev := length evs, dev_events := arr\<rparr>) w
      })"

fun poll_loop ::
  "'w poller \<Rightarrow> (ptr \<rightharpoonup> 'w unbundler) \<Rightarrow> poll_state \<Rightarrow> nat \<Rightarrow> nat \<Rightarrow> (ptr \<rightharpoonup> device) \<Rightarrow> 'w
     \<Rightarrow> ((ptr \<rightharpoonup> device) \<times> 'w) option" where
  "poll_loop eventq_poll code st 0 i h w = Some (h, w)"
| "poll_loop eventq_poll code st (Suc n) i h w = do {
     a \<leftarrow> aget (devices st) i;
     d \<leftarrow> h a;
     (d, w) \<leftarrow> poll_device eventq_poll code st d w;
     poll_loop eventq_poll code st n (i + 1) (h(a \<mapsto> d)) w
   }"

definition poll_devices ::
  "'w poller \<Rightarrow> (ptr \<rightharpoonup> 'w unbundler) \<Rightarrow> poll_state \<Rightarrow> (ptr \<rightharpoonup> device) \<Rightarrow> 'w
     \<Rightarrow> ((ptr \<rightharpoonup> device) \<times> 'w) option" where
  "poll_devices eventq_poll code st h w = poll_loop eventq_poll code st (n_devices st) 0 h w"

text \<open>A failed \<^verbatim>\<open>assert\<close> is \<open>None\<close>.\<close>

definition add_device :: "ptr \<Rightarrow> ptr \<Rightarrow> poll_state \<Rightarrow> poll_state option" where
  "add_device d unbundle_function st =
     (if n_devices st = MAX_DEVICES then None
      else do {
        ds \<leftarrow> aset (devices st) (n_devices st) d;
        Some (st\<lparr>devices := ds, n_devices := n_devices st + 1,
          transmit_unbundle := unbundle_function\<rparr>)
      })"

fun find_device :: "ptr \<Rightarrow> nat \<Rightarrow> nat \<Rightarrow> ptr list \<Rightarrow> nat option" where
  "find_device d 0 i ds = Some i"
| "find_device d (Suc n) i ds = do { x \<leftarrow> aget ds i; if x = d then Some i else find_device d n (i + 1) ds }"

text \<open>\<^verbatim>\<open>for (; i < n_devices; i++) devices[i] = devices[i + 1];\<close>\<close>

fun shift_down :: "nat \<Rightarrow> nat \<Rightarrow> ptr list \<Rightarrow> ptr list option" where
  "shift_down 0 i ds = Some ds"
| "shift_down (Suc n) i ds = do {
     x \<leftarrow> aget ds (i + 1);
     ds \<leftarrow> aset ds i x;
     shift_down n (i + 1) ds
   }"

definition drop_device :: "ptr \<Rightarrow> poll_state \<Rightarrow> poll_state option" where
  "drop_device d st = do {
     i \<leftarrow> find_device d (n_devices st) 0 (devices st);
     if i = n_devices st then None
     else do {
       let n = n_devices st - 1;
       ds \<leftarrow> shift_down (n - i) i (devices st);
       ds \<leftarrow> aset ds n 0;
       Some (st\<lparr>devices := ds, n_devices := n\<rparr>)
     }
   }"

section \<open>The device table is a list\<close>

definition poll_wf :: "poll_state \<Rightarrow> bool" where
  "poll_wf st \<longleftrightarrow> length (devices st) = MAX_DEVICES \<and> n_devices st \<le> MAX_DEVICES \<and>
     (\<forall>i. n_devices st \<le> i \<and> i < MAX_DEVICES \<longrightarrow> devices st ! i = 0)"

definition registered :: "poll_state \<Rightarrow> ptr list" where
  "registered st = take (n_devices st) (devices st)"

lemma find_device_eq:
  "i + n \<le> length ds \<Longrightarrow> find_device d n i ds = Some (i + length (takeWhile (\<lambda>x. x \<noteq> d) (take n (drop i ds))))"
proof (induction n arbitrary: i)
  case (Suc n)
  then have "drop i ds = ds ! i # drop (i + 1) ds" by (simp add: Cons_nth_drop_Suc)
  with Suc show ?case by simp
qed simp

lemma shift_down_eq:
  "i + n < length ds \<Longrightarrow> \<exists>es. shift_down n i ds = Some es \<and> length es = length ds \<and>
     (\<forall>j. es ! j = (if i \<le> j \<and> j < i + n then ds ! (j + 1) else ds ! j))"
proof (induction n arbitrary: i ds)
  case (Suc n)
  let ?ds = "ds[i := ds ! (i + 1)]"
  obtain es where es: "shift_down n (i + 1) ?ds = Some es" "length es = length ds"
    "\<And>j. es ! j = (if i + 1 \<le> j \<and> j < i + 1 + n then ?ds ! (j + 1) else ?ds ! j)"
    using Suc.IH [of "i + 1" ?ds] Suc.prems by auto
  have "es ! j = (if i \<le> j \<and> j < i + Suc n then ds ! (j + 1) else ds ! j)" for j
    using Suc.prems by (cases "j = i") (auto simp: es(3))
  with es(1,2) Suc.prems show ?case by (intro exI [of _ es]) simp
qed auto

lemma remove1_takeWhile:
  assumes "d \<in> set xs" "i = length (takeWhile (\<lambda>x. x \<noteq> d) xs)"
  shows "remove1 d xs = take i xs @ drop (i + 1) xs"
  using assms
proof (induction xs arbitrary: i)
  case (Cons x xs)
  then show ?case by (cases "x = d") auto
qed simp

lemma takeWhile_neq_length: "length (takeWhile (\<lambda>x. x \<noteq> d) xs) < length xs \<longleftrightarrow> d \<in> set xs"
  by (induction xs) auto

lemma add_device_registered:
  assumes "poll_wf st" "n_devices st < MAX_DEVICES"
  shows "\<exists>st'. add_device d u st = Some st' \<and> poll_wf st' \<and> registered st' = registered st @ [d] \<and>
    transmit_unbundle st' = u"
  using assms
  by (auto simp: add_device_def poll_wf_def registered_def take_Suc_conv_app_nth)

lemma drop_device_registered:
  assumes "poll_wf st" "d \<in> set (registered st)"
  shows "\<exists>st'. drop_device d st = Some st' \<and> poll_wf st' \<and> registered st' = remove1 d (registered st) \<and>
    transmit_unbundle st' = transmit_unbundle st"
proof -
  let ?n = "n_devices st" and ?ds = "devices st"
  define i where "i = length (takeWhile (\<lambda>x. x \<noteq> d) (registered st))"
  have wf: "length ?ds = MAX_DEVICES" "?n \<le> MAX_DEVICES" "\<And>j. ?n \<le> j \<Longrightarrow> j < MAX_DEVICES \<Longrightarrow> ?ds ! j = 0"
    using assms(1) by (auto simp: poll_wf_def)
  have find: "find_device d ?n 0 ?ds = Some i"
    using wf by (simp add: find_device_eq i_def registered_def)
  have i: "i < ?n" using assms(2) wf takeWhile_neq_length [of d "registered st"]
    by (simp add: i_def registered_def)
  then have "i + (?n - 1 - i) < length ?ds" using wf by simp
  from shift_down_eq [OF this] obtain es where
    es: "shift_down (?n - 1 - i) i ?ds = Some es" "length es = length ?ds"
    "\<And>j. es ! j = (if i \<le> j \<and> j < i + (?n - 1 - i) then ?ds ! (j + 1) else ?ds ! j)" by blast
  let ?st = "st\<lparr>devices := es[?n - 1 := 0], n_devices := ?n - 1\<rparr>"
  have run: "drop_device d st = Some ?st"
    using find i es(1,2) wf by (simp add: drop_device_def Let_def)
  have "poll_wf ?st"
  proof -
    have "es[?n - 1 := 0] ! j = 0" if "?n - 1 \<le> j" "j < MAX_DEVICES" for j
      using that i wf es(2) by (cases "j = ?n - 1") (auto simp: es(3))
    then show ?thesis using wf es(2) by (simp add: poll_wf_def)
  qed
  moreover have "registered ?st = remove1 d (registered st)"
  proof -
    have "take (?n - 1) es = take i ?ds @ drop (i + 1) (take ?n ?ds)"
      using i wf es by (intro nth_equalityI) (auto simp: nth_append)
    then show ?thesis
      using i wf es(2) remove1_takeWhile [OF assms(2) i_def] by (simp add: registered_def min_absorb1)
  qed
  moreover have "transmit_unbundle ?st = transmit_unbundle st" by simp
  ultimately show ?thesis using run by blast
qed

lemma drop_device_absent:
  assumes "poll_wf st" "d \<notin> set (registered st)"
  shows "drop_device d st = None"
proof -
  have tw: "takeWhile (\<lambda>x. x \<noteq> d) (registered st) = registered st"
    using assms(2) by (auto simp: takeWhile_eq_all_conv)
  have len: "length (registered st) = n_devices st" "n_devices st \<le> length (devices st)"
    using assms(1) by (simp_all add: poll_wf_def registered_def)
  have "find_device d (n_devices st) 0 (devices st)
      = Some (length (takeWhile (\<lambda>x. x \<noteq> d) (registered st)))"
    using find_device_eq [of 0 "n_devices st" "devices st" d] len(2) by (simp add: registered_def)
  then have "find_device d (n_devices st) 0 (devices st) = Some (n_devices st)"
    unfolding tw len(1) .
  then show ?thesis by (simp add: drop_device_def)
qed

text \<open>C21: the device table behaves as a list of at most 256 devices: adding appends, sets the
  function that will unbundle transmit events, and fails the assertion only when 256 devices are
  registered; dropping removes the first occurrence, keeps the order of the others, clears the
  freed cell, and fails the assertion for a device that is not registered.\<close>

theorem device_table_refines_list:
  assumes "poll_wf st"
  shows "(case add_device d u st of
      Some st' \<Rightarrow> poll_wf st' \<and> registered st' = registered st @ [d] \<and> length (registered st) < MAX_DEVICES \<and>
        transmit_unbundle st' = u
    | None \<Rightarrow> length (registered st) = MAX_DEVICES) \<and>
    (case drop_device d st of
      Some st' \<Rightarrow> poll_wf st' \<and> registered st' = remove1 d (registered st) \<and> d \<in> set (registered st) \<and>
        transmit_unbundle st' = transmit_unbundle st
    | None \<Rightarrow> d \<notin> set (registered st))"
proof -
  have len: "length (registered st) = n_devices st" using assms by (simp add: poll_wf_def registered_def)
  have "n_devices st = MAX_DEVICES \<or> n_devices st < MAX_DEVICES" using assms by (auto simp: poll_wf_def)
  moreover have "add_device d u st = None" if "n_devices st = MAX_DEVICES"
    using that by (simp add: add_device_def)
  ultimately show ?thesis
    using add_device_registered [OF assms, of d u] drop_device_registered [OF assms, of d]
      drop_device_absent [OF assms, of d]
    by (cases "d \<in> set (registered st)") (auto simp: len split: option.splits)
qed

definition poll_init :: poll_state where
  "poll_init = \<lparr>devices = replicate 256 0, n_devices = 0, transmit_unbundle = 0\<rparr>"

lemma poll_init_wf: "poll_wf poll_init"
  by (simp add: poll_wf_def poll_init_def MAX_DEVICES_def)

theorem device_table_refines_list_witness:
  "\<exists>st'. add_device 0x1000 0x400 poll_init = Some st' \<and> registered st' = [0x1000] \<and> transmit_unbundle st' = 0x400"
  using device_table_refines_list [OF poll_init_wf, of "0x1000" "0x400"]
  by (auto simp: registered_def poll_init_def MAX_DEVICES_def split: option.splits)

section \<open>Polling\<close>

definition device_ok :: "device \<Rightarrow> bool" where
  "device_ok d \<longleftrightarrow> length (dev_events d) = EVENTS_PER_POLL \<and> length (unbundled d) = EVENTS_PER_POLL \<and>
     (\<forall>u\<in>set (unbundled d). length (tx_request_ids u) = 64)"

text \<open>What the library answers for a sequence of events: the request ids of every transmit event,
  in order, and the hardware state at the end.\<close>

fun tx_answers :: "'w unbundler \<Rightarrow> ptr \<Rightarrow> ef_event list \<Rightarrow> 'w \<Rightarrow> u32 list option list \<times> 'w" where
  "tx_answers f vi [] w = ([], w)"
| "tx_answers f vi (ev # evs) w =
     (if ev_type ev = EF_EVENT_TYPE_TX
      then let (ids, w) = f vi ev w; (rs, w) = tx_answers f vi evs w in (Some ids # rs, w)
      else let (rs, w) = tx_answers f vi evs w in (None # rs, w))"

text \<open>The entry \<open>u'\<close> is the entry \<open>u\<close> after the answer \<open>r\<close>: the ids of a transmit event are stored in
  it with their number, and every other entry stays as it was.\<close>

definition answered :: "u32 list option \<Rightarrow> unbundled_tx_request_ids \<Rightarrow> unbundled_tx_request_ids \<Rightarrow> bool" where
  "answered r u u' \<longleftrightarrow> (case r of
      None \<Rightarrow> u' = u
    | Some ids \<Rightarrow> n_tx_done u' = length ids \<and> take (length ids) (tx_request_ids u') = ids)"

text \<open>The device \<open>d'\<close> is \<open>d\<close> after one poll, and the hardware went from \<open>w\<close> to \<open>w'\<close>: the events that the
  library delivers are stored and counted, and the ids of each transmit event are those the
  library gives for it, stored at the index of the event.\<close>

definition device_polled :: "'w poller \<Rightarrow> 'w unbundler \<Rightarrow> device \<Rightarrow> 'w \<Rightarrow> device \<Rightarrow> 'w \<Rightarrow> bool" where
  "device_polled eventq_poll f d w d' w' \<longleftrightarrow> (case eventq_poll (dev_vi d) EVENTS_PER_POLL w of (evs, w1) \<Rightarrow>
     (case tx_answers f (dev_vi d) evs w1 of (rs, w2) \<Rightarrow>
        w' = w2 \<and> dev_vi d' = dev_vi d \<and> n_ev d' = length evs \<and>
        dev_events d' = evs @ drop (length evs) (dev_events d) \<and>
        (\<forall>i<EVENTS_PER_POLL. answered (if i < length evs then rs ! i else None) (unbundled d ! i) (unbundled d' ! i))))"

text \<open>The devices of a list are polled one after the other.\<close>

inductive all_polled ::
  "'w poller \<Rightarrow> 'w unbundler \<Rightarrow> ptr list \<Rightarrow> (ptr \<rightharpoonup> device) \<Rightarrow> 'w \<Rightarrow> (ptr \<rightharpoonup> device) \<Rightarrow> 'w \<Rightarrow> bool"
  for eventq_poll :: "'w poller" and f :: "'w unbundler" where
  polled_nil: "all_polled eventq_poll f [] h w h w"
| polled_cons: "h a = Some d \<Longrightarrow> device_polled eventq_poll f d w d1 w1 \<Longrightarrow> device_ok d1 \<Longrightarrow>
    all_polled eventq_poll f as (h(a \<mapsto> d1)) w1 h' w' \<Longrightarrow> all_polled eventq_poll f (a # as) h w h' w'"

inductive_simps all_polled_cons: "all_polled eventq_poll f (a # as) h w h' w'"

inductive_simps all_polled_nil: "all_polled eventq_poll f [] h w h' w'"

lemma unbundle_loop_answers:
  assumes "\<And>vi ev w. length (fst (f vi ev w)) \<le> 64" "device_ok d" "i + length evs \<le> EVENTS_PER_POLL"
    "take (length evs) (drop i (dev_events d)) = evs"
  shows "\<exists>d'. unbundle_loop (Some f) (length evs) i d w = Some (d', snd (tx_answers f (dev_vi d) evs w)) \<and>
    device_ok d' \<and> n_ev d' = n_ev d \<and> dev_vi d' = dev_vi d \<and> dev_events d' = dev_events d \<and>
    (\<forall>j<EVENTS_PER_POLL. answered (if i \<le> j \<and> j < i + length evs then fst (tx_answers f (dev_vi d) evs w) ! (j - i) else None)
       (unbundled d ! j) (unbundled d' ! j))"
  using assms(2-4)
proof (induction evs arbitrary: i d w)
  case Nil
  then show ?case by (auto simp: answered_def)
next
  case (Cons ev evs)
  have len: "i < length (dev_events d)" using Cons.prems(1,2) by (simp add: device_ok_def)
  then have "drop i (dev_events d) = dev_events d ! i # drop (Suc i) (dev_events d)"
    by (simp add: Cons_nth_drop_Suc)
  with Cons.prems(3) have ev: "dev_events d ! i = ev" and evs: "take (length evs) (drop (i + 1) (dev_events d)) = evs"
    by auto
  have get: "aget (dev_events d) i = Some ev" "aget (unbundled d) i = Some (unbundled d ! i)"
    using Cons.prems len by (auto simp: device_ok_def aget_def ev)
  obtain ids w1 where u: "f (dev_vi d) ev w = (ids, w1)" by (cases "f (dev_vi d) ev w")
  with assms(1) [of "dev_vi d" ev w] have ids: "length ids \<le> 64" by simp
  define u' where "u' = \<lparr>n_tx_done = length ids,
    tx_request_ids = ids @ drop (length ids) (tx_request_ids (unbundled d ! i))\<rparr>"
  define d1 where "d1 = (if ev_type ev = EF_EVENT_TYPE_TX then d\<lparr>unbundled := (unbundled d)[i := u']\<rparr> else d)"
  define w2 where "w2 = (if ev_type ev = EF_EVENT_TYPE_TX then w1 else w)"
  have ui: "length (tx_request_ids (unbundled d ! i)) = 64"
    using Cons.prems by (simp add: device_ok_def)
  have ok1: "device_ok d1"
    using Cons.prems(1) ids ui set_update_subset_insert [of "unbundled d" i u']
    by (auto simp: device_ok_def d1_def u'_def)
  have same: "n_ev d1 = n_ev d" "dev_vi d1 = dev_vi d" "dev_events d1 = dev_events d"
    by (simp_all add: d1_def)
  have room: "i + 1 + length evs \<le> EVENTS_PER_POLL" using Cons.prems(2) by simp
  have step: "unbundle_loop (Some f) (length (ev # evs)) i d w = unbundle_loop (Some f) (length evs) (i + 1) d1 w2"
    using Cons.prems ids ui get u
    by (simp add: d1_def w2_def u'_def overwrite_def device_ok_def)
  let ?r = "if ev_type ev = EF_EVENT_TYPE_TX then Some ids else None"
  have answers: "tx_answers f (dev_vi d) (ev # evs) w
      = (?r # fst (tx_answers f (dev_vi d) evs w2), snd (tx_answers f (dev_vi d) evs w2))"
    using u by (auto simp: w2_def split: prod.splits)
  have one: "answered (if j = i then ?r else None) (unbundled d ! j) (unbundled d1 ! j)" if "j < EVENTS_PER_POLL" for j
    using that Cons.prems(1) by (auto simp: answered_def d1_def u'_def device_ok_def)
  have keep: "unbundled d1 ! j = unbundled d ! j" if "j \<noteq> i" for j
    using that by (simp add: d1_def)
  from Cons.IH [OF ok1 room, of w2, unfolded same, OF evs] obtain d' where
    d': "unbundle_loop (Some f) (length evs) (i + 1) d1 w2 = Some (d', snd (tx_answers f (dev_vi d) evs w2))"
    "device_ok d'" "n_ev d' = n_ev d" "dev_vi d' = dev_vi d" "dev_events d' = dev_events d"
    "\<forall>j<EVENTS_PER_POLL. answered (if i + 1 \<le> j \<and> j < i + 1 + length evs
        then fst (tx_answers f (dev_vi d) evs w2) ! (j - (i + 1)) else None) (unbundled d1 ! j) (unbundled d' ! j)"
    by blast
  have "answered (if i \<le> j \<and> j < i + length (ev # evs) then (?r # fst (tx_answers f (dev_vi d) evs w2)) ! (j - i) else None)
      (unbundled d ! j) (unbundled d' ! j)" if j: "j < EVENTS_PER_POLL" for j
  proof (cases "j = i")
    case True
    then have "unbundled d' ! j = unbundled d1 ! j" using d'(6) [rule_format, OF j] by (simp add: answered_def)
    with one [OF j] True show ?thesis by simp
  next
    case False
    have "(?r # xs) ! (j - i) = xs ! (j - (i + 1))" if "i + 1 \<le> j" for xs
      using that by (simp add: nth_Cons')
    with d'(6) [rule_format, OF j] keep [OF False] False show ?thesis by (auto simp: Suc_le_eq)
  qed
  moreover have "unbundle_loop (Some f) (length (ev # evs)) i d w = Some (d', snd (tx_answers f (dev_vi d) (ev # evs) w))"
    unfolding step d'(1) answers snd_conv ..
  ultimately show ?case unfolding answers fst_conv using d'(2-5) by blast
qed

lemma poll_device_polled:
  assumes "\<And>vi n w. length (fst (eventq_poll vi n w)) \<le> n" "\<And>vi ev w. length (fst (f vi ev w)) \<le> 64"
    "code (transmit_unbundle st) = Some f" "device_ok d"
  shows "\<exists>d' w'. poll_device eventq_poll code st d w = Some (d', w') \<and> device_ok d' \<and>
    device_polled eventq_poll f d w d' w'"
proof -
  obtain evs w1 where e: "eventq_poll (dev_vi d) EVENTS_PER_POLL w = (evs, w1)"
    by (cases "eventq_poll (dev_vi d) EVENTS_PER_POLL w")
  with assms(1) [of "dev_vi d" EVENTS_PER_POLL w] have evs: "length evs \<le> EVENTS_PER_POLL" by simp
  let ?d = "d\<lparr>n_ev := length evs, dev_events := evs @ drop (length evs) (dev_events d)\<rparr>"
  have "device_ok ?d" using assms(4) evs by (simp add: device_ok_def)
  from unbundle_loop_answers [where f = f and i = 0 and evs = evs and w = w1, OF assms(2) this] evs
  obtain d' where d': "unbundle_loop (Some f) (length evs) 0 ?d w1 = Some (d', snd (tx_answers f (dev_vi ?d) evs w1))"
    "device_ok d'" "n_ev d' = n_ev ?d" "dev_vi d' = dev_vi ?d" "dev_events d' = dev_events ?d"
    "\<forall>j<EVENTS_PER_POLL. answered (if 0 \<le> j \<and> j < 0 + length evs then fst (tx_answers f (dev_vi ?d) evs w1) ! (j - 0) else None)
       (unbundled ?d ! j) (unbundled d' ! j)" by fastforce
  obtain rs w2 where a: "tx_answers f (dev_vi d) evs w1 = (rs, w2)" by (cases "tx_answers f (dev_vi d) evs w1")
  have "device_polled eventq_poll f d w d' w2"
    using d'(3-6) by (simp add: device_polled_def e a cong: if_cong)
  with e a evs assms(3,4) d'(1,2) show ?thesis
    by (simp add: poll_device_def overwrite_def device_ok_def)
qed

lemma poll_loop_polled:
  assumes lib: "\<And>vi n w. length (fst (eventq_poll vi n w)) \<le> n" "\<And>vi ev w. length (fst (f vi ev w)) \<le> 64"
      "code (transmit_unbundle st) = Some f"
    and "i + n \<le> length (devices st)"
    "\<And>a. a \<in> set (take n (drop i (devices st))) \<Longrightarrow> \<exists>d. h a = Some d \<and> device_ok d"
  shows "\<exists>h' w'. poll_loop eventq_poll code st n i h w = Some (h', w') \<and>
    all_polled eventq_poll f (take n (drop i (devices st))) h w h' w'"
  using assms(4,5)
proof (induction n arbitrary: i h w)
  case 0
  then show ?case by (simp add: all_polled_nil)
next
  case (Suc n)
  let ?a = "devices st ! i"
  have dr: "take (Suc n) (drop i (devices st)) = ?a # take n (drop (i + 1) (devices st))"
    using Suc.prems(1) by (simp add: Cons_nth_drop_Suc [symmetric])
  from Suc.prems(2) obtain d where d: "h ?a = Some d" "device_ok d" unfolding dr by auto
  from poll_device_polled [where w = w and eventq_poll = eventq_poll and f = f and code = code, OF lib d(2)]
  obtain d1 w1 where d1: "poll_device eventq_poll code st d w = Some (d1, w1)" "device_ok d1"
    "device_polled eventq_poll f d w d1 w1" by blast
  have room: "i + 1 + n \<le> length (devices st)" using Suc.prems(1) by simp
  have ok: "\<exists>d. (h(?a \<mapsto> d1)) a = Some d \<and> device_ok d" if "a \<in> set (take n (drop (i + 1) (devices st)))" for a
    using that Suc.prems(2) [of a] d1(2) unfolding dr by (cases "a = ?a") auto
  from Suc.IH [of "i + 1" "h(?a \<mapsto> d1)" w1, OF room ok] obtain h' w' where
    r: "poll_loop eventq_poll code st n (i + 1) (h(?a \<mapsto> d1)) w1 = Some (h', w')"
    "all_polled eventq_poll f (take n (drop (i + 1) (devices st))) (h(?a \<mapsto> d1)) w1 h' w'" by blast
  have "poll_loop eventq_poll code st (Suc n) i h w = Some (h', w')"
    using Suc.prems(1) d(1) d1(1) r(1) by simp
  with d(1) d1 r(2) show ?case unfolding dr by (blast intro: polled_cons)
qed

lemma all_polled_frame: "all_polled eventq_poll f as h w h' w' \<Longrightarrow> a \<notin> set as \<Longrightarrow> h' a = h a"
  by (induction rule: all_polled.induct) auto

lemma all_polled_ok:
  "all_polled eventq_poll f as h w h' w' \<Longrightarrow> (\<And>a. a \<in> set as \<Longrightarrow> \<exists>d. h a = Some d \<and> device_ok d) \<Longrightarrow>
     a \<in> set as \<Longrightarrow> \<exists>d. h' a = Some d \<and> device_ok d"
proof (induction rule: all_polled.induct)
  case (polled_cons h a' d w d1 w1 as h' w')
  have ok: "\<exists>d. (h(a' \<mapsto> d1)) b = Some d \<and> device_ok d" if "b \<in> set as" for b
    using that polled_cons.prems(1) [of b] polled_cons.hyps(3) by (cases "b = a'") auto
  show ?case
  proof (cases "a \<in> set as")
    case True
    then show ?thesis using polled_cons.IH [OF ok] by blast
  next
    case False
    with polled_cons.prems(2) have "a = a'" by simp
    with all_polled_frame [OF polled_cons.hyps(4) False] polled_cons.hyps(3) show ?thesis by simp
  qed
qed simp

text \<open>C22: one call polls every registered device, in the order of the table, and no other, and never
  accesses memory outside the arrays of a device: for each device the library is asked once for
  events, the events it delivers are stored in the device and counted, and the request ids that
  the function set by the last \<^verbatim>\<open>add_device\<close> gives for each transmit event are stored at the index
  of that event with their number, every other entry being kept. The library is assumed to
  respect the capacities it is given: at most the requested number of events, and at most 64
  request ids per transmit event.\<close>

theorem poll_devices_polls:
  assumes "\<And>vi n w. length (fst (eventq_poll vi n w)) \<le> n" "\<And>vi ev w. length (fst (f vi ev w)) \<le> 64"
    "code (transmit_unbundle st) = Some f"
    "poll_wf st" "\<And>a. a \<in> set (registered st) \<Longrightarrow> \<exists>d. h a = Some d \<and> device_ok d"
  shows "\<exists>h' w'. poll_devices eventq_poll code st h w = Some (h', w') \<and>
    all_polled eventq_poll f (registered st) h w h' w' \<and>
    (\<forall>a. a \<notin> set (registered st) \<longrightarrow> h' a = h a) \<and>
    (\<forall>a\<in>set (registered st). \<exists>d. h' a = Some d \<and> device_ok d)"
proof -
  have n: "0 + n_devices st \<le> length (devices st)" using assms(4) by (simp add: poll_wf_def)
  have reg: "take (n_devices st) (drop 0 (devices st)) = registered st" by (simp add: registered_def)
  from poll_loop_polled [where eventq_poll = eventq_poll and f = f and code = code and st = st and i = 0
      and n = "n_devices st" and h = h and w = w, OF assms(1-3) n] assms(5)
  obtain h' w' where r: "poll_devices eventq_poll code st h w = Some (h', w')"
    "all_polled eventq_poll f (registered st) h w h' w'"
    unfolding poll_devices_def reg by blast
  then show ?thesis
    using all_polled_frame [OF r(2)] all_polled_ok [OF r(2) assms(5)] by blast
qed

definition sample_device :: device where
  "sample_device = \<lparr>dev_vi = 1, n_ev = 0, dev_events = replicate 256 \<lparr>ev_type = 0, ev_rest = []\<rparr>,
     unbundled = replicate 256 \<lparr>n_tx_done = 0, tx_request_ids = replicate 64 0\<rparr>\<rparr>"

definition sample_poll :: poll_state where
  "sample_poll = \<lparr>devices = (replicate 256 0)[0 := 0x1000], n_devices = 1, transmit_unbundle = 0x400\<rparr>"

definition sample_poller :: "ef_event list poller" where
  "sample_poller vi n w = (take n w, drop n w)"

definition sample_unbundler :: "ef_event list unbundler" where
  "sample_unbundler vi ev w = (take 64 (map (unsigned :: u16 \<Rightarrow> u32) (ev_rest ev)), w)"

lemma sample_poll_wf: "poll_wf sample_poll" "registered sample_poll = [0x1000]"
  by (simp_all add: poll_wf_def registered_def sample_poll_def MAX_DEVICES_def take_update_swap)

lemma sample_device_ok: "device_ok sample_device"
  by (simp add: device_ok_def sample_device_def EVENTS_PER_POLL_def)

text \<open>A device to which the library delivers one transmit event with the id 5.\<close>

theorem poll_devices_polls_witness:
  "\<exists>h' w' d. poll_devices sample_poller [0x400 \<mapsto> sample_unbundler]
      sample_poll [0x1000 \<mapsto> sample_device] [\<lparr>ev_type = 1, ev_rest = [5]\<rparr>] = Some (h', w') \<and>
    h' 0x1000 = Some d \<and> n_ev d = 1 \<and> dev_events d ! 0 = \<lparr>ev_type = 1, ev_rest = [5]\<rparr> \<and>
    n_tx_done (unbundled d ! 0) = 1 \<and> tx_request_ids (unbundled d ! 0) ! 0 = 5"
proof -
  let ?ev = "\<lparr>ev_type = 1, ev_rest = [5]\<rparr> :: ef_event"
  have lib: "length (fst (sample_poller vi n w)) \<le> n" "length (fst (sample_unbundler vi ev w)) \<le> 64" for vi n w ev
    by (simp_all add: sample_poller_def sample_unbundler_def)
  have target: "[0x400 \<mapsto> sample_unbundler] (transmit_unbundle sample_poll) = Some sample_unbundler"
    by (simp add: sample_poll_def)
  have devs: "\<exists>d. [0x1000 \<mapsto> sample_device] a = Some d \<and> device_ok d" if "a \<in> set (registered sample_poll)" for a
    using that by (simp add: sample_poll_wf sample_device_ok)
  from poll_devices_polls [where eventq_poll = sample_poller and f = sample_unbundler
      and code = "[0x400 \<mapsto> sample_unbundler]" and st = sample_poll and h = "[0x1000 \<mapsto> sample_device]"
      and w = "[?ev]", OF lib target sample_poll_wf(1) devs] obtain h' w' where
    run: "poll_devices sample_poller [0x400 \<mapsto> sample_unbundler] sample_poll [0x1000 \<mapsto> sample_device] [?ev] = Some (h', w')"
    and "all_polled sample_poller sample_unbundler [0x1000] [0x1000 \<mapsto> sample_device] [?ev] h' w'"
    unfolding sample_poll_wf(2) by blast
  then obtain d where "h' 0x1000 = Some d" "device_polled sample_poller sample_unbundler sample_device [?ev] d w'"
    "device_ok d" by (auto simp: all_polled_cons all_polled_nil)
  moreover from this(2) have "n_ev d = 1" "dev_events d ! 0 = ?ev"
      "answered (Some [5]) (unbundled sample_device ! 0) (unbundled d ! 0)"
    by (auto simp: device_polled_def sample_poller_def sample_unbundler_def EVENTS_PER_POLL_def
        EF_EVENT_TYPE_TX_def dest: spec [of _ 0])
  moreover from this(3) have "n_tx_done (unbundled d ! 0) = 1" "tx_request_ids (unbundled d ! 0) ! 0 = 5"
    by (auto simp: answered_def take_Suc_conv_app_nth take_eq_Nil2 split: if_splits)
      (metis One_nat_def length_0_conv list.size(3) nth_Cons_0 nth_take take_eq_Nil zero_less_one)
  ultimately show ?thesis using run by blast
qed

end
