(* ===== verification/Vhost_User.thy ===== *)
theory Vhost_User
  imports Snabb_Prelude
begin

text \<open>
  The vhost-user socket transport (\<^verbatim>\<open>apps/vhost/vhost_user.c\<close>, \<^verbatim>\<open>apps/vhost/vhost_user.h\<close>). A message
  is the packed structure of a 12-byte header (request, flags, size) and a payload union of 264
  bytes. The kernel is a parameter: each system call consumes its next answer, an error number
  or a result, so that a list of answers is one behaviour of the kernel.
\<close>

datatype errno = EINTR | EAGAIN | EOTHER nat

definition VHOST_USER_MEMORY_MAX_NREGIONS :: nat where
  "VHOST_USER_MEMORY_MAX_NREGIONS = 8"

definition VHOST_USER_HDR_SIZE :: nat where
  "VHOST_USER_HDR_SIZE = 4 + 4 + 4"

text \<open>The payload union is as large as its largest member, the memory table: two 32-bit words and
  eight regions of four 64-bit words.\<close>

definition VHOST_USER_PAYLOAD_SIZE :: nat where
  "VHOST_USER_PAYLOAD_SIZE = 4 + 4 + VHOST_USER_MEMORY_MAX_NREGIONS * 32"

text \<open>The descriptors the process has open, and the socket paths bound.\<close>

record sock_state =
  open_fds :: "c_int set"
  bound :: "string set"

text \<open>The array \<^verbatim>\<open>un.sun_path\<close> of 108 bytes after \<^verbatim>\<open>strncpy(un.sun_path, path, sizeof(un.sun_path)-1)\<close>:
  the first 107 bytes are the path, cut or padded with zeros; the last byte keeps the arbitrary
  value \<open>stale\<close> that it had on the stack, since \<^verbatim>\<open>un\<close> is not cleared.\<close>

definition NUL :: char where
  "NUL = CHR 0x00"

definition sun_path :: "char \<Rightarrow> string \<Rightarrow> string" where
  "sun_path stale path = take 107 path @ replicate (107 - length path) NUL @ [stale]"

text \<open>Reading a zero-terminated string from an array, as \<^verbatim>\<open>unlink\<close> does: \<open>None\<close> when the array has no
  zero, where the reader runs past its end.\<close>

definition c_string :: "string \<Rightarrow> string option" where
  "c_string arr = (if NUL \<in> set arr then Some (takeWhile (\<lambda>c. c \<noteq> NUL) arr) else None)"

text \<open>The name that the kernel gives to an address of the size of the whole structure: the array up
  to its first zero, or the whole array when it starts with zero (an abstract address).\<close>

definition sun_name :: "string \<Rightarrow> string" where
  "sun_name arr = (case takeWhile (\<lambda>c. c \<noteq> NUL) arr of [] \<Rightarrow> arr | name \<Rightarrow> name)"

definition close_fd :: "c_int \<Rightarrow> sock_state \<Rightarrow> sock_state" where
  "close_fd s st = st\<lparr>open_fds := open_fds st - {s}\<rparr>"

definition vhost_user_connect ::
  "c_int option \<Rightarrow> char \<Rightarrow> (string \<Rightarrow> bool) \<Rightarrow> string \<Rightarrow> sock_state \<Rightarrow> c_int \<times> sock_state" where
  "vhost_user_connect socket_answer stale connect_ok path st =
     (case socket_answer of
        None \<Rightarrow> (- 1, st)
      | Some sock \<Rightarrow>
          let st = st\<lparr>open_fds := insert sock (open_fds st)\<rparr>
          in if connect_ok (sun_path stale path) then (sock, st) else (- 1, close_fd sock st))"

definition vhost_user_listen ::
  "c_int option \<Rightarrow> char \<Rightarrow> (string \<Rightarrow> bool) \<Rightarrow> bool \<Rightarrow> string \<Rightarrow> sock_state \<Rightarrow> (c_int \<times> sock_state) option" where
  "vhost_user_listen socket_answer stale bind_ok listen_ok path st =
     (case socket_answer of
        None \<Rightarrow> Some (- 1, st)
      | Some sock \<Rightarrow> do {
          let st = st\<lparr>open_fds := insert sock (open_fds st)\<rparr>;
          let un = sun_path stale path;
          unlinked \<leftarrow> c_string un;
          let st = st\<lparr>bound := bound st - {unlinked}\<rparr>;
          if \<not> bind_ok un then Some (- 1, close_fd sock st)
          else do {
            let st = st\<lparr>bound := insert (sun_name un) (bound st)\<rparr>;
            if \<not> listen_ok then Some (- 1, close_fd sock st) else Some (sock, st)
          }
        })"

text \<open>Both assertions abort.\<close>

definition vhost_user_accept :: "errno + c_int \<Rightarrow> bool \<Rightarrow> sock_state \<Rightarrow> (c_int \<times> sock_state) option" where
  "vhost_user_accept accept_answer fcntl_ok st =
     (case accept_answer of
        Inl e \<Rightarrow> if e = EAGAIN then Some (- 1, st) else None
      | Inr newsock \<Rightarrow> if fcntl_ok then Some (newsock, st\<lparr>open_fds := insert newsock (open_fds st)\<rparr>) else None)"

text \<open>\<^verbatim>\<open>do ret = call(); while (ret < 0 && errno == EINTR);\<close> No answer left means that the call has not
  returned.\<close>

fun retry_eintr :: "(errno + 'a) list \<Rightarrow> (errno + 'a) option" where
  "retry_eintr [] = None"
| "retry_eintr (Inl EINTR # xs) = retry_eintr xs"
| "retry_eintr (x # xs) = Some x"

text \<open>The \<^verbatim>\<open>size\<close> field of a message.\<close>

definition msg_size :: "u8 list \<Rightarrow> nat option" where
  "msg_size msg = do {
     b0 \<leftarrow> aget msg 8; b1 \<leftarrow> aget msg 9; b2 \<leftarrow> aget msg 10; b3 \<leftarrow> aget msg 11;
     Some (unat b0 + 256 * unat b1 + 65536 * unat b2 + 16777216 * unat b3)
   }"

text \<open>The bytes handed to \<^verbatim>\<open>sendmsg\<close> and the result; an answer is the number of bytes sent.\<close>

definition vhost_user_send :: "u8 list \<Rightarrow> (errno + nat) list \<Rightarrow> (u8 list \<times> int) option" where
  "vhost_user_send msg answers = do {
     n \<leftarrow> msg_size msg;
     if VHOST_USER_HDR_SIZE + n \<le> length msg then do {
       r \<leftarrow> retry_eintr answers;
       Some (take (VHOST_USER_HDR_SIZE + n) msg, case r of Inl _ \<Rightarrow> - 1 | Inr k \<Rightarrow> int k)
     } else None
   }"

text \<open>\<^verbatim>\<open>memcpy(dst + off, bytes, length bytes)\<close>\<close>

definition copy_to :: "'a list \<Rightarrow> nat \<Rightarrow> 'a list \<Rightarrow> 'a list option" where
  "copy_to dst off bytes =
     (if off + length bytes \<le> length dst
      then Some (take off dst @ bytes @ drop (off + length bytes) dst) else None)"

record cmsghdr =
  cmsg_len :: u64
  cmsg_rights :: bool
  cmsg_fds :: "c_int list"

text \<open>What \<^verbatim>\<open>recvmsg\<close> delivers: bytes for the header buffer, whether data or control data was
  truncated, and the first control message. \<^verbatim>\<open>cmsg_rights\<close> is the test for level \<^verbatim>\<open>SOL_SOCKET\<close> and type
  \<^verbatim>\<open>SCM_RIGHTS\<close>.\<close>

record recv_data =
  rd_bytes :: "u8 list"
  rd_trunc :: bool
  rd_cmsg :: "cmsghdr option"

definition CMSG_LEN_0 :: u64 where
  "CMSG_LEN_0 = 16"

text \<open>The descriptors copied out of the control message. The lengths are unsigned 64-bit.\<close>

definition take_fds :: "cmsghdr option \<Rightarrow> c_int list \<Rightarrow> (c_int list \<times> nat) option" where
  "take_fds c fds =
     (case c of
        None \<Rightarrow> Some (fds, 0)
      | Some c \<Rightarrow>
          let fd_size = of_nat (4 * VHOST_USER_MEMORY_MAX_NREGIONS) :: u64
          in if cmsg_len c > 0 \<and> cmsg_rights c \<and> fd_size \<ge> cmsg_len c - CMSG_LEN_0
             then let n = unat (cmsg_len c - CMSG_LEN_0) div 4 in do {
               fds \<leftarrow> copy_to fds 0 (take n (cmsg_fds c));
               Some (fds, n)
             }
             else Some (fds, 0))"

text \<open>The result: return value, message buffer, descriptor array and number of descriptors. The
  header read asks for 12 bytes, the payload read for \<^verbatim>\<open>msg->size\<close> bytes.\<close>

definition vhost_user_receive ::
  "u8 list \<Rightarrow> c_int list \<Rightarrow> (errno + recv_data) list \<Rightarrow> (errno + u8 list) list
     \<Rightarrow> (int \<times> u8 list \<times> c_int list \<times> nat) option" where
  "vhost_user_receive msg fds recv_answers read_answers = do {
     r \<leftarrow> retry_eintr recv_answers;
     case r of
       Inl _ \<Rightarrow> Some (- 1, msg, fds, 0)
     | Inr d \<Rightarrow> do {
         msg \<leftarrow> copy_to msg 0 (take VHOST_USER_HDR_SIZE (rd_bytes d));
         let ret = length (take VHOST_USER_HDR_SIZE (rd_bytes d));
         if ret = VHOST_USER_HDR_SIZE then
           if rd_trunc d then Some (- 1, msg, fds, 0)
           else do {
             (fds, nfds) \<leftarrow> take_fds (rd_cmsg d) fds;
             n \<leftarrow> msg_size msg;
             if n > 0 then do {
               q \<leftarrow> retry_eintr read_answers;
               case q of
                 Inl _ \<Rightarrow> Some (- 1, msg, fds, nfds)
               | Inr bytes \<Rightarrow> do {
                   msg \<leftarrow> copy_to msg VHOST_USER_HDR_SIZE (take n bytes);
                   Some (int (length (take n bytes)), msg, fds, nfds)
                 }
             }
             else Some (int ret, msg, fds, nfds)
           }
         else Some (int ret, msg, fds, 0)
       }
   }"

text \<open>\<^verbatim>\<open>mmap\<close> returns \<^verbatim>\<open>MAP_FAILED\<close>, all ones, on failure.\<close>

definition vhost_user_map_guest_memory :: "(c_int \<Rightarrow> u64 \<Rightarrow> ptr) \<Rightarrow> c_int \<Rightarrow> u64 \<Rightarrow> ptr" where
  "vhost_user_map_guest_memory mmap fd sz = (let p = mmap fd sz in if p = - 1 then 0 else p)"

text \<open>The two wrappers of \<^verbatim>\<open>munmap\<close> and of \<^verbatim>\<open>msync\<close> with the flags \<^verbatim>\<open>MS_SYNC | MS_INVALIDATE\<close>.\<close>

definition vhost_user_unmap_guest_memory :: "(ptr \<Rightarrow> u64 \<Rightarrow> c_int) \<Rightarrow> ptr \<Rightarrow> u64 \<Rightarrow> c_int" where
  "vhost_user_unmap_guest_memory munmap p sz = munmap p sz"

definition vhost_user_sync_shm :: "(ptr \<Rightarrow> u64 \<Rightarrow> c_int \<Rightarrow> c_int) \<Rightarrow> ptr \<Rightarrow> u64 \<Rightarrow> c_int" where
  "vhost_user_sync_shm msync p sz = msync p sz (4 OR 2)"

section \<open>Descriptors\<close>

lemma NUL_in_sun_path:
  assumes "NUL \<notin> set path"
  shows "NUL \<in> set (sun_path stale path) \<longleftrightarrow> length path < 107 \<or> stale = NUL"
  using assms by (auto simp: sun_path_def dest: in_set_takeD)

lemma takeWhile_sun_path:
  assumes "NUL \<notin> set path" "length path < 107 \<or> stale = NUL"
  shows "takeWhile (\<lambda>c. c \<noteq> NUL) (sun_path stale path) = take 107 path"
proof -
  have "c \<noteq> NUL" if "c \<in> set (take 107 path)" for c using that assms(1) in_set_takeD by metis
  moreover have "takeWhile (\<lambda>c. c \<noteq> NUL) (replicate (107 - length path) NUL @ [stale]) = []"
    using assms(2) by (cases "107 - length path") auto
  ultimately show ?thesis by (simp add: sun_path_def takeWhile_append2)
qed

lemma sun_path_named:
  assumes "NUL \<notin> set path" "length path < 107 \<or> stale = NUL"
  shows "c_string (sun_path stale path) = Some (take 107 path)"
    "path \<noteq> [] \<Longrightarrow> sun_name (sun_path stale path) = take 107 path"
  using NUL_in_sun_path [OF assms(1), of stale] takeWhile_sun_path [OF assms] assms(2)
  by (auto simp: c_string_def sun_name_def split: list.splits)

text \<open>C23: connecting and listening leak no descriptor: a call that returns -1 leaves the set of open
  descriptors as it was, and a call that returns a socket has added exactly that socket. A
  listening socket is bound to its path when the path has at most 107 characters, and to the
  first 107 characters of a longer one. For a path of 107 or more characters this depends on the
  uninitialised last byte of the address: when it is not zero, and only then, listening reads
  past the end of the array. The kernel hands out a descriptor that is not -1 and not open; the
  path is a C string that is not empty.\<close>

theorem vhost_user_no_fd_leak:
  assumes "\<And>s. answer = Some s \<Longrightarrow> s \<noteq> - 1 \<and> s \<notin> open_fds st" "NUL \<notin> set path" "path \<noteq> []"
  shows "(case vhost_user_connect answer stale connect_ok path st of (r, st') \<Rightarrow>
      if r = - 1 then open_fds st' = open_fds st else answer = Some r \<and> open_fds st' = insert r (open_fds st)) \<and>
    (case vhost_user_listen answer stale bind_ok listen_ok path st of
      None \<Rightarrow> answer \<noteq> None \<and> 107 \<le> length path \<and> stale \<noteq> NUL
    | Some (r, st') \<Rightarrow> (answer = None \<or> length path < 107 \<or> stale = NUL) \<and>
      (if r = - 1 then open_fds st' = open_fds st
       else answer = Some r \<and> open_fds st' = insert r (open_fds st) \<and>
         take 107 path \<in> bound st' \<and> (length path \<le> 107 \<longrightarrow> path \<in> bound st')))"
proof (cases "length path < 107 \<or> stale = NUL")
  case True
  with assms sun_path_named [OF assms(2) True] show ?thesis
    by (cases answer) (auto simp: vhost_user_connect_def vhost_user_listen_def close_fd_def Let_def)
next
  case False
  then have "c_string (sun_path stale path) = None"
    using NUL_in_sun_path [OF assms(2), of stale] by (simp add: c_string_def)
  with False assms show ?thesis
    by (cases answer) (auto simp: vhost_user_connect_def vhost_user_listen_def close_fd_def Let_def)
qed

theorem vhost_user_no_fd_leak_witness:
  "(\<exists>r st'. vhost_user_listen (Some 7) (CHR ''x'') (\<lambda>_. True) True ''/tmp/sock'' \<lparr>open_fds = {0, 1, 2}, bound = {}\<rparr>
      = Some (r, st') \<and> (if r = - 1 then open_fds st' = {0, 1, 2 :: c_int}
        else open_fds st' = {7, 0, 1, 2} \<and> ''/tmp/sock'' \<in> bound st')) \<and>
   vhost_user_listen (Some 7) (CHR ''x'') (\<lambda>_. True) True (replicate 200 (CHR ''a'')) \<lparr>open_fds = {0, 1, 2}, bound = {}\<rparr> = None"
  using vhost_user_no_fd_leak [of "Some 7" "\<lparr>open_fds = {0, 1, 2}, bound = {}\<rparr>" "''/tmp/sock''" "CHR ''x''" "\<lambda>_. True"
      "\<lambda>_. True" True]
    vhost_user_no_fd_leak [of "Some 7" "\<lparr>open_fds = {0, 1, 2}, bound = {}\<rparr>" "replicate 200 (CHR ''a'')" "CHR ''x''"
      "\<lambda>_. True" "\<lambda>_. True" True]
  by (auto simp: NUL_def split: option.splits if_splits)

section \<open>Receiving a message\<close>

lemma retry_eintr_append: "retry_eintr (replicate k (Inl EINTR) @ Inr x # xs) = Some (Inr x)"
  by (induction k) auto

lemma msg_size_prefix:
  "12 \<le> length hdr \<Longrightarrow> msg_size (hdr @ rest) = msg_size hdr"
  by (simp add: msg_size_def aget_def nth_append)

lemma msg_size_some: "12 \<le> length msg \<Longrightarrow> \<exists>n. msg_size msg = Some n"
  by (simp add: msg_size_def aget_def)

lemma take_fds_bound:
  assumes "length fds = VHOST_USER_MEMORY_MAX_NREGIONS"
  shows "\<exists>fds' n. take_fds c fds = Some (fds', n) \<and> n \<le> VHOST_USER_MEMORY_MAX_NREGIONS \<and>
    length fds' = VHOST_USER_MEMORY_MAX_NREGIONS"
proof (cases c)
  case (Some c')
  let ?n = "unat (cmsg_len c' - CMSG_LEN_0) div 4"
  have "?n \<le> 8" if "cmsg_len c' - CMSG_LEN_0 \<le> 32"
  proof -
    from that have "unat (cmsg_len c' - CMSG_LEN_0) \<le> 32" by (simp add: word_le_nat_alt)
    then show ?thesis by simp
  qed
  with Some assms show ?thesis
    by (auto simp: take_fds_def VHOST_USER_MEMORY_MAX_NREGIONS_def copy_to_def Let_def)
qed (use assms in \<open>simp add: take_fds_def\<close>)

text \<open>The rest of \<^verbatim>\<open>vhost_user_receive\<close> once a complete header has been read: the message \<open>m\<close> starts with
  that header, and \<open>n\<close> bytes of payload are announced.\<close>

lemma vhost_user_receive_header:
  assumes "length msg = VHOST_USER_HDR_SIZE + VHOST_USER_PAYLOAD_SIZE"
    "length fds = VHOST_USER_MEMORY_MAX_NREGIONS"
    "retry_eintr recv_answers = Some (Inr d)" "retry_eintr read_answers = Some q"
    "VHOST_USER_HDR_SIZE \<le> length (rd_bytes d)" "\<not> rd_trunc d" "msg_size (rd_bytes d) = Some n"
  shows "\<exists>m fds' nfds. length m = length msg \<and> nfds \<le> VHOST_USER_MEMORY_MAX_NREGIONS \<and>
    vhost_user_receive msg fds recv_answers read_answers =
      (if n > 0 then case q of Inl _ \<Rightarrow> Some (- 1, m, fds', nfds)
         | Inr bytes \<Rightarrow> copy_to m VHOST_USER_HDR_SIZE (take n bytes) \<bind>
             (\<lambda>m. Some (int (length (take n bytes)), m, fds', nfds))
       else Some (int VHOST_USER_HDR_SIZE, m, fds', nfds))"
proof -
  let ?hdr = "take VHOST_USER_HDR_SIZE (rd_bytes d)"
  define m where "m = ?hdr @ drop (length ?hdr) msg"
  have copy: "copy_to msg 0 ?hdr = Some m" using assms(1,5) by (simp add: copy_to_def m_def)
  have hdr: "length ?hdr = VHOST_USER_HDR_SIZE" using assms(5) by simp
  then have 12: "12 \<le> length ?hdr" by (simp add: VHOST_USER_HDR_SIZE_def)
  have "msg_size ?hdr = Some n"
    using assms(7) msg_size_prefix [OF 12, of "drop VHOST_USER_HDR_SIZE (rd_bytes d)"] by simp
  then have size: "msg_size m = Some n" unfolding m_def by (simp only: msg_size_prefix [OF 12])
  obtain fds' nfds where fds: "take_fds (rd_cmsg d) fds = Some (fds', nfds)" "nfds \<le> VHOST_USER_MEMORY_MAX_NREGIONS"
    using take_fds_bound [OF assms(2)] by blast
  have "length m = length msg" using hdr assms(1) by (simp add: m_def)
  moreover have "vhost_user_receive msg fds recv_answers read_answers =
      (if n > 0 then case q of Inl _ \<Rightarrow> Some (- 1, m, fds', nfds)
         | Inr bytes \<Rightarrow> copy_to m VHOST_USER_HDR_SIZE (take n bytes) \<bind>
             (\<lambda>m. Some (int (length (take n bytes)), m, fds', nfds))
       else Some (int VHOST_USER_HDR_SIZE, m, fds', nfds))"
    using assms(3,4,6) copy hdr fds(1) size
    by (simp add: vhost_user_receive_def Let_def del: length_take cong: sum.case_cong)
  ultimately show ?thesis using fds(2) by blast
qed

text \<open>C24: receiving into a message buffer of the declared size stays inside the buffer and the
  array of eight descriptors whatever the kernel delivers and however often it interrupts the
  calls, provided the size field of the header does not exceed the payload union.\<close>

theorem vhost_user_receive_safe:
  assumes "length msg = VHOST_USER_HDR_SIZE + VHOST_USER_PAYLOAD_SIZE"
    "length fds = VHOST_USER_MEMORY_MAX_NREGIONS"
    "retry_eintr recv_answers = Some r" "retry_eintr read_answers = Some q"
    "\<And>d n. r = Inr d \<Longrightarrow> msg_size (rd_bytes d) = Some n \<Longrightarrow> n \<le> VHOST_USER_PAYLOAD_SIZE"
  shows "\<exists>ret msg' fds' nfds. vhost_user_receive msg fds recv_answers read_answers = Some (ret, msg', fds', nfds) \<and>
    length msg' = length msg \<and> nfds \<le> VHOST_USER_MEMORY_MAX_NREGIONS"
proof (cases r)
  case (Inl e)
  with assms show ?thesis by (simp add: vhost_user_receive_def)
next
  case (Inr d)
  have recv: "retry_eintr recv_answers = Some (Inr d)" using assms(3) Inr by simp
  show ?thesis
  proof (cases "VHOST_USER_HDR_SIZE \<le> length (rd_bytes d) \<and> \<not> rd_trunc d")
    case True
    then obtain n where n: "msg_size (rd_bytes d) = Some n"
      using msg_size_some [of "rd_bytes d"] by (auto simp: VHOST_USER_HDR_SIZE_def)
    then have small: "n \<le> VHOST_USER_PAYLOAD_SIZE" using assms(5) [OF Inr] by simp
    from vhost_user_receive_header [OF assms(1,2) recv assms(4) conjunct1 [OF True] conjunct2 [OF True] n]
    obtain m fds' nfds where m: "length m = length msg" "nfds \<le> VHOST_USER_MEMORY_MAX_NREGIONS"
      and run: "vhost_user_receive msg fds recv_answers read_answers =
        (if n > 0 then case q of Inl _ \<Rightarrow> Some (- 1, m, fds', nfds)
           | Inr bytes \<Rightarrow> copy_to m VHOST_USER_HDR_SIZE (take n bytes) \<bind>
               (\<lambda>m. Some (int (length (take n bytes)), m, fds', nfds))
         else Some (int VHOST_USER_HDR_SIZE, m, fds', nfds))" by blast
    have "VHOST_USER_HDR_SIZE + length (take n bytes) \<le> length m" for bytes :: "u8 list"
      using m(1) assms(1) small by simp
    then show ?thesis using m by (cases q) (auto simp: run copy_to_def)
  next
    case False
    with recv assms(1) show ?thesis
      by (auto simp: vhost_user_receive_def Let_def copy_to_def min_def VHOST_USER_HDR_SIZE_def)
  qed
qed

theorem vhost_user_receive_safe_witness:
  "\<exists>ret msg' fds' nfds. vhost_user_receive (replicate 276 0) (replicate 8 0)
      [Inl EINTR, Inr \<lparr>rd_bytes = [1, 0, 0, 0, 1, 0, 0, 0, 2, 0, 0, 0], rd_trunc = False, rd_cmsg = None\<rparr>]
      [Inr [7, 7]] = Some (ret, msg', fds', nfds) \<and> length msg' = 276"
proof -
  have "\<exists>ret msg' fds' nfds. vhost_user_receive (replicate 276 0) (replicate 8 0)
      [Inl EINTR, Inr \<lparr>rd_bytes = [1, 0, 0, 0, 1, 0, 0, 0, 2, 0, 0, 0], rd_trunc = False, rd_cmsg = None\<rparr>]
      [Inr [7, 7]] = Some (ret, msg', fds', nfds) \<and> length msg' = length (replicate 276 (0 :: u8)) \<and>
      nfds \<le> VHOST_USER_MEMORY_MAX_NREGIONS"
    by (rule vhost_user_receive_safe)
       (auto simp: VHOST_USER_HDR_SIZE_def VHOST_USER_PAYLOAD_SIZE_def VHOST_USER_MEMORY_MAX_NREGIONS_def
         msg_size_def)
  then show ?thesis by (simp only: length_replicate) blast
qed



text \<open>A message that is sent arrives: when the kernel delivers the header in one \<^verbatim>\<open>recvmsg\<close> and
  the payload in one \<^verbatim>\<open>read\<close>, after any number of interruptions, the receiver's buffer starts with
  exactly the bytes the sender passed to \<^verbatim>\<open>sendmsg\<close>.\<close>

theorem vhost_user_send_receive:
  assumes "length msg = VHOST_USER_HDR_SIZE + VHOST_USER_PAYLOAD_SIZE" "length buf = length msg"
    "length fds = VHOST_USER_MEMORY_MAX_NREGIONS" "msg_size msg = Some n" "n \<le> VHOST_USER_PAYLOAD_SIZE"
  shows "\<exists>bytes ret buf' fds'. vhost_user_send msg (replicate i (Inl EINTR) @ [Inr (VHOST_USER_HDR_SIZE + n)])
      = Some (bytes, int (VHOST_USER_HDR_SIZE + n)) \<and>
    vhost_user_receive buf fds
      (replicate j (Inl EINTR) @ [Inr \<lparr>rd_bytes = bytes, rd_trunc = False, rd_cmsg = None\<rparr>])
      (replicate k (Inl EINTR) @ [Inr (drop VHOST_USER_HDR_SIZE bytes)]) = Some (ret, buf', fds', 0) \<and>
    take (VHOST_USER_HDR_SIZE + n) buf' = bytes"
proof -
  define bytes where "bytes = take (12 + n) msg"
  have len: "length msg = 276" "n \<le> 264" "length buf = 276" using assms
    by (simp_all add: VHOST_USER_HDR_SIZE_def VHOST_USER_PAYLOAD_SIZE_def VHOST_USER_MEMORY_MAX_NREGIONS_def)
  have send: "vhost_user_send msg (replicate i (Inl EINTR) @ [Inr (VHOST_USER_HDR_SIZE + n)])
      = Some (bytes, int (VHOST_USER_HDR_SIZE + n))"
    using assms(4) len by (simp add: vhost_user_send_def VHOST_USER_HDR_SIZE_def bytes_def retry_eintr_append)
  let ?hdr = "take 12 bytes"
  have hdr: "?hdr = take 12 msg" by (simp add: bytes_def min_def)
  have "msg_size (take 12 msg @ drop 12 msg) = msg_size (take 12 msg)"
    using len by (intro msg_size_prefix) simp
  then have size: "msg_size (?hdr @ rest) = Some n" for rest
    using assms(4) len by (subst msg_size_prefix) (simp_all add: hdr)
  have lb: "length bytes = 12 + n" using len by (simp add: bytes_def)
  have c1: "copy_to buf 0 ?hdr = Some (?hdr @ drop 12 buf)" using len lb by (simp add: copy_to_def)
  have c2: "copy_to (?hdr @ drop 12 buf) 12 (drop 12 bytes) = Some (bytes @ drop (12 + n) buf)"
    using len lb append_take_drop_id [of 12 bytes]
    by (simp add: copy_to_def add.commute [of n] append_assoc [symmetric] del: append_assoc)
  have c3: "?hdr @ drop 12 buf = bytes @ drop (12 + n) buf" if "n = 0" using that lb by simp
  have recv: "\<exists>ret. vhost_user_receive buf fds
      (replicate j (Inl EINTR) @ [Inr \<lparr>rd_bytes = bytes, rd_trunc = False, rd_cmsg = None\<rparr>])
      (replicate k (Inl EINTR) @ [Inr (drop VHOST_USER_HDR_SIZE bytes)]) = Some (ret, bytes @ drop (12 + n) buf, fds, 0)"
    using c1 c2 c3 size lb
    by (cases "n = 0") (simp_all add: vhost_user_receive_def VHOST_USER_HDR_SIZE_def retry_eintr_append take_fds_def)
  from recv obtain ret where "vhost_user_receive buf fds
      (replicate j (Inl EINTR) @ [Inr \<lparr>rd_bytes = bytes, rd_trunc = False, rd_cmsg = None\<rparr>])
      (replicate k (Inl EINTR) @ [Inr (drop VHOST_USER_HDR_SIZE bytes)]) = Some (ret, bytes @ drop (12 + n) buf, fds, 0)"
    by blast
  moreover have "take (VHOST_USER_HDR_SIZE + n) (bytes @ drop (12 + n) buf) = bytes"
    using lb by (simp add: VHOST_USER_HDR_SIZE_def)
  ultimately show ?thesis using send by blast
qed

theorem vhost_user_send_receive_witness:
  "\<exists>bytes ret buf' fds'. vhost_user_send ([1, 0, 0, 0, 1, 0, 0, 0, 2, 0, 0, 0] @ replicate 264 9)
      [Inl EINTR, Inr 14] = Some (bytes, 14) \<and>
    vhost_user_receive (replicate 276 0) (replicate 8 0)
      [Inr \<lparr>rd_bytes = bytes, rd_trunc = False, rd_cmsg = None\<rparr>] [Inr (drop 12 bytes)] = Some (ret, buf', fds', 0) \<and>
    take 14 buf' = bytes"
  using vhost_user_send_receive [of "[1, 0, 0, 0, 1, 0, 0, 0, 2, 0, 0, 0] @ replicate 264 9" "replicate 276 0"
      "replicate 8 0" 2 "Suc 0" 0 0]
  by (simp add: VHOST_USER_HDR_SIZE_def VHOST_USER_PAYLOAD_SIZE_def VHOST_USER_MEMORY_MAX_NREGIONS_def
      msg_size_def)

end
