(* ===== verification/Dma_Memory.thy ===== *)
theory Dma_Memory
  imports Snabb_Prelude
begin

text \<open>
  On-demand mapping of DMA memory (\<^verbatim>\<open>core/memory.c\<close>), shared memory regions
  (\<^verbatim>\<open>lib/ipc/shmem/shmem.c\<close>) and the clock and file helpers of \<^verbatim>\<open>core/lib.c\<close>. The operating system is a
  parameter: a record of the answers of its calls.
\<close>

section \<open>The SIGSEGV handler\<close>

definition TAG :: u64 where
  "TAG = 0x500000000000"

definition PATH_MAX :: nat where
  "PATH_MAX = 256"

text \<open>\<^verbatim>\<open>handler\<close> is whether our handler or the default action is installed for SIGSEGV; \<^verbatim>\<open>killed\<close> that the
  process resent itself the signal with the default action.\<close>

record mem_state =
  page_mask :: u64
  path_template :: string
  memory_demand_mappings :: c_int
  handler :: bool
  mapped :: "(u64 \<times> u64) list"
  killed :: bool

record os =
  os_snprintf :: "string \<Rightarrow> u64 \<Rightarrow> string"
  os_open :: "string \<Rightarrow> c_int option"
  os_fstat_size :: "c_int \<Rightarrow> u64 option"
  os_mmap_fixed :: "u64 \<Rightarrow> u64 \<Rightarrow> c_int \<Rightarrow> bool"
  os_sigaction :: bool

definition set_sigsegv_handler :: "os \<Rightarrow> mem_state \<Rightarrow> mem_state option" where
  "set_sigsegv_handler os st = (if os_sigaction os then Some (st\<lparr>handler := True\<rparr>) else None)"

definition punt :: "mem_state \<Rightarrow> mem_state" where
  "punt st = st\<lparr>killed := True\<rparr>"

definition memory_sigsegv_handler :: "os \<Rightarrow> u64 \<Rightarrow> mem_state \<Rightarrow> mem_state option" where
  "memory_sigsegv_handler os address st =
     (let page = address AND NOT TAG AND page_mask st;
          st = st\<lparr>handler := False\<rparr>
      in if address AND TAG \<noteq> TAG then Some (punt st)
         else case os_open os (take (PATH_MAX - 1) (os_snprintf os (path_template st) page)) of
           None \<Rightarrow> Some (punt st)
         | Some fd \<Rightarrow>
             (case os_fstat_size os fd of
                None \<Rightarrow> Some (punt st)
              | Some st_size \<Rightarrow>
                  if \<not> os_mmap_fixed os (page OR TAG) st_size fd then Some (punt st)
                  else set_sigsegv_handler os
                    (st\<lparr>mapped := (page OR TAG, st_size) # mapped st,
                        memory_demand_mappings := memory_demand_mappings st + 1\<rparr>)))"

text \<open>\<^verbatim>\<open>huge_page_size - 1\<close> is an \<^verbatim>\<open>int\<close>, sign-extended to 64 bits.\<close>

definition memory_sigsegv_setup :: "os \<Rightarrow> c_int \<Rightarrow> string \<Rightarrow> mem_state \<Rightarrow> mem_state option" where
  "memory_sigsegv_setup os huge_page_size path st =
     (if length path < PATH_MAX
      then set_sigsegv_handler os
        (st\<lparr>page_mask := NOT (scast (huge_page_size - 1)), path_template := path, memory_demand_mappings := 0\<rparr>)
      else None)"

text \<open>A memory access of the process: it faults when no mapping covers the address, and the
  instruction is then restarted by the return of the handler.\<close>

definition is_mapped :: "mem_state \<Rightarrow> u64 \<Rightarrow> bool" where
  "is_mapped st a \<longleftrightarrow> (\<exists>(s, n)\<in>set (mapped st). unat s \<le> unat a \<and> unat a < unat s + unat n)"

definition access :: "os \<Rightarrow> u64 \<Rightarrow> mem_state \<Rightarrow> mem_state option" where
  "access os a st = (if is_mapped st a then Some st else memory_sigsegv_handler os a st)"

fun accesses :: "os \<Rightarrow> u64 list \<Rightarrow> mem_state \<Rightarrow> mem_state option" where
  "accesses os [] st = Some st"
| "accesses os (a # as) st = do { st \<leftarrow> access os a st; accesses os as st }"

subsection \<open>Tagged pages\<close>

lemma bit_TAG: "bit TAG n \<longleftrightarrow> n = 44 \<or> n = 46"
proof -
  have "TAG = push_bit 44 1 OR push_bit 46 1" by (simp add: TAG_def)
  then have "bit TAG n = bit (push_bit 44 1 OR push_bit 46 1 :: u64) n" by simp
  also have "\<dots> \<longleftrightarrow> n = 44 \<or> n = 46" by (auto simp: bit_simps simp del: push_bit_of_1)
  finally show ?thesis .
qed

lemma tagged_page:
  assumes "a AND TAG = TAG" "k \<le> 44"
  shows "(a AND NOT TAG AND NOT (mask k)) OR TAG = a AND NOT (mask k)"
proof (rule bit_word_eqI)
  fix n
  assume n: "n < LENGTH(64)"
  have "bit a n" if "bit TAG n" using that assms(1) by (metis bit_and_iff)
  moreover have "\<not> n < k" if "bit TAG n" using that assms(2) by (auto simp: bit_TAG)
  ultimately show "bit ((a AND NOT TAG AND NOT (mask k)) OR TAG) n = bit (a AND NOT (mask k)) n"
    using n by (auto simp: bit_simps)
qed

text \<open>The start of the huge page of \<open>2 ^ k\<close> bytes that holds an address.\<close>

definition page_of :: "nat \<Rightarrow> u64 \<Rightarrow> u64" where
  "page_of k a = a AND NOT (mask k)"

lemma unat_page_of: "unat (page_of k a) = 2 ^ k * (unat a div 2 ^ k)"
proof -
  have "a = page_of k a OR (a AND mask k)"
    by (rule bit_word_eqI) (auto simp: page_of_def bit_simps)
  moreover have "page_of k a AND (a AND mask k) = 0"
    by (rule bit_word_eqI) (auto simp: page_of_def bit_simps)
  ultimately have "unat a = unat (page_of k a) + unat (a AND mask k)" by (metis unat_or_disjoint)
  then have "unat a = unat (page_of k a) + unat a mod 2 ^ k" by (simp add: unat_and_mask)
  then show ?thesis by (metis add_right_cancel mult_div_mod_eq)
qed

lemma page_of_eq_iff: "page_of k a = page_of k b \<longleftrightarrow> unat a div 2 ^ k = unat b div 2 ^ k"
  by (simp add: word_unat_eq_iff unat_page_of)

lemma in_page_iff:
  "unat (page_of k b) \<le> unat a \<and> unat a < unat (page_of k b) + 2 ^ k \<longleftrightarrow> page_of k a = page_of k b"
proof -
  have "unat (page_of k b) \<le> unat a \<and> unat a < unat (page_of k b) + 2 ^ k \<longleftrightarrow>
      unat a div 2 ^ k = unat b div 2 ^ k"
    unfolding unat_page_of
    by (metis add.commute div_nat_eqI div_times_less_eq_dividend dividend_less_times_div mult.commute
        mult_Suc_right zero_less_numeral zero_less_power)
  then show ?thesis by (simp add: page_of_eq_iff)
qed

lemma scast_mask:
  assumes "k \<le> 30"
  shows "scast (2 ^ k - 1 :: c_int) = (mask k :: u64)"
proof (rule bit_word_eqI)
  fix n
  assume "n < LENGTH(64)"
  then show "bit (scast (2 ^ k - 1 :: c_int) :: u64) n = bit (mask k :: u64) n"
    using assms by (auto simp: bit_simps simp flip: mask_eq_exp_minus_1)
qed

text \<open>The system holds a file of one huge page for the address and can map it.\<close>

definition serves :: "os \<Rightarrow> string \<Rightarrow> nat \<Rightarrow> u64 \<Rightarrow> bool" where
  "serves os path k a \<longleftrightarrow> a AND TAG = TAG \<and>
     (\<exists>fd. os_open os (take (PATH_MAX - 1) (os_snprintf os path (a AND NOT TAG AND NOT (mask k)))) = Some fd \<and>
           os_fstat_size os fd = Some (2 ^ k) \<and> os_mmap_fixed os (page_of k a) (2 ^ k) fd)"

text \<open>The pages mapped on demand, each once; the counter counts them.\<close>

definition mem_inv :: "string \<Rightarrow> nat \<Rightarrow> u64 set \<Rightarrow> mem_state \<Rightarrow> bool" where
  "mem_inv path k P st \<longleftrightarrow> page_mask st = NOT (mask k) \<and> path_template st = path \<and> handler st \<and> \<not> killed st \<and>
     set (mapped st) = (\<lambda>a. (page_of k a, 2 ^ k)) ` P \<and>
     memory_demand_mappings st = of_nat (card (page_of k ` P)) \<and> finite P"

lemma is_mapped_iff:
  assumes "mem_inv path k P st" "k \<le> 30"
  shows "is_mapped st a \<longleftrightarrow> page_of k a \<in> page_of k ` P"
proof -
  have "unat (2 ^ k :: u64) = 2 ^ k" using assms(2) by (simp add: unat_power2)
  then have "is_mapped st a \<longleftrightarrow> (\<exists>b\<in>P. unat (page_of k b) \<le> unat a \<and> unat a < unat (page_of k b) + 2 ^ k)"
    using assms(1) by (auto simp: is_mapped_def mem_inv_def)
  then show ?thesis by (auto simp: in_page_iff)
qed

lemma access_inv:
  assumes inv: "mem_inv path k P st" and k: "k \<le> 30" and os: "os_sigaction os" "serves os path k a"
  shows "\<exists>st'. access os a st = Some st' \<and> mem_inv path k (insert a P) st'"
proof (cases "is_mapped st a")
  case True
  then have pa: "page_of k a \<in> page_of k ` P" using is_mapped_iff [OF inv k] by simp
  then have "page_of k ` insert a P = page_of k ` P" by auto
  moreover have "(\<lambda>a. (page_of k a, 2 ^ k :: u64)) ` insert a P = (\<lambda>a. (page_of k a, 2 ^ k)) ` P"
    using pa by auto
  ultimately have "mem_inv path k (insert a P) st"
    using inv unfolding mem_inv_def by (simp only: finite_insert) simp
  with True show ?thesis by (simp add: access_def)
next
  case False
  then have new: "page_of k a \<notin> page_of k ` P" using is_mapped_iff [OF inv k] by simp
  from os(2) obtain fd where tag: "a AND TAG = TAG" and fd:
    "os_open os (take (PATH_MAX - 1) (os_snprintf os path (a AND NOT TAG AND NOT (mask k)))) = Some fd"
    "os_fstat_size os fd = Some (2 ^ k)" "os_mmap_fixed os (page_of k a) (2 ^ k) fd"
    by (auto simp: serves_def)
  have page: "(a AND NOT TAG AND NOT (mask k)) OR TAG = page_of k a"
    using tagged_page [OF tag, of k] k by (simp add: page_of_def)
  have st: "page_mask st = NOT (mask k)" "path_template st = path" using inv by (simp_all add: mem_inv_def)
  let ?st = "st\<lparr>handler := True, mapped := (page_of k a, 2 ^ k) # mapped st,
      memory_demand_mappings := memory_demand_mappings st + 1\<rparr>"
  have "access os a st = Some ?st"
    using False tag fd page os(1) st
    by (simp add: access_def memory_sigsegv_handler_def set_sigsegv_handler_def)
  moreover have "mem_inv path k (insert a P) ?st"
    using inv new by (simp add: mem_inv_def)
  ultimately show ?thesis by blast
qed

lemma accesses_inv:
  assumes "mem_inv path k P st" "k \<le> 30" "os_sigaction os" "\<And>a. a \<in> set as \<Longrightarrow> serves os path k a"
  shows "\<exists>st'. accesses os as st = Some st' \<and> mem_inv path k (set as \<union> P) st'"
  using assms
proof (induction as arbitrary: P st)
  case (Cons a as)
  from access_inv [OF Cons.prems(1-3)] Cons.prems(4) obtain st1 where
    "access os a st = Some st1" "mem_inv path k (insert a P) st1" by auto
  with Cons.IH [of "insert a P" st1] Cons.prems(2-4) show ?case by auto
qed auto

text \<open>C13: after setup with a huge page size of \<open>2 ^ k\<close> bytes, a process may access any sequence of
  tagged addresses whose page files the system can map: every address accessed ends up mapped,
  at its own address, the process is never killed, the handler stays installed, and each huge
  page is mapped exactly once: the counter equals the number of different pages touched.\<close>

theorem demand_mapping_transparent:
  assumes "k \<le> 30" "length path < PATH_MAX" "os_sigaction os" "\<And>a. a \<in> set as \<Longrightarrow> serves os path k a"
    "mapped st0 = []" "\<not> killed st0"
  shows "\<exists>st st'. memory_sigsegv_setup os (2 ^ k) path st0 = Some st \<and> accesses os as st = Some st' \<and>
    (\<forall>a\<in>set as. is_mapped st' a) \<and> \<not> killed st' \<and> handler st' \<and>
    memory_demand_mappings st' = of_nat (card (page_of k ` set as))"
proof -
  let ?st = "st0\<lparr>page_mask := NOT (mask k), path_template := path, memory_demand_mappings := 0, handler := True\<rparr>"
  have init: "memory_sigsegv_setup os (2 ^ k) path st0 = Some ?st"
    using assms(1-3) by (simp add: memory_sigsegv_setup_def set_sigsegv_handler_def scast_mask)
  have "mem_inv path k {} ?st" using assms(5,6) by (simp add: mem_inv_def)
  from accesses_inv [OF this assms(1,3,4)] obtain st' where
    st': "accesses os as ?st = Some st'" "mem_inv path k (set as) st'" by auto
  then have "\<forall>a\<in>set as. is_mapped st' a" using is_mapped_iff [OF st'(2) assms(1)] by auto
  with init st' show ?thesis by (auto simp: mem_inv_def)
qed

definition sample_os :: os where
  "sample_os = \<lparr>os_snprintf = (\<lambda>t p. t), os_open = (\<lambda>_. Some 5), os_fstat_size = (\<lambda>_. Some (2 ^ 21)),
     os_mmap_fixed = (\<lambda>_ _ _. True), os_sigaction = True\<rparr>"

definition sample_mem :: mem_state where
  "sample_mem = \<lparr>page_mask = 0, path_template = [], memory_demand_mappings = 0, handler = False, mapped = [],
     killed = False\<rparr>"

theorem demand_mapping_transparent_witness:
  "\<exists>st st'. memory_sigsegv_setup sample_os (2 ^ 21) ''/dma'' sample_mem = Some st \<and>
     accesses sample_os [0x500000000010, 0x500000200000] st = Some st' \<and>
     (\<forall>a\<in>set [0x500000000010, 0x500000200000]. is_mapped st' a) \<and> \<not> killed st' \<and> handler st' \<and>
     memory_demand_mappings st' = of_nat (card (page_of 21 ` set [0x500000000010, 0x500000200000]))"
  by (rule demand_mapping_transparent)
     (auto simp: serves_def sample_os_def sample_mem_def TAG_def PATH_MAX_def)

text \<open>A fault that the handler cannot serve (an address without the tag, a page without a
  file, a failing stat or mapping) maps nothing, leaves the default action installed and ends the
  process with the original signal; the counter does not change.\<close>

theorem memory_fault_punts:
  assumes "address AND TAG \<noteq> TAG \<or>
     (case os_open os (take (PATH_MAX - 1) (os_snprintf os (path_template st) (address AND NOT TAG AND page_mask st))) of
        None \<Rightarrow> True
      | Some fd \<Rightarrow> case os_fstat_size os fd of None \<Rightarrow> True
          | Some n \<Rightarrow> \<not> os_mmap_fixed os (address AND NOT TAG AND page_mask st OR TAG) n fd)"
  shows "memory_sigsegv_handler os address st = Some (st\<lparr>handler := False, killed := True\<rparr>)"
  using assms by (auto simp: memory_sigsegv_handler_def punt_def Let_def split: option.splits)

theorem memory_fault_punts_witness:
  "memory_sigsegv_handler sample_os 0x1234 sample_mem = Some (sample_mem\<lparr>handler := False, killed := True\<rparr>)"
  by (rule memory_fault_punts) (simp add: TAG_def)

section \<open>Shared memory regions\<close>

text \<open>The file behind the region and the mappings of the process, by start address. The answers of
  \<^verbatim>\<open>munmap\<close>, \<^verbatim>\<open>ftruncate\<close> and \<^verbatim>\<open>mmap\<close> are arguments; \<^verbatim>\<open>MAP_FAILED\<close> is \<open>None\<close>.\<close>

record shm_state =
  shm_file_size :: u64
  shm_maps :: "ptr \<rightharpoonup> u64"

definition shmem_unmap :: "bool \<Rightarrow> ptr \<Rightarrow> u64 \<Rightarrow> shm_state \<Rightarrow> bool \<times> shm_state" where
  "shmem_unmap munmap_ok mem sz st =
     (if \<not> munmap_ok then (False, st) else (True, st\<lparr>shm_maps := (shm_maps st)(mem := None)\<rparr>))"

definition shmem_grow ::
  "bool \<Rightarrow> bool \<Rightarrow> ptr option \<Rightarrow> ptr \<Rightarrow> u64 \<Rightarrow> u64 \<Rightarrow> shm_state \<Rightarrow> ptr \<times> shm_state" where
  "shmem_grow munmap_ok ftruncate_ok mmap_answer old_mem old_size new_size st =
     (let (ok, st) = (if old_mem \<noteq> 0 then shmem_unmap munmap_ok old_mem old_size st else (True, st))
      in if \<not> ok then (0, st)
         else if \<not> ftruncate_ok then (0, st)
         else let st = st\<lparr>shm_file_size := new_size\<rparr>
           in case mmap_answer of
                None \<Rightarrow> (0, st)
              | Some mem \<Rightarrow> (mem, st\<lparr>shm_maps := (shm_maps st)(mem \<mapsto> new_size)\<rparr>))"

definition shmem_attach :: "ptr option \<Rightarrow> u64 \<Rightarrow> shm_state \<Rightarrow> ptr \<times> shm_state" where
  "shmem_attach mmap_answer len st =
     (case mmap_answer of
        None \<Rightarrow> (0, st)
      | Some mem \<Rightarrow> (mem, st\<lparr>shm_maps := (shm_maps st)(mem \<mapsto> len)\<rparr>))"

text \<open>Growing a region either returns the address of a mapping of the new size over a file of
  the new size, with no other mapping left of the old one, or returns NULL; in that case no mapping is gained, and the old
  one survives exactly when \<^verbatim>\<open>munmap\<close> itself failed. The kernel maps at a non-null address.\<close>

theorem shmem_grow_correct:
  assumes "mmap_answer \<noteq> Some 0"
  shows "case shmem_grow munmap_ok ftruncate_ok mmap_answer old_mem old_size new_size st of (r, st') \<Rightarrow>
    (if r \<noteq> 0
     then shm_file_size st' = new_size \<and>
       shm_maps st' = (if old_mem = 0 then shm_maps st else (shm_maps st)(old_mem := None))(r \<mapsto> new_size)
     else shm_maps st' = (if old_mem = 0 \<or> \<not> munmap_ok then shm_maps st else (shm_maps st)(old_mem := None)))"
  using assms
  by (cases mmap_answer) (auto simp: shmem_grow_def shmem_unmap_def Let_def)

theorem shmem_grow_correct_witness:
  "shm_maps (snd (shmem_grow True True (Some 0x2000) 0x1000 4096 8192
     \<lparr>shm_file_size = 4096, shm_maps = [0x1000 \<mapsto> 4096]\<rparr>)) = [0x2000 \<mapsto> 8192]"
  using shmem_grow_correct [where mmap_answer = "Some 0x2000" and munmap_ok = True and ftruncate_ok = True
      and old_mem = "0x1000" and old_size = 4096 and new_size = 8192
      and st = "\<lparr>shm_file_size = 4096, shm_maps = [0x1000 \<mapsto> 4096]\<rparr>"]
  by (simp add: shmem_grow_def shmem_unmap_def split: prod.splits)

section \<open>Clock and file helpers\<close>

text \<open>The \<^verbatim>\<open>timespec\<close> delivered by \<^verbatim>\<open>clock_gettime\<close> is an argument.\<close>

record timespec =
  tv_sec :: "64 word"
  tv_nsec :: "64 word"

definition get_time_ns :: "timespec \<Rightarrow> u64" where
  "get_time_ns ts = tv_sec ts * 1000000000 + tv_nsec ts"

text \<open>\<^verbatim>\<open>sleep_ns\<close> keeps its request in a static structure whose seconds stay zero.\<close>

definition sleep_ns :: "c_int \<Rightarrow> timespec \<Rightarrow> timespec" where
  "sleep_ns nanoseconds time = time\<lparr>tv_nsec := scast nanoseconds\<rparr>"

definition stat_mtime :: "64 word option \<Rightarrow> u32" where
  "stat_mtime mtime = (case mtime of Some t \<Rightarrow> ucast t | None \<Rightarrow> 0)"

text \<open>The nanosecond clock is exact for some 580 years of uptime, hence monotonic when the clock is.\<close>

lemma get_time_ns_exact:
  assumes "unat (tv_sec ts) < 2 ^ 34" "unat (tv_nsec ts) < 1000000000"
  shows "unat (get_time_ns ts) = unat (tv_sec ts) * 1000000000 + unat (tv_nsec ts)"
  using assms by (simp add: get_time_ns_def unat_word_ariths)

end
