(* ===== verification/Prng.thy ===== *)
theory Prng
  imports Snabb_Prelude
begin

text \<open>
  The combined Tausworthe generator of RaptorJIT (\<^verbatim>\<open>lj_prng.c\<close>, \<^verbatim>\<open>lj_prng.h\<close>), its conditioning and its
  seeding from the system. The four words of the state are the fields of a record.
\<close>

record prng_state =
  u0 :: u64
  u1 :: u64
  u2 :: u64
  u3 :: u64

text \<open>The new value of a generator word; the macro's parameters are \<open>k\<close>, \<open>q\<close> and \<open>s\<close>.\<close>

definition TW223_GEN :: "nat \<Rightarrow> nat \<Rightarrow> nat \<Rightarrow> u64 \<Rightarrow> u64" where
  "TW223_GEN k q s z =
     drop_bit (k - s) (push_bit q z XOR z) XOR push_bit s (z AND push_bit (64 - k) (- 1))"

definition TW223_STEP :: "prng_state \<Rightarrow> u64 \<times> prng_state" where
  "TW223_STEP rs =
     (let z0 = TW223_GEN 63 31 18 (u0 rs);
          z1 = TW223_GEN 58 19 28 (u1 rs);
          z2 = TW223_GEN 55 24 7 (u2 rs);
          z3 = TW223_GEN 47 21 8 (u3 rs)
      in (0 XOR z0 XOR z1 XOR z2 XOR z3, \<lparr>u0 = z0, u1 = z1, u2 = z2, u3 = z3\<rparr>))"

definition lj_prng_u64 :: "prng_state \<Rightarrow> u64 \<times> prng_state" where
  "lj_prng_u64 rs = TW223_STEP rs"

definition lj_prng_u64d :: "prng_state \<Rightarrow> u64 \<times> prng_state" where
  "lj_prng_u64d rs =
     (let (r, rs) = TW223_STEP rs in ((r AND 0x000fffffffffffff) OR 0x3ff0000000000000, rs))"

definition lj_prng_condition :: "prng_state \<Rightarrow> prng_state" where
  "lj_prng_condition rs =
     (let rs = (if u0 rs < 2 ^ 1 then rs\<lparr>u0 := u0 rs + 2 ^ 1\<rparr> else rs);
          rs = (if u1 rs < 2 ^ 6 then rs\<lparr>u1 := u1 rs + 2 ^ 6\<rparr> else rs);
          rs = (if u2 rs < 2 ^ 9 then rs\<lparr>u2 := u2 rs + 2 ^ 9\<rparr> else rs);
          rs = (if u3 rs < 2 ^ 17 then rs\<lparr>u3 := u3 rs + 2 ^ 17\<rparr> else rs)
      in rs)"

definition lj_prng_seed_fixed :: prng_state where
  "lj_prng_seed_fixed = \<lparr>u0 = 0xa0d277570a345b8c, u1 = 0x764a296c5d4aa64f,
     u2 = 0x51220704070adeaa, u3 = 0x2a2717b5a7b7b927\<rparr>"

text \<open>The system's answers: what \<^verbatim>\<open>getrandom\<close> filled in, if it filled all 32 bytes; whether
  \<^verbatim>\<open>/dev/urandom\<close> opened, and what a full read of it gave.\<close>

definition lj_prng_seed_secure ::
  "prng_state option \<Rightarrow> bool \<Rightarrow> prng_state option \<Rightarrow> prng_state \<Rightarrow> bool \<times> prng_state" where
  "lj_prng_seed_secure getrandom urandom_open urandom_read rs =
     (let ok = (\<lambda>rs. (True, snd (lj_prng_u64 (lj_prng_condition rs))))
      in case getrandom of
           Some rs \<Rightarrow> ok rs
         | None \<Rightarrow>
             if urandom_open then case urandom_read of Some rs \<Rightarrow> ok rs | None \<Rightarrow> (False, rs)
             else (False, rs))"

section \<open>No generator degenerates\<close>

text \<open>The top \<open>k\<close> bits of each word, which carry the state of the generator, are not all zero.\<close>

definition live :: "nat \<Rightarrow> u64 \<Rightarrow> bool" where
  "live k z \<longleftrightarrow> (\<exists>n. 64 - k \<le> n \<and> n < 64 \<and> bit z n)"

definition conditioned :: "prng_state \<Rightarrow> bool" where
  "conditioned rs \<longleftrightarrow> live 63 (u0 rs) \<and> live 58 (u1 rs) \<and> live 55 (u2 rs) \<and> live 47 (u3 rs)"

lemma bit_TW223_GEN:
  assumes "0 < s" "s < k" "k \<le> 64" "q + s \<le> k" "n < 64" "64 - k \<le> n"
  shows "bit (TW223_GEN k q s z) n \<longleftrightarrow>
    (if 64 - k + s \<le> n then bit z (n - s) else bit z (n + (k - s)) \<noteq> bit z (n + (k - s) - q))"
proof -
  have shifted: "bit (drop_bit d (push_bit q z XOR z)) n \<longleftrightarrow>
      n + d < 64 \<and> (q \<le> n + d \<and> bit z (n + d - q)) \<noteq> bit z (n + d)" for d
    using bit_imp_le_length [of z "n + d"]
    by (auto simp: bit_drop_bit_eq bit_xor_iff bit_push_bit_iff add.commute)
  have masked: "bit (push_bit s (z AND push_bit m (- 1))) n \<longleftrightarrow> s \<le> n \<and> bit z (n - s) \<and> m \<le> n - s" for m
    using assms(5) by (auto simp: bit_push_bit_iff bit_and_iff bit_not_iff_eq bit_mask_iff)
  have raw: "bit (TW223_GEN k q s z) n \<longleftrightarrow>
      (n + (k - s) < 64 \<and> (q \<le> n + (k - s) \<and> bit z (n + (k - s) - q)) \<noteq> bit z (n + (k - s))) \<noteq>
      (s \<le> n \<and> bit z (n - s) \<and> 64 - k \<le> n - s)"
    unfolding TW223_GEN_def bit_xor_iff [of _ _ n] shifted masked ..
  show ?thesis
  proof (cases "64 - k + s \<le> n")
    case True
    with assms have "\<not> n + (k - s) < 64" "s \<le> n" "64 - k \<le> n - s" by linarith+
    with True raw show ?thesis by simp
  next
    case False
    with assms have "n + (k - s) < 64" "q \<le> n + (k - s)" "\<not> (s \<le> n \<and> 64 - k \<le> n - s)" by linarith+
    with False raw show ?thesis by auto
  qed
qed

lemma TW223_GEN_live:
  assumes "0 < q" "0 < s" "s < k" "k \<le> 64" "q + s \<le> k" "live k z"
  shows "live k (TW223_GEN k q s z)"
proof (rule ccontr)
  assume "\<not> live k (TW223_GEN k q s z)"
  then have dead: "\<not> bit (TW223_GEN k q s z) n" if "64 - k \<le> n" "n < 64" for n
    using that by (auto simp: live_def)
  have low: "\<not> bit z n" if "64 - k \<le> n" "n < 64 - s" for n
  proof -
    have r: "n + s < 64" "64 - k \<le> n + s" "64 - k + s \<le> n + s" using that by linarith+
    with bit_TW223_GEN [OF assms(2-5) r(1,2), of z] dead [OF r(2,1)] show ?thesis by simp
  qed
  have high: "bit z (n + q) = bit z n" if "64 - s \<le> n + q" "n + q < 64" for n
  proof -
    let ?m = "n + q - (k - s)"
    have r: "64 - k \<le> ?m" "?m < 64" "\<not> 64 - k + s \<le> ?m" "?m + (k - s) = n + q" using that assms by linarith+
    with bit_TW223_GEN [OF assms(2-5) r(2,1), of z] dead [OF r(1,2)] show ?thesis by simp
  qed
  have "\<not> bit z n" if "64 - k \<le> n" "n < 64" for n
    using that
  proof (induction n rule: less_induct)
    case (less n)
    show ?case
    proof (cases "n < 64 - s")
      case True
      with less.prems show ?thesis by (intro low)
    next
      case False
      then have "q \<le> n" "64 - k \<le> n - q" "n - q < n" using assms by auto
      with high [of "n - q"] less.IH [of "n - q"] less.prems False show ?thesis by auto
    qed
  qed
  with assms(6) show False by (auto simp: live_def)
qed

lemma TW223_STEP_conditioned: "conditioned rs \<Longrightarrow> conditioned (snd (TW223_STEP rs))"
  by (simp add: conditioned_def TW223_STEP_def Let_def TW223_GEN_live)

lemma live_ge:
  assumes "k \<le> 64" "2 ^ (64 - k) \<le> unat z"
  shows "live k z"
proof (rule ccontr)
  assume "\<not> live k z"
  then have "take_bit (64 - k) z = z"
    by (intro bit_word_eqI) (auto simp: live_def bit_simps)
  then have "unat z < 2 ^ (64 - k)"
    by (metis take_bit_nat_less_exp unsigned_take_bit_eq)
  with assms(2) show False by simp
qed

lemma bump_live:
  assumes "k \<le> 63" "2 \<le> k"
  shows "live k (if z < 2 ^ (64 - k) then z + 2 ^ (64 - k) else z)"
proof -
  let ?b = "2 ^ (64 - k) :: u64"
  have b: "unat ?b = 2 ^ (64 - k)" using assms by (intro unat_power2) simp
  have "(2 :: nat) ^ (64 - k) \<le> 2 ^ 62" using assms by (intro power_increasing) auto
  then have "unat (z + ?b) = unat z + 2 ^ (64 - k)" if "z < ?b"
    using that b by (subst unat_plus_small) (auto simp: word_less_nat_alt)
  then show ?thesis
    using assms b by (intro live_ge) (auto simp: word_less_nat_alt not_less)
qed

lemma lj_prng_condition_conditioned: "conditioned (lj_prng_condition rs)"
  using bump_live [of 63 "u0 rs"] bump_live [of 58 "u1 rs"] bump_live [of 55 "u2 rs"] bump_live [of 47 "u3 rs"]
  by (auto simp: conditioned_def lj_prng_condition_def Let_def)

text \<open>C28: a successful secure seeding, whatever the system's entropy, gives a state in which none of
  the four generators is stuck at zero, and no number of steps ever leads to such a state; the
  fixed seed has the same property.\<close>

theorem prng_never_degenerates:
  "conditioned (((\<lambda>rs. snd (lj_prng_u64 rs)) ^^ n) lj_prng_seed_fixed) \<and>
   (fst (lj_prng_seed_secure getrandom urandom_open urandom_read rs) \<longrightarrow>
      conditioned (((\<lambda>rs. snd (lj_prng_u64 rs)) ^^ n)
        (snd (lj_prng_seed_secure getrandom urandom_open urandom_read rs))))"
proof -
  have run: "conditioned (((\<lambda>rs. snd (lj_prng_u64 rs)) ^^ n) rs)" if "conditioned rs" for rs
    using that by (induction n) (simp_all add: lj_prng_u64_def TW223_STEP_conditioned)
  have "conditioned lj_prng_seed_fixed"
    by (auto simp: conditioned_def lj_prng_seed_fixed_def intro!: live_ge)
  moreover have "conditioned (snd (lj_prng_u64 (lj_prng_condition rs)))" for rs
    by (simp add: lj_prng_u64_def TW223_STEP_conditioned lj_prng_condition_conditioned)
  ultimately show ?thesis
    by (auto simp: lj_prng_seed_secure_def Let_def split: option.splits intro: run)
qed

theorem prng_never_degenerates_witness:
  "conditioned (((\<lambda>rs. snd (lj_prng_u64 rs)) ^^ 1000)
     (snd (lj_prng_seed_secure (Some \<lparr>u0 = 0, u1 = 0, u2 = 0, u3 = 0\<rparr>) False None lj_prng_seed_fixed)))"
  using prng_never_degenerates [of 1000 "Some \<lparr>u0 = 0, u1 = 0, u2 = 0, u3 = 0\<rparr>" False None lj_prng_seed_fixed]
  by (simp add: lj_prng_seed_secure_def Let_def)

text \<open>The double step returns the bit pattern of a number from 1.0 up to but not including 2.0:
  sign and exponent fixed, the mantissa taken from the low 52 bits of the generator's output.\<close>

theorem lj_prng_u64d_range:
  "unat (fst (lj_prng_u64d rs)) = 0x3ff * 2 ^ 52 + unat (fst (lj_prng_u64 rs)) mod 2 ^ 52 \<and>
   snd (lj_prng_u64d rs) = snd (lj_prng_u64 rs)"
proof -
  define r where "r = fst (TW223_STEP rs)"
  have m: "(0x000fffffffffffff :: u64) = mask 52" by (simp add: mask_eq_exp_minus_1)
  have e: "(0x3ff0000000000000 :: u64) = push_bit 52 0x3ff" by simp
  have "(r AND mask 52) AND push_bit 52 0x3ff = 0"
    by (rule bit_word_eqI) (simp add: bit_simps del: push_bit_numeral)
  then have "unat ((r AND mask 52) OR push_bit 52 0x3ff) = unat (r AND mask 52) + unat (push_bit 52 0x3ff :: u64)"
    by (rule unat_or_disjoint)
  moreover have "unat (r AND mask 52) = unat r mod 2 ^ 52" by (rule unat_and_mask)
  ultimately show ?thesis
    unfolding lj_prng_u64d_def lj_prng_u64_def by (simp add: case_prod_beta Let_def r_def m)
qed

end
