(* ===== verification/Carith.thy ===== *)
theory Carith
  imports Snabb_Prelude "HOL-Library.Signed_Division"
begin

text \<open>
  64-bit integer and pointer arithmetic on FFI values in RaptorJIT (\<^verbatim>\<open>lj_carith.c\<close>), the integer
  conversion it relies on (\<^verbatim>\<open>lj_cconv.c\<close>), the 64-bit side of the bit library (\<^verbatim>\<open>lib_bit.c\<close>) and the
  modulo helper of compiled code (\<^verbatim>\<open>lj_vmmath.c\<close>). Signed values are words read with \<^const>\<open>sint\<close>;
  C's division truncates towards zero, \<^const>\<open>signed_divide\<close>.
\<close>

section \<open>Shifts and rotates\<close>

text \<open>\<^verbatim>\<open>lj_rol\<close> and \<^verbatim>\<open>lj_ror\<close> for 64-bit operands.\<close>

definition lj_rol64 :: "u64 \<Rightarrow> nat \<Rightarrow> u64" where
  "lj_rol64 x n = push_bit n x OR drop_bit (nat ((- int n) mod 64)) x"

definition lj_ror64 :: "u64 \<Rightarrow> nat \<Rightarrow> u64" where
  "lj_ror64 x n = push_bit (nat ((- int n) mod 64)) x OR drop_bit n x"

definition sh63 :: "c_int \<Rightarrow> nat" where
  "sh63 sh = unat (sh AND 63)"

definition lj_carith_shl64 :: "u64 \<Rightarrow> c_int \<Rightarrow> u64" where
  "lj_carith_shl64 x sh = push_bit (sh63 sh) x"

definition lj_carith_shr64 :: "u64 \<Rightarrow> c_int \<Rightarrow> u64" where
  "lj_carith_shr64 x sh = drop_bit (sh63 sh) x"

definition lj_carith_sar64 :: "u64 \<Rightarrow> c_int \<Rightarrow> u64" where
  "lj_carith_sar64 x sh = signed_drop_bit (sh63 sh) x"

definition lj_carith_rol64 :: "u64 \<Rightarrow> c_int \<Rightarrow> u64" where
  "lj_carith_rol64 x sh = lj_rol64 x (sh63 sh)"

definition lj_carith_ror64 :: "u64 \<Rightarrow> c_int \<Rightarrow> u64" where
  "lj_carith_ror64 x sh = lj_ror64 x (sh63 sh)"

datatype shift_op = IR_BSHL | IR_BSHR | IR_BSAR | IR_BROL | IR_BROR

fun lj_carith_shift64 :: "u64 \<Rightarrow> c_int \<Rightarrow> shift_op \<Rightarrow> u64" where
  "lj_carith_shift64 x sh IR_BSHL = lj_carith_shl64 x sh"
| "lj_carith_shift64 x sh IR_BSHR = lj_carith_shr64 x sh"
| "lj_carith_shift64 x sh IR_BSAR = lj_carith_sar64 x sh"
| "lj_carith_shift64 x sh IR_BROL = lj_carith_rol64 x sh"
| "lj_carith_shift64 x sh IR_BROR = lj_carith_ror64 x sh"

section \<open>Division, modulo and power\<close>

definition INT64_MIN :: u64 where
  "INT64_MIN = 0x8000000000000000"

definition lj_carith_divu64 :: "u64 \<Rightarrow> u64 \<Rightarrow> u64" where
  "lj_carith_divu64 a b = (if b = 0 then 0x8000000000000000 else a div b)"

definition lj_carith_divi64 :: "u64 \<Rightarrow> u64 \<Rightarrow> u64" where
  "lj_carith_divi64 a b =
     (if b = 0 \<or> a = INT64_MIN \<and> b = - 1 then INT64_MIN
      else word_of_int (sint a sdiv sint b))"

definition lj_carith_modu64 :: "u64 \<Rightarrow> u64 \<Rightarrow> u64" where
  "lj_carith_modu64 a b = (if b = 0 then 0x8000000000000000 else a mod b)"

definition lj_carith_modi64 :: "u64 \<Rightarrow> u64 \<Rightarrow> u64" where
  "lj_carith_modi64 a b =
     (if b = 0 then INT64_MIN
      else if a = INT64_MIN \<and> b = - 1 then 0
      else word_of_int (sint a smod sint b))"

text \<open>\<^verbatim>\<open>for (; (k & 1) == 0; k >>= 1) x *= x;\<close> is entered with a non-zero \<^verbatim>\<open>k\<close>.\<close>

function pow_strip :: "u64 \<Rightarrow> u64 \<Rightarrow> u64 \<times> u64" where
  "pow_strip x k = (if k = 0 \<or> k AND 1 \<noteq> 0 then (x, k) else pow_strip (x * x) (drop_bit 1 k))"
  by pat_completeness auto
termination
  by (relation "measure (\<lambda>(x, k). unat k)")
     (auto simp: unat_drop_bit_div div_less_dividend unat_gt_0)

declare pow_strip.simps [simp del]

text \<open>The endless loop of the square-and-multiply phase, left by \<^verbatim>\<open>break\<close> when \<^verbatim>\<open>k\<close> is one.\<close>

function pow_loop :: "u64 \<Rightarrow> u64 \<Rightarrow> u64 \<Rightarrow> u64" where
  "pow_loop x y k =
     (let x = x * x
      in if k = 1 \<or> k = 0 then y * x
         else pow_loop x (if k AND 1 \<noteq> 0 then y * x else y) (drop_bit 1 k))"
  by pat_completeness auto
termination
  by (relation "measure (\<lambda>(x, y, k). unat k)")
     (auto simp: unat_drop_bit_div div_less_dividend unat_gt_0)

declare pow_loop.simps [simp del]

definition lj_carith_powu64 :: "u64 \<Rightarrow> u64 \<Rightarrow> u64" where
  "lj_carith_powu64 x k =
     (if k = 0 then 1
      else let (x, k) = pow_strip x k; y = x; k = drop_bit 1 k
        in if k \<noteq> 0 then pow_loop x y k else y)"

definition lj_carith_powi64 :: "u64 \<Rightarrow> u64 \<Rightarrow> u64" where
  "lj_carith_powi64 x k =
     (if k = 0 then 1
      else if sint k < 0 then
        if x = 0 then 0x7fffffffffffffff
        else if x = 1 then 1
        else if x = - 1 then if k AND 1 \<noteq> 0 then - 1 else 1
        else 0
      else lj_carith_powu64 x k)"

text \<open>Modulo with the sign of the divisor, for 32-bit operands.\<close>

definition lj_vm_modi :: "c_int \<Rightarrow> c_int \<Rightarrow> c_int option" where
  "lj_vm_modi a b =
     (if b = 0 then None
      else let ua = (if sint a < 0 then NOT a + 1 else a);
               ub = (if sint b < 0 then NOT b + 1 else b);
               y = ua mod ub;
               y = (if y \<noteq> 0 \<and> sint (a XOR b) < 0 then y - ub else y);
               y = (if sint (y XOR b) < 0 then NOT y + 1 else y)
        in Some y)"

section \<open>Arithmetic on FFI values\<close>

text \<open>An operand: an integer type with its signedness, size in bytes and value (in the low bytes of
  the word), or a pointer with the identity of its element type.\<close>

datatype carg = CNum bool nat u64 | CPtr nat u64

datatype metamethod = MM_eq | MM_lt | MM_le | MM_add | MM_sub | MM_mul | MM_div | MM_mod | MM_pow | MM_unm

text \<open>The results: a boolean, a 64-bit integer cdata (unsigned or not), a Lua number, a pointer cdata.\<close>

datatype cresult = RBool bool | RInt64 bool u64 | RNumber int | RPtr nat u64

text \<open>The integer-to-integer case of \<^verbatim>\<open>lj_cconv_ct_ct\<close>, to an 8-byte destination.\<close>

definition cconv_I_I :: "bool \<Rightarrow> nat \<Rightarrow> u64 \<Rightarrow> u64" where
  "cconv_I_I uns ssize v =
     (if ssize < 8 then
        if \<not> uns \<and> bit v (8 * ssize - 1)
        then take_bit (8 * ssize) v OR NOT (mask (8 * ssize))
        else take_bit (8 * ssize) v
      else v)"

definition carith_int64 :: "carg \<Rightarrow> carg \<Rightarrow> metamethod \<Rightarrow> cresult option" where
  "carith_int64 a b mm =
     (case (a, b) of
        (CNum n0 s0 v0, CNum n1 s1 v1) \<Rightarrow>
          if s0 \<le> 8 \<and> s1 \<le> 8 then
            let uns = (n0 \<and> s0 = 8 \<or> n1 \<and> s1 = 8);
                u0 = cconv_I_I n0 s0 v0;
                u1 = cconv_I_I n1 s1 v1
            in Some (case mm of
                 MM_eq \<Rightarrow> RBool (u0 = u1)
               | MM_lt \<Rightarrow> RBool (if \<not> uns then sint u0 < sint u1 else u0 < u1)
               | MM_le \<Rightarrow> RBool (if \<not> uns then sint u0 \<le> sint u1 else u0 \<le> u1)
               | MM_add \<Rightarrow> RInt64 uns (u0 + u1)
               | MM_sub \<Rightarrow> RInt64 uns (u0 - u1)
               | MM_mul \<Rightarrow> RInt64 uns (u0 * u1)
               | MM_div \<Rightarrow> RInt64 uns (if \<not> uns then lj_carith_divi64 u0 u1 else lj_carith_divu64 u0 u1)
               | MM_mod \<Rightarrow> RInt64 uns (if \<not> uns then lj_carith_modi64 u0 u1 else lj_carith_modu64 u0 u1)
               | MM_pow \<Rightarrow> RInt64 uns (if \<not> uns then lj_carith_powi64 u0 u1 else lj_carith_powu64 u0 u1)
               | MM_unm \<Rightarrow> RInt64 uns (NOT u0 + 1))
          else None
      | _ \<Rightarrow> None)"

text \<open>Pointer arithmetic. \<^verbatim>\<open>csize\<close> gives the size of an element type (\<open>None\<close> when it is invalid) and
  \<^verbatim>\<open>compatptr\<close> whether two pointer types are compatible. A pointer difference is divided by the element
  size, truncating, and then cast to \<^verbatim>\<open>int32_t\<close>.\<close>

definition carith_ptr :: "(nat \<Rightarrow> u32 option) \<Rightarrow> (nat \<Rightarrow> nat \<Rightarrow> bool) \<Rightarrow> carg \<Rightarrow> carg \<Rightarrow> metamethod \<Rightarrow> cresult option" where
  "carith_ptr csize compatptr a b mm =
     (let offset = (\<lambda>t p idx. case csize t of
            None \<Rightarrow> None
          | Some sz \<Rightarrow> Some (RPtr t (p + idx * scast sz)))
      in case (a, b) of
        (CPtr t0 p0, CPtr t1 p1) \<Rightarrow>
          if mm = MM_eq then Some (RBool (p0 = p1))
          else if mm = MM_sub \<or> mm = MM_lt \<or> mm = MM_le then
            if \<not> compatptr t0 t1 then None
            else if mm = MM_sub then
              (case csize t0 of
                 None \<Rightarrow> None
               | Some sz \<Rightarrow> if sz = 0 then None
                   else Some (RNumber (sint (ucast (word_of_int ((sint p0 - sint p1) sdiv sint sz) :: u64) :: c_int))))
            else if mm = MM_lt then Some (RBool (p0 < p1))
            else Some (RBool (p0 \<le> p1))
          else None
      | (CPtr t0 p0, CNum n1 s1 v1) \<Rightarrow>
          if mm = MM_add then offset t0 p0 (cconv_I_I n1 s1 v1)
          else if mm = MM_sub then offset t0 p0 (- cconv_I_I n1 s1 v1)
          else None
      | (CNum n0 s0 v0, CPtr t1 p1) \<Rightarrow>
          if mm = MM_add then offset t1 p1 (cconv_I_I n0 s0 v0) else None
      | _ \<Rightarrow> None)"

text \<open>The operator: integers first, then pointers; \<open>None\<close> goes on to the metamethods of the types.\<close>

definition lj_carith_op :: "(nat \<Rightarrow> u32 option) \<Rightarrow> (nat \<Rightarrow> nat \<Rightarrow> bool) \<Rightarrow> carg \<Rightarrow> carg \<Rightarrow> metamethod \<Rightarrow> cresult option" where
  "lj_carith_op csize compatptr a b mm =
     (case carith_int64 a b mm of Some r \<Rightarrow> Some r | None \<Rightarrow> carith_ptr csize compatptr a b mm)"

section \<open>The bit library on 64-bit operands\<close>

text \<open>The operands are already converted; the first four operations take one or two of them, the
  variadic ones a list.\<close>

datatype bit_op = Bit_band | Bit_bor | Bit_bxor

definition bit_nary :: "bit_op \<Rightarrow> u64 list \<Rightarrow> u64" where
  "bit_nary op xs =
     foldl (\<lambda>y x. case op of Bit_band \<Rightarrow> y AND x | Bit_bor \<Rightarrow> y OR x | Bit_bxor \<Rightarrow> y XOR x)
       (case op of Bit_band \<Rightarrow> - 1 | _ \<Rightarrow> 0) xs"

definition bit_tobit :: "u64 \<Rightarrow> c_int" where
  "bit_tobit x = ucast x"

definition bit_bnot :: "u64 \<Rightarrow> u64" where
  "bit_bnot x = NOT x"

text \<open>\<^verbatim>\<open>bit.lshift\<close> and its four siblings, selected by the function id.\<close>

definition bit_shift :: "shift_op \<Rightarrow> u64 \<Rightarrow> u64 \<Rightarrow> u64" where
  "bit_shift op x sh = lj_carith_shift64 x (ucast sh) op"

text \<open>\<^verbatim>\<open>bit.tohex\<close>: number of digits, upper-case flag and the masked value that is formatted. The
  digit count is negated in \<^verbatim>\<open>int32_t\<close>; a shift by 64 or more does not occur because of the guard,
  except for the smallest integer, whose negation overflows.\<close>

definition bit_tohex :: "u64 \<Rightarrow> c_int \<Rightarrow> (nat \<times> bool \<times> u64) option" where
  "bit_tohex b n =
     (let upper = (sint n < 0); n = (if upper then - n else n)
      in if sint n < 0 then None
         else Some (unat n, upper, if sint n < 16 then b AND (push_bit (4 * unat n) 1 - 1) else b))"

subsection \<open>Facts\<close>

lemma and_one_odd: "k AND 1 \<noteq> 0 \<longleftrightarrow> odd (unat k)" for k :: u64
proof -
  have "unat (k AND 1) = unat k mod 2" using unat_and_mask [of k 1] by (simp add: mask_eq_exp_minus_1)
  then show ?thesis by (metis odd_iff_mod_2_eq_one parity_cases unsigned_0 word_unat_eq_iff zero_neq_one)
qed

lemma unat_half: "unat (drop_bit 1 k) = unat k div 2" for k :: u64
  using unat_drop_bit_div [of 1 k] by simp

lemma pow_strip_spec:
  assumes "k \<noteq> 0" "pow_strip x k = (x', k')"
  shows "x' ^ unat k' = x ^ unat k \<and> odd (unat k')"
  using assms
proof (induction x k rule: pow_strip.induct)
  case (1 x k)
  show ?case
  proof (cases "k AND 1 \<noteq> 0")
    case True
    with 1(3) have "x' = x" "k' = k" by (simp_all add: pow_strip.simps [of x k])
    with True show ?thesis by (simp add: and_one_odd)
  next
    case False
    then have even: "even (unat k)" by (simp add: and_one_odd)
    with 1(2) have "0 < unat k div 2" using unat_gt_0 [of k] by (auto elim: evenE)
    then have nz: "drop_bit 1 k \<noteq> 0" using unat_half [of k] by (metis less_irrefl unsigned_0)
    have rec: "pow_strip (x * x) (drop_bit 1 k) = (x', k')"
      using 1(2,3) False by (simp add: pow_strip.simps [of x k])
    have "\<not> (k = 0 \<or> k AND 1 \<noteq> 0)" using False 1(2) by simp
    from 1(1) [OF this nz rec] have "x' ^ unat k' = (x * x) ^ (unat k div 2) \<and> odd (unat k')"
      by (metis unat_half)
    moreover have "(x * x) ^ (unat k div 2) = x ^ unat k"
      using even by (metis dvd_mult_div_cancel power2_eq_square power_mult)
    ultimately show ?thesis by simp
  qed
qed

lemma pow_loop_spec: "k \<noteq> 0 \<Longrightarrow> pow_loop x y k = y * (x * x) ^ unat k"
proof (induction x y k rule: pow_loop.induct)
  case (1 x y k)
  show ?case
  proof (cases "k = 1")
    case True
    then show ?thesis by (subst pow_loop.simps) (simp add: Let_def)
  next
    case False
    with 1(2) have "unat k \<noteq> 0" "unat k \<noteq> 1"
      by (metis unsigned_0 word_unat_eq_iff) (metis False unsigned_1 word_unat_eq_iff)
    then have "0 < unat k div 2" by linarith
    then have nz: "drop_bit 1 k \<noteq> 0" using unat_half [of k] by (metis less_irrefl unsigned_0)
    let ?x = "x * x"
    have "pow_loop x y k = pow_loop ?x (if k AND 1 \<noteq> 0 then y * ?x else y) (drop_bit 1 k)"
      using False 1(2) by (simp add: pow_loop.simps [of x y k] Let_def)
    also have "\<dots> = (if odd (unat k) then y * ?x else y) * (?x * ?x) ^ (unat k div 2)"
      using 1(1) [OF refl _ nz] False 1(2) unat_half [of k] by (simp add: and_one_odd)
    also have "\<dots> = y * ?x ^ unat k"
    proof (cases "odd (unat k)")
      case True
      then have "?x ^ unat k = ?x * (?x * ?x) ^ (unat k div 2)"
        by (metis odd_two_times_div_two_succ power2_eq_square power_mult power_Suc Suc_eq_plus1)
      with True show ?thesis by (simp add: mult.assoc)
    next
      case even: False
      then have "?x ^ unat k = (?x * ?x) ^ (unat k div 2)"
        by (metis dvd_mult_div_cancel power2_eq_square power_mult)
      with even show ?thesis by simp
    qed
    finally show ?thesis .
  qed
qed

lemma powu64_eq: "lj_carith_powu64 x k = x ^ unat k"
proof (cases "k = 0")
  case False
  obtain x' k' where s: "pow_strip x k = (x', k')" by (cases "pow_strip x k")
  have sp: "x' ^ unat k' = x ^ unat k" "odd (unat k')" using pow_strip_spec [OF False s] by auto
  then have k': "unat k' = Suc (2 * (unat k' div 2))" by presburger
  have "lj_carith_powu64 x k = x' * (x' * x') ^ (unat k' div 2)"
  proof (cases "drop_bit 1 k' = 0")
    case True
    then have "unat k' div 2 = 0" using unat_half [of k'] by simp
    with True s False show ?thesis by (simp add: lj_carith_powu64_def Let_def)
  next
    case nz: False
    with s False show ?thesis
      by (simp add: lj_carith_powu64_def Let_def pow_loop_spec [OF nz] unat_half [of k'] del: One_nat_def)
  qed
  also have "\<dots> = x' ^ unat k'"
    by (subst (2) k') (simp add: power_mult power2_eq_square)
  finally show ?thesis using sp by simp
qed (simp add: lj_carith_powu64_def)

lemma sint_word_of_small: "- (2 ^ 31) \<le> Y \<Longrightarrow> Y < 2 ^ 31 \<Longrightarrow> sint (word_of_int Y :: c_int) = Y"
  by (simp add: signed_of_int signed_take_bit_int_eq_self)

lemma sint_neg_bit: "sint (w :: c_int) < 0 \<longleftrightarrow> bit w 31"
  by (simp add: sint_uint bit_uint_iff signed_take_bit_negative_iff)

lemma sint_xor_neg: "sint (a XOR b :: c_int) < 0 \<longleftrightarrow> (sint a < 0) \<noteq> (sint b < 0)"
  by (simp add: sint_neg_bit bit_xor_iff)

lemma word_of_sint: "(w :: c_int) = word_of_int (sint w)"
  by simp

lemma uint_abs:
  "uint (if sint a < 0 then NOT a + 1 else a :: c_int) = \<bar>sint a\<bar>"
proof (cases "sint a < 0")
  case True
  have "NOT a + 1 = word_of_int (- sint a)" by (simp add: not_eq_complement)
  moreover have "- sint a \<le> 2 ^ 31" using sint_ge [of a] by simp
  then have "uint (word_of_int (- sint a) :: c_int) = - sint a"
    using True by (simp only: uint_word_of_int) simp
  ultimately show ?thesis using True by (simp del: of_int_minus of_int_sint)
next
  case False
  then have "int (nat (sint a)) = int (unat a)" using sint_nonneg_unat [of a] by simp
  with False show ?thesis by simp
qed

lemma lj_vm_modi_eq:
  assumes "b \<noteq> 0"
  shows "\<exists>r. lj_vm_modi a b = Some r \<and> sint r = sint a mod sint b"
proof -
  define A B where "A = sint a" "B = sint b"
  note AB = this
  have B0: "B \<noteq> 0" using assms by (metis AB(2) of_int_0 word_of_sint)
  have Br: "\<bar>B\<bar> \<le> 2 ^ 31" using sint_ge [of b] sint_lt [of b] by (simp add: AB)
  define y0 where "y0 = \<bar>A\<bar> mod \<bar>B\<bar>"
  have y0: "0 \<le> y0" "y0 < \<bar>B\<bar>" using B0 by (simp_all add: y0_def)
  let ?ua = "if sint a < 0 then NOT a + 1 else a" and ?ub = "if sint b < 0 then NOT b + 1 else b"
  have u: "uint ?ua = \<bar>A\<bar>" "uint ?ub = \<bar>B\<bar>" by (simp_all only: uint_abs AB)
  have small: "uint (word_of_int z :: c_int) = z" if "0 \<le> z" "z \<le> 2 ^ 31" for z
    using that by (simp only: uint_word_of_int) simp
  have "uint (?ua mod ?ub) = uint (word_of_int y0 :: c_int)"
    using small [of y0] y0 Br by (simp only: uint_mod u y0_def)
  then have y: "?ua mod ?ub = word_of_int y0" by (rule word_uint_eqI)
  have "uint ?ub = uint (word_of_int \<bar>B\<bar> :: c_int)" using small [of "\<bar>B\<bar>"] Br by (simp only: u)
  then have ub: "?ub = word_of_int \<bar>B\<bar>" by (rule word_uint_eqI)
  have ynz: "(word_of_int y0 :: c_int) \<noteq> 0 \<longleftrightarrow> y0 \<noteq> 0"
    using small [of y0] y0 Br by (metis less_imp_le of_int_0 order_trans unsigned_0)
  define Y1 where "Y1 = (if y0 \<noteq> 0 \<and> (A < 0) \<noteq> (B < 0) then y0 - \<bar>B\<bar> else y0)"
  have Y1: "- (2 ^ 31) \<le> Y1" "Y1 < 2 ^ 31" using y0 Br by (auto simp: Y1_def)
  define Y2 where "Y2 = (if (Y1 < 0) \<noteq> (B < 0) then - Y1 else Y1)"
  have step1: "(if (word_of_int y0 :: c_int) \<noteq> 0 \<and> sint (a XOR b) < 0 then word_of_int y0 - ?ub else word_of_int y0)
      = word_of_int Y1"
    unfolding ub unfolding ynz sint_xor_neg AB [symmetric] Y1_def by simp
  have step2: "(if sint (word_of_int Y1 XOR b) < 0 then NOT (word_of_int Y1) + 1 else word_of_int Y1)
      = (word_of_int Y2 :: c_int)"
    unfolding sint_xor_neg sint_word_of_small [OF Y1] AB [symmetric] Y2_def
    by (simp add: not_eq_complement)
  have run: "lj_vm_modi a b = Some (word_of_int Y2)"
    unfolding lj_vm_modi_def Let_def y step1 step2 using assms by simp
  have "Y2 = A mod B"
  proof -
    consider "0 \<le> A" "0 < B" | "A < 0" "0 < B" | "0 \<le> A" "B < 0" | "A < 0" "B < 0" using B0 by linarith
    then show ?thesis
    proof cases
      case 1
      then have "A mod B = y0" by (simp add: y0_def)
      with 1 y0 show ?thesis by (auto simp: Y2_def Y1_def)
    next
      case 2
      then have "A mod B = (if y0 = 0 then 0 else B - y0)"
        using zmod_zminus1_eq_if [of "- A" B] by (simp add: y0_def)
      with 2 y0 show ?thesis by (auto simp: Y2_def Y1_def)
    next
      case 3
      then have "A mod B = (if y0 = 0 then 0 else y0 - \<bar>B\<bar>)"
        using zmod_zminus2_eq_if [of A "- B"] by (simp add: y0_def)
      with 3 y0 show ?thesis by (auto simp: Y2_def Y1_def)
    next
      case 4
      then have "A mod B = - y0" using mod_minus_minus [of "- A" "- B"] by (simp add: y0_def)
      with 4 y0 show ?thesis by (auto simp: Y2_def Y1_def)
    qed
  qed
  moreover have "sint (word_of_int Y2 :: c_int) = Y2"
    using y0 Br by (intro sint_word_of_small) (auto simp: Y2_def Y1_def)
  ultimately show ?thesis using run by (auto simp: AB)
qed

text \<open>C26: the modulo helper of compiled code computes the modulo of Lua, whose result has the sign of
  the divisor, for all 32-bit operands including the smallest integer, and never fails for a
  non-zero divisor.\<close>

theorem lj_vm_modi_correct:
  assumes "b \<noteq> 0"
  shows "\<exists>r. lj_vm_modi a b = Some r \<and> sint r = sint a mod sint b"
  using assms by (rule lj_vm_modi_eq)

theorem lj_vm_modi_correct_witness:
  "\<exists>r. lj_vm_modi 0x80000000 (- 3) = Some r \<and> sint r = - 2147483648 mod - 3"
  using lj_vm_modi_correct [of "- 3" "0x80000000"] by simp

section \<open>The value of an operand\<close>

definition ival :: "bool \<Rightarrow> nat \<Rightarrow> u64 \<Rightarrow> int" where
  "ival uns n v = (if uns then uint (take_bit (8 * n) v) else signed_take_bit (8 * n - 1) (uint v))"

text \<open>How the 64-bit result is read: as unsigned when an operand is an unsigned 64-bit integer.\<close>

definition wval :: "bool \<Rightarrow> u64 \<Rightarrow> int" where
  "wval uns w = (if uns then uint w else sint w)"

lemma cconv_I_I_value:
  assumes "n \<in> {1, 2, 4, 8}"
  shows "cconv_I_I uns n v = word_of_int (ival uns n v)"
proof (rule bit_word_eqI)
  fix m
  assume m: "m < LENGTH(64)"
  have n: "0 < n" "n \<le> 8" using assms by auto
  show "bit (cconv_I_I uns n v) m = bit (word_of_int (ival uns n v) :: u64) m"
  proof (cases "n = 8")
    case True
    then show ?thesis using m
      by (cases "m = 63") (auto simp: cconv_I_I_def ival_def bit_simps bit_uint_iff min_def)
  next
    case False
    then have "n < 8" using n by simp
    then show ?thesis using m n
      by (cases "m = 8 * n - 1") (auto simp: cconv_I_I_def ival_def bit_simps bit_uint_iff min_def)
  qed
qed

text \<open>The mathematical value of an operand after the usual conversion.\<close>

definition oval :: "bool \<Rightarrow> bool \<Rightarrow> nat \<Rightarrow> u64 \<Rightarrow> int" where
  "oval uns s n v = (if uns then ival s n v mod 2 ^ 64 else ival s n v)"

lemma ival_bounds:
  assumes "n \<in> {1, 2, 4, 8}" "\<not> (s \<and> n = 8)"
  shows "- (2 ^ 63) \<le> ival s n v" "ival s n v < 2 ^ 63"
proof -
  have n: "8 * n - 1 \<le> 63" using assms(1) by auto
  have p: "(2 :: int) ^ (8 * n - 1) \<le> 2 ^ 63" using n by (intro power_increasing) auto
  show "- (2 ^ 63) \<le> ival s n v"
  proof (cases s)
    case True
    have "- (2 ^ 63) \<le> (0 :: int)" "0 \<le> uint (take_bit (8 * n) v)" by simp_all
    then have "- (2 ^ 63) \<le> uint (take_bit (8 * n) v)" by (rule order_trans)
    with True show ?thesis by (simp add: ival_def)
  next
    case False
    have "- (2 ^ (8 * n - 1)) \<le> signed_take_bit (8 * n - 1) (uint v)"
      by (rule signed_take_bit_int_greater_eq_minus_exp)
    with p have "- (2 ^ 63) \<le> signed_take_bit (8 * n - 1) (uint v)" by linarith
    with False show ?thesis by (simp add: ival_def)
  qed
  show "ival s n v < 2 ^ 63"
  proof (cases s)
    case True
    then have "8 * n \<le> 63" using assms by auto
    then have "(2 :: int) ^ (8 * n) \<le> 2 ^ 63" by (intro power_increasing) auto
    moreover have "uint (take_bit (8 * n) v) < 2 ^ (8 * n)" by (simp add: unsigned_take_bit_eq)
    ultimately have "uint (take_bit (8 * n) v) < 2 ^ 63" by (rule less_le_trans [rotated])
    with True show ?thesis by (simp add: ival_def)
  next
    case False
    have "signed_take_bit (8 * n - 1) (uint v) < 2 ^ (8 * n - 1)" by (rule signed_take_bit_int_less_exp)
    with p have "signed_take_bit (8 * n - 1) (uint v) < 2 ^ 63" by (rule less_le_trans [rotated])
    with False show ?thesis by (simp add: ival_def)
  qed
qed

lemma wval_cconv:
  assumes "n \<in> {1, 2, 4, 8}" "s \<and> n = 8 \<longrightarrow> uns"
  shows "wval uns (cconv_I_I s n v) = oval uns s n v"
proof (cases uns)
  case True
  then show ?thesis by (simp add: wval_def oval_def cconv_I_I_value [OF assms(1)] uint_word_of_int)
next
  case False
  with ival_bounds [OF assms(1), of s v] assms(2) show ?thesis
    by (simp add: wval_def oval_def cconv_I_I_value [OF assms(1)] signed_of_int signed_take_bit_int_eq_self)
qed

lemma word_of_wval: "word_of_int (wval uns w) = w"
  by (simp add: wval_def)

lemma wval_eq_iff: "wval uns a = wval uns b \<longleftrightarrow> a = b"
  by (metis word_of_wval)

lemma wval_0: "wval uns w = 0 \<longleftrightarrow> w = 0"
  using wval_eq_iff [of uns w 0] by (cases uns) (simp_all add: wval_def)

lemma sdiv_nonneg: "0 \<le> a \<Longrightarrow> 0 \<le> b \<Longrightarrow> a sdiv b = a div (b :: int)"
  by (cases "a = 0 \<or> b = 0") (auto simp: signed_divide_int_def sgn_if)

lemma sint_INT64_MIN: "sint INT64_MIN = - (2 ^ 63)"
  by (simp add: INT64_MIN_def)

lemma divu64_eq: "lj_carith_divu64 a b = (if b = 0 then INT64_MIN else word_of_int (uint a sdiv uint b))"
proof -
  have "word_of_int (uint a div uint b) = a div b" by (metis uint_div word_of_int_uint)
  then show ?thesis by (simp add: lj_carith_divu64_def INT64_MIN_def sdiv_nonneg)
qed

lemma divi64_eq: "lj_carith_divi64 a b = (if b = 0 then INT64_MIN else word_of_int (sint a sdiv sint b))"
  by (auto simp: lj_carith_divi64_def sint_INT64_MIN) (simp add: INT64_MIN_def signed_divide_int_def)

lemma modu64_eq: "lj_carith_modu64 a b = (if b = 0 then INT64_MIN else word_of_int (uint a smod uint b))"
proof -
  have "word_of_int (uint a mod uint b) = a mod b" by (metis uint_mod word_of_int_uint)
  moreover have "uint a smod uint b = uint a mod uint b"
    by (simp add: signed_modulo_int_eq_modulo_int)
  ultimately show ?thesis by (simp add: lj_carith_modu64_def INT64_MIN_def)
qed

lemma modi64_eq: "lj_carith_modi64 a b = (if b = 0 then INT64_MIN else word_of_int (sint a smod sint b))"
  by (auto simp: lj_carith_modi64_def sint_INT64_MIN signed_modulo_int_def signed_divide_int_def)

lemma powu64_value: "lj_carith_powu64 x k = word_of_int (wval uns x ^ unat k)"
  by (simp add: powu64_eq of_int_power word_of_wval)

lemma sint_nonneg_nat: "0 \<le> sint (w :: u64) \<Longrightarrow> nat (sint w) = unat w"
  by (rule sint_nonneg_unat)

lemma odd_sint: "k AND 1 \<noteq> 0 \<longleftrightarrow> odd (sint k)" for k :: u64
proof -
  have "bit (unat k) 0 = bit k 0" by (simp add: bit_unsigned_iff del: bit_0)
  moreover have "bit (sint k) 0 = bit k 0"
    by (simp add: sint_uint bit_uint_iff bit_signed_take_bit_iff min_def del: bit_0)
  ultimately have "odd (unat k) = odd (sint k)" by (simp add: bit_0)
  then show ?thesis by (simp add: and_one_odd)
qed

lemma pow_cases:
  assumes "wval uns a = x" "wval uns b = y"
  shows "(if \<not> uns then lj_carith_powi64 a b else lj_carith_powu64 a b)
      = (if 0 \<le> y then word_of_int (x ^ nat y)
         else if x = 0 then 0x7fffffffffffffff else if x = 1 then 1
         else if x = - 1 then (if odd y then - 1 else 1) else 0)"
proof (cases "0 \<le> y")
  case True
  have n: "nat y = unat b"
  proof (cases uns)
    case True
    then have "y = int (unat b)" using assms(2) by (simp add: wval_def)
    then show ?thesis by (simp only: nat_int)
  next
    case False
    then have "sint b = y" using assms(2) by (simp add: wval_def)
    with \<open>0 \<le> y\<close> sint_nonneg_nat [of b] show ?thesis by simp
  qed
  have "lj_carith_powu64 a b = word_of_int (x ^ nat y)"
    using powu64_value [of a b uns] assms(1) n by simp
  moreover have "lj_carith_powi64 a b = lj_carith_powu64 a b" if "\<not> uns"
    using True that assms(2) by (auto simp: lj_carith_powi64_def wval_def lj_carith_powu64_def)
  ultimately show ?thesis using True by simp
next
  case False
  then have s: "\<not> uns" "sint b < 0" "sint a = x" "sint b = y"
    using assms by (auto simp: wval_def split: if_splits)
  have "x = 0 \<longleftrightarrow> a = 0" "x = 1 \<longleftrightarrow> a = 1" "x = - 1 \<longleftrightarrow> a = - 1"
    using wval_eq_iff [of False a 0] wval_eq_iff [of False a 1] wval_eq_iff [of False a "- 1"] s(3)
    by (simp_all add: wval_def)
  moreover have "b \<noteq> 0" using s(2) by auto
  ultimately show ?thesis using s False odd_sint [of b] by (simp add: lj_carith_powi64_def)
qed

text \<open>C12: arithmetic on two 64-bit-convertible integers (of 1, 2, 4 or 8 bytes, signed or not) is
  exact arithmetic on their values, reduced to 64 bits: sum, difference, product and negation
  modulo \<open>2^64\<close>; comparison of the values; quotient and remainder of the division that truncates
  towards zero, \<open>2^63\<close> for a zero divisor; and the power computed by repeated squaring equals the
  power for exponents from zero on. For a negative exponent the power is 1 for base 1, plus or
  minus 1 for base -1, 0 for any other base but 0, and \<open>2^63 - 1\<close> for base 0, where the FFI
  documentation announces \<open>2^63\<close>. The result is unsigned exactly when an operand
  is an unsigned 64-bit integer, and then negative operands count modulo \<open>2^64\<close>.\<close>

theorem carith_int64_correct:
  assumes "n0 \<in> {1, 2, 4, 8}" "n1 \<in> {1, 2, 4, 8}" "uns = (s0 \<and> n0 = 8 \<or> s1 \<and> n1 = 8)"
    "x = oval uns s0 n0 v0" "y = oval uns s1 n1 v1"
  shows "carith_int64 (CNum s0 n0 v0) (CNum s1 n1 v1) mm = Some (case mm of
      MM_eq \<Rightarrow> RBool (x = y) | MM_lt \<Rightarrow> RBool (x < y) | MM_le \<Rightarrow> RBool (x \<le> y)
    | MM_add \<Rightarrow> RInt64 uns (word_of_int (x + y)) | MM_sub \<Rightarrow> RInt64 uns (word_of_int (x - y))
    | MM_mul \<Rightarrow> RInt64 uns (word_of_int (x * y)) | MM_unm \<Rightarrow> RInt64 uns (word_of_int (- x))
    | MM_div \<Rightarrow> RInt64 uns (if y = 0 then INT64_MIN else word_of_int (x sdiv y))
    | MM_mod \<Rightarrow> RInt64 uns (if y = 0 then INT64_MIN else word_of_int (x smod y))
    | MM_pow \<Rightarrow> RInt64 uns (if 0 \<le> y then word_of_int (x ^ nat y)
        else if x = 0 then 0x7fffffffffffffff else if x = 1 then 1
        else if x = - 1 then (if odd y then - 1 else 1) else 0))"
proof -
  let ?a = "cconv_I_I s0 n0 v0" and ?b = "cconv_I_I s1 n1 v1"
  have xy: "wval uns ?a = x" "wval uns ?b = y"
    using assms wval_cconv [of n0 s0 uns v0] wval_cconv [of n1 s1 uns v1] by auto
  then have w: "?a = word_of_int x" "?b = word_of_int y" by (metis word_of_wval)+
  have run: "carith_int64 (CNum s0 n0 v0) (CNum s1 n1 v1) mm = Some (case mm of
      MM_eq \<Rightarrow> RBool (?a = ?b)
    | MM_lt \<Rightarrow> RBool (if \<not> uns then sint ?a < sint ?b else ?a < ?b)
    | MM_le \<Rightarrow> RBool (if \<not> uns then sint ?a \<le> sint ?b else ?a \<le> ?b)
    | MM_add \<Rightarrow> RInt64 uns (?a + ?b) | MM_sub \<Rightarrow> RInt64 uns (?a - ?b) | MM_mul \<Rightarrow> RInt64 uns (?a * ?b)
    | MM_div \<Rightarrow> RInt64 uns (if \<not> uns then lj_carith_divi64 ?a ?b else lj_carith_divu64 ?a ?b)
    | MM_mod \<Rightarrow> RInt64 uns (if \<not> uns then lj_carith_modi64 ?a ?b else lj_carith_modu64 ?a ?b)
    | MM_pow \<Rightarrow> RInt64 uns (if \<not> uns then lj_carith_powi64 ?a ?b else lj_carith_powu64 ?a ?b)
    | MM_unm \<Rightarrow> RInt64 uns (NOT ?a + 1))"
    using assms(1-3) by (auto simp: carith_int64_def Let_def)
  have cmp: "(?a = ?b) = (x = y)" "(if \<not> uns then sint ?a < sint ?b else ?a < ?b) = (x < y)"
    "(if \<not> uns then sint ?a \<le> sint ?b else ?a \<le> ?b) = (x \<le> y)"
    using xy wval_eq_iff [of uns ?a ?b] by (auto simp: wval_def word_less_def word_le_def)
  have y0: "?b = 0 \<longleftrightarrow> y = 0" using xy(2) wval_0 [of uns ?b] by simp
  have div: "(if \<not> uns then lj_carith_divi64 ?a ?b else lj_carith_divu64 ?a ?b)
      = (if y = 0 then INT64_MIN else word_of_int (x sdiv y))"
    using xy y0 by (cases uns) (simp_all add: divi64_eq divu64_eq wval_def)
  have mod: "(if \<not> uns then lj_carith_modi64 ?a ?b else lj_carith_modu64 ?a ?b)
      = (if y = 0 then INT64_MIN else word_of_int (x smod y))"
    using xy y0 by (cases uns) (simp_all add: modi64_eq modu64_eq wval_def)
  have pow: "(if \<not> uns then lj_carith_powi64 ?a ?b else lj_carith_powu64 ?a ?b)
      = (if 0 \<le> y then word_of_int (x ^ nat y)
         else if x = 0 then 0x7fffffffffffffff else if x = 1 then 1
         else if x = - 1 then (if odd y then - 1 else 1) else 0)"
    by (rule pow_cases [OF xy])
  show ?thesis
    unfolding run cmp div mod pow unfolding w by (cases mm) (simp_all add: not_eq_complement)
qed

theorem carith_int64_correct_witness:
  "carith_int64 (CNum False 4 0xfffffff9) (CNum False 8 2) MM_div = Some (RInt64 False (- 3))"
proof -
  have v: "oval False False 4 0xfffffff9 = - 7" "oval False False 8 2 = 2" by (simp_all add: oval_def ival_def)
  show ?thesis
    using carith_int64_correct [of 4 8 False False False "- 7" "0xfffffff9" 2 2 MM_div] by (simp add: v)
qed

lemma sint_cast_int32:
  fixes x :: int
  defines "d \<equiv> sint (ucast (word_of_int x :: u64) :: c_int)"
  shows "d mod 2 ^ 32 = x mod 2 ^ 32" "- (2 ^ 31) \<le> d" "d < 2 ^ 31"
proof -
  have "d = signed_take_bit 31 x"
    by (simp add: d_def sint_uint unsigned_ucast_eq uint_word_of_int_eq take_bit_take_bit min_def
        signed_take_bit_take_bit)
  then have d: "take_bit 32 d = take_bit 32 x"
    using take_bit_signed_take_bit [of 32 31 x] by simp
  then show "d mod 2 ^ 32 = x mod 2 ^ 32" by (simp add: take_bit_eq_mod)
  show "- (2 ^ 31) \<le> d" "d < 2 ^ 31"
    using sint_ge [of "ucast (word_of_int x :: u64) :: c_int"] sint_lt [of "ucast (word_of_int x :: u64) :: c_int"]
    by (simp_all add: d_def)
qed

text \<open>C27: the difference of two pointers is their distance in elements only modulo \<open>2^32\<close>: it is the
  number from \<open>-2^31\<close> to \<open>2^31 - 1\<close> that is congruent to the distance, so that it is the distance
  exactly when that fits in 32 bits.\<close>

theorem carith_ptr_difference_truncated:
  assumes "csize t0 = Some sz" "sz \<noteq> 0" "compatptr t0 t1" "dist = (sint p0 - sint p1) sdiv sint sz"
  shows "\<exists>d. carith_ptr csize compatptr (CPtr t0 p0) (CPtr t1 p1) MM_sub = Some (RNumber d) \<and>
    - (2 ^ 31) \<le> d \<and> d < 2 ^ 31 \<and> d mod 2 ^ 32 = dist mod 2 ^ 32 \<and>
    (d = dist \<longleftrightarrow> - (2 ^ 31) \<le> dist \<and> dist < 2 ^ 31)"
proof -
  let ?d = "sint (ucast (word_of_int dist :: u64) :: c_int)"
  note d = sint_cast_int32 [of dist]
  have "?d = dist" if "- (2 ^ 31) \<le> dist" "dist < 2 ^ 31"
  proof -
    have "(?d + 2 ^ 31) mod 2 ^ 32 = (dist + 2 ^ 31) mod 2 ^ 32" using d(1) by (rule mod_add_cong) simp
    then show ?thesis using that d(2,3) by simp
  qed
  then have "?d = dist \<longleftrightarrow> - (2 ^ 31) \<le> dist \<and> dist < 2 ^ 31" using d(2,3) by fastforce
  moreover have "carith_ptr csize compatptr (CPtr t0 p0) (CPtr t1 p1) MM_sub = Some (RNumber ?d)"
    using assms by (simp add: carith_ptr_def)
  ultimately show ?thesis using d by blast
qed

text \<open>Pointers to bytes that are \<open>2^32\<close> apart differ by zero.\<close>

theorem carith_ptr_difference_truncated_witness:
  "carith_ptr (\<lambda>_. Some 1) (\<lambda>_ _. True) (CPtr 0 0x200000000) (CPtr 0 0x100000000) MM_sub = Some (RNumber 0)"
proof -
  have "\<exists>d. carith_ptr (\<lambda>_. Some 1) (\<lambda>_ _. True) (CPtr 0 0x200000000) (CPtr 0 0x100000000) MM_sub = Some (RNumber d) \<and>
      - (2 ^ 31) \<le> d \<and> d < 2 ^ 31 \<and> d mod 2 ^ 32 = 0x100000000 mod 2 ^ 32 \<and>
      (d = 0x100000000 \<longleftrightarrow> - (2 ^ 31) \<le> (0x100000000 :: int) \<and> (0x100000000 :: int) < 2 ^ 31)"
    by (rule carith_ptr_difference_truncated [where sz = 1]) simp_all
  then obtain d where d: "carith_ptr (\<lambda>_. Some 1) (\<lambda>_ _. True) (CPtr 0 0x200000000) (CPtr 0 0x100000000) MM_sub
      = Some (RNumber d)" "- 2147483648 \<le> d" "d < 2147483648" "d mod 4294967296 = 0" by auto
  then obtain k where "d = 4294967296 * k" by (metis mod_0_imp_dvd dvdE)
  with d(2,3) have "d = 0" by simp
  with d(1) show ?thesis by simp
qed

end
