(* ===== verification/Ir.thy ===== *)
theory Ir
  imports Carith
begin

text \<open>
  The integer part of the SSA intermediate representation of RaptorJIT's trace compiler
  (\<^verbatim>\<open>lj_ir.h\<close>, \<^verbatim>\<open>lj_ir.c\<close>): instructions, the buffer with constants growing down and instructions
  growing up from \<^verbatim>\<open>REF_BIAS\<close>, interned constants, raw emission and common-subexpression
  elimination (\<^verbatim>\<open>lj_opt_cse\<close> and \<^verbatim>\<open>lj_opt_cselim\<close> of \<^verbatim>\<open>lj_opt_fold.c\<close>).

  The second half gives the instructions a meaning. A 32-bit value lives zero-extended in a 64-bit
  register, so a run of a trace is a valuation from references to 64-bit words. An instruction
  completes with a value, leaves the trace (a failing guard) or is undefined (modulo by zero).
\<close>

section \<open>Instructions\<close>

text \<open>The opcodes of the integer rules, in the order of \<^verbatim>\<open>IRDEF\<close>; \<^verbatim>\<open>BASE\<close> and \<^verbatim>\<open>SLOAD\<close> stand for the
  instructions whose values come from outside the trace, and \<^verbatim>\<open>RETF\<close>, the return to a lower frame, is here
  for its chain, which limits the elimination of instructions on \<^verbatim>\<open>BASE\<close>.\<close>

datatype irop =
    LT | GE | LE | GT | ULT | UGE | ULE | UGT | EQ | NE | ABC
  | RETF | BASE | LOOP | KINT | KINT64
  | BNOT | BSWAP | BAND | BOR | BXOR | BSHL | BSHR | BSAR | BROL | BROR
  | ADD | SUB | MUL | DIV | MOD | POW | NEG | IR_MIN | IR_MAX
  | ADDOV | SUBOV | MULOV | SLOAD

datatype irtype = IRT_P32 | IRT_P64 | IRT_NUM | IRT_INT | IRT_U32 | IRT_I64 | IRT_U64

fun irt_is64 :: "irtype \<Rightarrow> bool" where
  "irt_is64 IRT_P32 = False"
| "irt_is64 IRT_INT = False"
| "irt_is64 IRT_U32 = False"
| "irt_is64 _ = True"

text \<open>An instruction: opcode, type, the guard and PHI flags, two operands; \<^verbatim>\<open>i\<close> is the value of a
  \<^verbatim>\<open>KINT\<close> and \<^verbatim>\<open>k64\<close> the word that follows a \<^verbatim>\<open>KINT64\<close>.\<close>

record irins =
  ins_o :: irop
  ins_t :: irtype
  ins_guard :: bool
  ins_phi :: bool
  ins_op1 :: nat
  ins_op2 :: nat
  ins_i :: c_int
  ins_k64 :: u64

definition REF_BIAS :: nat where "REF_BIAS = 0x8000"
definition REF_DROP :: nat where "REF_DROP = 0xffff"

definition irref_isk :: "nat \<Rightarrow> bool" where
  "irref_isk ref = (ref < REF_BIAS)"

text \<open>The compiler state that FOLD uses. The per-opcode skip-list chain (its head \<^verbatim>\<open>J->chain[op]\<close> and
  the \<^verbatim>\<open>prev\<close> links) is the list of the references on it, most recent first.\<close>

record jit_State =
  cur_ir :: "nat \<Rightarrow> irins"
  cur_nk :: nat
  cur_nins :: nat
  chain :: "irop \<Rightarrow> nat list"
  opt_fold :: bool
  opt_cse :: bool
  opt_abc :: bool
  guardemit :: bool

section \<open>Constants\<close>

text \<open>The next slot below \<^verbatim>\<open>nk\<close>. Slot 0 is no constant: reference 0 ends a chain. A trace with too many
  constants is given up by the recorder (parameter \<^verbatim>\<open>maxirconst\<close>) long before the slots are used up;
  what the code does then (\<^verbatim>\<open>abort\<close> in \<^verbatim>\<open>ir_nextk\<close>, a wrapped reference in \<^verbatim>\<open>ir_nextk64\<close>) is the value
  \<open>None\<close>.\<close>

definition ir_nextk :: "jit_State \<Rightarrow> nat option" where
  "ir_nextk J = (if cur_nk J \<le> 1 then None else Some (cur_nk J - 1))"

definition ir_nextk64 :: "jit_State \<Rightarrow> nat option" where
  "ir_nextk64 J = (if cur_nk J \<le> 2 then None else Some (cur_nk J - 2))"

definition kint_ins :: "c_int \<Rightarrow> irins" where
  "kint_ins k = \<lparr>ins_o = KINT, ins_t = IRT_INT, ins_guard = False, ins_phi = False,
     ins_op1 = 0, ins_op2 = 0, ins_i = k, ins_k64 = 0\<rparr>"

definition kint64_ins :: "u64 \<Rightarrow> irins" where
  "kint64_ins k = \<lparr>ins_o = KINT64, ins_t = IRT_I64, ins_guard = False, ins_phi = False,
     ins_op1 = 0, ins_op2 = 0, ins_i = 0, ins_k64 = k\<rparr>"

text \<open>A constant is put at its slot, at the head of its chain.\<close>

definition add_const :: "jit_State \<Rightarrow> nat \<Rightarrow> irins \<Rightarrow> jit_State" where
  "add_const J ref ir = J\<lparr>cur_nk := ref, cur_ir := (cur_ir J)(ref := ir),
     chain := (chain J)(ins_o ir := ref # chain J (ins_o ir))\<rparr>"

definition lj_ir_kint :: "jit_State \<Rightarrow> c_int \<Rightarrow> (jit_State \<times> nat) option" where
  "lj_ir_kint J k =
     (case find (\<lambda>ref. ins_i (cur_ir J ref) = k) (chain J KINT) of
        Some ref \<Rightarrow> Some (J, ref)
      | None \<Rightarrow> (case ir_nextk J of
          None \<Rightarrow> None
        | Some ref \<Rightarrow> Some (add_const J ref (kint_ins k), ref)))"

definition lj_ir_kint64 :: "jit_State \<Rightarrow> u64 \<Rightarrow> (jit_State \<times> nat) option" where
  "lj_ir_kint64 J k =
     (case find (\<lambda>ref. ins_k64 (cur_ir J ref) = k) (chain J KINT64) of
        Some ref \<Rightarrow> Some (J, ref)
      | None \<Rightarrow> (case ir_nextk64 J of
          None \<Rightarrow> None
        | Some ref \<Rightarrow> Some (add_const J ref (kint64_ins k), ref)))"

section \<open>Emission and common-subexpression elimination\<close>

definition lj_ir_emit :: "jit_State \<Rightarrow> irins \<Rightarrow> jit_State \<times> nat" where
  "lj_ir_emit J fins =
     (let ref = cur_nins J; op = ins_o fins
      in (J\<lparr>cur_nins := ref + 1, cur_ir := (cur_ir J)(ref := fins),
            chain := (chain J)(op := ref # chain J op),
            guardemit := guardemit J \<or> ins_guard fins\<rparr>, ref))"

definition cse_find :: "jit_State \<Rightarrow> irins \<Rightarrow> nat \<Rightarrow> nat option" where
  "cse_find J fins lim =
     find (\<lambda>ref. ins_op1 (cur_ir J ref) = ins_op1 fins \<and> ins_op2 (cur_ir J ref) = ins_op2 fins)
       (takeWhile (\<lambda>ref. lim < ref) (chain J (ins_o fins)))"

definition lj_opt_cse :: "jit_State \<Rightarrow> irins \<Rightarrow> jit_State \<times> nat" where
  "lj_opt_cse J fins =
     (case (if opt_cse J then cse_find J fins (max (ins_op1 fins) (ins_op2 fins)) else None) of
        Some ref \<Rightarrow> (J, ref)
      | None \<Rightarrow> lj_ir_emit J fins)"

definition lj_opt_cselim :: "jit_State \<Rightarrow> irins \<Rightarrow> nat \<Rightarrow> jit_State \<times> nat" where
  "lj_opt_cselim J fins lim =
     (case cse_find J fins lim of Some ref \<Rightarrow> (J, ref) | None \<Rightarrow> lj_ir_emit J fins)"

section \<open>Byte swap and rotate\<close>

definition lj_bswap :: "u32 \<Rightarrow> u32" where
  "lj_bswap x = push_bit 24 x OR push_bit 8 (x AND 0xff00) OR (drop_bit 8 x AND 0xff00) OR drop_bit 24 x"

definition lj_bswap64 :: "u64 \<Rightarrow> u64" where
  "lj_bswap64 x = u64_of_u32 (lj_bswap (u32_of_u64 (drop_bit 32 x)))
     OR push_bit 32 (u64_of_u32 (lj_bswap (u32_of_u64 x)))"

text \<open>\<^verbatim>\<open>lj_fls\<close>, from the number of leading zeros.\<close>

definition builtin_clz :: "u32 \<Rightarrow> nat" where
  "builtin_clz x = length (takeWhile (\<lambda>i. \<not> bit x i) (rev [0..<32]))"

definition lj_fls :: "u32 \<Rightarrow> u32" where
  "lj_fls x = of_nat (builtin_clz x) XOR 31"

definition lj_rol32 :: "u32 \<Rightarrow> nat \<Rightarrow> u32" where
  "lj_rol32 x n = push_bit n x OR drop_bit (nat ((- int n) mod 32)) x"

definition lj_ror32 :: "u32 \<Rightarrow> nat \<Rightarrow> u32" where
  "lj_ror32 x n = push_bit (nat ((- int n) mod 32)) x OR drop_bit n x"

lemma word_rot_zero [simp]: "word_rotl 0 x = x" "word_rotr 0 x = x" for x :: "'a::len word"
  by (rule bit_word_eqI, simp add: bit_simps)+

lemma rol_rotl:
  fixes x :: "'a::len word"
  assumes "n < LENGTH('a)"
  shows "push_bit n x OR drop_bit (nat ((- int n) mod int LENGTH('a))) x = word_rotl n x"
proof (cases "n = 0")
  case False
  with assms have "nat ((- int n) mod int LENGTH('a)) = LENGTH('a) - n"
    by (simp add: zmod_zminus1_eq_if nat_diff_distrib)
  moreover have "bit (push_bit n x OR drop_bit (LENGTH('a) - n) x) m = bit (word_rotl n x) m"
    if m: "m < LENGTH('a)" for m
  proof (cases "m < n")
    case True
    then have "m + (LENGTH('a) - n) < LENGTH('a)" using assms by simp
    with True m assms show ?thesis
      by (simp add: bit_simps) (metis add.commute mod_less)
  next
    case False
    then have "m + (LENGTH('a) - n) = (m - n) + LENGTH('a)" using assms by simp
    then have "(m + (LENGTH('a) - n)) mod LENGTH('a) = (m - n) mod LENGTH('a)"
      by (simp only: mod_add_self2)
    also have "\<dots> = m - n" using m by simp
    finally have "(m + (LENGTH('a) - n)) mod LENGTH('a) = m - n" .
    moreover have "\<not> bit x (LENGTH('a) - n + m)"
      using False assms by (auto dest: bit_imp_le_length)
    ultimately show ?thesis using False m assms by (simp add: bit_simps)
  qed
  ultimately show ?thesis by (simp add: bit_word_eqI)
qed simp

lemma ror_rotr:
  fixes x :: "'a::len word"
  assumes "n < LENGTH('a)"
  shows "push_bit (nat ((- int n) mod int LENGTH('a))) x OR drop_bit n x = word_rotr n x"
proof (cases "n = 0")
  case False
  let ?m = "LENGTH('a) - n"
  have m: "nat ((- int n) mod int LENGTH('a)) = ?m" "?m < LENGTH('a)"
    using False assms by (simp_all add: zmod_zminus1_eq_if nat_diff_distrib)
  then have "(- int ?m) mod int LENGTH('a) = int n"
    using False assms by (simp add: zmod_zminus1_eq_if of_nat_diff)
  then have "push_bit ?m x OR drop_bit n x = word_rotl ?m x" using rol_rotl [of ?m x] m by simp
  also have "\<dots> = word_rotr n x" using False assms by (simp add: word_rotl_eq_word_rotr)
  finally show ?thesis using m by simp
qed simp

end
