(* ===== verification/Ir_Sem.thy ===== *)
theory Ir_Sem
  imports Ir
begin

text \<open>
  The meaning of the integer instructions of \<^verbatim>\<open>lj_ir.h\<close>, typing of the instruction buffer, and what
  interning a constant, emitting an instruction and common-subexpression elimination do to the set
  of runs of a trace. A run is a valuation of the references, \<^typ>\<open>nat \<Rightarrow> u64\<close>, under which every
  instruction completes with the value of its reference.
\<close>

section \<open>Meaning of an instruction\<close>

datatype 'a outcome = Done 'a | Exit | Undef

definition guard :: "bool \<Rightarrow> 'a::zero outcome" where
  "guard c = (if c then Done 0 else Exit)"

definition checked :: "int \<Rightarrow> 'a::len word outcome" where
  "checked n = (if - (2 ^ (LENGTH('a) - 1)) \<le> n \<and> n < 2 ^ (LENGTH('a) - 1) then Done (word_of_int n) else Exit)"

text \<open>Hardware shifts use the low bits of the count.\<close>

definition shcount :: "'a::len word \<Rightarrow> nat" where
  "shcount b = unat b mod LENGTH('a)"

fun sem_w :: "irop \<Rightarrow> 'a::len word \<Rightarrow> 'a word \<Rightarrow> 'a word outcome" where
  "sem_w LT a b = guard (sint a < sint b)"
| "sem_w GE a b = guard (sint a \<ge> sint b)"
| "sem_w LE a b = guard (sint a \<le> sint b)"
| "sem_w GT a b = guard (sint a > sint b)"
| "sem_w ULT a b = guard (a < b)"
| "sem_w UGE a b = guard (a \<ge> b)"
| "sem_w ULE a b = guard (a \<le> b)"
| "sem_w UGT a b = guard (a > b)"
| "sem_w EQ a b = guard (a = b)"
| "sem_w NE a b = guard (a \<noteq> b)"
| "sem_w ABC a b = guard (b < a)"
| "sem_w BNOT a b = Done (NOT a)"
| "sem_w BAND a b = Done (a AND b)"
| "sem_w BOR a b = Done (a OR b)"
| "sem_w BXOR a b = Done (a XOR b)"
| "sem_w BSHL a b = Done (push_bit (shcount b) a)"
| "sem_w BSHR a b = Done (drop_bit (shcount b) a)"
| "sem_w BSAR a b = Done (signed_drop_bit (shcount b) a)"
| "sem_w BROL a b = Done (word_rotl (shcount b) a)"
| "sem_w BROR a b = Done (word_rotr (shcount b) a)"
| "sem_w ADD a b = Done (a + b)"
| "sem_w SUB a b = Done (a - b)"
| "sem_w MUL a b = Done (a * b)"
| "sem_w NEG a b = Done (- a)"
| "sem_w MOD a b = (if b = 0 then Undef else Done (word_of_int (sint a mod sint b)))"
| "sem_w IR_MIN a b = Done (if sint a < sint b then a else b)"
| "sem_w IR_MAX a b = Done (if sint a > sint b then a else b)"
| "sem_w ADDOV a b = checked (sint a + sint b)"
| "sem_w SUBOV a b = checked (sint a - sint b)"
| "sem_w MULOV a b = checked (sint a * sint b)"
| "sem_w _ a b = Undef"

text \<open>The array bounds check compares 32-bit values whatever its type, which only marks invariance;
  64-bit division, modulo and power are calls of the \<^verbatim>\<open>lj_carith\<close> functions.\<close>

definition sem :: "irop \<Rightarrow> irtype \<Rightarrow> u64 \<Rightarrow> u64 \<Rightarrow> u64 outcome" where
  "sem op t a b =
     (if irt_is64 t \<and> op \<noteq> ABC then
        case op of
          BSWAP \<Rightarrow> Done (lj_bswap64 a)
        | DIV \<Rightarrow> Done (if t = IRT_I64 then lj_carith_divi64 a b else lj_carith_divu64 a b)
        | MOD \<Rightarrow> Done (if t = IRT_I64 then lj_carith_modi64 a b else lj_carith_modu64 a b)
        | POW \<Rightarrow> Done (if t = IRT_I64 then lj_carith_powi64 a b else lj_carith_powu64 a b)
        | _ \<Rightarrow> sem_w op a b
      else
        map_outcome u64_of_u32
          (case op of
             BSWAP \<Rightarrow> Done (lj_bswap (u32_of_u64 a))
           | _ \<Rightarrow> sem_w op (u32_of_u64 a) (u32_of_u64 b)))"

definition sem_ins :: "(nat \<Rightarrow> u64) \<Rightarrow> irins \<Rightarrow> u64 outcome" where
  "sem_ins \<rho> i = sem (ins_o i) (ins_t i) (\<rho> (ins_op1 i)) (\<rho> (ins_op2 i))"

section \<open>Well-formed instruction buffers\<close>

definition valid :: "jit_State \<Rightarrow> nat \<Rightarrow> bool" where
  "valid J r \<longleftrightarrow> r \<in> set (chain J KINT) \<or> r \<in> set (chain J KINT64) \<or> REF_BIAS \<le> r \<and> r < cur_nins J"

abbreviation ref_o :: "jit_State \<Rightarrow> nat \<Rightarrow> irop" where "ref_o J r \<equiv> ins_o (cur_ir J r)"
abbreviation ref_t :: "jit_State \<Rightarrow> nat \<Rightarrow> irtype" where "ref_t J r \<equiv> ins_t (cur_ir J r)"

text \<open>Operands of 32-bit instructions are 32-bit values. A 64-bit instruction may have the 32-bit
  constant zero as an operand: the cancellation rules for subtraction create it.\<close>

definition int64 :: "irtype \<Rightarrow> bool" where "int64 t \<longleftrightarrow> t = IRT_I64 \<or> t = IRT_U64"
definition int32 :: "irtype \<Rightarrow> bool" where "int32 t \<longleftrightarrow> t = IRT_INT \<or> t = IRT_U32"

definition opd :: "jit_State \<Rightarrow> bool \<Rightarrow> nat \<Rightarrow> bool" where
  "opd J w r \<longleftrightarrow> valid J r \<and>
     (if w then int64 (ref_t J r) \<or> ref_o J r = KINT \<and> ins_i (cur_ir J r) = 0 else int32 (ref_t J r))"

definition is_opaque :: "irop \<Rightarrow> bool" where "is_opaque op \<longleftrightarrow> op \<in> {RETF, BASE, LOOP, SLOAD}"
definition is_const :: "irop \<Rightarrow> bool" where "is_const op \<longleftrightarrow> op \<in> {KINT, KINT64}"
definition is_shift :: "irop \<Rightarrow> bool" where "is_shift op \<longleftrightarrow> op \<in> {BSHL, BSHR, BSAR, BROL, BROR}"
definition only32 :: "irop \<Rightarrow> bool" where "only32 op \<longleftrightarrow> op \<in> {IR_MIN, IR_MAX, ADDOV, SUBOV, MULOV}"

definition typed :: "jit_State \<Rightarrow> irins \<Rightarrow> bool" where
  "typed J i \<longleftrightarrow>
     (let w = int64 (ins_t i)
      in if ins_o i = ABC then
           (ins_t i = IRT_INT \<or> ins_t i = IRT_P32) \<and> opd J False (ins_op1 i) \<and> opd J False (ins_op2 i)
         else (w \<and> \<not> only32 (ins_o i) \<or> int32 (ins_t i)) \<and> opd J w (ins_op1 i) \<and>
           (if ins_o i \<in> {BNOT, BSWAP} then ins_op2 i = 0
            else opd J (w \<and> \<not> is_shift (ins_o i)) (ins_op2 i)) \<and>
           (w \<and> ins_o i \<in> {BNOT, BXOR} \<longrightarrow> ref_o J (ins_op1 i) \<noteq> KINT) \<and>
           (w \<and> ins_o i = BXOR \<longrightarrow> ref_o J (ins_op2 i) \<noteq> KINT))"

text \<open>What the rules never leave behind: a 64-bit instruction on 32-bit zeros only, and a 64-bit
  \<^verbatim>\<open>BAND\<close> with one on the right.\<close>

definition canonical :: "jit_State \<Rightarrow> irins \<Rightarrow> bool" where
  "canonical J i \<longleftrightarrow> (int64 (ins_t i) \<and> ins_o i \<noteq> ABC \<longrightarrow>
     (ref_o J (ins_op1 i) = KINT \<longrightarrow>
        ins_o i \<notin> {BNOT, BSWAP} \<and> \<not> is_shift (ins_o i) \<and> ref_o J (ins_op2 i) \<noteq> KINT) \<and>
     (ins_o i = BAND \<longrightarrow> ref_o J (ins_op2 i) \<noteq> KINT))"

definition wf_ins :: "jit_State \<Rightarrow> nat \<Rightarrow> bool" where
  "wf_ins J r \<longleftrightarrow> (let i = cur_ir J r in
     \<not> is_const (ins_o i) \<and>
     (\<not> is_opaque (ins_o i) \<longrightarrow> typed J i \<and> canonical J i \<and> ins_op1 i < r \<and> ins_op2 i < r))"

definition wf_ir :: "jit_State \<Rightarrow> bool" where
  "wf_ir J \<longleftrightarrow> 0 < cur_nk J \<and> cur_nk J \<le> REF_BIAS \<and> REF_BIAS \<le> cur_nins J \<and>
     (\<forall>r \<in> set (chain J KINT). cur_nk J \<le> r \<and> r < REF_BIAS \<and> cur_ir J r = kint_ins (ins_i (cur_ir J r))) \<and>
     (\<forall>r \<in> set (chain J KINT64). cur_nk J \<le> r \<and> r < REF_BIAS \<and> cur_ir J r = kint64_ins (ins_k64 (cur_ir J r))) \<and>
     inj_on (\<lambda>r. ins_i (cur_ir J r)) (set (chain J KINT)) \<and>
     inj_on (\<lambda>r. ins_k64 (cur_ir J r)) (set (chain J KINT64)) \<and>
     (\<forall>op. \<not> is_const op \<longrightarrow> (\<forall>r \<in> set (chain J op). REF_BIAS \<le> r \<and> r < cur_nins J \<and> ref_o J r = op)) \<and>
     (\<forall>r. REF_BIAS \<le> r \<longrightarrow> r < cur_nins J \<longrightarrow> wf_ins J r)"

section \<open>Runs\<close>

definition completes :: "jit_State \<Rightarrow> (nat \<Rightarrow> u64) \<Rightarrow> nat \<Rightarrow> bool" where
  "completes J \<rho> r =
     (let i = cur_ir J r
      in if ins_o i = KINT then \<rho> r = u64_of_u32 (ins_i i)
         else if ins_o i = KINT64 then \<rho> r = ins_k64 i
         else if is_opaque (ins_o i) then int32 (ins_t i) \<longrightarrow> \<rho> r = u64_of_u32 (u32_of_u64 (\<rho> r))
         else sem_ins \<rho> i = Done (\<rho> r))"

definition run :: "jit_State \<Rightarrow> (nat \<Rightarrow> u64) \<Rightarrow> bool" where
  "run J \<rho> \<longleftrightarrow> (\<forall>r. valid J r \<longrightarrow> completes J \<rho> r)"

subsection \<open>Validity and typing\<close>

lemmas op_classes = is_opaque_def is_const_def is_shift_def only32_def

lemma wf_kint:
  assumes "wf_ir J" "r \<in> set (chain J KINT)"
  shows "cur_nk J \<le> r" "r < REF_BIAS" "ref_o J r = KINT" "ref_t J r = IRT_INT" "cur_ir J r = kint_ins (ins_i (cur_ir J r))"
proof -
  show *: "cur_nk J \<le> r" "r < REF_BIAS" "cur_ir J r = kint_ins (ins_i (cur_ir J r))"
    using assms by (auto simp: wf_ir_def)
  show "ref_o J r = KINT" "ref_t J r = IRT_INT" by (subst *(3), simp add: kint_ins_def)+
qed

lemma wf_kint64:
  assumes "wf_ir J" "r \<in> set (chain J KINT64)"
  shows "cur_nk J \<le> r" "r < REF_BIAS" "ref_o J r = KINT64" "ref_t J r = IRT_I64"
    "cur_ir J r = kint64_ins (ins_k64 (cur_ir J r))"
proof -
  show *: "cur_nk J \<le> r" "r < REF_BIAS" "cur_ir J r = kint64_ins (ins_k64 (cur_ir J r))"
    using assms by (auto simp: wf_ir_def)
  show "ref_o J r = KINT64" "ref_t J r = IRT_I64" by (subst *(3), simp add: kint64_ins_def)+
qed

lemma wf_insD: "wf_ir J \<Longrightarrow> REF_BIAS \<le> r \<Longrightarrow> r < cur_nins J \<Longrightarrow> wf_ins J r"
  by (simp add: wf_ir_def)

lemma wf_chainD:
  "wf_ir J \<Longrightarrow> \<not> is_const op \<Longrightarrow> r \<in> set (chain J op) \<Longrightarrow> REF_BIAS \<le> r \<and> r < cur_nins J \<and> ref_o J r = op"
  unfolding wf_ir_def by blast

lemma valid_cases:
  assumes "wf_ir J" "valid J r"
  obtains (kint) "r \<in> set (chain J KINT)" "ref_o J r = KINT" "r < REF_BIAS"
    | (kint64) "r \<in> set (chain J KINT64)" "ref_o J r = KINT64" "r < REF_BIAS"
    | (ins) "REF_BIAS \<le> r" "r < cur_nins J" "wf_ins J r" "ref_o J r \<noteq> KINT" "ref_o J r \<noteq> KINT64"
  using assms wf_kint [OF assms(1)] wf_kint64 [OF assms(1)] wf_insD [OF assms(1)]
  unfolding valid_def by (metis is_const_def insert_iff wf_ins_def)

lemma valid_KINT_iff: "wf_ir J \<Longrightarrow> valid J r \<Longrightarrow> ref_o J r = KINT \<longleftrightarrow> r \<in> set (chain J KINT)"
  by (metis valid_cases wf_kint(3))

lemma valid_KINT64_iff: "wf_ir J \<Longrightarrow> valid J r \<Longrightarrow> ref_o J r = KINT64 \<longleftrightarrow> r \<in> set (chain J KINT64)"
  by (metis valid_cases wf_kint64(3))

lemma valid_ins:
  "wf_ir J \<Longrightarrow> valid J r \<Longrightarrow> \<not> is_const (ref_o J r) \<Longrightarrow> REF_BIAS \<le> r \<and> wf_ins J r"
  by (erule valid_cases, assumption) (auto simp: is_const_def)

lemma wf_limits: "wf_ir J \<Longrightarrow> 0 < cur_nk J \<and> cur_nk J \<le> REF_BIAS \<and> REF_BIAS \<le> cur_nins J"
  by (simp add: wf_ir_def)

lemma valid_bounds: "wf_ir J \<Longrightarrow> valid J r \<Longrightarrow> cur_nk J \<le> r \<and> r < cur_nins J"
  using wf_limits [of J] wf_kint(1,2) [of J r] wf_kint64(1,2) [of J r] by (auto simp: valid_def)

lemma opd_valid: "opd J w r \<Longrightarrow> valid J r"
  by (simp add: opd_def)

text \<open>An operand that is an instruction has the width of its user.\<close>

lemma opd_width:
  "opd J w r \<Longrightarrow> ref_o J r \<noteq> KINT \<Longrightarrow> int64 (ref_t J r) = w \<and> (w \<or> int32 (ref_t J r))"
  by (auto simp: opd_def int32_def int64_def split: if_splits)

lemma opd_const:
  assumes "wf_ir J" "opd J w r" "r < REF_BIAS"
  shows "if w then ref_o J r = KINT64 \<or> ref_o J r = KINT \<and> ins_i (cur_ir J r) = 0 else ref_o J r = KINT"
proof -
  have "valid J r" using assms(2) by (rule opd_valid)
  with assms(1) show ?thesis
  proof (cases rule: valid_cases)
    case kint
    with assms(2) wf_kint(4) [OF assms(1)] show ?thesis by (auto simp: opd_def int64_def split: if_splits)
  next
    case kint64
    with assms(2) wf_kint64(4) [OF assms(1)] show ?thesis by (auto simp: opd_def int32_def split: if_splits)
  qed (use assms(3) in simp)
qed

subsection \<open>What a run gives\<close>

lemma run_completes: "run J \<rho> \<Longrightarrow> valid J r \<Longrightarrow> completes J \<rho> r"
  by (simp add: run_def)

lemma run_kint: "run J \<rho> \<Longrightarrow> valid J r \<Longrightarrow> ref_o J r = KINT \<Longrightarrow> \<rho> r = u64_of_u32 (ins_i (cur_ir J r))"
  by (drule (1) run_completes) (simp add: completes_def)

lemma run_kint64: "run J \<rho> \<Longrightarrow> valid J r \<Longrightarrow> ref_o J r = KINT64 \<Longrightarrow> \<rho> r = ins_k64 (cur_ir J r)"
  by (drule (1) run_completes) (simp add: completes_def)

lemma run_ins:
  "run J \<rho> \<Longrightarrow> valid J r \<Longrightarrow> \<not> is_const (ref_o J r) \<Longrightarrow> \<not> is_opaque (ref_o J r) \<Longrightarrow>
   sem_ins \<rho> (cur_ir J r) = Done (\<rho> r)"
  by (drule (1) run_completes) (auto simp: completes_def is_const_def Let_def)

lemma map_outcome_Done: "map_outcome f x = Done v \<longleftrightarrow> (\<exists>y. x = Done y \<and> v = f y)"
  by (cases x) auto

lemma is64_int32: "int32 t \<Longrightarrow> \<not> irt_is64 t"
  by (auto simp: int32_def)

lemma is64_int64: "int64 t \<Longrightarrow> irt_is64 t"
  by (auto simp: int64_def)

lemma sem_32: "int32 t \<Longrightarrow> sem op t a b = Done v \<Longrightarrow> v = u64_of_u32 (u32_of_u64 v)"
  by (auto simp: sem_def is64_int32 map_outcome_Done)

section \<open>Growing the buffer\<close>

definition agree :: "jit_State \<Rightarrow> (nat \<Rightarrow> u64) \<Rightarrow> (nat \<Rightarrow> u64) \<Rightarrow> bool" where
  "agree J \<rho> \<rho>' \<longleftrightarrow> (\<forall>r. valid J r \<longrightarrow> \<rho>' r = \<rho> r)"

definition extends :: "jit_State \<Rightarrow> jit_State \<Rightarrow> bool" where
  "extends J J' \<longleftrightarrow> (\<forall>r. valid J r \<longrightarrow> valid J' r \<and> cur_ir J' r = cur_ir J r)"

lemma agree_refl [simp]: "agree J \<rho> \<rho>"
  by (simp add: agree_def)

lemma agree_trans: "extends J J' \<Longrightarrow> agree J \<rho> \<rho>' \<Longrightarrow> agree J' \<rho>' \<rho>'' \<Longrightarrow> agree J \<rho> \<rho>''"
  by (simp add: agree_def extends_def)

lemma extends_refl [simp]: "extends J J"
  by (simp add: extends_def)

lemma extends_trans: "extends J J' \<Longrightarrow> extends J' J'' \<Longrightarrow> extends J J''"
  by (simp add: extends_def)

lemma opd_extends: "extends J J' \<Longrightarrow> opd J w r \<Longrightarrow> opd J' w r"
  by (simp add: opd_def extends_def)

lemma typed_opd1: "typed J i \<Longrightarrow> opd J (ins_o i \<noteq> ABC \<and> int64 (ins_t i)) (ins_op1 i)"
  by (auto simp: typed_def Let_def split: if_splits)

lemma typed_opd2:
  "typed J i \<Longrightarrow> ins_o i \<notin> {BNOT, BSWAP} \<Longrightarrow>
   opd J (ins_o i \<noteq> ABC \<and> \<not> is_shift (ins_o i) \<and> int64 (ins_t i)) (ins_op2 i)"
  by (cases "is_shift (ins_o i)") (auto simp: typed_def Let_def is_shift_def split: if_splits)

lemma typed_valid:
  "typed J i \<Longrightarrow> valid J (ins_op1 i)"
  "typed J i \<Longrightarrow> ins_o i \<notin> {BNOT, BSWAP} \<Longrightarrow> valid J (ins_op2 i)"
  by (rule opd_valid, erule typed_opd1) (rule opd_valid, erule (1) typed_opd2)

lemma typed_extends:
  assumes "extends J J'" "typed J i"
  shows "typed J' i"
proof -
  have "ref_o J' (ins_op1 i) = ref_o J (ins_op1 i)"
    using assms typed_valid(1) [OF assms(2)] by (simp add: extends_def)
  moreover have "ref_o J' (ins_op2 i) = ref_o J (ins_op2 i)" if "ins_o i = BXOR"
    using assms typed_valid(2) [OF assms(2)] that by (simp add: extends_def)
  ultimately show ?thesis
    using assms opd_extends [OF assms(1)] by (auto simp: typed_def Let_def split: if_splits)
qed

lemma sem_unary: "op \<in> {BNOT, BSWAP} \<Longrightarrow> sem op t a b = sem op t a c"
  by (auto simp: sem_def)

lemma sem_ins_agree:
  assumes "typed J i" "agree J \<rho> \<rho>'"
  shows "sem_ins \<rho>' i = sem_ins \<rho> i"
proof -
  have "\<rho>' (ins_op1 i) = \<rho> (ins_op1 i)"
    using assms typed_valid(1) by (simp add: agree_def)
  moreover have "\<rho>' (ins_op2 i) = \<rho> (ins_op2 i)" if "ins_o i \<notin> {BNOT, BSWAP}"
    using assms typed_valid(2) that by (simp add: agree_def)
  ultimately show ?thesis unfolding sem_ins_def by (metis sem_unary)
qed

lemma completes_agree:
  assumes "wf_ir J" "valid J r" "agree J \<rho> \<rho>'"
  shows "completes J \<rho>' r = completes J \<rho> r"
proof -
  have r: "\<rho>' r = \<rho> r" using assms(2,3) by (simp add: agree_def)
  have "sem_ins \<rho>' (cur_ir J r) = sem_ins \<rho> (cur_ir J r)"
    if "\<not> is_const (ref_o J r)" "\<not> is_opaque (ref_o J r)"
    using valid_ins [OF assms(1,2) that(1)] that(2) sem_ins_agree [OF _ assms(3)]
    by (auto simp: wf_ins_def Let_def)
  then show ?thesis by (auto simp: completes_def r Let_def is_const_def)
qed

lemma run_agree: "wf_ir J \<Longrightarrow> agree J \<rho> \<rho>' \<Longrightarrow> run J \<rho> \<Longrightarrow> run J \<rho>'"
  by (simp add: run_def completes_agree)

lemma completes_extends: "extends J J' \<Longrightarrow> valid J r \<Longrightarrow> completes J' \<rho> r = completes J \<rho> r"
  by (simp add: extends_def completes_def)

lemma run_extends: "extends J J' \<Longrightarrow> run J' \<rho> \<Longrightarrow> run J \<rho>"
  unfolding run_def using completes_extends by (metis extends_def)

text \<open>A state that differs by constants only: the same runs, up to the new references.\<close>

definition grows :: "jit_State \<Rightarrow> jit_State \<Rightarrow> bool" where
  "grows J J' \<longleftrightarrow> wf_ir J' \<and> extends J J' \<and> cur_nins J' = cur_nins J \<and>
     (\<forall>op. \<not> is_const op \<longrightarrow> chain J' op = chain J op) \<and>
     opt_fold J' = opt_fold J \<and> opt_cse J' = opt_cse J \<and> opt_abc J' = opt_abc J \<and>
     (\<forall>\<rho>. run J \<rho> \<longrightarrow> (\<exists>\<rho>'. run J' \<rho>' \<and> agree J \<rho> \<rho>'))"

lemma grows_refl: "wf_ir J \<Longrightarrow> grows J J"
  by (auto simp: grows_def intro: agree_refl)

lemma grows_run: "grows J J' \<Longrightarrow> run J \<rho> \<Longrightarrow> \<exists>\<rho>'. run J' \<rho>' \<and> agree J \<rho> \<rho>'"
  by (simp add: grows_def)

lemma grows_trans:
  assumes "grows J J'" "grows J' J''"
  shows "grows J J''"
proof -
  have ext: "extends J J'" using assms(1) by (simp add: grows_def)
  have "\<exists>\<rho>''. run J'' \<rho>'' \<and> agree J \<rho> \<rho>''" if "run J \<rho>" for \<rho>
    using grows_run [OF assms(1) that] grows_run [OF assms(2)] agree_trans [OF ext] by blast
  with assms extends_trans [of J J' J''] show ?thesis by (simp add: grows_def)
qed

lemma growsD: "grows J J' \<Longrightarrow> wf_ir J'" "grows J J' \<Longrightarrow> extends J J'"
  by (simp_all add: grows_def)

lemma extends_add_const:
  assumes "wf_ir J" "ref < cur_nk J"
  shows "extends J (add_const J ref ir)"
proof -
  have "r \<noteq> ref" if "valid J r" for r using valid_bounds [OF assms(1) that] assms(2) by auto
  then show ?thesis by (auto simp: extends_def valid_def add_const_def)
qed

lemma canonical_extends:
  assumes "extends J J'" "typed J i" "canonical J i"
  shows "canonical J' i"
proof -
  have "ref_o J' (ins_op1 i) = ref_o J (ins_op1 i)"
    using assms(1) typed_valid(1) [OF assms(2)] by (simp add: extends_def)
  moreover have "ref_o J' (ins_op2 i) = ref_o J (ins_op2 i)" if "ins_o i \<notin> {BNOT, BSWAP}"
    using assms(1) typed_valid(2) [OF assms(2) that] by (simp add: extends_def)
  ultimately show ?thesis using assms(3) by (auto simp: canonical_def)
qed

lemma wf_ins_extends:
  assumes "extends J J'" "valid J r" "wf_ins J r"
  shows "wf_ins J' r"
proof -
  have "cur_ir J' r = cur_ir J r" using assms(1,2) by (simp add: extends_def)
  with assms(3) typed_extends [OF assms(1)] canonical_extends [OF assms(1)] show ?thesis
    by (auto simp: wf_ins_def Let_def)
qed

lemma chain_add_const [simp]:
  "chain (add_const J ref ir) = (chain J)(ins_o ir := ref # chain J (ins_o ir))"
  "cur_ir (add_const J ref ir) = (cur_ir J)(ref := ir)"
  "cur_nk (add_const J ref ir) = ref" "cur_nins (add_const J ref ir) = cur_nins J"
  "opt_fold (add_const J ref ir) = opt_fold J" "opt_cse (add_const J ref ir) = opt_cse J"
  "opt_abc (add_const J ref ir) = opt_abc J"
  by (simp_all add: add_const_def)

lemma add_const_wf:
  assumes wf: "wf_ir J" and ref: "0 < ref" "ref < cur_nk J"
    and ir: "ir = kint_ins k \<and> (\<forall>r \<in> set (chain J KINT). ins_i (cur_ir J r) \<noteq> k) \<or>
             ir = kint64_ins k64 \<and> (\<forall>r \<in> set (chain J KINT64). ins_k64 (cur_ir J r) \<noteq> k64)"
  shows "wf_ir (add_const J ref ir)"
proof -
  let ?J = "add_const J ref ir"
  have ne: "r \<noteq> ref" if "r \<in> set (chain J KINT) \<or> r \<in> set (chain J KINT64)" for r
    using that wf_kint(1) [OF wf] wf_kint64(1) [OF wf] ref by fastforce
  have isk: "is_const (ins_o ir)" using ir by (auto simp: is_const_def kint_ins_def kint64_ins_def)
  have bias: "0 < ref" "ref < REF_BIAS" "cur_nk J \<le> REF_BIAS" "REF_BIAS \<le> cur_nins J"
    using wf_limits [OF wf] ref by auto
  have k: "\<forall>r \<in> set (chain ?J KINT). ref \<le> r \<and> r < REF_BIAS \<and> cur_ir ?J r = kint_ins (ins_i (cur_ir ?J r))"
    using ir wf_kint [OF wf] ref ne bias
    by (auto simp: kint_ins_def kint64_ins_def dest: order.trans less_imp_le) (metis le_trans less_imp_le)+
  have k64: "\<forall>r \<in> set (chain ?J KINT64). ref \<le> r \<and> r < REF_BIAS \<and> cur_ir ?J r = kint64_ins (ins_k64 (cur_ir ?J r))"
    using ir wf_kint64 [OF wf] ref ne bias
    by (auto simp: kint_ins_def kint64_ins_def dest: order.trans less_imp_le) (metis le_trans less_imp_le)+
  have inj: "inj_on (\<lambda>r. ins_i (cur_ir ?J r)) (set (chain ?J KINT))"
    using ir wf ne by (auto simp: wf_ir_def inj_on_def kint_ins_def kint64_ins_def)
  have inj64: "inj_on (\<lambda>r. ins_k64 (cur_ir ?J r)) (set (chain ?J KINT64))"
    using ir wf ne by (auto simp: wf_ir_def inj_on_def kint_ins_def kint64_ins_def)
  have ch: "\<forall>op. \<not> is_const op \<longrightarrow> (\<forall>r \<in> set (chain ?J op). REF_BIAS \<le> r \<and> r < cur_nins ?J \<and> ref_o ?J r = op)"
  proof -
    have "ref \<notin> set (chain J op)" if "\<not> is_const op" for op
      using wf_chainD [OF wf that, of ref] bias(2) by auto
    with wf_chainD [OF wf] isk show ?thesis by auto
  qed
  have ins: "wf_ins ?J r" if "REF_BIAS \<le> r" "r < cur_nins ?J" for r
  proof (rule wf_ins_extends [OF extends_add_const [OF wf ref(2)]])
    show "valid J r" "wf_ins J r" using that wf_insD [OF wf] by (auto simp: valid_def)
  qed
  show ?thesis
    unfolding wf_ir_def using bias k k64 inj inj64 ch ins by (metis chain_add_const(3,4) less_imp_le)
qed

lemma add_const_grows:
  assumes wf: "wf_ir J" and ref: "0 < ref" "ref < cur_nk J"
    and ir: "ir = kint_ins k \<and> (\<forall>r \<in> set (chain J KINT). ins_i (cur_ir J r) \<noteq> k) \<or>
             ir = kint64_ins k64 \<and> (\<forall>r \<in> set (chain J KINT64). ins_k64 (cur_ir J r) \<noteq> k64)"
  shows "grows J (add_const J ref ir) \<and> valid (add_const J ref ir) ref"
proof -
  let ?J = "add_const J ref ir"
  have ext: "extends J ?J" by (rule extends_add_const [OF wf ref(2)])
  have wf': "wf_ir ?J" by (rule add_const_wf [OF wf ref ir])
  have isk: "ins_o ir = KINT \<or> ins_o ir = KINT64" using ir by (auto simp: kint_ins_def kint64_ins_def)
  have fresh: "\<not> valid J ref" using valid_bounds [OF wf, of ref] ref by auto
  have valid: "valid ?J r \<longleftrightarrow> valid J r \<or> r = ref" for r using isk by (auto simp: valid_def)
  have "\<exists>\<rho>'. run ?J \<rho>' \<and> agree J \<rho> \<rho>'" if "run J \<rho>" for \<rho>
  proof -
    let ?v = "if ins_o ir = KINT then u64_of_u32 (ins_i ir) else ins_k64 ir"
    let ?\<rho> = "\<rho>(ref := ?v)"
    have ag: "agree J \<rho> ?\<rho>" using fresh by (auto simp: agree_def)
    have "completes ?J ?\<rho> r" if "valid J r" for r
      using run_agree [OF wf ag \<open>run J \<rho>\<close>] that completes_extends [OF ext that] by (simp add: run_def)
    moreover have "completes ?J ?\<rho> ref" using isk by (auto simp: completes_def)
    ultimately have "run ?J ?\<rho>" by (auto simp: run_def valid)
    with ag show ?thesis by blast
  qed
  moreover have "chain ?J op = chain J op" if "\<not> is_const op" for op
    using isk that by (auto simp: is_const_def)
  ultimately have "grows J ?J" using ext wf' by (simp add: grows_def)
  then show ?thesis by (simp add: valid)
qed

lemma find_cases:
  "find P xs = Some r \<Longrightarrow> r \<in> set xs \<and> P r"
  "find P xs = None \<Longrightarrow> \<forall>r \<in> set xs. \<not> P r"
  by (auto simp: find_Some_iff find_None_iff)

lemma lj_ir_kint_grows:
  assumes wf: "wf_ir J" and eq: "lj_ir_kint J k = Some (J', r)"
  shows "grows J J' \<and> valid J' r \<and> cur_ir J' r = kint_ins k \<and> r < REF_BIAS"
proof (cases "find (\<lambda>ref. ins_i (cur_ir J ref) = k) (chain J KINT)")
  case None
  then have "\<not> cur_nk J \<le> 1" "r = cur_nk J - 1" "J' = add_const J r (kint_ins k)"
    using eq by (auto simp: lj_ir_kint_def ir_nextk_def split: if_splits)
  moreover from this have "0 < r" "r < cur_nk J" by simp_all
  ultimately show ?thesis
    using add_const_grows [OF wf, of r "kint_ins k" k] find_cases(2) [OF None] wf_limits [OF wf] by auto
next
  case (Some ref)
  with find_cases(1) [OF Some] eq wf_kint [OF wf, of r] grows_refl [OF wf] show ?thesis
    by (auto simp: lj_ir_kint_def valid_def)
qed

lemma lj_ir_kint64_grows:
  assumes wf: "wf_ir J" and eq: "lj_ir_kint64 J k = Some (J', r)"
  shows "grows J J' \<and> valid J' r \<and> cur_ir J' r = kint64_ins k \<and> r < REF_BIAS"
proof (cases "find (\<lambda>ref. ins_k64 (cur_ir J ref) = k) (chain J KINT64)")
  case None
  then have "\<not> cur_nk J \<le> 2" "r = cur_nk J - 2" "J' = add_const J r (kint64_ins k)"
    using eq by (auto simp: lj_ir_kint64_def ir_nextk64_def split: if_splits)
  moreover from this have "0 < r" "r < cur_nk J" by simp_all
  ultimately show ?thesis
    using add_const_grows [OF wf, of r "kint64_ins k" _ k] find_cases(2) [OF None] wf_limits [OF wf] by auto
next
  case (Some ref)
  with find_cases(1) [OF Some] eq wf_kint64 [OF wf, of r] grows_refl [OF wf] show ?thesis
    by (auto simp: lj_ir_kint64_def valid_def)
qed

section \<open>The contract of an optimised emission\<close>

text \<open>Passing the instruction \<open>f\<close> on gives the buffer \<open>J'\<close> and a value \<open>v\<close> (that of a reference, or zero
  for a dropped guard). Every run of the new buffer is a run of the old one in which \<open>f\<close> completes
  with \<open>v\<close>, unless \<open>f\<close> is undefined there; and every run of the old buffer in which \<open>f\<close> completes is,
  up to the new references, a run of the new one.\<close>

definition implements :: "jit_State \<Rightarrow> irins \<Rightarrow> jit_State \<Rightarrow> ((nat \<Rightarrow> u64) \<Rightarrow> u64) \<Rightarrow> bool" where
  "implements J f J' v \<longleftrightarrow> wf_ir J' \<and>
     (\<forall>\<rho>. run J' \<rho> \<longrightarrow> run J \<rho> \<and> (sem_ins \<rho> f = Done (v \<rho>) \<or> sem_ins \<rho> f = Undef)) \<and>
     (\<forall>\<rho> x. run J \<rho> \<longrightarrow> sem_ins \<rho> f = Done x \<longrightarrow> (\<exists>\<rho>'. run J' \<rho>' \<and> agree J \<rho> \<rho>' \<and> v \<rho>' = x))"

definition same_flags :: "jit_State \<Rightarrow> jit_State \<Rightarrow> bool" where
  "same_flags J J' \<longleftrightarrow> opt_fold J' = opt_fold J \<and> opt_cse J' = opt_cse J \<and> opt_abc J' = opt_abc J \<and>
     chain J' LOOP = chain J LOOP"

text \<open>Instructions that may be emitted.\<close>

definition emittable :: "jit_State \<Rightarrow> irins \<Rightarrow> bool" where
  "emittable J f \<longleftrightarrow> typed J f \<and> canonical J f \<and> \<not> is_const (ins_o f) \<and> \<not> is_opaque (ins_o f)"

lemma emit_shape:
  assumes "lj_ir_emit J f = (J', r)"
  shows "r = cur_nins J" "cur_nins J' = Suc r" "cur_ir J' = (cur_ir J)(r := f)" "cur_nk J' = cur_nk J"
    "chain J' = (chain J)(ins_o f := r # chain J (ins_o f))"
    "opt_fold J' = opt_fold J" "opt_cse J' = opt_cse J" "opt_abc J' = opt_abc J"
  using assms by (auto simp: lj_ir_emit_def Let_def)

lemma emit_extends:
  assumes "wf_ir J" "lj_ir_emit J f = (J', r)" "\<not> is_const (ins_o f)"
  shows "extends J J'" "\<not> valid J r" "valid J' q \<longleftrightarrow> valid J q \<or> q = r"
proof -
  note e = emit_shape [OF assms(2)]
  have ne: "q \<noteq> r" if "valid J q" for q using valid_bounds [OF assms(1) that] e(1) by auto
  have k: "KINT \<noteq> ins_o f" "KINT64 \<noteq> ins_o f" using assms(3) by (auto simp: is_const_def)
  show "valid J' q \<longleftrightarrow> valid J q \<or> q = r" for q
    using e(1,2,5) k wf_limits [OF assms(1)] by (auto simp: valid_def)
  then show "extends J J'" using ne e(3) by (auto simp: extends_def)
  show "\<not> valid J r" using ne by blast
qed

lemma emit_wf:
  assumes wf: "wf_ir J" and em: "lj_ir_emit J f = (J', r)" and f: "emittable J f"
  shows "wf_ir J'"
proof -
  note e = emit_shape [OF em]
  have nk: "\<not> is_const (ins_o f)" and ty: "typed J f" using f by (auto simp: emittable_def)
  note x = emit_extends [OF wf em nk]
  have bias: "REF_BIAS \<le> r" using wf_limits [OF wf] e(1) by simp
  have old: "wf_ins J' q" if "REF_BIAS \<le> q" "q < r" for q
    using that e(1) by (intro wf_ins_extends [OF x(1)]) (auto simp: valid_def wf_insD [OF wf])
  have lt: "ins_op1 f < r" "ins_op2 f < r"
  proof -
    show "ins_op1 f < r" using valid_bounds [OF wf typed_valid(1) [OF ty]] e(1) by simp
    show "ins_op2 f < r"
    proof (cases "ins_o f \<in> {BNOT, BSWAP}")
      case True
      with ty bias show ?thesis by (auto simp: typed_def REF_BIAS_def Let_def)
    next
      case False
      with valid_bounds [OF wf typed_valid(2) [OF ty]] e(1) show ?thesis by auto
    qed
  qed
  have new: "wf_ins J' r"
    using f lt typed_extends [OF x(1) ty] canonical_extends [OF x(1) ty] nk
    by (simp add: wf_ins_def Let_def e(3) emittable_def)
  have keep: "cur_ir J' q = cur_ir J q" if "q < REF_BIAS" for q using that bias e(3) by auto
  have kch: "chain J' KINT = chain J KINT" "chain J' KINT64 = chain J KINT64"
    using nk e(5) by (auto simp: is_const_def)
  have ins: "wf_ins J' q" if "REF_BIAS \<le> q" "q < cur_nins J'" for q
    using that old new e(2) by (cases "q = r") auto
  have "\<forall>op. \<not> is_const op \<longrightarrow> (\<forall>q \<in> set (chain J' op). REF_BIAS \<le> q \<and> q < cur_nins J' \<and> ref_o J' q = op)"
    using wf_chainD [OF wf] bias e(1,2,3,5) by (auto simp: less_SucI)
  moreover have "inj_on (\<lambda>q. ins_i (cur_ir J' q)) (set (chain J KINT))"
    using wf wf_kint(2) [OF wf] keep by (auto simp: wf_ir_def inj_on_def)
  moreover have "inj_on (\<lambda>q. ins_k64 (cur_ir J' q)) (set (chain J KINT64))"
    using wf wf_kint64(2) [OF wf] keep by (auto simp: wf_ir_def inj_on_def)
  ultimately show ?thesis
    unfolding wf_ir_def kch e(4)
    using wf_limits [OF wf] bias e(2) ins wf_kint [OF wf] wf_kint64 [OF wf] keep by auto
qed

lemma emit_implements:
  assumes wf: "wf_ir J" and em: "lj_ir_emit J f = (J', r)" and f: "emittable J f"
  shows "implements J f J' (\<lambda>\<rho>. \<rho> r)"
proof -
  note e = emit_shape [OF em]
  have nk: "\<not> is_const (ins_o f)" and no: "\<not> is_opaque (ins_o f)" and ty: "typed J f"
    using f by (auto simp: emittable_def)
  note x = emit_extends [OF wf em nk]
  have comp: "completes J' \<rho> r \<longleftrightarrow> sem_ins \<rho> f = Done (\<rho> r)" for \<rho>
    using nk no by (auto simp: completes_def Let_def e(3) is_const_def)
  have old_run: "run J \<rho> \<and> sem_ins \<rho> f = Done (\<rho> r)" if "run J' \<rho>" for \<rho>
    using run_extends [OF x(1) that] run_completes [OF that, of r] x(3) comp by simp
  have new_run: "\<exists>\<rho>'. run J' \<rho>' \<and> agree J \<rho> \<rho>' \<and> \<rho>' r = y" if "run J \<rho>" "sem_ins \<rho> f = Done y" for \<rho> y
  proof -
    let ?\<rho> = "\<rho>(r := y)"
    have ag: "agree J \<rho> ?\<rho>" using x(2) by (auto simp: agree_def)
    have "completes J' ?\<rho> q" if "valid J q" for q
      using run_agree [OF wf ag \<open>run J \<rho>\<close>] that completes_extends [OF x(1) that] by (simp add: run_def)
    moreover have "completes J' ?\<rho> r" using comp sem_ins_agree [OF ty ag] that(2) by simp
    ultimately have "run J' ?\<rho>" by (auto simp: run_def x(3))
    with ag show ?thesis by (intro exI [of _ ?\<rho>]) simp
  qed
  show ?thesis unfolding implements_def using emit_wf [OF wf em f] old_run new_run by blast
qed

subsection \<open>Common-subexpression elimination\<close>

text \<open>The search compares opcode and operands, not types: the operands determine the width. For
  64-bit division, modulo and power the signedness of the type matters too; they are excluded.\<close>

lemma sem_width: "(irt_is64 t \<Longrightarrow> op \<notin> {DIV, MOD, POW}) \<Longrightarrow> irt_is64 t = irt_is64 t' \<Longrightarrow> sem op t a b = sem op t' a b"
  by (cases "irt_is64 t"; cases op) (auto simp: sem_def)

lemma opd_both: "opd J True r \<Longrightarrow> opd J False r \<Longrightarrow> ref_o J r = KINT"
  by (auto simp: opd_def int32_def int64_def)

lemma typed_width:
  "typed J i \<Longrightarrow> ins_o i \<noteq> ABC \<Longrightarrow> int32 (ins_t i) \<longleftrightarrow> \<not> int64 (ins_t i)"
  "typed J i \<Longrightarrow> ins_o i \<noteq> ABC \<Longrightarrow> irt_is64 (ins_t i) = int64 (ins_t i)"
  by (auto simp: typed_def Let_def int32_def int64_def)

lemma same_operands_width:
  assumes "emittable J f" "emittable J i" "ins_o f \<noteq> ABC"
    and same: "ins_o i = ins_o f" "ins_op1 i = ins_op1 f" "ins_op2 i = ins_op2 f"
  shows "int64 (ins_t i) = int64 (ins_t f)"
proof (rule ccontr)
  assume "int64 (ins_t i) \<noteq> int64 (ins_t f)"
  then obtain g h where gh: "emittable J g" "emittable J h" "int64 (ins_t g)" "\<not> int64 (ins_t h)"
    "ins_o g = ins_o f" "ins_o h = ins_o f" "ins_op1 h = ins_op1 g" "ins_op2 h = ins_op2 g"
    using assms(1,2) same by (metis (full_types))
  have ty: "typed J g" "typed J h" "canonical J g" using gh by (auto simp: emittable_def)
  have op1: "ref_o J (ins_op1 g) = KINT"
    using typed_opd1 [OF ty(1)] typed_opd1 [OF ty(2)] gh assms(3) opd_both by simp
  then have "ins_o g \<notin> {BNOT, BSWAP}" "\<not> is_shift (ins_o g)" "ref_o J (ins_op2 g) \<noteq> KINT"
    using ty(3) gh assms(3) by (auto simp: canonical_def)
  then show False
    using typed_opd2 [OF ty(1)] typed_opd2 [OF ty(2)] gh assms(3) opd_both [of J "ins_op2 g"] by simp
qed

lemma cse_sem:
  assumes "emittable J f" "emittable J i" "int64 (ins_t f) \<Longrightarrow> ins_o f \<notin> {DIV, MOD, POW}"
    and same: "ins_o i = ins_o f" "ins_op1 i = ins_op1 f" "ins_op2 i = ins_op2 f"
  shows "sem_ins \<rho> i = sem_ins \<rho> f"
proof (cases "ins_o f = ABC")
  case False
  have "irt_is64 (ins_t i) = irt_is64 (ins_t f)"
    using same_operands_width [OF assms(1,2) False same] typed_width(2) [of J i] typed_width(2) [of J f]
      assms(1,2) same False
    by (simp add: emittable_def)
  moreover have "irt_is64 (ins_t i) \<Longrightarrow> ins_o f \<notin> {DIV, MOD, POW}"
    using calculation assms(3) typed_width(2) [of J f] assms(1) False by (simp add: emittable_def)
  ultimately show ?thesis using sem_width [of "ins_t i" "ins_o f" "ins_t f"] by (simp add: sem_ins_def same)
qed (simp add: sem_ins_def same sem_def)

lemma cse_find_same:
  assumes "wf_ir J" "cse_find J f lim = Some r" "\<not> is_const (ins_o f)"
  shows "valid J r \<and> REF_BIAS \<le> r \<and> ref_o J r = ins_o f \<and>
    ins_op1 (cur_ir J r) = ins_op1 f \<and> ins_op2 (cur_ir J r) = ins_op2 f"
proof -
  have r: "r \<in> set (chain J (ins_o f))" "ins_op1 (cur_ir J r) = ins_op1 f" "ins_op2 (cur_ir J r) = ins_op2 f"
    using find_cases(1) [OF assms(2) [unfolded cse_find_def]] by (auto dest: set_takeWhileD)
  with wf_chainD [OF assms(1,3) r(1)] show ?thesis by (auto simp: valid_def)
qed

lemma cse_find_emittable:
  assumes "wf_ir J" "cse_find J f lim = Some r" "emittable J f"
  shows "emittable J (cur_ir J r)"
  using cse_find_same [OF assms(1,2)] valid_ins [OF assms(1), of r] assms(3)
  by (auto simp: emittable_def wf_ins_def Let_def)

lemma cse_hit:
  assumes wf: "wf_ir J" and f: "cse_find J f lim = Some r" and em: "emittable J f"
    and op: "int64 (ins_t f) \<Longrightarrow> ins_o f \<notin> {DIV, MOD, POW}"
  shows "implements J f J (\<lambda>\<rho>. \<rho> r)"
proof -
  have nk: "\<not> is_const (ins_o f)" "\<not> is_opaque (ins_o f)" using em by (auto simp: emittable_def)
  note r = cse_find_same [OF wf f nk(1)]
  have "sem_ins \<rho> f = Done (\<rho> r)" if "run J \<rho>" for \<rho>
    using cse_sem [OF em cse_find_emittable [OF wf f em] op] run_ins [OF that, of r] r nk by simp
  then show ?thesis using wf by (auto simp: implements_def intro: agree_refl)
qed

definition result_ok :: "jit_State \<Rightarrow> irins \<Rightarrow> jit_State \<Rightarrow> nat \<Rightarrow> bool" where
  "result_ok J f J' r \<longleftrightarrow> implements J f J' (\<lambda>\<rho>. \<rho> r) \<and> same_flags J J' \<and>
     (ins_o f \<noteq> ABC \<longrightarrow> extends J J' \<and> opd J' (int64 (ins_t f)) r)"

lemma emit_result:
  assumes "wf_ir J" "lj_ir_emit J f = (J', r)" "emittable J f"
  shows "result_ok J f J' r"
proof -
  note e = emit_shape [OF assms(2)]
  have nk: "\<not> is_const (ins_o f)" "ins_o f \<noteq> LOOP" using assms(3) by (auto simp: emittable_def is_opaque_def)
  have "opd J' (int64 (ins_t f)) r" if "ins_o f \<noteq> ABC"
    using assms(3) that emit_extends(3) [OF assms(1,2) nk(1)] e(3)
    by (auto simp: opd_def emittable_def typed_def Let_def)
  then show ?thesis
    using emit_implements [OF assms] emit_extends(1) [OF assms(1,2) nk(1)] e nk(2)
    by (simp add: result_ok_def same_flags_def)
qed

lemma cse_hit_result:
  assumes "wf_ir J" "cse_find J f lim = Some r" "emittable J f" "int64 (ins_t f) \<Longrightarrow> ins_o f \<notin> {DIV, MOD, POW}"
  shows "result_ok J f J r"
proof -
  have nk: "\<not> is_const (ins_o f)" using assms(3) by (simp add: emittable_def)
  note r = cse_find_same [OF assms(1,2) nk]
  note er = cse_find_emittable [OF assms(1-3)]
  have "opd J (int64 (ins_t f)) r" if "ins_o f \<noteq> ABC"
    using same_operands_width [OF assms(3) er that] typed_width(1) [of J "cur_ir J r"] r er that
    by (auto simp: opd_def emittable_def)
  then show ?thesis
    using cse_hit [OF assms] by (simp add: result_ok_def same_flags_def)
qed

lemma lj_opt_cse_result:
  assumes "wf_ir J" "lj_opt_cse J f = (J', r)" "emittable J f" "int64 (ins_t f) \<Longrightarrow> ins_o f \<notin> {DIV, MOD, POW}"
  shows "result_ok J f J' r"
  using emit_result [OF assms(1) _ assms(3)] cse_hit_result [OF assms(1) _ assms(3,4)] assms(2)
  by (auto simp: lj_opt_cse_def split: option.splits if_splits)

lemma lj_opt_cselim_result:
  assumes "wf_ir J" "lj_opt_cselim J f lim = (J', r)" "emittable J f" "int64 (ins_t f) \<Longrightarrow> ins_o f \<notin> {DIV, MOD, POW}"
  shows "result_ok J f J' r"
  using emit_result [OF assms(1) _ assms(3)] cse_hit_result [OF assms(1) _ assms(3,4)] assms(2)
  by (auto simp: lj_opt_cselim_def split: option.splits)

end
