(* ===== verification/Fold.thy ===== *)
theory Fold
  imports Ir_Sem
begin

text \<open>
  The FOLD engine of RaptorJIT's trace compiler and its integer rules (\<^verbatim>\<open>lj_opt_fold.c\<close>): constant
  folding, algebraic simplification, reassociation, array-bounds-check elimination and
  commutativity. One definition per fold function, under its name; the table of fold
  specifications (\<^verbatim>\<open>LJFOLD\<close> lines) is \<open>fold_table\<close>; \<^verbatim>\<open>lj_opt_fold\<close> is the engine with its retry loop,
  on fuel. The proofs are in \<^verbatim>\<open>Fold_Contract\<close>, \<^verbatim>\<open>Fold_Rules\<close> and \<^verbatim>\<open>Fold_Sound\<close>.

  A rule gets the compiler state and the instruction \<^verbatim>\<open>fins\<close>, whose operands' instructions are
  \<open>fleft\<close> and \<open>fright\<close>. \<^verbatim>\<open>ERRFOLD\<close> ends the compilation: a guard that always fails, no room for a
  constant, a division trap, or no fuel.
\<close>

datatype ferr = LJ_TRERR_GFAIL | ABORTED | OUT_OF_FUEL

datatype foldres = NEXTFOLD | RETRYFOLD irins | KINTFOLD c_int | FAILFOLD | DROPFOLD | REFFOLD nat | ERRFOLD ferr

type_synonym rule = "jit_State \<Rightarrow> irins \<Rightarrow> jit_State \<times> foldres"

datatype tref = TREF nat | TREF_DROP

type_synonym folder = "jit_State \<Rightarrow> irins \<Rightarrow> ferr + jit_State \<times> tref"

definition fleft :: "jit_State \<Rightarrow> irins \<Rightarrow> irins" where
  "fleft J f = cur_ir J (ins_op1 f)"

definition fright :: "jit_State \<Rightarrow> irins \<Rightarrow> irins" where
  "fright J f = cur_ir J (ins_op2 f)"

definition CONDFOLD :: "bool \<Rightarrow> foldres" where
  "CONDFOLD c = (if c then DROPFOLD else FAILFOLD)"

definition LEFTFOLD :: "irins \<Rightarrow> foldres" where
  "LEFTFOLD f = REFFOLD (ins_op1 f)"

definition RIGHTFOLD :: "irins \<Rightarrow> foldres" where
  "RIGHTFOLD f = REFFOLD (ins_op2 f)"

definition with_kint :: "jit_State \<Rightarrow> c_int \<Rightarrow> (nat \<Rightarrow> foldres) \<Rightarrow> jit_State \<times> foldres" where
  "with_kint J k g = (case lj_ir_kint J k of None \<Rightarrow> (J, ERRFOLD ABORTED) | Some (J', r) \<Rightarrow> (J', g r))"

definition with_kint64 :: "jit_State \<Rightarrow> u64 \<Rightarrow> (nat \<Rightarrow> foldres) \<Rightarrow> jit_State \<times> foldres" where
  "with_kint64 J k g = (case lj_ir_kint64 J k of None \<Rightarrow> (J, ERRFOLD ABORTED) | Some (J', r) \<Rightarrow> (J', g r))"

definition INT64FOLD :: "jit_State \<Rightarrow> u64 \<Rightarrow> jit_State \<times> foldres" where
  "INT64FOLD J k = with_kint64 J k REFFOLD"

section \<open>Constant folding for 32-bit integers\<close>

definition sh31 :: "c_int \<Rightarrow> nat" where
  "sh31 k = unat (k AND 31)"

text \<open>\<open>None\<close> is the trap of a modulo by zero.\<close>

fun kfold_intop :: "c_int \<Rightarrow> c_int \<Rightarrow> irop \<Rightarrow> c_int option" where
  "kfold_intop k1 k2 ADD = Some (k1 + k2)"
| "kfold_intop k1 k2 SUB = Some (k1 - k2)"
| "kfold_intop k1 k2 MUL = Some (k1 * k2)"
| "kfold_intop k1 k2 MOD = lj_vm_modi k1 k2"
| "kfold_intop k1 k2 NEG = Some (NOT k1 + 1)"
| "kfold_intop k1 k2 BAND = Some (k1 AND k2)"
| "kfold_intop k1 k2 BOR = Some (k1 OR k2)"
| "kfold_intop k1 k2 BXOR = Some (k1 XOR k2)"
| "kfold_intop k1 k2 BSHL = Some (push_bit (sh31 k2) k1)"
| "kfold_intop k1 k2 BSHR = Some (drop_bit (sh31 k2) k1)"
| "kfold_intop k1 k2 BSAR = Some (signed_drop_bit (sh31 k2) k1)"
| "kfold_intop k1 k2 BROL = Some (lj_rol32 k1 (sh31 k2))"
| "kfold_intop k1 k2 BROR = Some (lj_ror32 k1 (sh31 k2))"
| "kfold_intop k1 k2 IR_MIN = Some (if sint k1 < sint k2 then k1 else k2)"
| "kfold_intop k1 k2 IR_MAX = Some (if sint k1 > sint k2 then k1 else k2)"
| "kfold_intop k1 k2 _ = Some k1"

definition kfold_intarith :: rule where
  "kfold_intarith J f =
     (J, case kfold_intop (ins_i (fleft J f)) (ins_i (fright J f)) (ins_o f) of
           None \<Rightarrow> ERRFOLD ABORTED | Some k \<Rightarrow> KINTFOLD k)"

text \<open>The double arithmetic of \<^verbatim>\<open>lj_vm_foldarith\<close> is exact below \<open>2^53\<close>, and a larger product is outside
  the range of \<^verbatim>\<open>int32_t\<close> before and after rounding; \<^verbatim>\<open>lj_num2int\<close> then gives the smallest integer.\<close>

definition kfold_intovarith :: rule where
  "kfold_intovarith J f =
     (let a = sint (ins_i (fleft J f)); b = sint (ins_i (fright J f));
          n = (case ins_o f of ADDOV \<Rightarrow> a + b | SUBOV \<Rightarrow> a - b | _ \<Rightarrow> a * b);
          k = (if - (2 ^ 31) \<le> n \<and> n < 2 ^ 31 then word_of_int n else 0x80000000 :: c_int)
      in (J, if n \<noteq> sint k then FAILFOLD else KINTFOLD k))"

definition kfold_bnot :: rule where
  "kfold_bnot J f = (J, KINTFOLD (NOT (ins_i (fleft J f))))"

definition kfold_bswap :: rule where
  "kfold_bswap J f = (J, KINTFOLD (lj_bswap (ins_i (fleft J f))))"

definition kfold_intcomp :: rule where
  "kfold_intcomp J f =
     (let a = ins_i (fleft J f); b = ins_i (fright J f)
      in (J, case ins_o f of
           LT \<Rightarrow> CONDFOLD (sint a < sint b)
         | GE \<Rightarrow> CONDFOLD (sint a \<ge> sint b)
         | LE \<Rightarrow> CONDFOLD (sint a \<le> sint b)
         | GT \<Rightarrow> CONDFOLD (sint a > sint b)
         | ULT \<Rightarrow> CONDFOLD (a < b)
         | UGE \<Rightarrow> CONDFOLD (a \<ge> b)
         | ULE \<Rightarrow> CONDFOLD (a \<le> b)
         | ABC \<Rightarrow> CONDFOLD (a > b)
         | UGT \<Rightarrow> CONDFOLD (a > b)
         | _ \<Rightarrow> FAILFOLD))"

definition kfold_intcomp0 :: rule where
  "kfold_intcomp0 J f = (J, if ins_i (fright J f) = 0 then DROPFOLD else NEXTFOLD)"

section \<open>Constant folding for 64-bit integers\<close>

text \<open>The shared helper: the right shift and the rotates work on the low 32 bits only.\<close>

fun kfold_int64arith_op :: "u64 \<Rightarrow> u64 \<Rightarrow> irop \<Rightarrow> u64" where
  "kfold_int64arith_op k1 k2 ADD = k1 + k2"
| "kfold_int64arith_op k1 k2 SUB = k1 - k2"
| "kfold_int64arith_op k1 k2 MUL = k1 * k2"
| "kfold_int64arith_op k1 k2 BAND = k1 AND k2"
| "kfold_int64arith_op k1 k2 BOR = k1 OR k2"
| "kfold_int64arith_op k1 k2 BXOR = k1 XOR k2"
| "kfold_int64arith_op k1 k2 BSHL = push_bit (unat (k2 AND 63)) k1"
| "kfold_int64arith_op k1 k2 BSHR = scast (drop_bit (unat (k2 AND 63)) (u32_of_u64 k1))"
| "kfold_int64arith_op k1 k2 BSAR = drop_bit (unat (k2 AND 63)) k1"
| "kfold_int64arith_op k1 k2 BROL = scast (lj_rol32 (u32_of_u64 k1) (unat (k2 AND 63)))"
| "kfold_int64arith_op k1 k2 BROR = scast (lj_ror32 (u32_of_u64 k1) (unat (k2 AND 63)))"
| "kfold_int64arith_op k1 k2 _ = k1"

definition kfold_int64arith :: rule where
  "kfold_int64arith J f = INT64FOLD J (kfold_int64arith_op (ins_k64 (fleft J f)) (ins_k64 (fright J f)) (ins_o f))"

definition kfold_int64arith2 :: rule where
  "kfold_int64arith2 J f =
     (let k1 = ins_k64 (fleft J f); k2 = ins_k64 (fright J f)
      in INT64FOLD J
        (if ins_t f = IRT_I64 then
           (case ins_o f of DIV \<Rightarrow> lj_carith_divi64 k1 k2 | MOD \<Rightarrow> lj_carith_modi64 k1 k2 | _ \<Rightarrow> lj_carith_powi64 k1 k2)
         else
           (case ins_o f of DIV \<Rightarrow> lj_carith_divu64 k1 k2 | MOD \<Rightarrow> lj_carith_modu64 k1 k2 | _ \<Rightarrow> lj_carith_powu64 k1 k2)))"

fun shift_of :: "irop \<Rightarrow> shift_op" where
  "shift_of BSHL = IR_BSHL"
| "shift_of BSHR = IR_BSHR"
| "shift_of BSAR = IR_BSAR"
| "shift_of BROL = IR_BROL"
| "shift_of _ = IR_BROR"

definition kfold_int64shift :: rule where
  "kfold_int64shift J f =
     INT64FOLD J (lj_carith_shift64 (ins_k64 (fleft J f)) (ins_i (fright J f) AND 63) (shift_of (ins_o f)))"

definition kfold_bnot64 :: rule where
  "kfold_bnot64 J f = INT64FOLD J (NOT (ins_k64 (fleft J f)))"

definition kfold_bswap64 :: rule where
  "kfold_bswap64 J f = INT64FOLD J (lj_bswap64 (ins_k64 (fleft J f)))"

definition kfold_int64comp :: rule where
  "kfold_int64comp J f =
     (let a = ins_k64 (fleft J f); b = ins_k64 (fright J f)
      in (J, case ins_o f of
           LT \<Rightarrow> CONDFOLD (sint a < sint b)
         | GE \<Rightarrow> CONDFOLD (sint a \<ge> sint b)
         | LE \<Rightarrow> CONDFOLD (sint a \<le> sint b)
         | GT \<Rightarrow> CONDFOLD (sint a > sint b)
         | ULT \<Rightarrow> CONDFOLD (a < b)
         | UGE \<Rightarrow> CONDFOLD (a \<ge> b)
         | ULE \<Rightarrow> CONDFOLD (a \<le> b)
         | UGT \<Rightarrow> CONDFOLD (a > b)
         | _ \<Rightarrow> FAILFOLD))"

definition kfold_int64comp0 :: rule where
  "kfold_int64comp0 J f = (J, if ins_k64 (fright J f) = 0 then DROPFOLD else NEXTFOLD)"

text \<open>Constants are unique, so equal references are equal values.\<close>

definition kfold_kref :: rule where
  "kfold_kref J f = (J, CONDFOLD ((ins_op1 f = ins_op2 f) \<noteq> (ins_o f = NE)))"

section \<open>Algebraic shortcuts\<close>

definition shortcut_leftleft :: rule where
  "shortcut_leftleft J f =
     (J, if ins_phi (fleft J f) then NEXTFOLD else REFFOLD (ins_op1 (fleft J f)))"

text \<open>The rules on negated operands are listed for floating-point numbers; they do not look at the type
  and apply to integers too.\<close>

definition simplify_numadd_negx :: rule where
  "simplify_numadd_negx J f =
     (J, if ins_phi (fleft J f) then NEXTFOLD
         else RETRYFOLD (f\<lparr>ins_o := SUB, ins_op1 := ins_op2 f, ins_op2 := ins_op1 (fleft J f)\<rparr>))"

definition simplify_numadd_xneg :: rule where
  "simplify_numadd_xneg J f =
     (J, if ins_phi (fright J f) then NEXTFOLD
         else RETRYFOLD (f\<lparr>ins_o := SUB, ins_op2 := ins_op1 (fright J f)\<rparr>))"

definition simplify_numsub_xneg :: rule where
  "simplify_numsub_xneg J f =
     (J, if ins_phi (fright J f) then NEXTFOLD
         else RETRYFOLD (f\<lparr>ins_o := ADD, ins_op2 := ins_op1 (fright J f)\<rparr>))"

definition simplify_nummuldiv_negneg :: rule where
  "simplify_nummuldiv_negneg J f =
     (J, if ins_phi (fleft J f) \<or> ins_phi (fright J f) then NEXTFOLD
         else RETRYFOLD (f\<lparr>ins_op1 := ins_op1 (fleft J f), ins_op2 := ins_op1 (fright J f)\<rparr>))"

section \<open>Integer algebraic simplifications\<close>

definition simplify_intadd_k :: rule where
  "simplify_intadd_k J f = (J, if ins_i (fright J f) = 0 then LEFTFOLD f else NEXTFOLD)"

definition fold_simplify_intmul_k :: rule where
  "fold_simplify_intmul_k J f =
     (J, if ins_i (fright J f) = 0 then RIGHTFOLD f
         else if ins_i (fright J f) = 1 then LEFTFOLD f
         else if ins_i (fright J f) = 2 then RETRYFOLD (f\<lparr>ins_o := ADDOV, ins_op2 := ins_op1 f\<rparr>)
         else NEXTFOLD)"

definition simplify_intsub_k :: rule where
  "simplify_intsub_k J f =
     (if ins_i (fright J f) = 0 then (J, LEFTFOLD f)
      else with_kint J (NOT (ins_i (fright J f)) + 1) (\<lambda>r. RETRYFOLD (f\<lparr>ins_o := ADD, ins_op2 := r\<rparr>)))"

definition simplify_intsub_kleft :: rule where
  "simplify_intsub_kleft J f =
     (J, if (if ins_o (fleft J f) = KINT then ins_i (fleft J f) = 0 else ins_k64 (fleft J f) = 0)
         then RETRYFOLD (f\<lparr>ins_o := NEG, ins_op1 := ins_op2 f\<rparr>) else NEXTFOLD)"

definition simplify_intadd_k64 :: rule where
  "simplify_intadd_k64 J f = (J, if ins_k64 (fright J f) = 0 then LEFTFOLD f else NEXTFOLD)"

definition simplify_intsub_k64 :: rule where
  "simplify_intsub_k64 J f =
     (if ins_k64 (fright J f) = 0 then (J, LEFTFOLD f)
      else with_kint64 J (NOT (ins_k64 (fright J f)) + 1) (\<lambda>r. RETRYFOLD (f\<lparr>ins_o := ADD, ins_op2 := r\<rparr>)))"

definition simplify_intmul_k :: "c_int \<Rightarrow> rule" where
  "simplify_intmul_k k J f =
     (if k = 0 then (J, RIGHTFOLD f)
      else if k = 1 then (J, LEFTFOLD f)
      else if k AND (k - 1) = 0 then with_kint J (lj_fls k) (\<lambda>r. RETRYFOLD (f\<lparr>ins_o := BSHL, ins_op2 := r\<rparr>))
      else (J, NEXTFOLD))"

definition simplify_intmul_k32 :: rule where
  "simplify_intmul_k32 J f =
     (if sint (ins_i (fright J f)) \<ge> 0 then simplify_intmul_k (ins_i (fright J f)) J f else (J, NEXTFOLD))"

definition simplify_intmul_k64 :: rule where
  "simplify_intmul_k64 J f =
     (if ins_k64 (fright J f) < 0x80000000 then simplify_intmul_k (u32_of_u64 (ins_k64 (fright J f))) J f
      else (J, NEXTFOLD))"

definition simplify_intmod_k :: rule where
  "simplify_intmod_k J f =
     (let k = ins_i (fright J f)
      in if sint k > 0 \<and> k AND (k - 1) = 0 then with_kint J (k - 1) (\<lambda>r. RETRYFOLD (f\<lparr>ins_o := BAND, ins_op2 := r\<rparr>))
         else (J, NEXTFOLD))"

definition simplify_intmod_kleft :: rule where
  "simplify_intmod_kleft J f = (J, if ins_i (fleft J f) = 0 then KINTFOLD 0 else NEXTFOLD)"

definition simplify_intsub :: rule where
  "simplify_intsub J f =
     (if ins_op1 f = ins_op2 f \<and> ins_t f \<noteq> IRT_NUM then
        if irt_is64 (ins_t f) then INT64FOLD J 0 else (J, KINTFOLD 0)
      else (J, NEXTFOLD))"

definition simplify_intsubadd_leftcancel :: rule where
  "simplify_intsubadd_leftcancel J f =
     (J, if ins_t f \<noteq> IRT_NUM \<and> \<not> ins_phi (fleft J f) then
           if ins_op2 f = ins_op1 (fleft J f) then REFFOLD (ins_op2 (fleft J f))
           else if ins_op2 f = ins_op2 (fleft J f) then REFFOLD (ins_op1 (fleft J f))
           else NEXTFOLD
         else NEXTFOLD)"

definition simplify_intsubsub_leftcancel :: rule where
  "simplify_intsubsub_leftcancel J f =
     (if ins_t f \<noteq> IRT_NUM \<and> \<not> ins_phi (fleft J f) \<and> ins_op2 f = ins_op1 (fleft J f) then
        with_kint J 0 (\<lambda>r. RETRYFOLD (f\<lparr>ins_op1 := r, ins_op2 := ins_op2 (fleft J f)\<rparr>))
      else (J, NEXTFOLD))"

definition simplify_intsubsub_rightcancel :: rule where
  "simplify_intsubsub_rightcancel J f =
     (J, if ins_t f \<noteq> IRT_NUM \<and> \<not> ins_phi (fright J f) \<and> ins_op1 f = ins_op1 (fright J f)
         then REFFOLD (ins_op2 (fright J f)) else NEXTFOLD)"

definition simplify_intsubadd_rightcancel :: rule where
  "simplify_intsubadd_rightcancel J f =
     (if ins_t f \<noteq> IRT_NUM \<and> \<not> ins_phi (fright J f) then
        if ins_op1 f = ins_op1 (fright J f) then
          with_kint J 0 (\<lambda>r. RETRYFOLD (f\<lparr>ins_op1 := r, ins_op2 := ins_op2 (fright J f)\<rparr>))
        else if ins_op1 f = ins_op2 (fright J f) then
          with_kint J 0 (\<lambda>r. RETRYFOLD (f\<lparr>ins_op1 := r, ins_op2 := ins_op1 (fright J f)\<rparr>))
        else (J, NEXTFOLD)
      else (J, NEXTFOLD))"

definition simplify_intsubaddadd_cancel :: rule where
  "simplify_intsubaddadd_cancel J f =
     (let l = fleft J f; r = fright J f
      in (J, if ins_t f \<noteq> IRT_NUM \<and> \<not> ins_phi l \<and> \<not> ins_phi r then
           if ins_op1 l = ins_op1 r then RETRYFOLD (f\<lparr>ins_op1 := ins_op2 l, ins_op2 := ins_op2 r\<rparr>)
           else if ins_op1 l = ins_op2 r then RETRYFOLD (f\<lparr>ins_op1 := ins_op2 l, ins_op2 := ins_op1 r\<rparr>)
           else if ins_op2 l = ins_op1 r then RETRYFOLD (f\<lparr>ins_op1 := ins_op1 l, ins_op2 := ins_op2 r\<rparr>)
           else if ins_op2 l = ins_op2 r then RETRYFOLD (f\<lparr>ins_op1 := ins_op1 l, ins_op2 := ins_op1 r\<rparr>)
           else NEXTFOLD
         else NEXTFOLD))"

text \<open>The constant of a bit operation as \<^verbatim>\<open>int64_t\<close>.\<close>

definition bitop_k :: "irins \<Rightarrow> u64" where
  "bitop_k i = (if ins_o i = KINT then scast (ins_i i) else ins_k64 i)"

definition simplify_band_k :: rule where
  "simplify_band_k J f =
     (let k = bitop_k (fright J f)
      in (J, if k = 0 then RIGHTFOLD f else if k = - 1 then LEFTFOLD f else NEXTFOLD))"

definition simplify_bor_k :: rule where
  "simplify_bor_k J f =
     (let k = bitop_k (fright J f)
      in (J, if k = 0 then LEFTFOLD f else if k = - 1 then RIGHTFOLD f else NEXTFOLD))"

definition simplify_bxor_k :: rule where
  "simplify_bxor_k J f =
     (let k = bitop_k (fright J f)
      in (J, if k = 0 then LEFTFOLD f
             else if k = - 1 then RETRYFOLD (f\<lparr>ins_o := BNOT, ins_op2 := 0\<rparr>)
             else NEXTFOLD))"

text \<open>The count mask of a shift; \<^verbatim>\<open>LJ_TARGET_UNIFYROT\<close> is not defined on x64.\<close>

definition shmask :: "irins \<Rightarrow> c_int" where
  "shmask f = (if irt_is64 (ins_t f) then 63 else 31)"

definition simplify_shift_ik :: rule where
  "simplify_shift_ik J f =
     (let k = ins_i (fright J f) AND shmask f
      in if k = 0 then (J, LEFTFOLD f)
         else if k = 1 \<and> ins_o f = BSHL then (J, RETRYFOLD (f\<lparr>ins_o := ADD, ins_op2 := ins_op1 f\<rparr>))
         else if k \<noteq> ins_i (fright J f) then with_kint J k (\<lambda>r. RETRYFOLD (f\<lparr>ins_op2 := r\<rparr>))
         else if ins_o f = BROR then
           with_kint J ((- k) AND shmask f) (\<lambda>r. RETRYFOLD (f\<lparr>ins_o := BROL, ins_op2 := r\<rparr>))
         else (J, NEXTFOLD))"

text \<open>\<^verbatim>\<open>LJ_TARGET_MASKSHIFT\<close> and \<^verbatim>\<open>LJ_TARGET_MASKROT\<close> are set on x64.\<close>

definition simplify_shift_andk :: rule where
  "simplify_shift_andk J f =
     (let irk = cur_ir J (ins_op2 (fright J f))
      in (J, if \<not> ins_phi (fright J f) \<and> ins_o irk = KINT \<and> ins_i irk AND shmask f = shmask f
             then RETRYFOLD (f\<lparr>ins_op2 := ins_op1 (fright J f)\<rparr>) else NEXTFOLD))"

definition simplify_shift1_ki :: rule where
  "simplify_shift1_ki J f = (J, if bitop_k (fleft J f) = 0 then LEFTFOLD f else NEXTFOLD)"

definition simplify_shift2_ki :: rule where
  "simplify_shift2_ki J f =
     (J, if bitop_k (fleft J f) = 0 \<or> bitop_k (fleft J f) = - 1 then LEFTFOLD f else NEXTFOLD)"

text \<open>The rule that calls the engine for the inner shift, here its argument \<open>refold\<close>.\<close>

definition shiftk_inner :: "folder \<Rightarrow> jit_State \<Rightarrow> irins \<Rightarrow> (jit_State \<Rightarrow> nat \<Rightarrow> jit_State \<times> foldres) \<Rightarrow> jit_State \<times> foldres" where
  "shiftk_inner refold J f k =
     (case refold J (f\<lparr>ins_op1 := ins_op1 (fleft J f)\<rparr>) of
        Inl e \<Rightarrow> (J, ERRFOLD e)
      | Inr (J', tr) \<Rightarrow> k J' (case tr of TREF r \<Rightarrow> r | TREF_DROP \<Rightarrow> REF_DROP))"

definition simplify_shiftk_andk :: "folder \<Rightarrow> rule" where
  "simplify_shiftk_andk refold J f =
     (let irk = cur_ir J (ins_op2 (fleft J f))
      in if ins_phi (fleft J f) then (J, NEXTFOLD)
         else if ins_o irk = KINT then
           (case kfold_intop (ins_i irk) (ins_i (fright J f)) (ins_o f) of
              None \<Rightarrow> (J, ERRFOLD ABORTED)
            | Some k \<Rightarrow> shiftk_inner refold J f (\<lambda>J' op1. with_kint J' k (\<lambda>r.
                RETRYFOLD (f\<lparr>ins_o := BAND, ins_t := IRT_INT, ins_guard := False, ins_phi := False,
                  ins_op1 := op1, ins_op2 := r\<rparr>))))
         else if ins_o irk = KINT64 then
           (let k = kfold_int64arith_op (ins_k64 irk) (scast (ins_i (fright J f))) (ins_o f)
            in shiftk_inner refold J f (\<lambda>J' op1. with_kint64 J' k (\<lambda>r.
                RETRYFOLD (f\<lparr>ins_o := ins_o (fleft J f), ins_t := ins_t (fleft J f),
                  ins_guard := ins_guard (fleft J f), ins_phi := ins_phi (fleft J f),
                  ins_op1 := op1, ins_op2 := r\<rparr>))))
         else (J, NEXTFOLD))"

definition simplify_andk_shiftk :: rule where
  "simplify_andk_shiftk J f =
     (let irk = cur_ir J (ins_op2 (fleft J f))
      in (J, if ins_o irk = KINT \<and> kfold_intop (- 1) (ins_i irk) (ins_o (fleft J f)) = Some (ins_i (fright J f))
             then LEFTFOLD f else NEXTFOLD))"

definition simplify_andor_k :: rule where
  "simplify_andor_k J f =
     (let irk = cur_ir J (ins_op2 (fleft J f))
      in (J, if \<not> ins_phi (fleft J f) \<and> ins_o irk = KINT \<and>
               kfold_intop (ins_i irk) (ins_i (fright J f)) (ins_o f) = Some (if ins_o f = BAND then 0 else - 1)
             then RETRYFOLD (f\<lparr>ins_op1 := ins_op1 (fleft J f)\<rparr>) else NEXTFOLD))"

definition simplify_andor_k64 :: rule where
  "simplify_andor_k64 J f =
     (let irk = cur_ir J (ins_op2 (fleft J f))
      in (J, if \<not> ins_phi (fleft J f) \<and> ins_o irk = KINT64 \<and>
               kfold_int64arith_op (ins_k64 irk) (ins_k64 (fright J f)) (ins_o f) = (if ins_o f = BAND then 0 else - 1)
             then RETRYFOLD (f\<lparr>ins_op1 := ins_op1 (fleft J f)\<rparr>) else NEXTFOLD))"

section \<open>Reassociation\<close>

definition reassoc_intarith_k :: rule where
  "reassoc_intarith_k J f =
     (let irk = cur_ir J (ins_op2 (fleft J f))
      in if ins_o irk = KINT then
           (case kfold_intop (ins_i irk) (ins_i (fright J f)) (ins_o f) of
              None \<Rightarrow> (J, ERRFOLD ABORTED)
            | Some k \<Rightarrow>
                if k = ins_i irk then (J, LEFTFOLD f)
                else if ins_phi (fleft J f) then (J, NEXTFOLD)
                else with_kint J k (\<lambda>r. RETRYFOLD (f\<lparr>ins_op1 := ins_op1 (fleft J f), ins_op2 := r\<rparr>)))
         else (J, NEXTFOLD))"

definition reassoc_intarith_k64 :: rule where
  "reassoc_intarith_k64 J f =
     (let irk = cur_ir J (ins_op2 (fleft J f))
      in if ins_o irk = KINT64 \<and> \<not> ins_phi (fleft J f) then
           with_kint64 J (kfold_int64arith_op (ins_k64 irk) (ins_k64 (fright J f)) (ins_o f))
             (\<lambda>r. RETRYFOLD (f\<lparr>ins_op1 := ins_op1 (fleft J f), ins_op2 := r\<rparr>))
         else (J, NEXTFOLD))"

definition reassoc_dup :: rule where
  "reassoc_dup J f =
     (J, if ins_op2 f = ins_op1 (fleft J f) \<or> ins_op2 f = ins_op2 (fleft J f) then LEFTFOLD f else NEXTFOLD)"

definition reassoc_dup_minmax :: rule where
  "reassoc_dup_minmax J f = (J, if ins_op2 f = ins_op2 (fleft J f) then LEFTFOLD f else NEXTFOLD)"

definition reassoc_bxor :: rule where
  "reassoc_bxor J f =
     (J, if ins_phi (fleft J f) then NEXTFOLD
         else if ins_op2 f = ins_op1 (fleft J f) then REFFOLD (ins_op2 (fleft J f))
         else if ins_op2 f = ins_op2 (fleft J f) then REFFOLD (ins_op1 (fleft J f))
         else NEXTFOLD)"

definition reassoc_shift :: rule where
  "reassoc_shift J f =
     (let irk = cur_ir J (ins_op2 (fleft J f)); m = shmask f;
          k = (ins_i irk AND m) + (ins_i (fright J f) AND m);
          again = (\<lambda>k. with_kint J k (\<lambda>r. RETRYFOLD (f\<lparr>ins_op1 := ins_op1 (fleft J f), ins_op2 := r\<rparr>)))
      in if \<not> ins_phi (fleft J f) \<and> ins_o irk = KINT then
           if sint k > sint m then
             if ins_o f = BSHL \<or> ins_o f = BSHR then if m = 31 then (J, KINTFOLD 0) else INT64FOLD J 0
             else if ins_o f = BSAR then again m
             else again (k AND m)
           else again k
         else (J, NEXTFOLD))"

definition reassoc_minmax_k :: rule where
  "reassoc_minmax_k J f =
     (let irk = cur_ir J (ins_op2 (fleft J f))
      in if ins_o irk = KINT then
           (case kfold_intop (ins_i irk) (ins_i (fright J f)) (ins_o f) of
              None \<Rightarrow> (J, ERRFOLD ABORTED)
            | Some y \<Rightarrow>
                if ins_i irk = y then (J, LEFTFOLD f)
                else if ins_phi (fleft J f) then (J, NEXTFOLD)
                else with_kint J y (\<lambda>r. RETRYFOLD (f\<lparr>ins_op1 := ins_op1 (fleft J f), ins_op2 := r\<rparr>)))
         else (J, NEXTFOLD))"

section \<open>Array bounds check elimination\<close>

definition abc_fwd :: rule where
  "abc_fwd J f =
     (let r = fright J f; add2 = cur_ir J (ins_op1 r);
          lim = max (ins_op1 add2) (ins_op1 f)
      in (J, if opt_abc J \<and> irref_isk (ins_op2 r) \<and> ins_o add2 = ADD \<and> irref_isk (ins_op2 add2) \<and>
               ins_i (cur_ir J (ins_op2 r)) = - ins_i (cur_ir J (ins_op2 add2)) \<and>
               (\<exists>ref \<in> set (takeWhile (\<lambda>ref. lim < ref) (chain J ABC)).
                  ins_op1 (cur_ir J ref) = ins_op1 f \<and> ins_op2 (cur_ir J ref) = ins_op1 add2)
             then DROPFOLD else NEXTFOLD))"

text \<open>A constant index is merged into an earlier check of the same size by a constant.\<close>

definition abc_k :: rule where
  "abc_k J f =
     (if \<not> ins_phi (fleft J f) \<and> opt_abc J then
        (case find (\<lambda>ref. ins_op1 (cur_ir J ref) = ins_op1 f \<and> irref_isk (ins_op2 (cur_ir J ref)))
                (takeWhile (\<lambda>ref. ins_op1 f < ref) (chain J ABC)) of
           Some ref \<Rightarrow>
             (if ins_i (fright J f) > ins_i (cur_ir J (ins_op2 (cur_ir J ref)))
              then J\<lparr>cur_ir := (cur_ir J)(ref := (cur_ir J ref)\<lparr>ins_op2 := ins_op2 f\<rparr>)\<rparr> else J, DROPFOLD)
         | None \<Rightarrow> (let (J', r) = lj_ir_emit J f in (J', REFFOLD r)))
      else (J, NEXTFOLD))"

definition abc_invar :: rule where
  "abc_invar J f =
     (J, if ins_t f \<noteq> IRT_INT \<and> chain J LOOP \<noteq> [] \<and> ins_op1 f < hd (chain J LOOP) \<and> \<not> ins_phi (fleft J f)
         then DROPFOLD else NEXTFOLD)"

section \<open>Commutativity\<close>

definition swap_ops :: "irins \<Rightarrow> irins" where
  "swap_ops f = f\<lparr>ins_op1 := ins_op2 f, ins_op2 := ins_op1 f\<rparr>"

definition comm_swap :: rule where
  "comm_swap J f = (J, if ins_op1 f < ins_op2 f then RETRYFOLD (swap_ops f) else NEXTFOLD)"

definition comm_equal :: rule where
  "comm_equal J f =
     (if ins_op1 f = ins_op2 f \<and> ins_t f \<noteq> IRT_NUM then (J, CONDFOLD (ins_o f = EQ)) else comm_swap J f)"

text \<open>The comparisons by opcode number: bit 0 xor bit 1 tells whether \<open>x op x\<close> holds, and flipping both
  bits mirrors the comparison.\<close>

definition comparisons :: "irop list" where
  "comparisons = [LT, GE, LE, GT, ULT, UGE, ULE, UGT]"

definition cmp_num :: "irop \<Rightarrow> nat" where
  "cmp_num op = length (takeWhile (\<lambda>o'. o' \<noteq> op) comparisons)"

definition comm_comp :: rule where
  "comm_comp J f =
     (let n = cmp_num (ins_o f)
      in (J, if ins_op1 f = ins_op2 f \<and> ins_t f \<noteq> IRT_NUM then CONDFOLD ((n XOR (n div 2)) AND 1 = 1)
             else if ins_op1 f < ins_op2 f then RETRYFOLD ((swap_ops f)\<lparr>ins_o := comparisons ! (n XOR 3)\<rparr>)
             else NEXTFOLD))"

definition comm_dup :: rule where
  "comm_dup J f = (if ins_op1 f = ins_op2 f then (J, LEFTFOLD f) else comm_swap J f)"

definition comm_dup_minmax :: rule where
  "comm_dup_minmax J f = (J, if ins_op1 f = ins_op2 f then LEFTFOLD f else NEXTFOLD)"

definition comm_bxor :: rule where
  "comm_bxor J f =
     (if ins_op1 f = ins_op2 f then if irt_is64 (ins_t f) then INT64FOLD J 0 else (J, KINTFOLD 0)
      else comm_swap J f)"

section \<open>Frame handling\<close>

text \<open>An instruction on \<^verbatim>\<open>BASE\<close> is looked up only behind the last return to a lower frame.\<close>

definition fold_base :: rule where
  "fold_base J f =
     (case lj_opt_cselim J f (case chain J RETF of [] \<Rightarrow> 0 | ref # _ \<Rightarrow> ref) of (J', r) \<Rightarrow> (J', REFFOLD r))"

section \<open>The engine\<close>

text \<open>A fold specification names the opcodes, the opcode of the left and of the right operand; \<open>NoOp\<close> is
  the missing right operand of a unary instruction.\<close>

datatype pat = Any | Op irop | NoOp

type_synonym fold_spec = "(irop list \<times> pat \<times> pat) \<times> rule"

definition fold_table :: "folder \<Rightarrow> fold_spec list" where
  "fold_table refold =
    [(([ADD, SUB, MUL, MOD, NEG, BAND, BOR, BXOR, BSHL, BSHR, BSAR, BROL, BROR, IR_MIN, IR_MAX], Op KINT, Op KINT), kfold_intarith),
     (([ADDOV, SUBOV, MULOV], Op KINT, Op KINT), kfold_intovarith),
     (([BNOT], Op KINT, NoOp), kfold_bnot),
     (([BSWAP], Op KINT, NoOp), kfold_bswap),
     (([LT, GE, LE, GT, ULT, UGE, ULE, UGT, ABC], Op KINT, Op KINT), kfold_intcomp),
     (([UGE], Any, Op KINT), kfold_intcomp0),
     (([ADD, SUB, MUL, BAND, BOR, BXOR], Op KINT64, Op KINT64), kfold_int64arith),
     (([DIV, MOD, POW], Op KINT64, Op KINT64), kfold_int64arith2),
     (([BSHL, BSHR, BSAR, BROL, BROR], Op KINT64, Op KINT), kfold_int64shift),
     (([BNOT], Op KINT64, NoOp), kfold_bnot64),
     (([BSWAP], Op KINT64, NoOp), kfold_bswap64),
     (([LT, GE, LE, GT, ULT, UGE, ULE, UGT], Op KINT64, Op KINT64), kfold_int64comp),
     (([UGE], Any, Op KINT64), kfold_int64comp0),
     (([EQ, NE], Op KINT, Op KINT), kfold_kref),
     (([EQ, NE], Op KINT64, Op KINT64), kfold_kref),
     (([NEG], Op NEG, Any), shortcut_leftleft),
     (([BNOT], Op BNOT, NoOp), shortcut_leftleft),
     (([BSWAP], Op BSWAP, NoOp), shortcut_leftleft),
     (([ADD], Op NEG, Any), simplify_numadd_negx),
     (([ADD], Any, Op NEG), simplify_numadd_xneg),
     (([SUB], Any, Op NEG), simplify_numsub_xneg),
     (([MUL, DIV], Op NEG, Op NEG), simplify_nummuldiv_negneg),
     (([ADD, ADDOV, SUBOV], Any, Op KINT), simplify_intadd_k),
     (([MULOV], Any, Op KINT), fold_simplify_intmul_k),
     (([SUB], Any, Op KINT), simplify_intsub_k),
     (([SUB], Op KINT, Any), simplify_intsub_kleft),
     (([SUB], Op KINT64, Any), simplify_intsub_kleft),
     (([ADD], Any, Op KINT64), simplify_intadd_k64),
     (([SUB], Any, Op KINT64), simplify_intsub_k64),
     (([MUL], Any, Op KINT), simplify_intmul_k32),
     (([MUL], Any, Op KINT64), simplify_intmul_k64),
     (([MOD], Any, Op KINT), simplify_intmod_k),
     (([MOD], Op KINT, Any), simplify_intmod_kleft),
     (([SUB, SUBOV], Any, Any), simplify_intsub),
     (([SUB], Op ADD, Any), simplify_intsubadd_leftcancel),
     (([SUB], Op SUB, Any), simplify_intsubsub_leftcancel),
     (([SUB], Any, Op SUB), simplify_intsubsub_rightcancel),
     (([SUB], Any, Op ADD), simplify_intsubadd_rightcancel),
     (([SUB], Op ADD, Op ADD), simplify_intsubaddadd_cancel),
     (([BAND], Any, Op KINT), simplify_band_k),
     (([BAND], Any, Op KINT64), simplify_band_k),
     (([BOR], Any, Op KINT), simplify_bor_k),
     (([BOR], Any, Op KINT64), simplify_bor_k),
     (([BXOR], Any, Op KINT), simplify_bxor_k),
     (([BXOR], Any, Op KINT64), simplify_bxor_k),
     (([BSHL, BSHR, BSAR, BROL, BROR], Any, Op KINT), simplify_shift_ik),
     (([BSHL, BSHR, BSAR, BROL, BROR], Any, Op BAND), simplify_shift_andk),
     (([BSHL, BSHR], Op KINT, Any), simplify_shift1_ki),
     (([BSHL, BSHR], Op KINT64, Any), simplify_shift1_ki),
     (([BSAR, BROL, BROR], Op KINT, Any), simplify_shift2_ki),
     (([BSAR, BROL, BROR], Op KINT64, Any), simplify_shift2_ki),
     (([BSHL, BSHR, BROL, BROR], Op BAND, Op KINT), simplify_shiftk_andk refold),
     (([BAND], Op BSHL, Op KINT), simplify_andk_shiftk),
     (([BAND], Op BSHR, Op KINT), simplify_andk_shiftk),
     (([BAND], Op BOR, Op KINT), simplify_andor_k),
     (([BOR], Op BAND, Op KINT), simplify_andor_k),
     (([BAND], Op BOR, Op KINT64), simplify_andor_k64),
     (([BOR], Op BAND, Op KINT64), simplify_andor_k64),
     (([ADD], Op ADD, Op KINT), reassoc_intarith_k),
     (([MUL], Op MUL, Op KINT), reassoc_intarith_k),
     (([BAND], Op BAND, Op KINT), reassoc_intarith_k),
     (([BOR], Op BOR, Op KINT), reassoc_intarith_k),
     (([BXOR], Op BXOR, Op KINT), reassoc_intarith_k),
     (([ADD], Op ADD, Op KINT64), reassoc_intarith_k64),
     (([MUL], Op MUL, Op KINT64), reassoc_intarith_k64),
     (([BAND], Op BAND, Op KINT64), reassoc_intarith_k64),
     (([BOR], Op BOR, Op KINT64), reassoc_intarith_k64),
     (([BXOR], Op BXOR, Op KINT64), reassoc_intarith_k64),
     (([BAND], Op BAND, Any), reassoc_dup),
     (([BOR], Op BOR, Any), reassoc_dup),
     (([IR_MIN], Op IR_MIN, Any), reassoc_dup_minmax),
     (([IR_MAX], Op IR_MAX, Any), reassoc_dup_minmax),
     (([BXOR], Op BXOR, Any), reassoc_bxor),
     (([BSHL], Op BSHL, Op KINT), reassoc_shift),
     (([BSHR], Op BSHR, Op KINT), reassoc_shift),
     (([BSAR], Op BSAR, Op KINT), reassoc_shift),
     (([BROL], Op BROL, Op KINT), reassoc_shift),
     (([BROR], Op BROR, Op KINT), reassoc_shift),
     (([IR_MIN], Op IR_MIN, Op KINT), reassoc_minmax_k),
     (([IR_MAX], Op IR_MAX, Op KINT), reassoc_minmax_k),
     (([ABC], Any, Op ADD), abc_fwd),
     (([ABC], Any, Op KINT), abc_k),
     (([ABC], Any, Any), abc_invar),
     (([ADD, MUL, ADDOV, MULOV], Any, Any), comm_swap),
     (([EQ, NE], Any, Any), comm_equal),
     (([LT, GE, LE, GT, ULT, UGE, ULE, UGT], Any, Any), comm_comp),
     (([BAND, BOR], Any, Any), comm_dup),
     (([IR_MIN, IR_MAX], Any, Any), comm_dup_minmax),
     (([BXOR], Any, Any), comm_bxor),
     (([SUB], Any, Op BASE), fold_base),
     (([SUB], Op BASE, Any), fold_base),
     (([EQ], Any, Op BASE), fold_base)]"

definition spec_matches :: "irop \<Rightarrow> pat \<Rightarrow> pat \<Rightarrow> fold_spec \<Rightarrow> bool" where
  "spec_matches op l r s = (case s of ((ops, l', r'), _) \<Rightarrow> op \<in> set ops \<and> l' = l \<and> r' = r)"

text \<open>The key, and the attempts from the most to the least specific pattern.\<close>

definition left_key :: "jit_State \<Rightarrow> irins \<Rightarrow> pat" where
  "left_key J f = (if cur_nk J \<le> ins_op1 f then Op (ins_o (fleft J f)) else NoOp)"

definition right_key :: "jit_State \<Rightarrow> irins \<Rightarrow> pat" where
  "right_key J f = (if cur_nk J \<le> ins_op2 f then Op (ins_o (fright J f)) else NoOp)"

definition attempts :: "jit_State \<Rightarrow> irins \<Rightarrow> (pat \<times> pat) list" where
  "attempts J f =
     (let l = left_key J f; r = right_key J f in [(l, r), (Any, r), (l, Any), (Any, Any)])"

fun try_rules :: "fold_spec list \<Rightarrow> irins \<Rightarrow> (pat \<times> pat) list \<Rightarrow> jit_State \<Rightarrow> jit_State \<times> foldres" where
  "try_rules tab f [] J = (J, NEXTFOLD)"
| "try_rules tab f ((l, r) # ks) J =
     (case find (spec_matches (ins_o f) l r) tab of
        None \<Rightarrow> try_rules tab f ks J
      | Some s \<Rightarrow> (case snd s J f of
          (J', NEXTFOLD) \<Rightarrow> try_rules tab f ks J'
        | res \<Rightarrow> res))"

fun lj_opt_fold :: "nat \<Rightarrow> folder" where
  "lj_opt_fold 0 J f = Inl OUT_OF_FUEL"
| "lj_opt_fold (Suc n) J f =
     (if \<not> opt_fold J then (let (J', r) = lj_opt_cse J f in Inr (J', TREF r))
      else case try_rules (fold_table (lj_opt_fold n)) f (attempts J f) J of
        (J', NEXTFOLD) \<Rightarrow> (let (J'', r) = lj_opt_cse J' f in Inr (J'', TREF r))
      | (J', REFFOLD r) \<Rightarrow> Inr (J', TREF r)
      | (J', RETRYFOLD f') \<Rightarrow> lj_opt_fold n J' f'
      | (J', KINTFOLD k) \<Rightarrow> (case lj_ir_kint J' k of None \<Rightarrow> Inl ABORTED | Some (J'', r) \<Rightarrow> Inr (J'', TREF r))
      | (J', FAILFOLD) \<Rightarrow> Inl LJ_TRERR_GFAIL
      | (J', DROPFOLD) \<Rightarrow> Inr (J', TREF_DROP)
      | (J', ERRFOLD e) \<Rightarrow> Inl e)"

end
