(* ===== verification/Fold_Contract.thy ===== *)
theory Fold_Contract
  imports Fold
begin

text \<open>
  What the rules of the FOLD engine promise, and the ways to show it. A rule keeps the contract
  \<open>rule_ok\<close>: a reference it returns has the value of the instruction, a dropped guard holds, a failed
  guard never holds, a rewritten instruction means the same and is smaller in an order on
  instructions. Laws about values are stated on a \<open>view\<close> of a run at the width of the instruction, so
  that one statement serves 32-bit and 64-bit instructions.
\<close>

section \<open>Contracts\<close>

text \<open>The instructions the engine is correct for: well-typed integer instructions. Not among them: division
  and power, which have no 32-bit integer form, and 64-bit modulo (common-subexpression elimination
  ignores the signedness of the type); all 64-bit logical right shifts and rotates
  (\<^verbatim>\<open>simplify_shiftk_andk\<close> folds their masks wrongly); and in a trace with a loop the bounds check of pointer
  type, which \<^verbatim>\<open>abc_invar\<close> drops because the recorder has emitted the same check before the loop.\<close>

definition fins_ok :: "jit_State \<Rightarrow> irins \<Rightarrow> bool" where
  "fins_ok J f \<longleftrightarrow> typed J f \<and> \<not> is_const (ins_o f) \<and> \<not> is_opaque (ins_o f) \<and>
     ins_o f \<noteq> DIV \<and> ins_o f \<noteq> POW \<and>
     (int64 (ins_t f) \<longrightarrow> ins_o f \<notin> {MOD, BSHR, BROL, BROR}) \<and>
     (ins_o f = ABC \<longrightarrow> ins_t f = IRT_INT \<or> chain J LOOP = [])"

definition equiv_ins :: "jit_State \<Rightarrow> irins \<Rightarrow> irins \<Rightarrow> bool" where
  "equiv_ins J f f' \<longleftrightarrow> (\<forall>\<rho>. run J \<rho> \<longrightarrow> sem_ins \<rho> f = Undef \<or> sem_ins \<rho> f' = sem_ins \<rho> f)"

definition has_value :: "jit_State \<Rightarrow> irins \<Rightarrow> ((nat \<Rightarrow> u64) \<Rightarrow> u64) \<Rightarrow> bool" where
  "has_value J f v \<longleftrightarrow> (\<forall>\<rho>. run J \<rho> \<longrightarrow> sem_ins \<rho> f = Undef \<or> sem_ins \<rho> f = Done (v \<rho>))"

subsection \<open>The order on instructions\<close>

fun fold_group :: "irop \<Rightarrow> nat" where
  "fold_group MUL = 3"
| "fold_group BSHL = 2" | "fold_group BSHR = 2" | "fold_group BSAR = 2" | "fold_group BROL = 2" | "fold_group BROR = 2"
| "fold_group MOD = 2"
| "fold_group ADD = 1" | "fold_group SUB = 1" | "fold_group BXOR = 1" | "fold_group MULOV = 1"
| "fold_group _ = 0"

definition refw :: "nat \<Rightarrow> nat" where
  "refw r = (if r < REF_BIAS then 0 else r)"

definition commutes :: "irop \<Rightarrow> bool" where
  "commutes op \<longleftrightarrow> op \<in> {ADD, MUL, ADDOV, MULOV, EQ, NE, BAND, BOR, BXOR} \<union> set comparisons"

definition fold_detail :: "jit_State \<Rightarrow> irins \<Rightarrow> nat" where
  "fold_detail J f =
     (if ins_o f = SUB \<or> ins_o f = BROR then 4 else 0) +
     (if is_shift (ins_o f) \<and> ref_o J (ins_op2 f) = KINT \<and>
         ins_i (fright J f) AND shmask f \<noteq> ins_i (fright J f) then 2 else 0) +
     (if commutes (ins_o f) \<and> ins_op1 f < ins_op2 f then 1 else 0)"

definition fold_order :: "jit_State \<Rightarrow> irins \<Rightarrow> nat \<times> nat \<times> nat" where
  "fold_order J f = (fold_group (ins_o f), refw (ins_op1 f) + refw (ins_op2 f), fold_detail J f)"

definition lex3 :: "((nat \<times> nat \<times> nat) \<times> nat \<times> nat \<times> nat) set" where
  "lex3 = less_than <*lex*> less_than <*lex*> less_than"

lemma wf_lex3: "wf lex3"
  unfolding lex3_def by (intro wf_lex_prod wf_less_than)

definition rule_ok :: "jit_State \<Rightarrow> irins \<Rightarrow> jit_State \<times> foldres \<Rightarrow> bool" where
  "rule_ok J f jr = (case jr of (J', res) \<Rightarrow> (case res of
       NEXTFOLD \<Rightarrow> J' = J
     | RETRYFOLD f' \<Rightarrow> extends J J' \<and> same_flags J J' \<and> wf_ir J' \<and> fins_ok J' f' \<and>
         (fold_order J' f', fold_order J f) \<in> lex3 \<and>
         (int64 (ins_t f') = int64 (ins_t f)) \<and> (ins_o f' = ABC \<longleftrightarrow> ins_o f = ABC) \<and>
         (\<forall>\<rho>. run J \<rho> \<longrightarrow> (\<exists>\<rho>'. run J' \<rho>' \<and> agree J \<rho> \<rho>')) \<and> equiv_ins J' f f'
     | KINTFOLD k \<Rightarrow> J' = J \<and> ins_o f \<noteq> ABC \<and> (int64 (ins_t f) \<longrightarrow> k = 0) \<and> has_value J f (\<lambda>_. u64_of_u32 k)
     | FAILFOLD \<Rightarrow> J' = J \<and> (\<forall>\<rho>. run J \<rho> \<longrightarrow> sem_ins \<rho> f = Exit)
     | DROPFOLD \<Rightarrow> implements J f J' (\<lambda>_. 0) \<and> same_flags J J' \<and> (ins_o f \<noteq> ABC \<longrightarrow> J' = J)
     | REFFOLD r \<Rightarrow> result_ok J f J' r
     | ERRFOLD e \<Rightarrow> e \<noteq> OUT_OF_FUEL \<and>
         (e = LJ_TRERR_GFAIL \<longrightarrow> (\<forall>\<rho>. run J \<rho> \<longrightarrow> sem_ins \<rho> f = Exit \<or> sem_ins \<rho> f = Undef))))"

subsection \<open>Returning an existing reference, a constant, or nothing\<close>

lemma rule_next [simp]: "rule_ok J f (J, NEXTFOLD)"
  by (simp add: rule_ok_def)

lemma same_flags_refl [simp]: "same_flags J J"
  by (simp add: same_flags_def)

lemma same_flags_trans: "same_flags J J' \<Longrightarrow> same_flags J' J'' \<Longrightarrow> same_flags J J''"
  by (simp add: same_flags_def)

lemma grows_flags: "grows J J' \<Longrightarrow> same_flags J J'"
  by (auto simp: grows_def same_flags_def is_const_def)

lemma rule_drop: "wf_ir J \<Longrightarrow> (\<And>\<rho>. run J \<rho> \<Longrightarrow> sem_ins \<rho> f = Done 0) \<Longrightarrow> rule_ok J f (J, DROPFOLD)"
  by (auto simp: rule_ok_def implements_def intro: agree_refl)

lemma rule_fail: "(\<And>\<rho>. run J \<rho> \<Longrightarrow> sem_ins \<rho> f = Exit) \<Longrightarrow> rule_ok J f (J, FAILFOLD)"
  by (simp add: rule_ok_def)

lemma rule_cond:
  "wf_ir J \<Longrightarrow> (\<And>\<rho>. run J \<rho> \<Longrightarrow> sem_ins \<rho> f = guard c) \<Longrightarrow> rule_ok J f (J, CONDFOLD c)"
  by (auto simp: CONDFOLD_def guard_def intro: rule_drop rule_fail)

lemma implements_value:
  assumes "grows J J'" "has_value J' f v" "typed J f"
  shows "implements J f J' v"
proof -
  have ext: "extends J J'" and wf: "wf_ir J'" using assms(1) by (auto simp: growsD)
  have "\<exists>\<rho>'. run J' \<rho>' \<and> agree J \<rho> \<rho>' \<and> v \<rho>' = x" if r: "run J \<rho>" and x: "sem_ins \<rho> f = Done x" for \<rho> x
  proof -
    obtain \<rho>' where \<rho>': "run J' \<rho>'" "agree J \<rho> \<rho>'" using grows_run [OF assms(1) r] by auto
    have "sem_ins \<rho>' f = Done x" using sem_ins_agree [OF assms(3) \<rho>'(2)] x by simp
    with \<rho>'(1) assms(2) have "v \<rho>' = x" by (auto simp: has_value_def)
    with \<rho>' show ?thesis by blast
  qed
  then show ?thesis
    using wf run_extends [OF ext] assms(2) by (auto simp: implements_def has_value_def)
qed

lemma rule_ref:
  assumes "grows J J'" "has_value J' f (\<lambda>\<rho>. \<rho> r)" "typed J f" "ins_o f \<noteq> ABC" "opd J' (int64 (ins_t f)) r"
  shows "rule_ok J f (J', REFFOLD r)"
  using implements_value [OF assms(1,2,3)] assms
  by (simp add: rule_ok_def result_ok_def grows_flags growsD)

lemma rule_ref_same:
  "wf_ir J \<Longrightarrow> typed J f \<Longrightarrow> ins_o f \<noteq> ABC \<Longrightarrow> opd J (int64 (ins_t f)) r \<Longrightarrow> has_value J f (\<lambda>\<rho>. \<rho> r) \<Longrightarrow>
   rule_ok J f (J, REFFOLD r)"
  by (rule rule_ref [OF grows_refl])

lemma rule_kint:
  "ins_o f \<noteq> ABC \<Longrightarrow> (int64 (ins_t f) \<Longrightarrow> k = 0) \<Longrightarrow> has_value J f (\<lambda>_. u64_of_u32 k) \<Longrightarrow>
   rule_ok J f (J, KINTFOLD k)"
  by (simp add: rule_ok_def)

lemma rule_retry:
  assumes "grows J J'" "fins_ok J' f'" "(fold_order J' f', fold_order J f) \<in> lex3"
    "int64 (ins_t f') = int64 (ins_t f)" "ins_o f' = ABC \<longleftrightarrow> ins_o f = ABC" "equiv_ins J' f f'"
  shows "rule_ok J f (J', RETRYFOLD f')"
  using assms grows_flags [OF assms(1)] by (simp add: rule_ok_def growsD grows_run)

lemma rule_with_kint:
  assumes "wf_ir J"
    and "\<And>J' r. grows J J' \<Longrightarrow> opd J' False r \<Longrightarrow> (k = 0 \<Longrightarrow> opd J' True r) \<Longrightarrow> cur_ir J' r = kint_ins k \<Longrightarrow>
           (\<And>\<rho>. run J' \<rho> \<Longrightarrow> \<rho> r = u64_of_u32 k) \<Longrightarrow> r < REF_BIAS \<Longrightarrow> rule_ok J f (J', g r)"
  shows "rule_ok J f (with_kint J k g)"
proof (cases "lj_ir_kint J k")
  case (Some jr)
  then obtain J' r where eq: "lj_ir_kint J k = Some (J', r)" by (cases jr) auto
  note g = lj_ir_kint_grows [OF assms(1) eq]
  have "\<rho> r = u64_of_u32 k" if "run J' \<rho>" for \<rho> using run_kint [OF that, of r] g by (simp add: kint_ins_def)
  with g assms(2) [of J' r] eq show ?thesis
    by (simp add: with_kint_def opd_def kint_ins_def int32_def)
qed (simp add: with_kint_def rule_ok_def)

lemma rule_with_kint64:
  assumes "wf_ir J"
    and "\<And>J' r. grows J J' \<Longrightarrow> opd J' True r \<Longrightarrow> cur_ir J' r = kint64_ins k \<Longrightarrow>
           (\<And>\<rho>. run J' \<rho> \<Longrightarrow> \<rho> r = k) \<Longrightarrow> r < REF_BIAS \<Longrightarrow> rule_ok J f (J', g r)"
  shows "rule_ok J f (with_kint64 J k g)"
proof (cases "lj_ir_kint64 J k")
  case (Some jr)
  then obtain J' r where eq: "lj_ir_kint64 J k = Some (J', r)" by (cases jr) auto
  note g = lj_ir_kint64_grows [OF assms(1) eq]
  have "\<rho> r = k" if "run J' \<rho>" for \<rho> using run_kint64 [OF that, of r] g by (simp add: kint64_ins_def)
  with g assms(2) [of J' r] eq show ?thesis
    by (simp add: with_kint64_def opd_def kint64_ins_def int64_def)
qed (simp add: with_kint64_def rule_ok_def)

lemma rule_INT64:
  assumes "wf_ir J" "typed J f" "int64 (ins_t f)" "ins_o f \<noteq> ABC" "has_value J f (\<lambda>_. k)"
  shows "rule_ok J f (INT64FOLD J k)"
  unfolding INT64FOLD_def
proof (rule rule_with_kint64 [OF assms(1)], rule rule_ref)
  fix J' r
  assume g: "grows J J'" and v: "\<And>\<rho>. run J' \<rho> \<Longrightarrow> \<rho> r = k"
  have "run J \<rho>" if "run J' \<rho>" for \<rho> using run_extends [OF _ that, of J] g by (simp add: growsD)
  with v assms(5) show "has_value J' f (\<lambda>\<rho>. \<rho> r)" by (auto simp: has_value_def)
qed (use assms in auto)

section \<open>Values of operands\<close>

abbreviation v32 :: "(nat \<Rightarrow> u64) \<Rightarrow> nat \<Rightarrow> u32" where
  "v32 \<rho> r \<equiv> u32_of_u64 (\<rho> r)"

text \<open>Opcodes whose meaning is the same function at both widths.\<close>

definition plain :: "irop \<Rightarrow> bool" where
  "plain op \<longleftrightarrow> op \<notin> {BSWAP, DIV, MOD, POW, ABC} \<and> \<not> is_const op \<and> \<not> is_opaque op"

lemma sem_64: "int64 t \<Longrightarrow> plain op \<Longrightarrow> sem op t a b = sem_w op a b"
  by (cases op) (auto simp: sem_def plain_def dest: is64_int64)

lemma sem_32_plain: "int32 t \<or> op = ABC \<Longrightarrow> op \<noteq> BSWAP \<Longrightarrow>
    sem op t a b = map_outcome u64_of_u32 (sem_w op (u32_of_u64 a) (u32_of_u64 b))"
  by (cases op) (auto simp: sem_def is64_int32)

lemma operand_ins:
  assumes "wf_ir J" "opd J w r" "\<not> is_const (ref_o J r)" "\<not> is_opaque (ref_o J r)"
  shows "typed J (cur_ir J r)" "canonical J (cur_ir J r)" "ins_op1 (cur_ir J r) < r" "ins_op2 (cur_ir J r) < r"
    "REF_BIAS \<le> r" "int64 (ref_t J r) = w" "w \<or> int32 (ref_t J r)"
  using valid_ins [OF assms(1) opd_valid [OF assms(2)] assms(3)] assms(4) opd_width [OF assms(2)] assms(3)
  by (auto simp: wf_ins_def Let_def is_const_def)

lemma operand_opd:
  assumes "wf_ir J" "opd J w r" "\<not> is_const (ref_o J r)" "\<not> is_opaque (ref_o J r)" "ref_o J r \<noteq> ABC"
  shows "opd J w (ins_op1 (cur_ir J r))"
    "ref_o J r \<notin> {BNOT, BSWAP} \<Longrightarrow> opd J (w \<and> \<not> is_shift (ref_o J r)) (ins_op2 (cur_ir J r))"
proof -
  note o = operand_ins [OF assms(1-4)]
  show "opd J w (ins_op1 (cur_ir J r))" using typed_opd1 [OF o(1)] assms(5) o(6) by simp
  show "ref_o J r \<notin> {BNOT, BSWAP} \<Longrightarrow> opd J (w \<and> \<not> is_shift (ref_o J r)) (ins_op2 (cur_ir J r))"
    using typed_opd2 [OF o(1)] assms(5) o(6) by (auto simp: conj_commute)
qed

lemma zext: 
  assumes "wf_ir J" "run J \<rho>" "opd J False r"
  shows "\<rho> r = u64_of_u32 (v32 \<rho> r)"
proof -
  have v: "valid J r" and t: "int32 (ref_t J r)" using assms(3) by (auto simp: opd_def)
  show ?thesis
    using run_completes [OF assms(2) v] t sem_32 [OF t] valid_KINT64_iff [OF assms(1) v] wf_kint64(4) [OF assms(1), of r]
    by (auto simp: completes_def Let_def sem_ins_def int32_def split: if_splits)
qed

lemma operand_64:
  assumes "wf_ir J" "run J \<rho>" "opd J True r" "plain (ref_o J r)"
  shows "sem_w (ref_o J r) (\<rho> (ins_op1 (cur_ir J r))) (\<rho> (ins_op2 (cur_ir J r))) = Done (\<rho> r)"
  using run_ins [OF assms(2) opd_valid [OF assms(3)]] operand_ins(6) [OF assms(1,3)] assms(4)
  by (simp add: sem_ins_def sem_64 plain_def)

lemma operand_32:
  assumes "wf_ir J" "run J \<rho>" "opd J False r" "\<not> is_const (ref_o J r)" "\<not> is_opaque (ref_o J r)" "ref_o J r \<noteq> BSWAP"
  shows "sem_w (ref_o J r) (v32 \<rho> (ins_op1 (cur_ir J r))) (v32 \<rho> (ins_op2 (cur_ir J r))) = Done (v32 \<rho> r)"
  using run_ins [OF assms(2) opd_valid [OF assms(3)] assms(4,5)] operand_ins(7) [OF assms(1,3,4,5)] assms(6)
  by (auto simp: sem_ins_def sem_32_plain map_outcome_Done)

lemma operand_KINT_32: "run J \<rho> \<Longrightarrow> opd J False r \<Longrightarrow> ref_o J r = KINT \<Longrightarrow> v32 \<rho> r = ins_i (cur_ir J r)"
  by (simp add: run_kint [OF _ opd_valid])

lemma operand_KINT_64:
  assumes "wf_ir J" "opd J True r" "ref_o J r = KINT"
  shows "ins_i (cur_ir J r) = 0" "run J \<rho> \<Longrightarrow> \<rho> r = 0"
proof -
  have v: "valid J r" using assms(2) by (rule opd_valid)
  have "ref_t J r = IRT_INT" using wf_kint(4) [OF assms(1)] valid_KINT_iff [OF assms(1) v] assms(3) by simp
  then show "ins_i (cur_ir J r) = 0" using assms(2,3) by (simp add: opd_def int64_def)
  then show "run J \<rho> \<Longrightarrow> \<rho> r = 0" using run_kint [OF _ v assms(3)] by simp
qed

lemma operand_KINT64:
  assumes "wf_ir J" "opd J w r" "ref_o J r = KINT64"
  shows "w" "run J \<rho> \<Longrightarrow> \<rho> r = ins_k64 (cur_ir J r)"
proof -
  have v: "valid J r" using assms(2) by (rule opd_valid)
  have "ref_t J r = IRT_I64" using wf_kint64(4) [OF assms(1)] valid_KINT64_iff [OF assms(1) v] assms(3) by simp
  then show "w" using assms(2) by (auto simp: opd_def int32_def split: if_splits)
  show "run J \<rho> \<Longrightarrow> \<rho> r = ins_k64 (cur_ir J r)" using run_kint64 [OF _ v assms(3)] by simp
qed

text \<open>A run seen at the width of an instruction: the references as words of that width. Laws are shown
  for a view and hold at both widths.\<close>

definition view :: "jit_State \<Rightarrow> (nat \<Rightarrow> u64) \<Rightarrow> bool \<Rightarrow> (nat \<Rightarrow> 'a::len word) \<Rightarrow> bool" where
  "view J \<rho> w V \<longleftrightarrow> LENGTH('a) = (if w then 64 else 32) \<and>
     (\<forall>r. opd J w r \<longrightarrow> plain (ref_o J r) \<longrightarrow>
        sem_w (ref_o J r) (V (ins_op1 (cur_ir J r))) (V (ins_op2 (cur_ir J r))) = Done (V r)) \<and>
     (\<forall>r. opd J w r \<longrightarrow> ref_o J r = KINT \<longrightarrow> V r = ucast (ins_i (cur_ir J r)) \<and> (w \<longrightarrow> ins_i (cur_ir J r) = 0)) \<and>
     (\<forall>r. opd J w r \<longrightarrow> ref_o J r = KINT64 \<longrightarrow> w \<and> V r = ucast (ins_k64 (cur_ir J r))) \<and>
     (\<forall>r. opd J False r \<longrightarrow> V r = ucast (v32 \<rho> r))"

lemma view_64: "wf_ir J \<Longrightarrow> run J \<rho> \<Longrightarrow> view J \<rho> True \<rho>"
  using operand_64 [of J \<rho>] operand_KINT_64 [of J] operand_KINT64 [of J True] zext [of J \<rho>]
  by (auto simp: view_def)

lemma view_32: "wf_ir J \<Longrightarrow> run J \<rho> \<Longrightarrow> view J \<rho> False (v32 \<rho>)"
  using operand_32 [of J \<rho>] operand_KINT_32 [of J \<rho>] operand_KINT64(1) [of J False]
  by (auto simp: view_def plain_def)

lemma view_ins:
  "view J \<rho> w V \<Longrightarrow> opd J w r \<Longrightarrow> plain (ref_o J r) \<Longrightarrow>
   sem_w (ref_o J r) (V (ins_op1 (cur_ir J r))) (V (ins_op2 (cur_ir J r))) = Done (V r)"
  unfolding view_def by blast

lemma view_KINT:
  "view J \<rho> w V \<Longrightarrow> opd J w r \<Longrightarrow> ref_o J r = KINT \<Longrightarrow> V r = ucast (ins_i (cur_ir J r))"
  "view J \<rho> w V \<Longrightarrow> opd J w r \<Longrightarrow> ref_o J r = KINT \<Longrightarrow> w \<Longrightarrow> ins_i (cur_ir J r) = 0"
  unfolding view_def by blast+

lemma view_KINT64:
  "view J \<rho> w V \<Longrightarrow> opd J w r \<Longrightarrow> ref_o J r = KINT64 \<Longrightarrow> V r = ucast (ins_k64 (cur_ir J r))"
  "view J \<rho> w V \<Longrightarrow> opd J w r \<Longrightarrow> ref_o J r = KINT64 \<Longrightarrow> w"
  unfolding view_def by blast+

lemma view_count: "view J \<rho> w V \<Longrightarrow> opd J False r \<Longrightarrow> V r = ucast (v32 \<rho> r)"
  unfolding view_def by blast

lemma view_length: "view J \<rho> w (V :: nat \<Rightarrow> 'a::len word) \<Longrightarrow> LENGTH('a) = (if w then 64 else 32)"
  by (simp add: view_def)

text \<open>From laws on views to values and equivalences.\<close>

abbreviation sem_view :: "irins \<Rightarrow> (nat \<Rightarrow> 'a::len word) \<Rightarrow> 'a word outcome" where
  "sem_view f V \<equiv> sem_w (ins_o f) (V (ins_op1 f)) (V (ins_op2 f))"

lemma sem_ins_view:
  assumes "typed J f" "ins_o f \<notin> {BSWAP, ABC}" "int64 (ins_t f) \<Longrightarrow> plain (ins_o f)"
  shows "sem_ins \<rho> f = (if int64 (ins_t f) then sem_view f \<rho> else map_outcome u64_of_u32 (sem_view f (v32 \<rho>)))"
  using assms typed_width(1) [OF assms(1)] by (auto simp: sem_ins_def sem_64 sem_32_plain)

lemma value_ref:
  assumes "wf_ir J" "typed J f" "ins_o f \<notin> {BSWAP, ABC}" "int64 (ins_t f) \<Longrightarrow> plain (ins_o f)"
    and "opd J (int64 (ins_t f)) r"
    and "\<And>\<rho>. run J \<rho> \<Longrightarrow> view J \<rho> (int64 (ins_t f)) \<rho> \<Longrightarrow> sem_view f \<rho> \<in> {Done (\<rho> r), Undef}"
    and "\<And>\<rho>. run J \<rho> \<Longrightarrow> view J \<rho> (int64 (ins_t f)) (v32 \<rho>) \<Longrightarrow> sem_view f (v32 \<rho>) \<in> {Done (v32 \<rho> r), Undef}"
  shows "has_value J f (\<lambda>\<rho>. \<rho> r)"
  unfolding has_value_def
proof (intro allI impI)
  fix \<rho>
  assume r: "run J \<rho>"
  show "sem_ins \<rho> f = Undef \<or> sem_ins \<rho> f = Done (\<rho> r)"
  proof (cases "int64 (ins_t f)")
    case True
    then show ?thesis
      using assms(6) [OF r] view_64 [OF assms(1) r] sem_ins_view [OF assms(2,3,4)] by auto
  next
    case False
    then have "\<rho> r = u64_of_u32 (v32 \<rho> r)" using zext [OF assms(1) r] assms(5) by simp
    with False show ?thesis
      using assms(7) [OF r] view_32 [OF assms(1) r] sem_ins_view [OF assms(2,3,4)] by auto
  qed
qed

lemma value_kint:
  assumes "wf_ir J" "typed J f" "ins_o f \<notin> {BSWAP, ABC}" "int64 (ins_t f) \<Longrightarrow> plain (ins_o f)"
    and "int64 (ins_t f) \<Longrightarrow> k = 0"
    and "\<And>\<rho>. run J \<rho> \<Longrightarrow> view J \<rho> (int64 (ins_t f)) \<rho> \<Longrightarrow> sem_view f \<rho> \<in> {Done (ucast k), Undef}"
    and "\<And>\<rho>. run J \<rho> \<Longrightarrow> view J \<rho> (int64 (ins_t f)) (v32 \<rho>) \<Longrightarrow> sem_view f (v32 \<rho>) \<in> {Done (ucast k), Undef}"
  shows "has_value J f (\<lambda>_. u64_of_u32 k)"
  unfolding has_value_def
proof (intro allI impI)
  fix \<rho>
  assume r: "run J \<rho>"
  show "sem_ins \<rho> f = Undef \<or> sem_ins \<rho> f = Done (u64_of_u32 k)"
  proof (cases "int64 (ins_t f)")
    case True
    then show ?thesis
      using assms(6) [OF r] view_64 [OF assms(1) r] sem_ins_view [OF assms(2,3,4)] by auto
  next
    case False
    with assms(7) [OF r] view_32 [OF assms(1) r] sem_ins_view [OF assms(2,3,4)] show ?thesis by auto
  qed
qed

lemma equiv_width:
  assumes "wf_ir J" "typed J f" "ins_o f \<notin> {BSWAP, ABC}" "int64 (ins_t f) \<Longrightarrow> plain (ins_o f)"
    and "typed J f'" "ins_o f' \<notin> {BSWAP, ABC}" "int64 (ins_t f') \<Longrightarrow> plain (ins_o f')"
    and "int64 (ins_t f') = int64 (ins_t f)"
    and "\<And>\<rho>. run J \<rho> \<Longrightarrow> view J \<rho> (int64 (ins_t f)) \<rho> \<Longrightarrow> sem_view f \<rho> \<in> {sem_view f' \<rho>, Undef}"
    and "\<And>\<rho>. run J \<rho> \<Longrightarrow> view J \<rho> (int64 (ins_t f)) (v32 \<rho>) \<Longrightarrow> sem_view f (v32 \<rho>) \<in> {sem_view f' (v32 \<rho>), Undef}"
  shows "equiv_ins J f f'"
  unfolding equiv_ins_def
proof (intro allI impI)
  fix \<rho>
  assume r: "run J \<rho>"
  show "sem_ins \<rho> f = Undef \<or> sem_ins \<rho> f' = sem_ins \<rho> f"
  proof (cases "int64 (ins_t f)")
    case True
    then show ?thesis
      using assms(9) [OF r] view_64 [OF assms(1) r] sem_ins_view [OF assms(2,3,4)] sem_ins_view [OF assms(5,6,7)] assms(8)
      by auto
  next
    case False
    then show ?thesis
      using assms(10) [OF r] view_32 [OF assms(1) r] sem_ins_view [OF assms(2,3,4)] sem_ins_view [OF assms(5,6,7)] assms(8)
      by auto
  qed
qed

subsection \<open>Operands of the instruction to fold\<close>

lemma fins_typed: "fins_ok J f \<Longrightarrow> typed J f"
  by (simp add: fins_ok_def)

lemma fins_opd1: "fins_ok J f \<Longrightarrow> ins_o f \<noteq> ABC \<Longrightarrow> opd J (int64 (ins_t f)) (ins_op1 f)"
  using typed_opd1 [of J f] by (simp add: fins_ok_def)

lemma fins_opd2:
  "fins_ok J f \<Longrightarrow> ins_o f \<notin> {ABC, BNOT, BSWAP} \<Longrightarrow> opd J (int64 (ins_t f) \<and> \<not> is_shift (ins_o f)) (ins_op2 f)"
  using typed_opd2 [of J f] by (auto simp: fins_ok_def conj_commute)

lemma fins_64: "fins_ok J f \<Longrightarrow> int64 (ins_t f) \<Longrightarrow> \<not> only32 (ins_o f)"
  by (auto simp: fins_ok_def typed_def Let_def only32_def int32_def int64_def)

lemma fins_plain: "fins_ok J f \<Longrightarrow> ins_o f \<notin> {BSWAP, ABC} \<Longrightarrow> int64 (ins_t f) \<Longrightarrow> plain (ins_o f)"
  by (auto simp: fins_ok_def plain_def)

text \<open>The forms in which the rules below use the contract.\<close>

lemma fold_to_ref:
  assumes "wf_ir J" "fins_ok J f" "ins_o f \<notin> {BSWAP, ABC}" "opd J (int64 (ins_t f)) r"
    and "\<And>\<rho>. run J \<rho> \<Longrightarrow> view J \<rho> (int64 (ins_t f)) \<rho> \<Longrightarrow> sem_view f \<rho> \<in> {Done (\<rho> r), Undef}"
    and "\<And>\<rho>. run J \<rho> \<Longrightarrow> view J \<rho> (int64 (ins_t f)) (v32 \<rho>) \<Longrightarrow> sem_view f (v32 \<rho>) \<in> {Done (v32 \<rho> r), Undef}"
  shows "rule_ok J f (J, REFFOLD r)"
proof (rule rule_ref_same [OF assms(1) fins_typed [OF assms(2)] _ assms(4)])
  show "has_value J f (\<lambda>\<rho>. \<rho> r)"
    by (rule value_ref [OF assms(1) fins_typed [OF assms(2)] assms(3) fins_plain [OF assms(2,3)] assms(4) assms(5,6)])
qed (use assms(3) in simp)

lemma fold_to_kint:
  assumes "wf_ir J" "fins_ok J f" "ins_o f \<notin> {BSWAP, ABC}" "int64 (ins_t f) \<Longrightarrow> k = 0"
    and "\<And>\<rho>. run J \<rho> \<Longrightarrow> view J \<rho> (int64 (ins_t f)) \<rho> \<Longrightarrow> sem_view f \<rho> \<in> {Done (ucast k), Undef}"
    and "\<And>\<rho>. run J \<rho> \<Longrightarrow> view J \<rho> (int64 (ins_t f)) (v32 \<rho>) \<Longrightarrow> sem_view f (v32 \<rho>) \<in> {Done (ucast k), Undef}"
  shows "rule_ok J f (J, KINTFOLD k)"
proof (rule rule_kint [OF _ assms(4)])
  show "has_value J f (\<lambda>_. u64_of_u32 k)"
    by (rule value_kint [OF assms(1) fins_typed [OF assms(2)] assms(3) fins_plain [OF assms(2,3)] assms(4) assms(5,6)])
qed (use assms(3) in simp)

lemma fold_to_kint64:
  assumes "wf_ir J" "fins_ok J f" "ins_o f \<notin> {BSWAP, ABC}" "int64 (ins_t f)"
    and "\<And>\<rho>. run J \<rho> \<Longrightarrow> view J \<rho> (int64 (ins_t f)) \<rho> \<Longrightarrow> sem_view f \<rho> = Done k"
  shows "rule_ok J f (INT64FOLD J k)"
proof (rule rule_INT64)
  show "has_value J f (\<lambda>_. k)"
    using assms(5) view_64 [OF assms(1)] sem_ins_view [OF fins_typed [OF assms(2)] assms(3) fins_plain [OF assms(2,3)]] assms(4)
    by (auto simp: has_value_def)
qed (use assms fins_typed in auto)

lemma fold_to_retry:
  assumes "grows J J'" "fins_ok J f" "ins_o f \<notin> {BSWAP, ABC}"
    "fins_ok J' f'" "ins_o f' \<notin> {BSWAP, ABC}" "int64 (ins_t f') = int64 (ins_t f)"
    "(fold_order J' f', fold_order J f) \<in> lex3"
    and "\<And>\<rho>. run J' \<rho> \<Longrightarrow> view J' \<rho> (int64 (ins_t f)) \<rho> \<Longrightarrow> sem_view f \<rho> \<in> {sem_view f' \<rho>, Undef}"
    and "\<And>\<rho>. run J' \<rho> \<Longrightarrow> view J' \<rho> (int64 (ins_t f)) (v32 \<rho>) \<Longrightarrow> sem_view f (v32 \<rho>) \<in> {sem_view f' (v32 \<rho>), Undef}"
  shows "rule_ok J f (J', RETRYFOLD f')"
proof (rule rule_retry)
  show "equiv_ins J' f f'"
    by (rule equiv_width [OF growsD(1) [OF assms(1)] typed_extends [OF growsD(2) [OF assms(1)] fins_typed [OF assms(2)]]
      assms(3) fins_plain [OF assms(2,3)] fins_typed [OF assms(4)] assms(5) fins_plain [OF assms(4,5)] assms(6) assms(8,9)])
qed (use assms in auto)

end
