(* ===== verification/Fold_Rules.thy ===== *)
theory Fold_Rules
  imports Fold_Contract
begin

text \<open>
  The constant-folding and arithmetic rules of \<^verbatim>\<open>lj_opt_fold.c\<close> keep the contract of
  \<^verbatim>\<open>Fold_Contract\<close>, one lemma per fold function in the order of the source. The rules on bit
  operations, reassociation, bounds checks and commutativity are in \<^verbatim>\<open>Fold_Bitops\<close>.
\<close>

section \<open>Constant folding\<close>

lemma sh31_shcount: "sh31 k = shcount k"
  using unat_and_mask [of k 5] by (simp add: sh31_def shcount_def mask_eq_exp_minus_1)

lemma lj_rot32:
  "n < 32 \<Longrightarrow> lj_rol32 x n = word_rotl n x" "n < 32 \<Longrightarrow> lj_ror32 x n = word_rotr n x"
  using rol_rotl [of n x] ror_rotr [of n x] by (simp_all add: lj_rol32_def lj_ror32_def)

lemma lj_rot64:
  "n < 64 \<Longrightarrow> lj_rol64 x n = word_rotl n x" "n < 64 \<Longrightarrow> lj_ror64 x n = word_rotr n x"
  using rol_rotl [of n x] ror_rotr [of n x] by (simp_all add: lj_rol64_def lj_ror64_def)

lemma shcount_less: "shcount (b :: 'a::len word) < LENGTH('a)"
  by (simp add: shcount_def)

lemma shcount_less_32 [simp]: "shcount (b :: u32) < 32" and shcount_less_64 [simp]: "shcount (c :: u64) < 64"
  using shcount_less [of b] shcount_less [of c] by simp_all

definition intops :: "irop set" where
  "intops = {ADD, SUB, MUL, MOD, NEG, BAND, BOR, BXOR, BSHL, BSHR, BSAR, BROL, BROR, IR_MIN, IR_MAX}"

lemma kfold_intop_sem:
  assumes "op \<in> intops"
  shows "sem_w op a b = (case kfold_intop a b op of None \<Rightarrow> Undef | Some k \<Rightarrow> Done k)"
proof (cases "op = MOD")
  case True
  show ?thesis
  proof (cases "b = 0")
    case False
    obtain r where r: "lj_vm_modi a b = Some r" "sint r = sint a mod sint b"
      using lj_vm_modi_eq [OF False] by blast
    then have "word_of_int (sint a mod sint b) = r" by (metis word_of_sint)
    with True False r show ?thesis by simp
  qed (simp add: True lj_vm_modi_def)
next
  case False
  have neg: "- a = NOT a + 1" by (simp add: minus_eq_not_plus_1)
  show ?thesis
    using assms False unfolding intops_def
    by (elim insertE) (simp_all add: sh31_shcount lj_rot32 neg)
qed

lemma kfold_intop_Done: "op \<in> intops \<Longrightarrow> kfold_intop a b op = Some k \<Longrightarrow> sem_w op a b = Done k"
  by (simp add: kfold_intop_sem)

text \<open>With 64-bit operands two 32-bit constants are both zero, and so is the result.\<close>

lemma sem_w_zeros:
  "op \<in> {ADD, SUB, MUL, NEG, BAND, BOR} \<Longrightarrow> sem_w op 0 0 = Done 0"
  "is_shift op \<Longrightarrow> sem_w op 0 b = Done 0"
  by (auto simp: is_shift_def)

lemma view_wide: "view J \<rho> w (V :: nat \<Rightarrow> u64) \<Longrightarrow> w" and view_narrow: "view J \<rho> w (U :: nat \<Rightarrow> u32) \<Longrightarrow> \<not> w"
  using view_length [of J \<rho> w V] view_length [of J \<rho> w U] by (auto split: if_splits)

lemma kfold_intarith_ok:
  assumes wf: "wf_ir J" and ok: "fins_ok J f" and op: "ins_o f \<in> intops"
    and k: "ref_o J (ins_op1 f) = KINT" "ref_o J (ins_op2 f) = KINT"
  shows "rule_ok J f (kfold_intarith J f)"
proof (cases "kfold_intop (ins_i (fleft J f)) (ins_i (fright J f)) (ins_o f)")
  case None
  then show ?thesis by (simp add: kfold_intarith_def rule_ok_def)
next
  case (Some v)
  have na: "ins_o f \<notin> {BSWAP, ABC}" "ins_o f \<notin> {ABC, BNOT, BSWAP}" using op by (auto simp: intops_def)
  have o1: "opd J (int64 (ins_t f)) (ins_op1 f)" using fins_opd1 [OF ok] na by simp
  have o2: "opd J (int64 (ins_t f) \<and> \<not> is_shift (ins_o f)) (ins_op2 f)" using fins_opd2 [OF ok] na by simp
  note run32 = kfold_intop_Done [OF op Some, unfolded fleft_def fright_def]
  have zeros: "(is_shift (ins_o f) \<or> ins_i (fright J f) = 0) \<and> ins_i (fleft J f) = 0 \<and>
      (is_shift (ins_o f) \<or> ins_o f \<in> {ADD, SUB, MUL, NEG, BAND, BOR})" if w: "int64 (ins_t f)"
  proof (intro conjI)
    show "ins_i (fleft J f) = 0" using operand_KINT_64(1) [OF wf _ k(1)] o1 w by (simp add: fleft_def)
    show "is_shift (ins_o f) \<or> ins_i (fright J f) = 0"
      using operand_KINT_64(1) [OF wf _ k(2)] o2 w by (cases "is_shift (ins_o f)") (simp_all add: fright_def)
    have "ins_o f \<noteq> BXOR" "ins_o f \<noteq> MOD" using fins_typed [OF ok] ok w k by (auto simp: typed_def Let_def fins_ok_def)
    then show "is_shift (ins_o f) \<or> ins_o f \<in> {ADD, SUB, MUL, NEG, BAND, BOR}"
      using op fins_64 [OF ok w] by (auto simp: intops_def is_shift_def only32_def)
  qed
  have v: "v = 0" if "int64 (ins_t f)"
    using zeros [OF that] run32 by (auto simp: fleft_def fright_def sem_w_zeros is_shift_def)
  have "rule_ok J f (J, KINTFOLD v)"
  proof (rule fold_to_kint [OF wf ok na(1) v])
    fix \<rho> assume r: "run J \<rho>" "view J \<rho> (int64 (ins_t f)) \<rho>"
    have w: "int64 (ins_t f)" by (rule view_wide [OF r(2)])
    have "\<rho> (ins_op1 f) = 0" "is_shift (ins_o f) \<or> \<rho> (ins_op2 f) = 0"
      using operand_KINT_64(2) [OF wf _ k(1) r(1)] operand_KINT_64(2) [OF wf _ k(2) r(1)] o1 o2 w
      by (cases "is_shift (ins_o f)", auto)+
    with zeros [OF w] v [OF w] show "sem_view f \<rho> \<in> {Done (ucast v), Undef}"
      by (auto simp: sem_w_zeros is_shift_def)
  next
    fix \<rho> assume r: "run J \<rho>" "view J \<rho> (int64 (ins_t f)) (v32 \<rho>)"
    with run32 operand_KINT_32 [OF r(1) _ k(1)] operand_KINT_32 [OF r(1) _ k(2)] o1 o2 view_narrow [OF r(2)]
    show "sem_view f (v32 \<rho>) \<in> {Done (ucast v), Undef}" by simp
  qed
  then show ?thesis using Some by (simp add: kfold_intarith_def)
qed

lemma sint_bounds_32: "- (2 ^ 31) \<le> sint (a :: u32)" "sint a < 2 ^ 31"
  using sint_ge [of a] sint_lt [of a] by simp_all

lemma checked_32: "(checked n :: u32 outcome) = (if - (2 ^ 31) \<le> n \<and> n < 2 ^ 31 then Done (word_of_int n) else Exit)"
  by (simp add: checked_def)

lemma kfold_intovarith_ok:
  assumes wf: "wf_ir J" and ok: "fins_ok J f" and op: "ins_o f \<in> {ADDOV, SUBOV, MULOV}"
    and k: "ref_o J (ins_op1 f) = KINT" "ref_o J (ins_op2 f) = KINT"
  shows "rule_ok J f (kfold_intovarith J f)"
proof -
  have na: "ins_o f \<notin> {BSWAP, ABC}" and w: "\<not> int64 (ins_t f)"
    using op fins_64 [OF ok] by (auto simp: only32_def)
  define n where "n = (case ins_o f of ADDOV \<Rightarrow> sint (ins_i (fleft J f)) + sint (ins_i (fright J f))
    | SUBOV \<Rightarrow> sint (ins_i (fleft J f)) - sint (ins_i (fright J f))
    | _ \<Rightarrow> sint (ins_i (fleft J f)) * sint (ins_i (fright J f)))"
  have sem: "sem_view f (v32 \<rho>) = checked n" if r: "run J \<rho>" for \<rho>
  proof -
    have "v32 \<rho> (ins_op1 f) = ins_i (fleft J f)" "v32 \<rho> (ins_op2 f) = ins_i (fright J f)"
      using operand_KINT_32 [OF r _ k(1)] operand_KINT_32 [OF r _ k(2)] fins_opd1 [OF ok] fins_opd2 [OF ok] op w
      by (auto simp: fleft_def fright_def)
    then show ?thesis using op by (auto simp: n_def)
  qed
  show ?thesis
  proof (cases "- (2 ^ 31) \<le> n \<and> n < 2 ^ 31")
    case True
    then have "sint (word_of_int n :: u32) = n" by (intro sint_word_of_small) auto
    with True have "kfold_intovarith J f = (J, KINTFOLD (word_of_int n))"
      unfolding kfold_intovarith_def Let_def n_def [symmetric] by simp
    moreover have "rule_ok J f (J, KINTFOLD (word_of_int n))"
      using True sem w by (intro fold_to_kint [OF wf ok na]) (auto simp: checked_32 dest: view_wide)
    ultimately show ?thesis by simp
  next
    case False
    have "n \<noteq> sint (0x80000000 :: u32)" using False by auto
    with False have "kfold_intovarith J f = (J, FAILFOLD)"
      unfolding kfold_intovarith_def Let_def n_def [symmetric] by auto
    moreover have "sem_ins \<rho> f = Exit" if "run J \<rho>" for \<rho>
      using sem [OF that] w False sem_ins_view [OF fins_typed [OF ok] na, of \<rho>] by (auto simp: checked_32)
    ultimately show ?thesis by (simp add: rule_fail)
  qed
qed

lemma rule_value_kint: "ins_o f \<noteq> ABC \<Longrightarrow> (int64 (ins_t f) \<Longrightarrow> k = 0) \<Longrightarrow>
    (\<And>\<rho>. run J \<rho> \<Longrightarrow> sem_ins \<rho> f = Done (u64_of_u32 k)) \<Longrightarrow> rule_ok J f (J, KINTFOLD k)"
  by (rule rule_kint) (auto simp: has_value_def)

lemma fins_width: "fins_ok J f \<Longrightarrow> ins_o f \<noteq> ABC \<Longrightarrow> int32 (ins_t f) \<longleftrightarrow> \<not> int64 (ins_t f)"
  using typed_width(1) [of J f] fins_typed by blast

lemma kfold_bnot_ok:
  assumes wf: "wf_ir J" and ok: "fins_ok J f" and op: "ins_o f = BNOT" and k: "ref_o J (ins_op1 f) = KINT"
  shows "rule_ok J f (kfold_bnot J f)"
proof -
  have w: "\<not> int64 (ins_t f)" using fins_typed [OF ok] op k by (auto simp: typed_def Let_def)
  have "sem_ins \<rho> f = Done (u64_of_u32 (NOT (ins_i (fleft J f))))" if "run J \<rho>" for \<rho>
    using operand_KINT_32 [OF that _ k] fins_opd1 [OF ok] fins_width [OF ok] op w
    by (simp add: sem_ins_def sem_32_plain fleft_def)
  with w op show ?thesis unfolding kfold_bnot_def by (intro rule_value_kint) auto
qed

lemma lj_bswap_zero [simp]: "lj_bswap 0 = 0" "lj_bswap64 0 = 0"
  by (simp_all add: lj_bswap_def lj_bswap64_def)

lemma sem_bswap:
  "int64 t \<Longrightarrow> sem BSWAP t a b = Done (lj_bswap64 a)"
  "int32 t \<Longrightarrow> sem BSWAP t a b = Done (u64_of_u32 (lj_bswap (u32_of_u64 a)))"
  by (simp_all add: sem_def is64_int64 is64_int32)

lemma kfold_bswap_ok:
  assumes wf: "wf_ir J" and ok: "fins_ok J f" and op: "ins_o f = BSWAP" and k: "ref_o J (ins_op1 f) = KINT"
  shows "rule_ok J f (kfold_bswap J f)"
proof -
  have o: "opd J (int64 (ins_t f)) (ins_op1 f)" using fins_opd1 [OF ok] op by simp
  have z: "ins_i (fleft J f) = 0" if "int64 (ins_t f)"
    using operand_KINT_64(1) [OF wf _ k] o that by (simp add: fleft_def)
  have "sem_ins \<rho> f = Done (u64_of_u32 (lj_bswap (ins_i (fleft J f))))" if r: "run J \<rho>" for \<rho>
    using operand_KINT_32 [OF r _ k] operand_KINT_64(2) [OF wf _ k r] o z fins_width [OF ok] op
    by (cases "int64 (ins_t f)") (simp_all add: sem_ins_def sem_bswap fleft_def)
  with z op show ?thesis unfolding kfold_bswap_def by (intro rule_value_kint) auto
qed

text \<open>Guards: the meaning of a comparison at both widths.\<close>

lemma map_outcome_guard [simp]: "map_outcome u64_of_u32 (guard c) = guard c"
  by (simp add: guard_def)

definition cmps :: "irop set" where
  "cmps = {LT, GE, LE, GT, ULT, UGE, ULE, UGT, EQ, NE}"

fun cmp_holds :: "irop \<Rightarrow> 'a::len word \<Rightarrow> 'a word \<Rightarrow> bool" where
  "cmp_holds LT a b = (sint a < sint b)"
| "cmp_holds GE a b = (sint a \<ge> sint b)"
| "cmp_holds LE a b = (sint a \<le> sint b)"
| "cmp_holds GT a b = (sint a > sint b)"
| "cmp_holds ULT a b = (a < b)"
| "cmp_holds UGE a b = (a \<ge> b)"
| "cmp_holds ULE a b = (a \<le> b)"
| "cmp_holds UGT a b = (a > b)"
| "cmp_holds EQ a b = (a = b)"
| "cmp_holds _ a b = (a \<noteq> b)"

lemma sem_w_cmp: "op \<in> cmps \<Longrightarrow> sem_w op a b = guard (cmp_holds op a b)"
  unfolding cmps_def by (elim insertE) simp_all

lemma sem_ins_cmp:
  assumes "fins_ok J f" "ins_o f \<in> cmps"
  shows "sem_ins \<rho> f = guard (if int64 (ins_t f) then cmp_holds (ins_o f) (\<rho> (ins_op1 f)) (\<rho> (ins_op2 f))
    else cmp_holds (ins_o f) (v32 \<rho> (ins_op1 f)) (v32 \<rho> (ins_op2 f)))"
proof -
  have "ins_o f \<notin> {BSWAP, ABC}" using assms(2) by (auto simp: cmps_def)
  from sem_ins_view [OF fins_typed [OF assms(1)] this fins_plain [OF assms(1) this], of \<rho>] show ?thesis
    by (simp add: sem_w_cmp [OF assms(2)])
qed

lemma sem_ins_abc: "ins_o f = ABC \<Longrightarrow> sem_ins \<rho> f = guard (v32 \<rho> (ins_op2 f) < v32 \<rho> (ins_op1 f))"
  by (simp add: sem_ins_def sem_32_plain)

lemma cmp_opds:
  assumes "fins_ok J f" "ins_o f \<in> cmps"
  shows "opd J (int64 (ins_t f)) (ins_op1 f)" "opd J (int64 (ins_t f)) (ins_op2 f)"
  using fins_opd1 [OF assms(1)] fins_opd2 [OF assms(1)] assms(2) by (auto simp: cmps_def is_shift_def)

lemma abc_opds:
  assumes "fins_ok J f" "ins_o f = ABC"
  shows "opd J False (ins_op1 f)" "opd J False (ins_op2 f)"
  using assms by (auto simp: fins_ok_def typed_def)

lemma kint_values:
  assumes "wf_ir J" "run J \<rho>" "opd J w r" "ref_o J r = KINT"
  shows "if w then \<rho> r = 0 \<and> ins_i (cur_ir J r) = 0 else v32 \<rho> r = ins_i (cur_ir J r)"
  using operand_KINT_32 [OF assms(2) _ assms(4)] operand_KINT_64 [OF assms(1) _ assms(4)] assms(2,3) by auto

lemma kfold_intcomp_ok:
  assumes wf: "wf_ir J" and ok: "fins_ok J f" and op: "ins_o f \<in> set comparisons \<or> ins_o f = ABC"
    and k: "ref_o J (ins_op1 f) = KINT" "ref_o J (ins_op2 f) = KINT"
  shows "rule_ok J f (kfold_intcomp J f)"
proof (cases "ins_o f = ABC")
  case True
  have "sem_ins \<rho> f = guard (ins_i (fleft J f) > ins_i (fright J f))" if "run J \<rho>" for \<rho>
    using sem_ins_abc [OF True] operand_KINT_32 [OF that _ k(1)] operand_KINT_32 [OF that _ k(2)] abc_opds [OF ok True]
    by (simp add: fleft_def fright_def)
  with True wf show ?thesis by (simp add: kfold_intcomp_def Let_def rule_cond)
next
  case False
  then have cmp: "ins_o f \<in> cmps" "ins_o f \<in> set comparisons" using op by (auto simp: comparisons_def cmps_def)
  have "sem_ins \<rho> f = guard (cmp_holds (ins_o f) (ins_i (fleft J f)) (ins_i (fright J f)))" if r: "run J \<rho>" for \<rho>
    using sem_ins_cmp [OF ok cmp(1), of \<rho>] kint_values [OF wf r cmp_opds(1) [OF ok cmp(1)] k(1)]
      kint_values [OF wf r cmp_opds(2) [OF ok cmp(1)] k(2)] cmp(2)
    by (auto simp: fleft_def fright_def comparisons_def split: if_splits)
  then have "rule_ok J f (J, CONDFOLD (cmp_holds (ins_o f) (ins_i (fleft J f)) (ins_i (fright J f))))"
    by (intro rule_cond wf)
  with cmp(2) show ?thesis unfolding kfold_intcomp_def Let_def comparisons_def by auto
qed

lemma kfold_intcomp0_ok:
  assumes wf: "wf_ir J" and ok: "fins_ok J f" and op: "ins_o f = UGE" and k: "ref_o J (ins_op2 f) = KINT"
  shows "rule_ok J f (kfold_intcomp0 J f)"
proof -
  have cmp: "ins_o f \<in> cmps" using op by (simp add: cmps_def)
  have "sem_ins \<rho> f = Done 0" if "run J \<rho>" "ins_i (fright J f) = 0" for \<rho>
    using sem_ins_cmp [OF ok cmp, of \<rho>] kint_values [OF wf that(1) cmp_opds(2) [OF ok cmp] k] that(2) op
    by (auto simp: fright_def guard_def split: if_splits)
  then show ?thesis by (auto simp: kfold_intcomp0_def intro: rule_drop [OF wf])
qed

lemma kint64_values:
  assumes "wf_ir J" "run J \<rho>" "opd J w r" "ref_o J r = KINT64"
  shows "w" "\<rho> r = ins_k64 (cur_ir J r)"
  using operand_KINT64 [OF assms(1,3,4)] assms(2) by auto

lemma kfold_int64comp_ok:
  assumes wf: "wf_ir J" and ok: "fins_ok J f" and op: "ins_o f \<in> set comparisons"
    and k: "ref_o J (ins_op1 f) = KINT64" "ref_o J (ins_op2 f) = KINT64"
  shows "rule_ok J f (kfold_int64comp J f)"
proof -
  have cmp: "ins_o f \<in> cmps" using op by (auto simp: comparisons_def cmps_def)
  have "sem_ins \<rho> f = guard (cmp_holds (ins_o f) (ins_k64 (fleft J f)) (ins_k64 (fright J f)))" if r: "run J \<rho>" for \<rho>
    using sem_ins_cmp [OF ok cmp, of \<rho>] kint64_values [OF wf r cmp_opds(1) [OF ok cmp] k(1)]
      kint64_values [OF wf r cmp_opds(2) [OF ok cmp] k(2)]
    by (simp add: fleft_def fright_def)
  then have "rule_ok J f (J, CONDFOLD (cmp_holds (ins_o f) (ins_k64 (fleft J f)) (ins_k64 (fright J f))))"
    by (intro rule_cond wf)
  with op show ?thesis unfolding kfold_int64comp_def Let_def comparisons_def by auto
qed

lemma kfold_int64comp0_ok:
  assumes wf: "wf_ir J" and ok: "fins_ok J f" and op: "ins_o f = UGE" and k: "ref_o J (ins_op2 f) = KINT64"
  shows "rule_ok J f (kfold_int64comp0 J f)"
proof -
  have cmp: "ins_o f \<in> cmps" using op by (simp add: cmps_def)
  have "sem_ins \<rho> f = Done 0" if "run J \<rho>" "ins_k64 (fright J f) = 0" for \<rho>
    using sem_ins_cmp [OF ok cmp, of \<rho>] kint64_values [OF wf that(1) cmp_opds(2) [OF ok cmp] k] that(2) op
    by (simp add: fright_def guard_def)
  then show ?thesis by (auto simp: kfold_int64comp0_def intro: rule_drop [OF wf])
qed

text \<open>Interned constants: the same constant has the same reference.\<close>

lemma constants_unique:
  assumes wf: "wf_ir J" and v: "valid J r" "valid J q"
  shows "ref_o J r = KINT \<Longrightarrow> ref_o J q = KINT \<Longrightarrow> ins_i (cur_ir J r) = ins_i (cur_ir J q) \<Longrightarrow> r = q"
    "ref_o J r = KINT64 \<Longrightarrow> ref_o J q = KINT64 \<Longrightarrow> ins_k64 (cur_ir J r) = ins_k64 (cur_ir J q) \<Longrightarrow> r = q"
proof -
  have inj: "inj_on (\<lambda>r. ins_i (cur_ir J r)) (set (chain J KINT))" "inj_on (\<lambda>r. ins_k64 (cur_ir J r)) (set (chain J KINT64))"
    using wf by (auto simp: wf_ir_def)
  show "ref_o J r = KINT \<Longrightarrow> ref_o J q = KINT \<Longrightarrow> ins_i (cur_ir J r) = ins_i (cur_ir J q) \<Longrightarrow> r = q"
    using inj_onD [OF inj(1), of r q] valid_KINT_iff [OF wf v(1)] valid_KINT_iff [OF wf v(2)] by blast
  show "ref_o J r = KINT64 \<Longrightarrow> ref_o J q = KINT64 \<Longrightarrow> ins_k64 (cur_ir J r) = ins_k64 (cur_ir J q) \<Longrightarrow> r = q"
    using inj_onD [OF inj(2), of r q] valid_KINT64_iff [OF wf v(1)] valid_KINT64_iff [OF wf v(2)] by blast
qed

lemma kfold_kref_ok:
  assumes wf: "wf_ir J" and ok: "fins_ok J f" and op: "ins_o f \<in> {EQ, NE}"
    and k: "ref_o J (ins_op1 f) = ref_o J (ins_op2 f)" "ref_o J (ins_op1 f) \<in> {KINT, KINT64}"
  shows "rule_ok J f (kfold_kref J f)"
proof -
  have cmp: "ins_o f \<in> cmps" using op by (auto simp: cmps_def)
  note o = cmp_opds [OF ok cmp]
  have v: "valid J (ins_op1 f)" "valid J (ins_op2 f)" using o by (auto simp: opd_def)
  have uniq: "ins_op1 f = ins_op2 f \<longleftrightarrow> (if ref_o J (ins_op1 f) = KINT
      then ins_i (fleft J f) = ins_i (fright J f) else ins_k64 (fleft J f) = ins_k64 (fright J f))"
    using constants_unique [OF wf v] k by (auto simp: fleft_def fright_def)
  have "sem_ins \<rho> f = guard ((ins_op1 f = ins_op2 f) \<noteq> (ins_o f = NE))" if r: "run J \<rho>" for \<rho>
  proof (cases "ref_o J (ins_op1 f) = KINT")
    case True
    with sem_ins_cmp [OF ok cmp, of \<rho>] kint_values [OF wf r o(1)] kint_values [OF wf r o(2)] uniq k op show ?thesis
      by (auto simp: fleft_def fright_def split: if_splits)
  next
    case False
    with sem_ins_cmp [OF ok cmp, of \<rho>] kint64_values [OF wf r o(1)] kint64_values [OF wf r o(2)] uniq k op show ?thesis
      by (auto simp: fleft_def fright_def)
  qed
  then show ?thesis by (simp add: kfold_kref_def rule_cond [OF wf])
qed

lemma kfold_int64arith_ok:
  assumes wf: "wf_ir J" and ok: "fins_ok J f" and op: "ins_o f \<in> {ADD, SUB, MUL, BAND, BOR, BXOR}"
    and k: "ref_o J (ins_op1 f) = KINT64" "ref_o J (ins_op2 f) = KINT64"
  shows "rule_ok J f (kfold_int64arith J f)"
  unfolding kfold_int64arith_def
proof (rule fold_to_kint64 [OF wf ok])
  have o: "opd J (int64 (ins_t f)) (ins_op1 f)" "opd J (int64 (ins_t f)) (ins_op2 f)"
    using fins_opd1 [OF ok] fins_opd2 [OF ok] op by (auto simp: is_shift_def)
  show "int64 (ins_t f)" by (rule operand_KINT64(1) [OF wf o(1) k(1)])
  fix \<rho> assume r: "run J \<rho>"
  show "sem_view f \<rho> = Done (kfold_int64arith_op (ins_k64 (fleft J f)) (ins_k64 (fright J f)) (ins_o f))"
    using kint64_values [OF wf r o(1) k(1)] kint64_values [OF wf r o(2) k(2)] op by (auto simp: fleft_def fright_def)
qed (use op in auto)

lemma shift64_sem:
  "is_shift op \<Longrightarrow> sem_w op a (u64_of_u32 k) = Done (lj_carith_shift64 a (k AND 63) (shift_of op))"
proof -
  have "unat (k AND 63) = unat k mod 64" using unat_and_mask [of k 6] by (simp add: mask_eq_exp_minus_1)
  then have "sh63 (k AND 63) = shcount (u64_of_u32 k)"
    by (simp add: sh63_def shcount_def and.assoc)
  then show "is_shift op \<Longrightarrow> ?thesis"
    by (auto simp: is_shift_def lj_carith_shl64_def lj_carith_shr64_def lj_carith_sar64_def
      lj_carith_rol64_def lj_carith_ror64_def lj_rot64)
qed

lemma kfold_int64shift_ok:
  assumes wf: "wf_ir J" and ok: "fins_ok J f" and op: "is_shift (ins_o f)"
    and k: "ref_o J (ins_op1 f) = KINT64" "ref_o J (ins_op2 f) = KINT"
  shows "rule_ok J f (kfold_int64shift J f)"
  unfolding kfold_int64shift_def
proof (rule fold_to_kint64 [OF wf ok])
  have o: "opd J (int64 (ins_t f)) (ins_op1 f)" "opd J False (ins_op2 f)"
    using fins_opd1 [OF ok] fins_opd2 [OF ok] op by (auto simp: is_shift_def)
  show "int64 (ins_t f)" by (rule operand_KINT64(1) [OF wf o(1) k(1)])
  fix \<rho> assume r: "run J \<rho>"
  show "sem_view f \<rho> = Done (lj_carith_shift64 (ins_k64 (fleft J f)) (ins_i (fright J f) AND 63) (shift_of (ins_o f)))"
    using kint64_values [OF wf r o(1) k(1)] run_kint [OF r opd_valid [OF o(2)] k(2)]
    by (simp add: fleft_def fright_def shift64_sem [OF op])
qed (use op in \<open>auto simp: is_shift_def\<close>)

lemma kfold_bnot64_ok:
  assumes wf: "wf_ir J" and ok: "fins_ok J f" and op: "ins_o f = BNOT" and k: "ref_o J (ins_op1 f) = KINT64"
  shows "rule_ok J f (kfold_bnot64 J f)"
  unfolding kfold_bnot64_def
proof (rule fold_to_kint64 [OF wf ok])
  have o: "opd J (int64 (ins_t f)) (ins_op1 f)" using fins_opd1 [OF ok] op by simp
  show "int64 (ins_t f)" by (rule operand_KINT64(1) [OF wf o k])
  fix \<rho> assume r: "run J \<rho>"
  show "sem_view f \<rho> = Done (NOT (ins_k64 (fleft J f)))"
    using kint64_values [OF wf r o k] op by (simp add: fleft_def)
qed (use op in auto)

lemma kfold_bswap64_ok:
  assumes wf: "wf_ir J" and ok: "fins_ok J f" and op: "ins_o f = BSWAP" and k: "ref_o J (ins_op1 f) = KINT64"
  shows "rule_ok J f (kfold_bswap64 J f)"
  unfolding kfold_bswap64_def
proof (rule rule_INT64 [OF wf fins_typed [OF ok]])
  have o: "opd J (int64 (ins_t f)) (ins_op1 f)" using fins_opd1 [OF ok] op by simp
  show w: "int64 (ins_t f)" by (rule operand_KINT64(1) [OF wf o k])
  show "has_value J f (\<lambda>_. lj_bswap64 (ins_k64 (fleft J f)))"
    using kint64_values [OF wf _ o k] op w by (simp add: has_value_def sem_ins_def sem_bswap fleft_def)
qed (use op in simp)

section \<open>Algebraic shortcuts\<close>

lemma bit_ff00: "bit (0xff00 :: u32) m \<longleftrightarrow> 8 \<le> m \<and> m < 16"
proof -
  have eq: "(0xff00 :: u32) = push_bit 8 (mask 8)" by (simp add: mask_eq_exp_minus_1 push_bit_eq_mult)
  show ?thesis unfolding eq bit_push_bit_iff bit_mask_iff by auto
qed

lemma bit_lj_bswap:
  assumes "n < 32"
  shows "bit (lj_bswap x) n = bit x (if n < 8 then n + 24 else if n < 16 then n + 8 else if n < 24 then n - 8 else n - 24)"
proof -
  have "\<not> bit x (n + 24)" if "8 \<le> n" using that by (auto dest: bit_imp_le_length)
  moreover have "\<not> bit x (24 + n)" if "8 \<le> n" using that by (auto dest: bit_imp_le_length)
  ultimately show ?thesis
    using assms unfolding lj_bswap_def bit_or_iff bit_and_iff bit_push_bit_iff bit_drop_bit_eq o_def bit_ff00
    by (auto simp: add.commute)
qed

lemma lj_bswap_bswap [simp]: "lj_bswap (lj_bswap x) = x"
proof (rule bit_word_eqI)
  fix n assume "n < LENGTH(32)"
  then have "n < 32" by simp
  then show "bit (lj_bswap (lj_bswap x)) n = bit x n"
    by (cases "n < 8"; cases "n < 16"; cases "n < 24") (auto simp: bit_lj_bswap)
qed

lemma lj_bswap64_halves:
  "u32_of_u64 (lj_bswap64 x) = lj_bswap (u32_of_u64 (drop_bit 32 x))"
  "u32_of_u64 (drop_bit 32 (lj_bswap64 x)) = lj_bswap (u32_of_u64 x)"
  by (rule bit_word_eqI, auto simp: lj_bswap64_def bit_simps dest: bit_imp_le_length)+

lemma lj_bswap64_bswap64 [simp]: "lj_bswap64 (lj_bswap64 x) = x"
proof -
  have "lj_bswap64 (lj_bswap64 x) = u64_of_u32 (u32_of_u64 x) OR push_bit 32 (u64_of_u32 (u32_of_u64 (drop_bit 32 x)))"
    by (simp add: lj_bswap64_def [of "lj_bswap64 x"] lj_bswap64_halves)
  also have "\<dots> = x" by (rule bit_word_eqI) (auto simp: bit_simps)
  finally show ?thesis .
qed

lemma shortcut_leftleft_ok:
  assumes wf: "wf_ir J" and ok: "fins_ok J f" and op: "ins_o f \<in> {NEG, BNOT, BSWAP}"
    and l: "ref_o J (ins_op1 f) = ins_o f"
  shows "rule_ok J f (shortcut_leftleft J f)"
proof -
  have na: "ins_o f \<noteq> ABC" "\<not> is_const (ins_o f)" "\<not> is_opaque (ins_o f)" using op ok by (auto simp: fins_ok_def)
  have o: "opd J (int64 (ins_t f)) (ins_op1 f)" using fins_opd1 [OF ok na(1)] .
  note oi = operand_ins [OF wf o] and oo = operand_opd(1) [OF wf o]
  have "has_value J f (\<lambda>\<rho>. \<rho> (ins_op1 (fleft J f)))"
    unfolding has_value_def
  proof (intro allI impI disjI2)
    fix \<rho> assume r: "run J \<rho>"
    have i: "Done (\<rho> (ins_op1 f)) = sem_ins \<rho> (cur_ir J (ins_op1 f))"
      using run_ins [OF r opd_valid [OF o]] l na by simp
    have z: "\<rho> (ins_op1 (fleft J f)) = u64_of_u32 (v32 \<rho> (ins_op1 (fleft J f)))" if "\<not> int64 (ins_t f)"
      using zext [OF wf r] oo l na that by (simp add: fleft_def)
    show "sem_ins \<rho> f = Done (\<rho> (ins_op1 (fleft J f)))"
    proof (cases "int64 (ins_t f)")
      case True
      then show ?thesis using i oi(6) l na op
        by (auto simp: sem_ins_def fleft_def sem_bswap sem_64 plain_def)
    next
      case False
      then have "int32 (ins_t f)" "int32 (ref_t J (ins_op1 f))" using fins_width [OF ok na(1)] oi(7) l na by auto
      then show ?thesis using i z [OF False] l op
        by (auto simp: sem_ins_def fleft_def sem_bswap sem_32_plain)
    qed
  qed
  moreover have "opd J (int64 (ins_t f)) (ins_op1 (fleft J f))" using oo l na by (simp add: fleft_def)
  ultimately show ?thesis
    using rule_ref_same [OF wf fins_typed [OF ok] na(1)] by (simp add: shortcut_leftleft_def)
qed

subsection \<open>Rewriting to a smaller instruction\<close>

lemma lex3_iff:
  "((a, b, c), (a', b', c')) \<in> lex3 \<longleftrightarrow> a < a' \<or> a = a' \<and> (b < b' \<or> b = b' \<and> c < c')"
  by (auto simp: lex3_def)

lemma order_group: "fold_group (ins_o f') < fold_group (ins_o f) \<Longrightarrow> (fold_order J' f', fold_order J f) \<in> lex3"
  by (simp add: fold_order_def lex3_iff)

lemma order_refs:
  "fold_group (ins_o f') = fold_group (ins_o f) \<Longrightarrow>
   refw (ins_op1 f') + refw (ins_op2 f') < refw (ins_op1 f) + refw (ins_op2 f) \<Longrightarrow>
   (fold_order J' f', fold_order J f) \<in> lex3"
  by (simp add: fold_order_def lex3_iff)

lemma order_detail:
  "fold_group (ins_o f') = fold_group (ins_o f) \<Longrightarrow>
   refw (ins_op1 f') + refw (ins_op2 f') = refw (ins_op1 f) + refw (ins_op2 f) \<Longrightarrow>
   fold_detail J' f' < fold_detail J f \<Longrightarrow> (fold_order J' f', fold_order J f) \<in> lex3"
  by (simp add: fold_order_def lex3_iff)

lemma refw_mono: "r < q \<Longrightarrow> REF_BIAS \<le> q \<Longrightarrow> refw r < refw q"
  by (auto simp: refw_def REF_BIAS_def)

lemma refw_const: "r < REF_BIAS \<Longrightarrow> refw r = 0"
  by (simp add: refw_def)

text \<open>The instruction of the left and of the right operand.\<close>

lemma left_operand:
  assumes "wf_ir J" "fins_ok J f" "ins_o f \<noteq> ABC" "plain (ref_o J (ins_op1 f))"
  shows "opd J (int64 (ins_t f)) (ins_op1 (fleft J f))"
    "ref_o J (ins_op1 f) \<noteq> BNOT \<Longrightarrow> opd J (int64 (ins_t f) \<and> \<not> is_shift (ref_o J (ins_op1 f))) (ins_op2 (fleft J f))"
    "refw (ins_op1 (fleft J f)) < refw (ins_op1 f)" "refw (ins_op2 (fleft J f)) < refw (ins_op1 f)"
    "view J \<rho> (int64 (ins_t f)) V \<Longrightarrow>
       Done (V (ins_op1 f)) = sem_w (ref_o J (ins_op1 f)) (V (ins_op1 (fleft J f))) (V (ins_op2 (fleft J f)))"
proof -
  have o: "opd J (int64 (ins_t f)) (ins_op1 f)" by (rule fins_opd1 [OF assms(2,3)])
  have n: "\<not> is_const (ref_o J (ins_op1 f))" "\<not> is_opaque (ref_o J (ins_op1 f))" "ref_o J (ins_op1 f) \<noteq> ABC"
    "ref_o J (ins_op1 f) \<noteq> BSWAP"
    using assms(4) by (auto simp: plain_def)
  note i = operand_ins [OF assms(1) o n(1,2)] and oo = operand_opd [OF assms(1) o n(1,2,3)]
  show "opd J (int64 (ins_t f)) (ins_op1 (fleft J f))" using oo(1) by (simp add: fleft_def)
  show "opd J (int64 (ins_t f) \<and> \<not> is_shift (ref_o J (ins_op1 f))) (ins_op2 (fleft J f))" if "ref_o J (ins_op1 f) \<noteq> BNOT"
    using oo(2) that n(4) by (simp add: fleft_def)
  show "refw (ins_op1 (fleft J f)) < refw (ins_op1 f)" "refw (ins_op2 (fleft J f)) < refw (ins_op1 f)"
    using i(3,4,5) by (auto simp: fleft_def intro: refw_mono)
  show "Done (V (ins_op1 f)) = sem_w (ref_o J (ins_op1 f)) (V (ins_op1 (fleft J f))) (V (ins_op2 (fleft J f)))"
    if "view J \<rho> (int64 (ins_t f)) V"
    using view_ins [OF that o assms(4)] by (simp add: fleft_def)
qed

lemma right_operand:
  assumes "wf_ir J" "fins_ok J f" "ins_o f \<notin> {ABC, BNOT, BSWAP}" "\<not> is_shift (ins_o f)" "plain (ref_o J (ins_op2 f))"
  shows "opd J (int64 (ins_t f)) (ins_op1 (fright J f))"
    "ref_o J (ins_op2 f) \<noteq> BNOT \<Longrightarrow> opd J (int64 (ins_t f) \<and> \<not> is_shift (ref_o J (ins_op2 f))) (ins_op2 (fright J f))"
    "refw (ins_op1 (fright J f)) < refw (ins_op2 f)" "refw (ins_op2 (fright J f)) < refw (ins_op2 f)"
    "view J \<rho> (int64 (ins_t f)) V \<Longrightarrow>
       Done (V (ins_op2 f)) = sem_w (ref_o J (ins_op2 f)) (V (ins_op1 (fright J f))) (V (ins_op2 (fright J f)))"
proof -
  have o: "opd J (int64 (ins_t f)) (ins_op2 f)" using fins_opd2 [OF assms(2,3)] assms(4) by simp
  have n: "\<not> is_const (ref_o J (ins_op2 f))" "\<not> is_opaque (ref_o J (ins_op2 f))" "ref_o J (ins_op2 f) \<noteq> ABC"
    "ref_o J (ins_op2 f) \<noteq> BSWAP"
    using assms(5) by (auto simp: plain_def)
  note i = operand_ins [OF assms(1) o n(1,2)] and oo = operand_opd [OF assms(1) o n(1,2,3)]
  show "opd J (int64 (ins_t f)) (ins_op1 (fright J f))" using oo(1) by (simp add: fright_def)
  show "opd J (int64 (ins_t f) \<and> \<not> is_shift (ref_o J (ins_op2 f))) (ins_op2 (fright J f))" if "ref_o J (ins_op2 f) \<noteq> BNOT"
    using oo(2) that n(4) by (simp add: fright_def)
  show "refw (ins_op1 (fright J f)) < refw (ins_op2 f)" "refw (ins_op2 (fright J f)) < refw (ins_op2 f)"
    using i(3,4,5) by (auto simp: fright_def intro: refw_mono)
  show "Done (V (ins_op2 f)) = sem_w (ref_o J (ins_op2 f)) (V (ins_op1 (fright J f))) (V (ins_op2 (fright J f)))"
    if "view J \<rho> (int64 (ins_t f)) V"
    using view_ins [OF that o assms(5)] by (simp add: fright_def)
qed

text \<open>A rewritten instruction with 64-bit or 32-bit operands of the same width is admissible again.\<close>

definition freely_typed :: "irop set" where
  "freely_typed = {ADD, SUB, MUL, NEG, BAND, BOR} \<union> cmps"

lemma fins_okI:
  assumes "fins_ok J f" "ins_o f \<noteq> ABC" "ins_o f' \<in> freely_typed" "int64 (ins_t f') = int64 (ins_t f)"
    "int32 (ins_t f') = int32 (ins_t f)"
    "opd J' (int64 (ins_t f)) (ins_op1 f')" "opd J' (int64 (ins_t f)) (ins_op2 f')"
  shows "fins_ok J' f'"
proof -
  have "ins_o f' \<notin> {ABC, BNOT, BSWAP, BXOR, DIV, POW, MOD, BSHR, BROL, BROR}" "\<not> is_shift (ins_o f')"
    "\<not> only32 (ins_o f')" "\<not> is_const (ins_o f')" "\<not> is_opaque (ins_o f')"
    using assms(3) by (auto simp: freely_typed_def cmps_def op_classes)
  with assms(4-7) fins_width [OF assms(1,2)] show ?thesis
    by (auto simp: fins_ok_def typed_def Let_def)
qed

lemmas sem_laws = fleft_def fright_def plain_def op_classes

lemma simplify_numadd_negx_ok:
  assumes wf: "wf_ir J" and ok: "fins_ok J f" and op: "ins_o f = ADD" and l: "ref_o J (ins_op1 f) = NEG"
  shows "rule_ok J f (simplify_numadd_negx J f)"
proof -
  let ?f = "f\<lparr>ins_o := SUB, ins_op1 := ins_op2 f, ins_op2 := ins_op1 (fleft J f)\<rparr>"
  have p: "plain (ref_o J (ins_op1 f))" by (simp add: l plain_def op_classes)
  have na: "ins_o f \<noteq> ABC" using op by simp
  note L = left_operand [OF wf ok na p]
  have law: "sem_view f V \<in> {sem_view ?f V, Undef}" if "view J \<rho> (int64 (ins_t f)) V" for \<rho> and V :: "nat \<Rightarrow> 'x::len word"
    using L(5) [OF that] l op by (auto simp: algebra_simps)
  have "rule_ok J f (J, RETRYFOLD ?f)"
    using op L(1,3) fins_opd2 [OF ok]
    by (intro fold_to_retry [OF grows_refl [OF wf] ok] order_refs fins_okI [OF ok na] law)
       (auto simp: freely_typed_def is_shift_def)
  then show ?thesis by (simp add: simplify_numadd_negx_def)
qed

lemma plain_simps [simp]:
  "plain NEG" "plain ADD" "plain SUB" "plain MUL" "plain BAND" "plain BOR" "plain BXOR" "plain BNOT"
  "plain BSHL" "plain BSHR" "plain BSAR" "plain BROL" "plain BROR" "plain IR_MIN" "plain IR_MAX"
  by (simp_all add: plain_def op_classes)

lemma shift_simps [simp]:
  "\<not> is_shift NEG" "\<not> is_shift ADD" "\<not> is_shift SUB" "\<not> is_shift MUL" "\<not> is_shift BAND" "\<not> is_shift BOR"
  "\<not> is_shift BXOR" "\<not> is_shift IR_MIN" "\<not> is_shift IR_MAX" "\<not> is_shift MOD" "\<not> is_shift ADDOV" "\<not> is_shift SUBOV"
  "\<not> is_shift MULOV" "is_shift BSHL" "is_shift BSHR" "is_shift BSAR" "is_shift BROL" "is_shift BROR"
  by (simp_all add: is_shift_def)

lemma free_simps [simp]:
  "ADD \<in> freely_typed" "SUB \<in> freely_typed" "MUL \<in> freely_typed" "NEG \<in> freely_typed" "BAND \<in> freely_typed"
  "BOR \<in> freely_typed"
  by (simp_all add: freely_typed_def)

lemma simplify_numadd_xneg_ok:
  assumes wf: "wf_ir J" and ok: "fins_ok J f" and op: "ins_o f = ADD" and r: "ref_o J (ins_op2 f) = NEG"
  shows "rule_ok J f (simplify_numadd_xneg J f)"
proof -
  let ?f = "f\<lparr>ins_o := SUB, ins_op2 := ins_op1 (fright J f)\<rparr>"
  note R = right_operand [OF wf ok, simplified op r, simplified]
  have law: "sem_view f V \<in> {sem_view ?f V, Undef}" if "view J \<rho> (int64 (ins_t f)) V" for \<rho> and V :: "nat \<Rightarrow> 'x::len word"
    using R(5) [OF that] op by simp
  have "rule_ok J f (J, RETRYFOLD ?f)"
    using op R(1,3) fins_opd1 [OF ok]
    by (intro fold_to_retry [OF grows_refl [OF wf] ok] order_refs fins_okI [OF ok] law) auto
  then show ?thesis by (simp add: simplify_numadd_xneg_def)
qed

lemma simplify_numsub_xneg_ok:
  assumes wf: "wf_ir J" and ok: "fins_ok J f" and op: "ins_o f = SUB" and r: "ref_o J (ins_op2 f) = NEG"
  shows "rule_ok J f (simplify_numsub_xneg J f)"
proof -
  let ?f = "f\<lparr>ins_o := ADD, ins_op2 := ins_op1 (fright J f)\<rparr>"
  note R = right_operand [OF wf ok, simplified op r, simplified]
  have law: "sem_view f V \<in> {sem_view ?f V, Undef}" if "view J \<rho> (int64 (ins_t f)) V" for \<rho> and V :: "nat \<Rightarrow> 'x::len word"
    using R(5) [OF that] op by simp
  have "rule_ok J f (J, RETRYFOLD ?f)"
    using op R(1,3) fins_opd1 [OF ok]
    by (intro fold_to_retry [OF grows_refl [OF wf] ok] order_refs fins_okI [OF ok] law) auto
  then show ?thesis by (simp add: simplify_numsub_xneg_def)
qed

lemma simplify_nummuldiv_negneg_ok:
  assumes wf: "wf_ir J" and ok: "fins_ok J f" and op: "ins_o f = MUL"
    and l: "ref_o J (ins_op1 f) = NEG" and r: "ref_o J (ins_op2 f) = NEG"
  shows "rule_ok J f (simplify_nummuldiv_negneg J f)"
proof -
  let ?f = "f\<lparr>ins_op1 := ins_op1 (fleft J f), ins_op2 := ins_op1 (fright J f)\<rparr>"
  note L = left_operand [OF wf ok, simplified op l, simplified]
    and R = right_operand [OF wf ok, simplified op r, simplified]
  have law: "sem_view f V \<in> {sem_view ?f V, Undef}" if "view J \<rho> (int64 (ins_t f)) V" for \<rho> and V :: "nat \<Rightarrow> 'x::len word"
    using L(5) [OF that] R(5) [OF that] op by simp
  have "rule_ok J f (J, RETRYFOLD ?f)"
    using op L(1,3) R(1,3)
    by (intro fold_to_retry [OF grows_refl [OF wf] ok] order_refs fins_okI [OF ok] law) auto
  then show ?thesis by (simp add: simplify_nummuldiv_negneg_def)
qed

section \<open>Integer algebraic simplifications\<close>

text \<open>The right operand as a constant.\<close>

lemma right_KINT:
  assumes "fins_ok J f" "ins_o f \<notin> {ABC, BNOT, BSWAP}" "\<not> is_shift (ins_o f)" "ref_o J (ins_op2 f) = KINT"
    "view J \<rho> (int64 (ins_t f)) V"
  shows "V (ins_op2 f) = ucast (ins_i (fright J f))" "int64 (ins_t f) \<Longrightarrow> ins_i (fright J f) = 0"
  using view_KINT [OF assms(5) _ assms(4)] fins_opd2 [OF assms(1,2)] assms(3) by (simp_all add: fright_def)

lemma right_KINT64:
  assumes "fins_ok J f" "ins_o f \<notin> {ABC, BNOT, BSWAP}" "\<not> is_shift (ins_o f)" "ref_o J (ins_op2 f) = KINT64"
    "view J \<rho> (int64 (ins_t f)) V"
  shows "V (ins_op2 f) = ucast (ins_k64 (fright J f))" "int64 (ins_t f)"
  using view_KINT64 [OF assms(5) _ assms(4)] fins_opd2 [OF assms(1,2)] assms(3) by (simp_all add: fright_def)

lemma checked_sint: "checked (sint a) = Done (a :: 'a::len word)"
  using sint_ge [of a] sint_lt [of a] by (simp add: checked_def)

lemma simplify_intadd_k_ok:
  assumes wf: "wf_ir J" and ok: "fins_ok J f" and op: "ins_o f \<in> {ADD, ADDOV, SUBOV}" and k: "ref_o J (ins_op2 f) = KINT"
  shows "rule_ok J f (simplify_intadd_k J f)"
proof -
  have law: "sem_view f V \<in> {Done (V (ins_op1 f)), Undef}" if "view J \<rho> (int64 (ins_t f)) V" "ins_i (fright J f) = 0"
    for \<rho> and V :: "nat \<Rightarrow> 'x::len word"
    using right_KINT(1) [OF ok _ _ k that(1)] that(2) op by (auto simp: checked_sint)
  have "rule_ok J f (J, LEFTFOLD f)" if "ins_i (fright J f) = 0"
    unfolding LEFTFOLD_def using op fins_opd1 [OF ok] that by (intro fold_to_ref [OF wf ok] law) auto
  then show ?thesis by (simp add: simplify_intadd_k_def)
qed

lemma simplify_intadd_k64_ok:
  assumes wf: "wf_ir J" and ok: "fins_ok J f" and op: "ins_o f = ADD" and k: "ref_o J (ins_op2 f) = KINT64"
  shows "rule_ok J f (simplify_intadd_k64 J f)"
proof -
  have law: "sem_view f V \<in> {Done (V (ins_op1 f)), Undef}" if "view J \<rho> (int64 (ins_t f)) V" "ins_k64 (fright J f) = 0"
    for \<rho> and V :: "nat \<Rightarrow> 'x::len word"
    using right_KINT64(1) [OF ok _ _ k that(1)] that(2) op by simp
  have "rule_ok J f (J, LEFTFOLD f)" if "ins_k64 (fright J f) = 0"
    unfolding LEFTFOLD_def using op fins_opd1 [OF ok] that by (intro fold_to_ref [OF wf ok] law) auto
  then show ?thesis by (simp add: simplify_intadd_k64_def)
qed

text \<open>Rewriting at one width only.\<close>

lemma fold_to_retry_32:
  assumes "grows J J'" "fins_ok J f" "ins_o f \<notin> {BSWAP, ABC}" "\<not> int64 (ins_t f)"
    "fins_ok J' f'" "ins_o f' \<notin> {BSWAP, ABC}" "\<not> int64 (ins_t f')" "(fold_order J' f', fold_order J f) \<in> lex3"
    and "\<And>\<rho>. run J' \<rho> \<Longrightarrow> view J' \<rho> False (v32 \<rho>) \<Longrightarrow> sem_view f (v32 \<rho>) \<in> {sem_view f' (v32 \<rho>), Undef}"
  shows "rule_ok J f (J', RETRYFOLD f')"
  using assms by (intro fold_to_retry) (auto dest: view_wide)

lemma fold_to_retry_64:
  assumes "grows J J'" "fins_ok J f" "ins_o f \<notin> {BSWAP, ABC}" "int64 (ins_t f)"
    "fins_ok J' f'" "ins_o f' \<notin> {BSWAP, ABC}" "int64 (ins_t f')" "(fold_order J' f', fold_order J f) \<in> lex3"
    and "\<And>\<rho>. run J' \<rho> \<Longrightarrow> view J' \<rho> True \<rho> \<Longrightarrow> sem_view f \<rho> \<in> {sem_view f' \<rho>, Undef}"
  shows "rule_ok J f (J', RETRYFOLD f')"
  using assms by (intro fold_to_retry) (auto dest: view_narrow)

lemma fins_okI_32:
  assumes "int32 (ins_t f')" "ins_o f' \<notin> {ABC, BNOT, BSWAP, DIV, POW}" "\<not> is_const (ins_o f')" "\<not> is_opaque (ins_o f')"
    "opd J' False (ins_op1 f')" "opd J' False (ins_op2 f')"
  shows "fins_ok J' f'"
proof -
  have "\<not> int64 (ins_t f')" using assms(1) by (auto simp: int32_def int64_def)
  with assms show ?thesis by (auto simp: fins_ok_def typed_def Let_def)
qed

text \<open>The instruction after a constant has been interned.\<close>

lemma fins_grows:
  assumes "grows J J'" "fins_ok J f"
  shows "fins_ok J' f" "cur_ir J' (ins_op1 f) = cur_ir J (ins_op1 f)" "fleft J' f = fleft J f"
    "ins_o f \<notin> {BNOT, BSWAP} \<Longrightarrow> cur_ir J' (ins_op2 f) = cur_ir J (ins_op2 f)"
    "ins_o f \<notin> {BNOT, BSWAP} \<Longrightarrow> fright J' f = fright J f"
proof -
  have ext: "extends J J'" using assms(1) by (simp add: growsD)
  have t: "typed J f" by (rule fins_typed [OF assms(2)])
  show "cur_ir J' (ins_op1 f) = cur_ir J (ins_op1 f)" using ext typed_valid(1) [OF t] by (simp add: extends_def)
  then show "fleft J' f = fleft J f" by (simp add: fleft_def)
  show *: "cur_ir J' (ins_op2 f) = cur_ir J (ins_op2 f)" if "ins_o f \<notin> {BNOT, BSWAP}"
    using ext typed_valid(2) [OF t that] by (simp add: extends_def)
  then show "fright J' f = fright J f" if "ins_o f \<notin> {BNOT, BSWAP}" using that by (simp add: fright_def)
  have "chain J' LOOP = chain J LOOP" using assms(1) by (simp add: grows_def is_const_def)
  with typed_extends [OF ext t] assms(2) show "fins_ok J' f" by (simp add: fins_ok_def)
qed

lemma opd_grows: "grows J J' \<Longrightarrow> opd J w r \<Longrightarrow> opd J' w r"
  using opd_extends growsD(2) by blast

lemma kint_ins_simps [simp]: "ins_o (kint_ins k) = KINT" "ins_i (kint_ins k) = k" "ins_t (kint_ins k) = IRT_INT"
  "ins_o (kint64_ins d) = KINT64" "ins_k64 (kint64_ins d) = d" "ins_t (kint64_ins d) = IRT_I64"
  by (simp_all add: kint_ins_def kint64_ins_def)

lemma fold_simplify_intmul_k_ok:
  assumes wf: "wf_ir J" and ok: "fins_ok J f" and op: "ins_o f = MULOV" and k: "ref_o J (ins_op2 f) = KINT"
  shows "rule_ok J f (fold_simplify_intmul_k J f)"
proof -
  have w: "\<not> int64 (ins_t f)" "int32 (ins_t f)"
    using fins_64 [OF ok] fins_width [OF ok] op by (auto simp: only32_def)
  note o = fins_opd1 [OF ok] fins_opd2 [OF ok]
  have v: "v32 \<rho> (ins_op2 f) = ins_i (fright J f)" if "view J \<rho> False (v32 \<rho>)" for \<rho>
    using right_KINT(1) [OF ok _ _ k, of \<rho> "v32 \<rho>"] that w op by simp
  have "rule_ok J f (J, RIGHTFOLD f)" if "ins_i (fright J f) = 0"
    unfolding RIGHTFOLD_def using op o w v that
    by (intro fold_to_ref [OF wf ok]) (auto dest: view_wide simp: checked_def)
  moreover have "rule_ok J f (J, LEFTFOLD f)" if "ins_i (fright J f) = 1"
    unfolding LEFTFOLD_def using op o w v that
    by (intro fold_to_ref [OF wf ok]) (auto dest: view_wide simp: checked_sint)
  moreover have "rule_ok J f (J, RETRYFOLD (f\<lparr>ins_o := ADDOV, ins_op2 := ins_op1 f\<rparr>))" if "ins_i (fright J f) = 2"
    using op o w v that
    by (intro fold_to_retry_32 [OF grows_refl [OF wf] ok] order_group fins_okI_32) (auto simp: op_classes mult.commute)
  ultimately show ?thesis by (simp add: fold_simplify_intmul_k_def)
qed

lemma order_sub_add:
  "ins_o f = SUB \<Longrightarrow> ins_o f' = ADD \<Longrightarrow>
   refw (ins_op1 f') + refw (ins_op2 f') = refw (ins_op1 f) + refw (ins_op2 f) \<Longrightarrow>
   (fold_order J' f', fold_order J f) \<in> lex3"
  by (rule order_detail) (auto simp: fold_detail_def)

lemma const_refw:
  assumes "wf_ir J" "valid J r" "ref_o J r \<in> {KINT, KINT64}"
  shows "refw r = 0"
  using valid_KINT_iff [OF assms(1,2)] valid_KINT64_iff [OF assms(1,2)] wf_kint(2) [OF assms(1)] wf_kint64(2) [OF assms(1)] assms(3)
  by (auto simp: refw_def)

lemma simplify_intsub_k_ok:
  assumes wf: "wf_ir J" and ok: "fins_ok J f" and op: "ins_o f = SUB" and k: "ref_o J (ins_op2 f) = KINT"
  shows "rule_ok J f (simplify_intsub_k J f)"
proof (cases "ins_i (fright J f) = 0")
  case True
  have law: "sem_view f V \<in> {Done (V (ins_op1 f)), Undef}" if "view J \<rho> (int64 (ins_t f)) V"
    for \<rho> and V :: "nat \<Rightarrow> 'x::len word"
    using right_KINT(1) [OF ok _ _ k that(1)] True op by simp
  have "rule_ok J f (J, LEFTFOLD f)"
    unfolding LEFTFOLD_def using op fins_opd1 [OF ok] by (intro fold_to_ref [OF wf ok] law) auto
  with True show ?thesis by (simp add: simplify_intsub_k_def)
next
  case False
  have o: "opd J (int64 (ins_t f)) (ins_op1 f)" "opd J (int64 (ins_t f)) (ins_op2 f)"
    using fins_opd1 [OF ok] fins_opd2 [OF ok] op by auto
  have w: "\<not> int64 (ins_t f)" using operand_KINT_64(1) [OF wf _ k] o(2) False by (auto simp: fright_def)
  then have w': "int32 (ins_t f)" using fins_width [OF ok] op by simp
  have "rule_ok J f (with_kint J (NOT (ins_i (fright J f)) + 1) (\<lambda>r. RETRYFOLD (f\<lparr>ins_o := ADD, ins_op2 := r\<rparr>)))"
  proof (rule rule_with_kint [OF wf])
    fix J' r
    assume g: "grows J J'" and r: "opd J' False r" "r < REF_BIAS"
      and val: "\<And>\<rho>. run J' \<rho> \<Longrightarrow> \<rho> r = u64_of_u32 (NOT (ins_i (fright J f)) + 1)"
    let ?f = "f\<lparr>ins_o := ADD, ins_op2 := r\<rparr>"
    note f' = fins_grows [OF g ok]
    have "rule_ok J f (J', RETRYFOLD ?f)"
    proof (rule fold_to_retry_32 [OF g ok])
      show "fins_ok J' ?f" using w w' r opd_grows [OF g o(1)] by (intro fins_okI_32) (auto simp: op_classes)
      show "(fold_order J' ?f, fold_order J f) \<in> lex3"
        using op refw_const [OF r(2)] const_refw [OF wf opd_valid [OF o(2)]] k by (intro order_sub_add) auto
      fix \<rho> assume \<rho>: "run J' \<rho>" "view J' \<rho> False (v32 \<rho>)"
      have "v32 \<rho> (ins_op2 f) = ins_i (fright J f)"
        using right_KINT(1) [OF f'(1), of \<rho> "v32 \<rho>"] \<rho>(2) w op k f' by simp
      with val [OF \<rho>(1)] op show "sem_view f (v32 \<rho>) \<in> {sem_view ?f (v32 \<rho>), Undef}"
        by (simp add: minus_eq_not_plus_1 [symmetric])
    qed (use op w in auto)
    then show "rule_ok J f (J', RETRYFOLD ?f)" .
  qed
  with False show ?thesis by (simp add: simplify_intsub_k_def)
qed

lemma left_const:
  assumes "fins_ok J f" "ins_o f \<noteq> ABC" "view J \<rho> (int64 (ins_t f)) V"
  shows "ref_o J (ins_op1 f) = KINT \<Longrightarrow> V (ins_op1 f) = ucast (ins_i (fleft J f))"
    "ref_o J (ins_op1 f) = KINT \<Longrightarrow> int64 (ins_t f) \<Longrightarrow> ins_i (fleft J f) = 0"
    "ref_o J (ins_op1 f) = KINT64 \<Longrightarrow> V (ins_op1 f) = ucast (ins_k64 (fleft J f))"
  using view_KINT [OF assms(3) fins_opd1 [OF assms(1,2)]] view_KINT64 [OF assms(3) fins_opd1 [OF assms(1,2)]]
  by (simp_all add: fleft_def)

lemma simplify_intsub_kleft_ok:
  assumes wf: "wf_ir J" and ok: "fins_ok J f" and op: "ins_o f = SUB" and k: "ref_o J (ins_op1 f) \<in> {KINT, KINT64}"
  shows "rule_ok J f (simplify_intsub_kleft J f)"
proof -
  let ?f = "f\<lparr>ins_o := NEG, ins_op1 := ins_op2 f\<rparr>"
  let ?z = "if ins_o (fleft J f) = KINT then ins_i (fleft J f) = 0 else ins_k64 (fleft J f) = 0"
  have na: "ins_o f \<noteq> ABC" using op by simp
  have law: "sem_view f V \<in> {sem_view ?f V, Undef}" if "view J \<rho> (int64 (ins_t f)) V" ?z
    for \<rho> and V :: "nat \<Rightarrow> 'x::len word"
    using left_const [OF ok na that(1)] that(2) k op by (auto simp: fleft_def split: if_splits)
  have "rule_ok J f (J, RETRYFOLD ?f)" if ?z
    using op fins_opd2 [OF ok] that
    by (intro fold_to_retry [OF grows_refl [OF wf] ok] order_group fins_okI [OF ok] law) auto
  then show ?thesis by (simp add: simplify_intsub_kleft_def)
qed

lemma simplify_intsub_k64_ok:
  assumes wf: "wf_ir J" and ok: "fins_ok J f" and op: "ins_o f = SUB" and k: "ref_o J (ins_op2 f) = KINT64"
  shows "rule_ok J f (simplify_intsub_k64 J f)"
proof -
  have o: "opd J (int64 (ins_t f)) (ins_op1 f)" "opd J (int64 (ins_t f)) (ins_op2 f)"
    using fins_opd1 [OF ok] fins_opd2 [OF ok] op by auto
  have w: "int64 (ins_t f)" by (rule operand_KINT64(1) [OF wf o(2) k])
  have law: "sem_view f V \<in> {Done (V (ins_op1 f)), Undef}" if "view J \<rho> (int64 (ins_t f)) V" "ins_k64 (fright J f) = 0"
    for \<rho> and V :: "nat \<Rightarrow> 'x::len word"
    using right_KINT64(1) [OF ok _ _ k that(1)] that(2) op by simp
  have "rule_ok J f (J, LEFTFOLD f)" if "ins_k64 (fright J f) = 0"
    unfolding LEFTFOLD_def using op o that by (intro fold_to_ref [OF wf ok] law) auto
  moreover have "rule_ok J f (with_kint64 J (NOT (ins_k64 (fright J f)) + 1) (\<lambda>r. RETRYFOLD (f\<lparr>ins_o := ADD, ins_op2 := r\<rparr>)))"
  proof (rule rule_with_kint64 [OF wf])
    fix J' r
    assume g: "grows J J'" and r: "opd J' True r" "r < REF_BIAS"
      and val: "\<And>\<rho>. run J' \<rho> \<Longrightarrow> \<rho> r = NOT (ins_k64 (fright J f)) + 1"
    let ?f = "f\<lparr>ins_o := ADD, ins_op2 := r\<rparr>"
    note f' = fins_grows [OF g ok]
    show "rule_ok J f (J', RETRYFOLD ?f)"
    proof (rule fold_to_retry_64 [OF g ok])
      show "fins_ok J' ?f" using w r opd_grows [OF g o(1)] op by (intro fins_okI [OF ok]) auto
      show "(fold_order J' ?f, fold_order J f) \<in> lex3"
        using op refw_const [OF r(2)] const_refw [OF wf opd_valid [OF o(2)]] k by (intro order_sub_add) auto
      fix \<rho> assume \<rho>: "run J' \<rho>" "view J' \<rho> True \<rho>"
      have "\<rho> (ins_op2 f) = ins_k64 (fright J f)"
        using right_KINT64(1) [OF f'(1), of \<rho> \<rho>] \<rho>(2) w op k f' by simp
      with val [OF \<rho>(1)] op show "sem_view f \<rho> \<in> {sem_view ?f \<rho>, Undef}"
        by (simp add: minus_eq_not_plus_1 [symmetric])
    qed (use op w in auto)
  qed
  ultimately show ?thesis by (simp add: simplify_intsub_k64_def)
qed

text \<open>Powers of two.\<close>

lemma odd_part: "0 < k \<Longrightarrow> \<exists>n q. k = 2 ^ n * (2 * q + 1)" for k :: nat
proof (induction k rule: less_induct)
  case (less k)
  show ?case
  proof (cases "even k")
    case True
    then obtain j where j: "k = 2 * j" by blast
    with less.prems have "j < k" "0 < j" by auto
    with less.IH obtain n q where "j = 2 ^ n * (2 * q + 1)" by blast
    then have "k = 2 ^ Suc n * (2 * q + 1)" by (simp add: j)
    then show ?thesis by blast
  next
    case False
    then obtain q where "k = 2 * q + 1" by (blast elim: oddE)
    then have "k = 2 ^ 0 * (2 * q + 1)" by simp
    then show ?thesis by blast
  qed
qed

lemma pow2_nat:
  fixes k :: nat
  assumes "0 < k" "k AND (k - 1) = 0"
  shows "\<exists>n. k = 2 ^ n"
proof -
  obtain n q where k: "k = 2 ^ n * (2 * q + 1)" using odd_part [OF assms(1)] by blast
  have p: "(2::nat) ^ n > 0" by simp
  have "k div 2 ^ Suc n = q"
  proof -
    have "k = 2 ^ Suc n * q + 2 ^ n" by (simp add: k algebra_simps)
    moreover have "(2::nat) ^ n < 2 ^ Suc n" using p by simp
    ultimately show ?thesis by simp
  qed
  moreover have "(k - 1) div 2 ^ Suc n = q"
  proof -
    have "k - 1 = 2 ^ Suc n * q + (2 ^ n - 1)" using p by (simp add: k algebra_simps)
    moreover have "(2::nat) ^ n - 1 < 2 ^ Suc n" by (rule le_less_trans [OF diff_le_self]) simp
    moreover have "(2 ^ Suc n * q + a) div 2 ^ Suc n = q" if "a < 2 ^ Suc n" for a using that by simp
    ultimately show ?thesis by metis
  qed
  ultimately have "drop_bit (Suc n) (k AND (k - 1)) = q" by (simp only: drop_bit_and) (simp add: drop_bit_eq_div del: power_Suc)
  with assms(2) have "q = 0" by simp
  with k show ?thesis by auto
qed

lemma pow2_word:
  fixes k :: "'a::len word"
  assumes "k \<noteq> 0" "k AND (k - 1) = 0"
  shows "\<exists>n < LENGTH('a). k = 2 ^ n"
proof -
  have pos: "0 < unat k" using assms(1) by (simp add: unat_gt_0)
  have "unat (k - 1) = unat k - 1" using unat_minus_one [OF assms(1)] by simp
  then have "unat k AND (unat k - 1) = 0" using assms(2) by (metis unsigned_0 unsigned_and_eq)
  then obtain n where n: "unat k = 2 ^ n" using pow2_nat [OF pos] by auto
  then have "n < LENGTH('a)" using unsigned_less [of k] by (metis nat_power_less_imp_less zero_less_numeral)
  moreover from this n have "k = 2 ^ n" by (simp add: word_unat_eq_iff unat_power2)
  ultimately show ?thesis by blast
qed

lemma lj_fls_pow2:
  assumes "n < 32"
  shows "lj_fls (2 ^ n) = of_nat n"
proof -
  have "\<forall>n \<in> set [0..<32]. lj_fls (2 ^ n) = of_nat n" by code_simp
  with assms show ?thesis by simp
qed

lemma fins_ok_shl:
  assumes "fins_ok J f" "ins_o f \<noteq> ABC" "ins_o f' = BSHL" "ins_t f' = ins_t f"
    "opd J' (int64 (ins_t f)) (ins_op1 f')" "opd J' False (ins_op2 f')"
  shows "fins_ok J' f'"
  using assms fins_width [OF assms(1,2)] by (auto simp: fins_ok_def typed_def Let_def op_classes)

lemma ucast_pow2: "n < 32 \<Longrightarrow> 32 \<le> LENGTH('a) \<Longrightarrow> (ucast (2 ^ n :: u32) :: 'a::len word) = 2 ^ n"
  by (rule bit_word_eqI) (auto simp: bit_simps)

lemma unat_ucast_u32: "32 \<le> LENGTH('a) \<Longrightarrow> unat (ucast (k :: u32) :: 'a::len word) = unat k"
  by (rule unat_ucast_widen) simp

lemma view_length_ge: "view J \<rho> w (V :: nat \<Rightarrow> 'a::len word) \<Longrightarrow> 32 \<le> LENGTH('a)"
  using view_length [of J \<rho> w V] by auto

lemma mul_pow2_shift:
  fixes a :: "'a::len word"
  assumes "n < 32" "32 \<le> LENGTH('a)"
  shows "sem_w BSHL a (ucast (of_nat n :: u32)) = sem_w MUL a (ucast (2 ^ n :: u32))"
proof -
  have "unat (of_nat n :: u32) = n" using assms(1) by (simp add: unat_of_nat take_bit_nat_eq_self)
  then have "shcount (ucast (of_nat n :: u32) :: 'a word) = n"
    using assms by (simp add: shcount_def unat_ucast_u32)
  with ucast_pow2 [OF assms] show ?thesis by (simp add: push_bit_eq_mult)
qed

lemma simplify_intmul_k_ok:
  assumes wf: "wf_ir J" and ok: "fins_ok J f" and op: "ins_o f = MUL"
    and kv64: "\<And>J' \<rho>. grows J J' \<Longrightarrow> run J' \<rho> \<Longrightarrow> view J' \<rho> (int64 (ins_t f)) \<rho> \<Longrightarrow> \<rho> (ins_op2 f) = ucast k"
    and kv32: "\<And>J' \<rho>. grows J J' \<Longrightarrow> run J' \<rho> \<Longrightarrow> view J' \<rho> (int64 (ins_t f)) (v32 \<rho>) \<Longrightarrow> v32 \<rho> (ins_op2 f) = k"
  shows "rule_ok J f (simplify_intmul_k k J f)"
proof -
  have o: "opd J (int64 (ins_t f)) (ins_op1 f)" "opd J (int64 (ins_t f)) (ins_op2 f)"
    using fins_opd1 [OF ok] fins_opd2 [OF ok] op by auto
  note kv = kv64 [OF grows_refl [OF wf]] kv32 [OF grows_refl [OF wf]]
  have m: "sem_view f \<rho> = Done (\<rho> (ins_op1 f) * ucast k)" if "run J \<rho>" "view J \<rho> (int64 (ins_t f)) \<rho>" for \<rho>
    using kv(1) [OF that] op by simp
  have m': "sem_view f (v32 \<rho>) = Done (v32 \<rho> (ins_op1 f) * k)" if "run J \<rho>" "view J \<rho> (int64 (ins_t f)) (v32 \<rho>)" for \<rho>
    using kv(2) [OF that] op by simp
  have "rule_ok J f (J, RIGHTFOLD f)" if "k = 0"
    unfolding RIGHTFOLD_def using that op o
    by (intro fold_to_ref [OF wf ok]) (auto simp only: m m' kv sem_w.simps mult_zero_right unsigned_0)
  moreover have "rule_ok J f (J, LEFTFOLD f)" if "k = 1"
    unfolding LEFTFOLD_def using that op o
    by (intro fold_to_ref [OF wf ok]) (auto simp only: m m' kv sem_w.simps mult_1_right unsigned_1)
  moreover have "rule_ok J f (with_kint J (lj_fls k) (\<lambda>r. RETRYFOLD (f\<lparr>ins_o := BSHL, ins_op2 := r\<rparr>)))"
    if nz: "k \<noteq> 0" and pow: "k AND (k - 1) = 0"
  proof (rule rule_with_kint [OF wf])
    obtain n where n: "n < 32" "k = 2 ^ n" using pow2_word [OF nz pow] by auto
    fix J' r
    assume g: "grows J J'" and r: "opd J' False r"
      and val: "\<And>\<rho>. run J' \<rho> \<Longrightarrow> \<rho> r = u64_of_u32 (lj_fls k)"
    let ?f = "f\<lparr>ins_o := BSHL, ins_op2 := r\<rparr>"
    have fls: "lj_fls k = of_nat n" using lj_fls_pow2 [OF n(1)] n(2) by simp
    show "rule_ok J f (J', RETRYFOLD ?f)"
    proof (rule fold_to_retry [OF g ok])
      show "fins_ok J' ?f" using r opd_grows [OF g o(1)] op by (intro fins_ok_shl [OF ok]) auto
      show "(fold_order J' ?f, fold_order J f) \<in> lex3" using op by (intro order_group) auto
      fix \<rho> assume \<rho>: "run J' \<rho>"
      show "sem_view f \<rho> \<in> {sem_view ?f \<rho>, Undef}" if "view J' \<rho> (int64 (ins_t f)) \<rho>"
        using mul_pow2_shift [OF n(1), of "\<rho> (ins_op1 f)"] kv64 [OF g \<rho> that] val [OF \<rho>] op n(2) fls by simp
      show "sem_view f (v32 \<rho>) \<in> {sem_view ?f (v32 \<rho>), Undef}" if "view J' \<rho> (int64 (ins_t f)) (v32 \<rho>)"
        using mul_pow2_shift [OF n(1), of "v32 \<rho> (ins_op1 f)"] kv32 [OF g \<rho> that] val [OF \<rho>] op n(2) fls by simp
    qed (use op in auto)
  qed
  ultimately show ?thesis by (simp add: simplify_intmul_k_def)
qed

lemma simplify_intmul_k32_ok:
  assumes wf: "wf_ir J" and ok: "fins_ok J f" and op: "ins_o f = MUL" and k: "ref_o J (ins_op2 f) = KINT"
  shows "rule_ok J f (simplify_intmul_k32 J f)"
proof -
  have v: "V (ins_op2 f) = ucast (ins_i (fright J f))" if "grows J J'" "view J' \<rho> (int64 (ins_t f)) V"
    for J' \<rho> and V :: "nat \<Rightarrow> 'x::len word"
    using right_KINT(1) [OF fins_grows(1) [OF that(1) ok] _ _ _ that(2)] fins_grows [OF that(1) ok] op k by simp
  have "rule_ok J f (simplify_intmul_k (ins_i (fright J f)) J f)"
    by (rule simplify_intmul_k_ok [OF wf ok op]) (auto dest: v)
  then show ?thesis by (simp add: simplify_intmul_k32_def)
qed

lemma simplify_intmul_k64_ok:
  assumes wf: "wf_ir J" and ok: "fins_ok J f" and op: "ins_o f = MUL" and k: "ref_o J (ins_op2 f) = KINT64"
  shows "rule_ok J f (simplify_intmul_k64 J f)"
proof -
  have v: "V (ins_op2 f) = ucast (ins_k64 (fright J f))" "int64 (ins_t f)" if "grows J J'" "view J' \<rho> (int64 (ins_t f)) V"
    for J' \<rho> and V :: "nat \<Rightarrow> 'x::len word"
    using right_KINT64 [OF fins_grows(1) [OF that(1) ok] _ _ _ that(2)] fins_grows [OF that(1) ok] op k by simp_all
  have small: "u64_of_u32 (u32_of_u64 d) = d" if "d < 0x80000000" for d :: u64
  proof -
    have "unat d < 4294967296" using that by (simp add: word_less_nat_alt)
    then show ?thesis by (simp add: word_unat_eq_iff unat_narrow)
  qed
  have "rule_ok J f (simplify_intmul_k (u32_of_u64 (ins_k64 (fright J f))) J f)" if "ins_k64 (fright J f) < 0x80000000"
    using small [OF that] by (intro simplify_intmul_k_ok [OF wf ok op]) (auto dest: v)
  then show ?thesis by (simp add: simplify_intmul_k64_def)
qed

lemma mod_pow2_mask:
  fixes a :: "'a::len word"
  shows "word_of_int (sint a mod 2 ^ n) = a AND mask n"
  unfolding take_bit_eq_mod [symmetric] by (rule bit_word_eqI) (auto simp: bit_simps)

lemma simplify_intmod_k_ok:
  assumes wf: "wf_ir J" and ok: "fins_ok J f" and op: "ins_o f = MOD" and k: "ref_o J (ins_op2 f) = KINT"
  shows "rule_ok J f (simplify_intmod_k J f)"
proof -
  let ?k = "ins_i (fright J f)"
  have w: "\<not> int64 (ins_t f)" "int32 (ins_t f)" using ok fins_width [OF ok] op by (auto simp: fins_ok_def)
  have o: "opd J False (ins_op1 f)" "opd J False (ins_op2 f)"
    using fins_opd1 [OF ok] fins_opd2 [OF ok] op w by auto
  have "rule_ok J f (with_kint J (?k - 1) (\<lambda>r. RETRYFOLD (f\<lparr>ins_o := BAND, ins_op2 := r\<rparr>)))"
    if pos: "sint ?k > 0" and pow: "?k AND (?k - 1) = 0"
  proof (rule rule_with_kint [OF wf])
    have "?k \<noteq> 0" using pos by auto
    then obtain n where n: "n < 32" "?k = 2 ^ n" using pow2_word [OF _ pow] by auto
    have s: "sint ?k = 2 ^ n"
    proof -
      have "unat ?k = 2 ^ n" using n unat_power2 [where 'a = 32, of n] by simp
      then show ?thesis using pos sint_nonneg_unat [of ?k] by simp
    qed
    fix J' r
    assume g: "grows J J'" and r: "opd J' False r"
      and val: "\<And>\<rho>. run J' \<rho> \<Longrightarrow> \<rho> r = u64_of_u32 (?k - 1)"
    let ?f = "f\<lparr>ins_o := BAND, ins_op2 := r\<rparr>"
    note f' = fins_grows [OF g ok]
    show "rule_ok J f (J', RETRYFOLD ?f)"
    proof (rule fold_to_retry_32 [OF g ok])
      show "fins_ok J' ?f" using r opd_grows [OF g o(1)] w by (intro fins_okI_32) (auto simp: op_classes)
      show "(fold_order J' ?f, fold_order J f) \<in> lex3" using op by (intro order_group) auto
      fix \<rho> assume \<rho>: "run J' \<rho>" "view J' \<rho> False (v32 \<rho>)"
      have "v32 \<rho> (ins_op2 f) = ?k"
        using right_KINT(1) [OF f'(1), of \<rho> "v32 \<rho>"] \<rho>(2) w op k f' by simp
      moreover have "?k - 1 = mask n" by (simp add: n mask_eq_exp_minus_1)
      ultimately show "sem_view f (v32 \<rho>) \<in> {sem_view ?f (v32 \<rho>), Undef}"
        using val [OF \<rho>(1)] op s \<open>?k \<noteq> 0\<close> by (simp add: mod_pow2_mask)
    qed (use op w in auto)
  qed
  then show ?thesis by (simp add: simplify_intmod_k_def Let_def)
qed

lemma simplify_intmod_kleft_ok:
  assumes wf: "wf_ir J" and ok: "fins_ok J f" and op: "ins_o f = MOD" and k: "ref_o J (ins_op1 f) = KINT"
  shows "rule_ok J f (simplify_intmod_kleft J f)"
proof -
  have w: "\<not> int64 (ins_t f)" using ok op by (auto simp: fins_ok_def)
  have v: "V (ins_op1 f) = ucast (ins_i (fleft J f))" if "view J \<rho> (int64 (ins_t f)) V" for \<rho> and V :: "nat \<Rightarrow> 'x::len word"
    using left_const(1) [OF ok _ that k] op by simp
  have "rule_ok J f (J, KINTFOLD 0)" if "ins_i (fleft J f) = 0"
  proof (rule fold_to_kint [OF wf ok])
    fix \<rho>
    show "sem_view f (v32 \<rho>) \<in> {Done (ucast (0 :: u32)), Undef}" if "view J \<rho> (int64 (ins_t f)) (v32 \<rho>)"
      using v [OF that] \<open>ins_i (fleft J f) = 0\<close> op by simp
  qed (use op w in \<open>auto dest: view_wide\<close>)
  then show ?thesis by (simp add: simplify_intmod_kleft_def)
qed

lemma checked_zero: "checked 0 = Done (0 :: 'a::len word)"
  by (simp add: checked_def)

lemma is64_typed: "fins_ok J f \<Longrightarrow> ins_o f \<noteq> ABC \<Longrightarrow> irt_is64 (ins_t f) = int64 (ins_t f)"
  using typed_width(2) fins_typed by blast

text \<open>Folding to the constant zero of the instruction's width.\<close>

lemma fold_to_zero:
  assumes wf: "wf_ir J" and ok: "fins_ok J f" and op: "ins_o f \<notin> {BSWAP, ABC}"
    and "\<And>\<rho>. run J \<rho> \<Longrightarrow> view J \<rho> (int64 (ins_t f)) \<rho> \<Longrightarrow> sem_view f \<rho> = Done 0"
    and "\<And>\<rho>. run J \<rho> \<Longrightarrow> view J \<rho> (int64 (ins_t f)) (v32 \<rho>) \<Longrightarrow> sem_view f (v32 \<rho>) = Done 0"
  shows "rule_ok J f (if irt_is64 (ins_t f) then INT64FOLD J 0 else (J, KINTFOLD 0))"
proof (cases "int64 (ins_t f)")
  case True
  have "rule_ok J f (INT64FOLD J 0)" using assms True by (intro fold_to_kint64) auto
  with True show ?thesis using is64_typed [OF ok] op by simp
next
  case False
  have "rule_ok J f (J, KINTFOLD 0)" using assms by (intro fold_to_kint) auto
  with False show ?thesis using is64_typed [OF ok] op by simp
qed

lemma simplify_intsub_ok:
  assumes wf: "wf_ir J" and ok: "fins_ok J f" and op: "ins_o f \<in> {SUB, SUBOV}"
  shows "rule_ok J f (simplify_intsub J f)"
proof -
  have "rule_ok J f (if irt_is64 (ins_t f) then INT64FOLD J 0 else (J, KINTFOLD 0))" if "ins_op1 f = ins_op2 f"
    using op that by (intro fold_to_zero [OF wf ok]) (auto simp: checked_zero)
  then show ?thesis by (simp add: simplify_intsub_def)
qed

lemma simplify_intsubadd_leftcancel_ok:
  assumes wf: "wf_ir J" and ok: "fins_ok J f" and op: "ins_o f = SUB" and l: "ref_o J (ins_op1 f) = ADD"
  shows "rule_ok J f (simplify_intsubadd_leftcancel J f)"
proof -
  note L = left_operand [OF wf ok, simplified op l, simplified]
  have law1: "sem_view f V \<in> {Done (V (ins_op2 (fleft J f))), Undef}"
    if "view J \<rho> (int64 (ins_t f)) V" "ins_op2 f = ins_op1 (fleft J f)" for \<rho> and V :: "nat \<Rightarrow> 'x::len word"
    using L(5) [OF that(1)] that(2) op by simp
  have law2: "sem_view f V \<in> {Done (V (ins_op1 (fleft J f))), Undef}"
    if "view J \<rho> (int64 (ins_t f)) V" "ins_op2 f = ins_op2 (fleft J f)" for \<rho> and V :: "nat \<Rightarrow> 'x::len word"
    using L(5) [OF that(1)] that(2) op by simp
  have "rule_ok J f (J, REFFOLD (ins_op2 (fleft J f)))" if "ins_op2 f = ins_op1 (fleft J f)"
    using op L(2) that by (intro fold_to_ref [OF wf ok] law1) auto
  moreover have "rule_ok J f (J, REFFOLD (ins_op1 (fleft J f)))" if "ins_op2 f = ins_op2 (fleft J f)"
    using op L(1) that by (intro fold_to_ref [OF wf ok] law2) auto
  ultimately show ?thesis by (simp add: simplify_intsubadd_leftcancel_def)
qed

lemma simplify_intsubsub_rightcancel_ok:
  assumes wf: "wf_ir J" and ok: "fins_ok J f" and op: "ins_o f = SUB" and r: "ref_o J (ins_op2 f) = SUB"
  shows "rule_ok J f (simplify_intsubsub_rightcancel J f)"
proof -
  note R = right_operand [OF wf ok, simplified op r, simplified]
  have law: "sem_view f V \<in> {Done (V (ins_op2 (fright J f))), Undef}"
    if "view J \<rho> (int64 (ins_t f)) V" "ins_op1 f = ins_op1 (fright J f)" for \<rho> and V :: "nat \<Rightarrow> 'x::len word"
    using R(5) [OF that(1)] that(2) op by simp
  have "rule_ok J f (J, REFFOLD (ins_op2 (fright J f)))" if "ins_op1 f = ins_op1 (fright J f)"
    using op R(2) that by (intro fold_to_ref [OF wf ok] law) auto
  then show ?thesis by (simp add: simplify_intsubsub_rightcancel_def)
qed

text \<open>Cancellation to \<open>0 - j\<close> interns the 32-bit zero, whatever the width.\<close>

lemma retry_zero_minus:
  assumes wf: "wf_ir J" and ok: "fins_ok J f" and op: "ins_o f = SUB" and j: "opd J (int64 (ins_t f)) j"
    and less: "refw j < refw (ins_op1 f) + refw (ins_op2 f)"
    and law64: "\<And>J' \<rho>. grows J J' \<Longrightarrow> view J' \<rho> (int64 (ins_t f)) \<rho> \<Longrightarrow> \<rho> (ins_op1 f) - \<rho> (ins_op2 f) = - \<rho> j"
    and law32: "\<And>J' \<rho>. grows J J' \<Longrightarrow> view J' \<rho> (int64 (ins_t f)) (v32 \<rho>) \<Longrightarrow>
      v32 \<rho> (ins_op1 f) - v32 \<rho> (ins_op2 f) = - v32 \<rho> j"
  shows "rule_ok J f (with_kint J 0 (\<lambda>r. RETRYFOLD (f\<lparr>ins_op1 := r, ins_op2 := j\<rparr>)))"
proof (rule rule_with_kint [OF wf])
  fix J' r
  assume g: "grows J J'" and r: "opd J' False r" "(0 :: c_int) = 0 \<Longrightarrow> opd J' True r" "r < REF_BIAS"
    and val: "\<And>\<rho>. run J' \<rho> \<Longrightarrow> \<rho> r = u64_of_u32 0"
  let ?f = "f\<lparr>ins_op1 := r, ins_op2 := j\<rparr>"
  have o: "opd J' (int64 (ins_t f)) r" using r(1,2) by (cases "int64 (ins_t f)") auto
  show "rule_ok J f (J', RETRYFOLD ?f)"
  proof (rule fold_to_retry [OF g ok])
    show "fins_ok J' ?f" using o opd_grows [OF g j] op by (intro fins_okI [OF ok]) auto
    show "(fold_order J' ?f, fold_order J f) \<in> lex3"
      using less refw_const [OF r(3)] op by (intro order_refs) auto
    fix \<rho> assume \<rho>: "run J' \<rho>"
    show "sem_view f \<rho> \<in> {sem_view ?f \<rho>, Undef}" if "view J' \<rho> (int64 (ins_t f)) \<rho>"
      using law64 [OF g that] val [OF \<rho>] op by simp
    show "sem_view f (v32 \<rho>) \<in> {sem_view ?f (v32 \<rho>), Undef}" if "view J' \<rho> (int64 (ins_t f)) (v32 \<rho>)"
      using law32 [OF g that] val [OF \<rho>] op by simp
  qed (use op in auto)
qed

lemma grows_left_operand:
  assumes g: "grows J J'" and ok: "fins_ok J f" and op: "ins_o f \<noteq> ABC" "plain (ref_o J (ins_op1 f))"
    and v: "view J' \<rho> (int64 (ins_t f)) V"
  shows "Done (V (ins_op1 f)) = sem_w (ref_o J (ins_op1 f)) (V (ins_op1 (fleft J f))) (V (ins_op2 (fleft J f)))"
  using left_operand(5) [OF growsD(1) [OF g] fins_grows(1) [OF g ok] op(1) _ v] fins_grows(2,3) [OF g ok] op(2) by simp

lemma grows_right_operand:
  assumes g: "grows J J'" and ok: "fins_ok J f" and op: "ins_o f \<notin> {ABC, BNOT, BSWAP}" "\<not> is_shift (ins_o f)"
    "plain (ref_o J (ins_op2 f))" and v: "view J' \<rho> (int64 (ins_t f)) V"
  shows "Done (V (ins_op2 f)) = sem_w (ref_o J (ins_op2 f)) (V (ins_op1 (fright J f))) (V (ins_op2 (fright J f)))"
  using right_operand(5) [OF growsD(1) [OF g] fins_grows(1) [OF g ok] op(1,2) _ v] fins_grows(4,5) [OF g ok] op(1,3) by simp

lemma simplify_intsubsub_leftcancel_ok:
  assumes wf: "wf_ir J" and ok: "fins_ok J f" and op: "ins_o f = SUB" and l: "ref_o J (ins_op1 f) = SUB"
  shows "rule_ok J f (simplify_intsubsub_leftcancel J f)"
proof -
  note L = left_operand [OF wf ok, simplified op l, simplified]
  have law: "V (ins_op1 f) - V (ins_op2 f) = - V (ins_op2 (fleft J f))"
    if "grows J J'" "view J' \<rho> (int64 (ins_t f)) V" "ins_op2 f = ins_op1 (fleft J f)"
    for J' \<rho> and V :: "nat \<Rightarrow> 'x::len word"
    using grows_left_operand [OF that(1) ok _ _ that(2)] that(3) op l by simp
  have "rule_ok J f (with_kint J 0 (\<lambda>r. RETRYFOLD (f\<lparr>ins_op1 := r, ins_op2 := ins_op2 (fleft J f)\<rparr>)))"
    if "ins_op2 f = ins_op1 (fleft J f)"
    using L(2,4) that by (intro retry_zero_minus [OF wf ok op] law) auto
  then show ?thesis by (simp add: simplify_intsubsub_leftcancel_def)
qed

lemma simplify_intsubadd_rightcancel_ok:
  assumes wf: "wf_ir J" and ok: "fins_ok J f" and op: "ins_o f = SUB" and r: "ref_o J (ins_op2 f) = ADD"
  shows "rule_ok J f (simplify_intsubadd_rightcancel J f)"
proof -
  note R = right_operand [OF wf ok, simplified op r, simplified]
  have law: "V (ins_op1 f) - V (ins_op2 f) = - V j"
    if "grows J J'" "view J' \<rho> (int64 (ins_t f)) V"
      "ins_op1 f = ins_op1 (fright J f) \<and> j = ins_op2 (fright J f) \<or> ins_op1 f = ins_op2 (fright J f) \<and> j = ins_op1 (fright J f)"
    for J' \<rho> j and V :: "nat \<Rightarrow> 'x::len word"
    using grows_right_operand [OF that(1) ok _ _ _ that(2)] that(3) op r by auto
  have "rule_ok J f (with_kint J 0 (\<lambda>r. RETRYFOLD (f\<lparr>ins_op1 := r, ins_op2 := ins_op2 (fright J f)\<rparr>)))"
    if "ins_op1 f = ins_op1 (fright J f)"
    using R(2,4) that by (intro retry_zero_minus [OF wf ok op] law) auto
  moreover have "rule_ok J f (with_kint J 0 (\<lambda>r. RETRYFOLD (f\<lparr>ins_op1 := r, ins_op2 := ins_op1 (fright J f)\<rparr>)))"
    if "ins_op1 f = ins_op2 (fright J f)"
    using R(1,3) that by (intro retry_zero_minus [OF wf ok op] law) auto
  ultimately show ?thesis by (simp add: simplify_intsubadd_rightcancel_def)
qed

lemma simplify_intsubaddadd_cancel_ok:
  assumes wf: "wf_ir J" and ok: "fins_ok J f" and op: "ins_o f = SUB"
    and l: "ref_o J (ins_op1 f) = ADD" and r: "ref_o J (ins_op2 f) = ADD"
  shows "rule_ok J f (simplify_intsubaddadd_cancel J f)"
proof -
  note L = left_operand [OF wf ok, simplified op l, simplified]
    and R = right_operand [OF wf ok, simplified op r, simplified]
  have retry: "rule_ok J f (J, RETRYFOLD (f\<lparr>ins_op1 := a, ins_op2 := b\<rparr>))"
    if "i = ins_op1 (fleft J f) \<and> a = ins_op2 (fleft J f) \<or> i = ins_op2 (fleft J f) \<and> a = ins_op1 (fleft J f)"
      "i = ins_op1 (fright J f) \<and> b = ins_op2 (fright J f) \<or> i = ins_op2 (fright J f) \<and> b = ins_op1 (fright J f)"
    for i a b
  proof -
    have law: "sem_view f V \<in> {sem_view (f\<lparr>ins_op1 := a, ins_op2 := b\<rparr>) V, Undef}"
      if "view J \<rho> (int64 (ins_t f)) V" for \<rho> and V :: "nat \<Rightarrow> 'x::len word"
      using L(5) [OF that] R(5) [OF that] \<open>_ \<or> i = ins_op2 (fleft J f) \<and> _\<close> \<open>_ \<or> i = ins_op2 (fright J f) \<and> _\<close> op by auto
    show ?thesis
      using that L(1-4) R(1-4) op
      by (intro fold_to_retry [OF grows_refl [OF wf] ok] order_refs fins_okI [OF ok] law) auto
  qed
  show ?thesis
    unfolding simplify_intsubaddadd_cancel_def Let_def
    by (auto intro: retry [of "ins_op1 (fleft J f)"] retry [of "ins_op2 (fleft J f)"])
qed

end
