(* ===== verification/Fold_Bitops.thy ===== *)
theory Fold_Bitops
  imports Fold_Rules
begin

text \<open>
  The rules of \<^verbatim>\<open>lj_opt_fold.c\<close> on bit operations and shifts, reassociation, array bounds checks and
  commutativity keep the contract of \<^verbatim>\<open>Fold_Contract\<close>, one lemma per fold function.
  \<^verbatim>\<open>simplify_shiftk_andk\<close>, which calls the engine, is treated in \<^verbatim>\<open>Fold_Sound\<close>.
\<close>

section \<open>Bit operations and shifts\<close>

subsection \<open>Bit operations with a constant\<close>

lemma ucast_minus_one_32: "LENGTH('a) = 32 \<Longrightarrow> (ucast (- 1 :: u32) :: 'a::len word) = - 1"
  by (rule bit_word_eqI) (simp add: bit_simps)

lemma ucast_minus_one_64: "LENGTH('a) \<le> 64 \<Longrightarrow> (ucast (- 1 :: u64) :: 'a::len word) = - 1"
  by (rule bit_word_eqI) (simp add: bit_simps)

lemma scast_u32_iff: "(scast (i :: u32) :: u64) = 0 \<longleftrightarrow> i = 0" "(scast (i :: u32) :: u64) = - 1 \<longleftrightarrow> i = - 1"
proof -
  have inj: "scast i = (scast j :: u64) \<longleftrightarrow> i = j" for j :: u32
  proof -
    have "u32_of_u64 (scast k) = k" for k :: u32 by (rule bit_word_eqI) (case_tac "n = 31", auto simp: bit_simps min_def)
    then show ?thesis by metis
  qed
  show "(scast i :: u64) = 0 \<longleftrightarrow> i = 0" using inj [of 0] by simp
  show "(scast i :: u64) = - 1 \<longleftrightarrow> i = - 1" using inj [of "- 1"] by simp
qed

lemma const_bitop:
  assumes v: "view J \<rho> w (V :: nat \<Rightarrow> 'a::len word)" and o: "opd J w r" and k: "ref_o J r \<in> {KINT, KINT64}"
  shows "bitop_k (cur_ir J r) = 0 \<Longrightarrow> V r = 0" "bitop_k (cur_ir J r) = - 1 \<Longrightarrow> V r = - 1"
  using view_KINT [OF v o] view_KINT64 [OF v o] view_length [OF v] k ucast_minus_one_32 [where 'a = 'a] ucast_minus_one_64 [where 'a = 'a]
  by (auto simp: bitop_k_def scast_u32_iff split: if_splits)

lemma right_bitop:
  assumes "fins_ok J f" "ins_o f \<in> {BAND, BOR, BXOR}" "ref_o J (ins_op2 f) \<in> {KINT, KINT64}" "view J \<rho> (int64 (ins_t f)) V"
  shows "bitop_k (fright J f) = 0 \<Longrightarrow> V (ins_op2 f) = 0" "bitop_k (fright J f) = - 1 \<Longrightarrow> V (ins_op2 f) = - 1"
  using const_bitop [OF assms(4) _ assms(3)] fins_opd2 [OF assms(1)] assms(2) by (auto simp: fright_def)

lemma simplify_band_k_ok:
  assumes wf: "wf_ir J" and ok: "fins_ok J f" and op: "ins_o f = BAND" and k: "ref_o J (ins_op2 f) \<in> {KINT, KINT64}"
  shows "rule_ok J f (simplify_band_k J f)"
proof -
  have o: "opd J (int64 (ins_t f)) (ins_op1 f)" "opd J (int64 (ins_t f)) (ins_op2 f)"
    using fins_opd1 [OF ok] fins_opd2 [OF ok] op by auto
  have law0: "sem_view f V \<in> {Done (V (ins_op2 f)), Undef}" if "view J \<rho> (int64 (ins_t f)) V" "bitop_k (fright J f) = 0"
    for \<rho> and V :: "nat \<Rightarrow> 'x::len word"
    using right_bitop(1) [OF ok _ k that(1)] that(2) op by simp
  have law1: "sem_view f V \<in> {Done (V (ins_op1 f)), Undef}" if "view J \<rho> (int64 (ins_t f)) V" "bitop_k (fright J f) = - 1"
    for \<rho> and V :: "nat \<Rightarrow> 'x::len word"
    using right_bitop(2) [OF ok _ k that(1)] that(2) op by simp
  have "rule_ok J f (J, RIGHTFOLD f)" if "bitop_k (fright J f) = 0"
    unfolding RIGHTFOLD_def using op o that by (intro fold_to_ref [OF wf ok] law0) auto
  moreover have "rule_ok J f (J, LEFTFOLD f)" if "bitop_k (fright J f) = - 1"
    unfolding LEFTFOLD_def using op o that by (intro fold_to_ref [OF wf ok] law1) auto
  ultimately show ?thesis by (simp add: simplify_band_k_def Let_def)
qed

lemma simplify_bor_k_ok:
  assumes wf: "wf_ir J" and ok: "fins_ok J f" and op: "ins_o f = BOR" and k: "ref_o J (ins_op2 f) \<in> {KINT, KINT64}"
  shows "rule_ok J f (simplify_bor_k J f)"
proof -
  have o: "opd J (int64 (ins_t f)) (ins_op1 f)" "opd J (int64 (ins_t f)) (ins_op2 f)"
    using fins_opd1 [OF ok] fins_opd2 [OF ok] op by auto
  have law0: "sem_view f V \<in> {Done (V (ins_op1 f)), Undef}" if "view J \<rho> (int64 (ins_t f)) V" "bitop_k (fright J f) = 0"
    for \<rho> and V :: "nat \<Rightarrow> 'x::len word"
    using right_bitop(1) [OF ok _ k that(1)] that(2) op by simp
  have law1: "sem_view f V \<in> {Done (V (ins_op2 f)), Undef}" if "view J \<rho> (int64 (ins_t f)) V" "bitop_k (fright J f) = - 1"
    for \<rho> and V :: "nat \<Rightarrow> 'x::len word"
    using right_bitop(2) [OF ok _ k that(1)] that(2) op by simp
  have "rule_ok J f (J, LEFTFOLD f)" if "bitop_k (fright J f) = 0"
    unfolding LEFTFOLD_def using op o that by (intro fold_to_ref [OF wf ok] law0) auto
  moreover have "rule_ok J f (J, RIGHTFOLD f)" if "bitop_k (fright J f) = - 1"
    unfolding RIGHTFOLD_def using op o that by (intro fold_to_ref [OF wf ok] law1) auto
  ultimately show ?thesis by (simp add: simplify_bor_k_def Let_def)
qed

lemma simplify_bxor_k_ok:
  assumes wf: "wf_ir J" and ok: "fins_ok J f" and op: "ins_o f = BXOR" and k: "ref_o J (ins_op2 f) \<in> {KINT, KINT64}"
  shows "rule_ok J f (simplify_bxor_k J f)"
proof -
  let ?f = "f\<lparr>ins_o := BNOT, ins_op2 := 0\<rparr>"
  have o: "opd J (int64 (ins_t f)) (ins_op1 f)" using fins_opd1 [OF ok] op by auto
  have law0: "sem_view f V \<in> {Done (V (ins_op1 f)), Undef}" if "view J \<rho> (int64 (ins_t f)) V" "bitop_k (fright J f) = 0"
    for \<rho> and V :: "nat \<Rightarrow> 'x::len word"
    using right_bitop(1) [OF ok _ k that(1)] that(2) op by simp
  have law1: "sem_view f V \<in> {sem_view ?f V, Undef}" if "view J \<rho> (int64 (ins_t f)) V" "bitop_k (fright J f) = - 1"
    for \<rho> and V :: "nat \<Rightarrow> 'x::len word"
    using right_bitop(2) [OF ok _ k that(1)] that(2) op by simp
  have ok': "fins_ok J ?f"
    using ok op by (auto simp: fins_ok_def typed_def Let_def op_classes)
  have "rule_ok J f (J, LEFTFOLD f)" if "bitop_k (fright J f) = 0"
    unfolding LEFTFOLD_def using op o that by (intro fold_to_ref [OF wf ok] law0) auto
  moreover have "rule_ok J f (J, RETRYFOLD ?f)" if "bitop_k (fright J f) = - 1"
    using op ok' that by (intro fold_to_retry [OF grows_refl [OF wf] ok] order_group law1) auto
  ultimately show ?thesis by (simp add: simplify_bxor_k_def Let_def)
qed

subsection \<open>Shifts\<close>

lemma shmask_64: "fins_ok J f \<Longrightarrow> ins_o f \<noteq> ABC \<Longrightarrow> shmask f = (if int64 (ins_t f) then 63 else 31)"
  using is64_typed by (simp add: shmask_def)

lemma unat_and_shmask: "unat (k AND (if w then 63 else 31) :: u32) = unat k mod (if w then 64 else 32)"
  using unat_and_mask [of k 6] unat_and_mask [of k 5] by (simp add: mask_eq_exp_minus_1)

lemma shcount_ucast:
  assumes "view J \<rho> w (V :: nat \<Rightarrow> 'a::len word)"
  shows "shcount (ucast (k :: u32) :: 'a word) = unat (k AND (if w then 63 else 31))"
  using view_length [OF assms] view_length_ge [OF assms]
  by (simp only: shcount_def unat_ucast_u32 unat_and_shmask)

lemma shift_opds:
  assumes "fins_ok J f" "is_shift (ins_o f)"
  shows "opd J (int64 (ins_t f)) (ins_op1 f)" "opd J False (ins_op2 f)" "ins_o f \<notin> {BSWAP, ABC}" "ins_o f \<noteq> ABC"
  using fins_opd1 [OF assms(1)] fins_opd2 [OF assms(1)] assms(2) by (auto simp: is_shift_def)

text \<open>The count of a shift by a constant.\<close>

lemma shift_count_const:
  assumes ok: "fins_ok J f" and op: "is_shift (ins_o f)" and o: "opd J False r" and k: "ref_o J r = KINT"
    and r: "run J \<rho>" and v: "view J \<rho> (int64 (ins_t f)) V"
  shows "shcount (V r) = unat (ins_i (cur_ir J r) AND shmask f)"
  using shcount_ucast [OF v] view_count [OF v o] operand_KINT_32 [OF r o k] shmask_64 [OF ok shift_opds(4) [OF ok op]]
  by simp

lemma shift_by_zero: "is_shift op \<Longrightarrow> shcount b = 0 \<Longrightarrow> sem_w op a b = Done a"
  by (auto simp: is_shift_def)

lemma sem_w_shcount: "is_shift op \<Longrightarrow> shcount b = shcount c \<Longrightarrow> sem_w op a b = sem_w op a c"
  by (auto simp: is_shift_def)

lemma fins_ok_count:
  assumes ok: "fins_ok J f" and op: "is_shift (ins_o f)" and g: "grows J J'" and r: "opd J' False r" and a: "opd J' (int64 (ins_t f)) a"
  shows "fins_ok J' (f\<lparr>ins_op1 := a, ins_op2 := r\<rparr>)"
proof -
  have "chain J' LOOP = chain J LOOP" using g by (simp add: grows_def is_const_def)
  with ok op r a show ?thesis by (auto simp: fins_ok_def typed_def Let_def is_shift_def)
qed

lemma shift_detail: "is_shift (ins_o f) \<Longrightarrow> fold_detail J f = (if ins_o f = BROR then 4 else 0) +
     (if ref_o J (ins_op2 f) = KINT \<and> ins_i (fright J f) AND shmask f \<noteq> ins_i (fright J f) then 2 else 0)"
  by (auto simp: fold_detail_def is_shift_def commutes_def comparisons_def)

lemma unat_eq_zero_and: "unat (k AND m) = 0 \<longleftrightarrow> k AND m = 0" for k :: "'a::len word"
  by (simp add: unat_eq_0)

lemma rotr_rotl: "0 < n \<Longrightarrow> n < 32 \<Longrightarrow> word_rotr n (a :: u32) = word_rotl (32 - n) a"
  by (simp add: word_rotl_eq_word_rotr)

lemma unat_neg_and_31:
  fixes k :: u32
  assumes "0 < unat k" "unat k < 32"
  shows "unat ((- k) AND 31) = 32 - unat k"
proof -
  have u: "uint k = int (unat k)" by simp
  have "uint (- k) = (- uint k) mod 4294967296" by (simp add: uint_word_ariths)
  also have "\<dots> = 4294967296 - int (unat k)"
  proof -
    have "(- N) mod 4294967296 = 4294967296 - N" if "0 < N" "N < 32" for N :: int
      using that by (simp add: zmod_zminus1_eq_if)
    then have "(- int (unat k)) mod 4294967296 = 4294967296 - int (unat k)"
      using assms by (metis of_nat_0_less_iff of_nat_less_iff of_nat_numeral)
    then show ?thesis by (simp only: u)
  qed
  finally have "int (unat (- k)) = 4294967296 - int (unat k)" by simp
  then have "unat (- k) = 4294967296 - unat k" using assms by linarith
  then have "unat ((- k) AND 31) = (4294967296 - unat k) mod 32"
    using unat_and_shmask [of "- k" False] by simp
  also have "4294967296 - unat k = (32 - unat k) + 32 * 134217727" using assms by simp
  also have "\<dots> mod 32 = 32 - unat k" using assms by (simp only: mod_mult_self2) simp
  finally show ?thesis .
qed

lemma simplify_shift_ik_ok:
  assumes wf: "wf_ir J" and ok: "fins_ok J f" and op: "is_shift (ins_o f)" and k: "ref_o J (ins_op2 f) = KINT"
  shows "rule_ok J f (simplify_shift_ik J f)"
proof -
  let ?i = "ins_i (fright J f)" and ?k = "ins_i (fright J f) AND shmask f"
  note o = shift_opds [OF ok op]
  have o2: "ins_o f \<notin> {BNOT, BSWAP}" using op by (auto simp: is_shift_def)
  have cnt: "shcount (V (ins_op2 f)) = unat ?k" if "grows J J'" "run J' \<rho>" "view J' \<rho> (int64 (ins_t f)) V"
    for J' \<rho> and V :: "nat \<Rightarrow> 'x::len word"
    using shift_count_const [OF fins_grows(1) [OF that(1) ok] op opd_grows [OF that(1) o(2)] _ that(2,3)]
      fins_grows [OF that(1) ok] o2 k by (simp add: fright_def)
  have kk: "?k AND shmask f = ?k" by (simp add: and.assoc)
  have rw: "refw (ins_op2 f) = 0" using const_refw [OF wf opd_valid [OF o(2)]] k by simp
  have law0: "sem_view f V \<in> {Done (V (ins_op1 f)), Undef}" if "run J \<rho>" "view J \<rho> (int64 (ins_t f)) V" "?k = 0"
    for \<rho> and V :: "nat \<Rightarrow> 'x::len word"
    using shift_by_zero [OF op, of "V (ins_op2 f)"] cnt [OF grows_refl [OF wf] that(1,2)] that(3) by simp
  have law1: "sem_view f V \<in> {sem_view (f\<lparr>ins_o := ADD, ins_op2 := ins_op1 f\<rparr>) V, Undef}"
    if "run J \<rho>" "view J \<rho> (int64 (ins_t f)) V" "?k = 1" "ins_o f = BSHL" for \<rho> and V :: "nat \<Rightarrow> 'x::len word"
    using cnt [OF grows_refl [OF wf] that(1,2)] that(3,4) by (simp add: push_bit_eq_mult)
  have z: "rule_ok J f (J, LEFTFOLD f)" if "?k = 0"
    unfolding LEFTFOLD_def using o that by (intro fold_to_ref [OF wf ok] law0) auto
  have one: "rule_ok J f (J, RETRYFOLD (f\<lparr>ins_o := ADD, ins_op2 := ins_op1 f\<rparr>))" if "?k = 1" "ins_o f = BSHL"
    using o that by (intro fold_to_retry [OF grows_refl [OF wf] ok] order_group fins_okI [OF ok] law1) auto
  have masked: "rule_ok J f (with_kint J ?k (\<lambda>r. RETRYFOLD (f\<lparr>ins_op2 := r\<rparr>)))" if ne: "?k \<noteq> ?i"
  proof (rule rule_with_kint [OF wf])
    fix J' r
    assume g: "grows J J'" and r: "opd J' False r" "cur_ir J' r = kint_ins ?k" "r < REF_BIAS"
      and val: "\<And>\<rho>. run J' \<rho> \<Longrightarrow> \<rho> r = u64_of_u32 ?k"
    let ?f = "f\<lparr>ins_op2 := r\<rparr>"
    have ok': "fins_ok J' ?f" using fins_ok_count [OF ok op g r(1) opd_grows [OF g o(1)]] by simp
    have law: "sem_view f V \<in> {sem_view ?f V, Undef}" if "run J' \<rho>" "view J' \<rho> (int64 (ins_t f)) V"
      for \<rho> and V :: "nat \<Rightarrow> 'x::len word"
    proof -
      have "shcount (V r) = unat ?k"
        using shift_count_const [OF ok' _ r(1) _ that(1), of V] that(2) op r(2) kk by (simp add: shmask_def)
      then show ?thesis using sem_w_shcount [OF op, of "V (ins_op2 f)" "V r"] cnt [OF g that] by simp
    qed
    have "(fold_order J' ?f, fold_order J f) \<in> lex3"
      using op rw refw_const [OF r(3)] ne kk k r(2)
      by (intro order_detail) (auto simp: shift_detail fright_def shmask_def)
    then show "rule_ok J f (J', RETRYFOLD ?f)"
      using o ok' by (intro fold_to_retry [OF g ok] law) auto
  qed
  have ror: "rule_ok J f (with_kint J ((- ?k) AND shmask f) (\<lambda>r. RETRYFOLD (f\<lparr>ins_o := BROL, ins_op2 := r\<rparr>)))"
    if nz: "?k \<noteq> 0" and eq: "?k = ?i" and b: "ins_o f = BROR"
  proof (rule rule_with_kint [OF wf])
    have w: "\<not> int64 (ins_t f)" "int32 (ins_t f)" using ok fins_width [OF ok] b by (auto simp: fins_ok_def)
    have m: "shmask f = 31" using shmask_64 [OF ok] b w by simp
    have n: "0 < unat ?k" "unat ?k < 32"
    proof -
      show "0 < unat ?k" using nz by (simp add: unat_gt_0)
      show "unat ?k < 32" using unat_and_shmask [of ?i False] m by simp
    qed
    fix J' r
    assume g: "grows J J'" and r: "opd J' False r" "cur_ir J' r = kint_ins ((- ?k) AND shmask f)" "r < REF_BIAS"
      and val: "\<And>\<rho>. run J' \<rho> \<Longrightarrow> \<rho> r = u64_of_u32 ((- ?k) AND shmask f)"
    let ?f = "f\<lparr>ins_o := BROL, ins_op2 := r\<rparr>"
    show "rule_ok J f (J', RETRYFOLD ?f)"
    proof (rule fold_to_retry_32 [OF g ok])
      show "fins_ok J' ?f" using w r(1) opd_grows [OF g o(1)] by (intro fins_okI_32) (auto simp: op_classes)
      show "(fold_order J' ?f, fold_order J f) \<in> lex3"
        using b rw refw_const [OF r(3)] r(2) eq
        by (intro order_detail) (auto simp: shift_detail fright_def shmask_def and.assoc)
      fix \<rho> assume \<rho>: "run J' \<rho>" "view J' \<rho> False (v32 \<rho>)"
      have "shcount (v32 \<rho> (ins_op2 f)) = unat ?k" using cnt [OF g \<rho>(1)] \<rho>(2) w by simp
      moreover have "shcount (v32 \<rho> r) = 32 - unat ?k"
        using shcount_ucast [OF \<rho>(2), of "(- ?k) AND 31"] val [OF \<rho>(1)] unat_neg_and_31 [OF n] m by (simp add: and.assoc)
      ultimately show "sem_view f (v32 \<rho>) \<in> {sem_view ?f (v32 \<rho>), Undef}" using b rotr_rotl [OF n] by simp
    qed (use b w in auto)
  qed
  show ?thesis using z one masked ror by (auto simp: simplify_shift_ik_def Let_def)
qed

lemma simplify_shift_andk_ok:
  assumes wf: "wf_ir J" and ok: "fins_ok J f" and op: "is_shift (ins_o f)" and r: "ref_o J (ins_op2 f) = BAND"
  shows "rule_ok J f (simplify_shift_andk J f)"
proof -
  let ?j = "ins_op1 (fright J f)" and ?k = "ins_op2 (fright J f)"
  let ?f = "f\<lparr>ins_op2 := ?j\<rparr>"
  note o = shift_opds [OF ok op]
  note i = operand_ins [OF wf o(2)] and oo = operand_opd [OF wf o(2)]
  have jk: "opd J False ?j" "opd J False ?k" "refw ?j < refw (ins_op2 f)"
    using i(3,5) oo r by (auto simp: fright_def op_classes intro: refw_mono)
  have law: "sem_view f V \<in> {sem_view ?f V, Undef}"
    if \<rho>: "run J \<rho>" and v: "view J \<rho> (int64 (ins_t f)) V" and k: "ref_o J ?k = KINT" "ins_i (cur_ir J ?k) AND shmask f = shmask f"
    for \<rho> and V :: "nat \<Rightarrow> 'x::len word"
  proof -
    have m: "shmask f = (if int64 (ins_t f) then 63 else 31)" by (rule shmask_64 [OF ok o(4)])
    have "v32 \<rho> (ins_op2 f) = v32 \<rho> ?j AND ins_i (cur_ir J ?k)"
      using operand_32 [OF wf \<rho> o(2)] operand_KINT_32 [OF \<rho> jk(2) k(1)] r by (simp add: fright_def op_classes)
    then have "v32 \<rho> (ins_op2 f) AND shmask f = v32 \<rho> ?j AND shmask f" using k(2) by (simp add: and.assoc)
    then have "shcount (V (ins_op2 f)) = shcount (V ?j)"
      using view_count [OF v o(2)] view_count [OF v jk(1)] shcount_ucast [OF v] m by simp
    then show ?thesis using sem_w_shcount [OF op, of "V (ins_op2 f)" "V ?j"] by simp
  qed
  have "rule_ok J f (J, RETRYFOLD ?f)" if "ref_o J ?k = KINT" "ins_i (cur_ir J ?k) AND shmask f = shmask f"
    using o jk(3) that fins_ok_count [OF ok op grows_refl [OF wf] jk(1) o(1)]
    by (intro fold_to_retry [OF grows_refl [OF wf] ok] order_refs law) auto
  then show ?thesis by (auto simp: simplify_shift_andk_def Let_def)
qed

lemma left_bitop:
  assumes "fins_ok J f" "ins_o f \<noteq> ABC" "ref_o J (ins_op1 f) \<in> {KINT, KINT64}" "view J \<rho> (int64 (ins_t f)) V"
  shows "bitop_k (fleft J f) = 0 \<Longrightarrow> V (ins_op1 f) = 0" "bitop_k (fleft J f) = - 1 \<Longrightarrow> V (ins_op1 f) = - 1"
  using const_bitop [OF assms(4) fins_opd1 [OF assms(1,2)] assms(3)] by (auto simp: fleft_def)

lemma simplify_shift1_ki_ok:
  assumes wf: "wf_ir J" and ok: "fins_ok J f" and op: "ins_o f \<in> {BSHL, BSHR}" and k: "ref_o J (ins_op1 f) \<in> {KINT, KINT64}"
  shows "rule_ok J f (simplify_shift1_ki J f)"
proof -
  have law: "sem_view f V \<in> {Done (V (ins_op1 f)), Undef}" if "view J \<rho> (int64 (ins_t f)) V" "bitop_k (fleft J f) = 0"
    for \<rho> and V :: "nat \<Rightarrow> 'x::len word"
    using left_bitop(1) [OF ok _ k that] op by auto
  have "rule_ok J f (J, LEFTFOLD f)" if "bitop_k (fleft J f) = 0"
    unfolding LEFTFOLD_def using op fins_opd1 [OF ok] that by (intro fold_to_ref [OF wf ok] law) auto
  then show ?thesis by (simp add: simplify_shift1_ki_def)
qed

lemma rot_minus_one: "word_rotl n (- 1) = (- 1 :: 'a::len word)" "word_rotr n (- 1) = (- 1 :: 'a::len word)"
  by (rule bit_word_eqI, simp add: bit_simps)+

lemma sar_minus_one: "signed_drop_bit n (- 1) = (- 1 :: 'a::len word)"
  by (rule bit_word_eqI) (simp add: bit_simps)

lemma simplify_shift2_ki_ok:
  assumes wf: "wf_ir J" and ok: "fins_ok J f" and op: "ins_o f \<in> {BSAR, BROL, BROR}" and k: "ref_o J (ins_op1 f) \<in> {KINT, KINT64}"
  shows "rule_ok J f (simplify_shift2_ki J f)"
proof -
  have law: "sem_view f V \<in> {Done (V (ins_op1 f)), Undef}"
    if "view J \<rho> (int64 (ins_t f)) V" "bitop_k (fleft J f) = 0 \<or> bitop_k (fleft J f) = - 1"
    for \<rho> and V :: "nat \<Rightarrow> 'x::len word"
    using left_bitop [OF ok _ k that(1)] that(2) op by (auto simp: rot_minus_one sar_minus_one)
  have "rule_ok J f (J, LEFTFOLD f)" if "bitop_k (fleft J f) = 0 \<or> bitop_k (fleft J f) = - 1"
    unfolding LEFTFOLD_def using op fins_opd1 [OF ok] that by (intro fold_to_ref [OF wf ok] law) auto
  then show ?thesis by (simp add: simplify_shift2_ki_def)
qed

subsection \<open>Masks\<close>

lemma push_minus_one: "n < 32 \<Longrightarrow> push_bit n (- 1 :: u32) \<noteq> 0" and drop_minus_one: "n < 32 \<Longrightarrow> drop_bit n (- 1 :: u32) \<noteq> 0"
proof -
  show "push_bit n (- 1 :: u32) \<noteq> 0" if "n < 32"
  proof
    assume "push_bit n (- 1 :: u32) = 0"
    then have "\<not> bit (push_bit n (- 1 :: u32)) n" by simp
    with that show False by (simp add: bit_simps del: push_bit_minus_one)
  qed
  show "drop_bit n (- 1 :: u32) \<noteq> 0" if "n < 32"
  proof
    assume "drop_bit n (- 1 :: u32) = 0"
    then have "\<not> bit (drop_bit n (- 1 :: u32)) 0" by simp
    with that show False by (simp add: bit_simps del: bit_0)
  qed
qed

lemma shift_and_mask:
  "push_bit n x AND push_bit n (- 1) = push_bit n (x :: 'a::len word)"
  "drop_bit n x AND drop_bit n (- 1) = drop_bit n x"
  by (rule bit_word_eqI, auto simp: bit_simps dest: bit_imp_le_length)+

lemma simplify_andk_shiftk_ok:
  assumes wf: "wf_ir J" and ok: "fins_ok J f" and op: "ins_o f = BAND"
    and l: "ref_o J (ins_op1 f) \<in> {BSHL, BSHR}" and k: "ref_o J (ins_op2 f) = KINT"
  shows "rule_ok J f (simplify_andk_shiftk J f)"
proof -
  let ?irk = "cur_ir J (ins_op2 (fleft J f))"
  have p: "plain (ref_o J (ins_op1 f))" and sh: "is_shift (ref_o J (ins_op1 f))" using l by auto
  note L = left_operand [OF wf ok _ p]
  have o1: "opd J (int64 (ins_t f)) (ins_op1 f)" and o2: "opd J (int64 (ins_t f)) (ins_op2 f)"
    and ok2: "opd J False (ins_op2 (fleft J f))"
    using fins_opd1 [OF ok] fins_opd2 [OF ok] op L(2) l sh by auto
  have "rule_ok J f (J, LEFTFOLD f)"
    if c: "ins_o ?irk = KINT" "kfold_intop (- 1) (ins_i ?irk) (ins_o (fleft J f)) = Some (ins_i (fright J f))"
    unfolding LEFTFOLD_def
  proof (rule fold_to_ref [OF wf ok _ o1])
    have nz: "ins_i (fright J f) \<noteq> 0"
      using c(2) l push_minus_one [of "sh31 (ins_i ?irk)"] drop_minus_one [of "sh31 (ins_i ?irk)"]
      by (auto simp: fleft_def sh31_shcount)
    then have w: "\<not> int64 (ins_t f)" using operand_KINT_64(1) [OF wf _ k] o2 by (auto simp: fright_def)
    show "sem_view f \<rho> \<in> {Done (\<rho> (ins_op1 f)), Undef}" if "view J \<rho> (int64 (ins_t f)) \<rho>" for \<rho>
      using view_wide [OF that] w by simp
    fix \<rho> assume \<rho>: "run J \<rho>" and v: "view J \<rho> (int64 (ins_t f)) (v32 \<rho>)"
    have "v32 \<rho> (ins_op2 f) = ins_i (fright J f)"
      using operand_KINT_32 [OF \<rho> _ k] o2 w by (simp add: fright_def)
    moreover have "shcount (v32 \<rho> (ins_op2 (fleft J f))) = sh31 (ins_i ?irk)"
      using operand_KINT_32 [OF \<rho> ok2 c(1)] by (simp add: sh31_shcount)
    ultimately show "sem_view f (v32 \<rho>) \<in> {Done (v32 \<rho> (ins_op1 f)), Undef}"
      using L(5) [OF _ v] c(2) l op shift_and_mask [of "shcount (v32 \<rho> (ins_op2 (fleft J f)))" "v32 \<rho> (ins_op1 (fleft J f))"]
      by (auto simp: fleft_def simp del: push_bit_minus_one)
  qed (use op in auto)
  then show ?thesis by (simp add: simplify_andk_shiftk_def Let_def)
qed

text \<open>The constants of a nested instruction.\<close>

lemma nested_KINT:
  assumes "wf_ir J" "fins_ok J f" "ins_o f \<noteq> ABC" "plain (ref_o J (ins_op1 f))" "\<not> is_shift (ref_o J (ins_op1 f))"
    "ref_o J (ins_op1 f) \<noteq> BNOT" "ref_o J (ins_op2 (fleft J f)) = KINT" "view J \<rho> (int64 (ins_t f)) V"
  shows "V (ins_op2 (fleft J f)) = ucast (ins_i (cur_ir J (ins_op2 (fleft J f))))"
    "int64 (ins_t f) \<Longrightarrow> ins_i (cur_ir J (ins_op2 (fleft J f))) = 0"
  using view_KINT [OF assms(8) _ assms(7)] left_operand(2) [OF assms(1-4)] assms(5,6) by auto

lemma nested_KINT64:
  assumes "wf_ir J" "fins_ok J f" "ins_o f \<noteq> ABC" "plain (ref_o J (ins_op1 f))" "\<not> is_shift (ref_o J (ins_op1 f))"
    "ref_o J (ins_op1 f) \<noteq> BNOT" "ref_o J (ins_op2 (fleft J f)) = KINT64" "view J \<rho> (int64 (ins_t f)) V"
  shows "V (ins_op2 (fleft J f)) = ucast (ins_k64 (cur_ir J (ins_op2 (fleft J f))))"
  using view_KINT64(1) [OF assms(8) _ assms(7)] left_operand(2) [OF assms(1-4)] assms(5,6) by auto

lemma ucast_and: "(ucast (a AND b :: 'b::len word) :: 'a::len word) = ucast a AND ucast b"
  by (rule bit_word_eqI) (auto simp: bit_simps)

lemma ucast_or: "(ucast (a OR b :: 'b::len word) :: 'a::len word) = ucast a OR ucast b"
  by (rule bit_word_eqI) (auto simp: bit_simps)

lemma mask_laws:
  fixes x a b :: "'a::len word"
  shows "a AND b = 0 \<Longrightarrow> (x OR a) AND b = x AND b" "a OR b = - 1 \<Longrightarrow> (x AND a) OR b = x OR b"
proof -
  show "(x OR a) AND b = x AND b" if "a AND b = 0" using that by (simp add: bit.conj_disj_distrib2)
  have "(x AND a) OR b = (x OR b) AND (a OR b)" by (rule bit.disj_conj_distrib2)
  then show "(x AND a) OR b = x OR b" if "a OR b = - 1" using that by simp
qed

lemma simplify_andor_k_ok:
  assumes wf: "wf_ir J" and ok: "fins_ok J f"
    and op: "ins_o f = BAND \<and> ref_o J (ins_op1 f) = BOR \<or> ins_o f = BOR \<and> ref_o J (ins_op1 f) = BAND"
    and k: "ref_o J (ins_op2 f) = KINT"
  shows "rule_ok J f (simplify_andor_k J f)"
proof -
  let ?irk = "cur_ir J (ins_op2 (fleft J f))" and ?f = "f\<lparr>ins_op1 := ins_op1 (fleft J f)\<rparr>"
  have p: "plain (ref_o J (ins_op1 f))" "\<not> is_shift (ref_o J (ins_op1 f))" "ref_o J (ins_op1 f) \<noteq> BNOT" "ins_o f \<noteq> ABC"
    using op by auto
  note L = left_operand [OF wf ok p(4,1)]
  have o2: "opd J (int64 (ins_t f)) (ins_op2 f)" using fins_opd2 [OF ok] op by auto
  have law: "sem_view f V \<in> {sem_view ?f V, Undef}"
    if v: "view J \<rho> (int64 (ins_t f)) V" and c: "ins_o ?irk = KINT"
      "kfold_intop (ins_i ?irk) (ins_i (fright J f)) (ins_o f) = Some (if ins_o f = BAND then 0 else - 1)"
    for \<rho> and V :: "nat \<Rightarrow> 'x::len word"
  proof -
    have V: "V (ins_op2 (fleft J f)) = ucast (ins_i ?irk)" "V (ins_op2 f) = ucast (ins_i (fright J f))"
      "int64 (ins_t f) \<Longrightarrow> ins_i ?irk = 0 \<and> ins_i (fright J f) = 0"
      using nested_KINT [OF wf ok p(4,1,2,3) c(1) v] right_KINT [OF ok _ _ k v] op by auto
    show ?thesis
    proof (cases "ins_o f = BAND")
      case True
      then have "ins_i ?irk AND ins_i (fright J f) = 0" using c(2) by simp
      then have "V (ins_op2 (fleft J f)) AND V (ins_op2 f) = 0" by (simp add: V(1,2) ucast_and [symmetric])
      from mask_laws(1) [OF this] L(5) [OF v] True op show ?thesis by simp
    next
      case False
      then have or: "ins_i ?irk OR ins_i (fright J f) = - 1" using c(2) op by simp
      then have "\<not> int64 (ins_t f)" using V(3) by auto
      then have "LENGTH('x) = 32" using view_length [OF v] by simp
      then have "V (ins_op2 (fleft J f)) OR V (ins_op2 f) = - 1"
        using or ucast_minus_one_32 [where 'a = 'x] by (simp add: V(1,2) ucast_or [symmetric])
      from mask_laws(2) [OF this] L(5) [OF v] False op show ?thesis by simp
    qed
  qed
  have "rule_ok J f (J, RETRYFOLD ?f)" if "ins_o ?irk = KINT"
    "kfold_intop (ins_i ?irk) (ins_i (fright J f)) (ins_o f) = Some (if ins_o f = BAND then 0 else - 1)"
    using op o2 L(1,3) that
    by (intro fold_to_retry [OF grows_refl [OF wf] ok] order_refs fins_okI [OF ok] law) auto
  then show ?thesis by (auto simp: simplify_andor_k_def Let_def)
qed

lemma simplify_andor_k64_ok:
  assumes wf: "wf_ir J" and ok: "fins_ok J f"
    and op: "ins_o f = BAND \<and> ref_o J (ins_op1 f) = BOR \<or> ins_o f = BOR \<and> ref_o J (ins_op1 f) = BAND"
    and k: "ref_o J (ins_op2 f) = KINT64"
  shows "rule_ok J f (simplify_andor_k64 J f)"
proof -
  let ?irk = "cur_ir J (ins_op2 (fleft J f))" and ?f = "f\<lparr>ins_op1 := ins_op1 (fleft J f)\<rparr>"
  have p: "plain (ref_o J (ins_op1 f))" "\<not> is_shift (ref_o J (ins_op1 f))" "ref_o J (ins_op1 f) \<noteq> BNOT" "ins_o f \<noteq> ABC"
    using op by auto
  note L = left_operand [OF wf ok p(4,1)]
  have o2: "opd J (int64 (ins_t f)) (ins_op2 f)" using fins_opd2 [OF ok] op by auto
  have w: "int64 (ins_t f)" by (rule operand_KINT64(1) [OF wf o2 k])
  have law: "sem_view f \<rho> \<in> {sem_view ?f \<rho>, Undef}"
    if v: "view J \<rho> (int64 (ins_t f)) \<rho>" and c: "ins_o ?irk = KINT64"
      "kfold_int64arith_op (ins_k64 ?irk) (ins_k64 (fright J f)) (ins_o f) = (if ins_o f = BAND then 0 else - 1)"
    for \<rho> :: "nat \<Rightarrow> u64"
  proof -
    have V: "\<rho> (ins_op2 (fleft J f)) = ins_k64 ?irk" "\<rho> (ins_op2 f) = ins_k64 (fright J f)"
      using nested_KINT64 [OF wf ok p(4,1,2,3) c(1) v] right_KINT64(1) [OF ok _ _ k v] op by auto
    show ?thesis
      using mask_laws [of "\<rho> (ins_op2 (fleft J f))" "\<rho> (ins_op2 f)"] L(5) [OF v] c(2) op by (auto simp: V)
  qed
  have "rule_ok J f (J, RETRYFOLD ?f)" if "ins_o ?irk = KINT64"
    "kfold_int64arith_op (ins_k64 ?irk) (ins_k64 (fright J f)) (ins_o f) = (if ins_o f = BAND then 0 else - 1)"
    using op o2 L(1,3) that w
    by (intro fold_to_retry_64 [OF grows_refl [OF wf] ok] order_refs fins_okI [OF ok] law) auto
  then show ?thesis by (auto simp: simplify_andor_k64_def Let_def)
qed

end
