(* ===== verification/Fold_Reassoc.thy ===== *)
theory Fold_Reassoc
  imports Fold_Bitops
begin

text \<open>
  The rules of \<^verbatim>\<open>lj_opt_fold.c\<close> for reassociation, array bounds checks and commutativity keep the
  contract of \<^verbatim>\<open>Fold_Contract\<close>, one lemma per fold function.
\<close>

section \<open>Reassociation\<close>

definition reassoc_ops :: "irop set" where
  "reassoc_ops = {ADD, MUL, BAND, BOR, BXOR, IR_MIN, IR_MAX}"

lemma sem_w_assoc:
  assumes "op \<in> reassoc_ops" "Done u = sem_w op x y" "sem_w op y z = Done v"
  shows "sem_w op u z = sem_w op x v"
  using assms unfolding reassoc_ops_def
  by (elim insertE) (auto simp: ac_simps signed_word_eqI split: if_splits)

lemma reassoc_ops_facts:
  "op \<in> reassoc_ops \<Longrightarrow> op \<in> intops" "op \<in> reassoc_ops \<Longrightarrow> plain op" "op \<in> reassoc_ops \<Longrightarrow> \<not> is_shift op"
  "op \<in> reassoc_ops \<Longrightarrow> op \<notin> {ABC, BNOT, BSWAP, DIV, POW}" "op \<in> reassoc_ops \<Longrightarrow> \<not> is_const op \<and> \<not> is_opaque op"
  by (auto simp: reassoc_ops_def intops_def op_classes)

lemma sem_w_0_0: "op \<in> reassoc_ops \<Longrightarrow> sem_w op 0 0 = Done 0"
  by (auto simp: reassoc_ops_def)

lemma reassoc_intarith_k_ok:
  assumes wf: "wf_ir J" and ok: "fins_ok J f" and op: "ins_o f \<in> reassoc_ops" and l: "ref_o J (ins_op1 f) = ins_o f"
    and k: "ref_o J (ins_op2 f) = KINT"
  shows "rule_ok J f (reassoc_intarith_k J f)"
proof -
  let ?irk = "cur_ir J (ins_op2 (fleft J f))"
  note P = reassoc_ops_facts [OF op]
  have na: "ins_o f \<noteq> ABC" "ins_o f \<notin> {ABC, BNOT, BSWAP}" "ins_o f \<notin> {BSWAP, ABC}" using P(4) by auto
  note L = left_operand [OF wf ok na(1), unfolded l, OF P(2)]
  note nk = nested_KINT [OF wf ok na(1), unfolded l, OF P(2,3)]
  have rk: "V (ins_op2 f) = ucast (ins_i (fright J f))" "int64 (ins_t f) \<Longrightarrow> ins_i (fright J f) = 0"
    if "view J \<rho> (int64 (ins_t f)) V" for \<rho> and V :: "nat \<Rightarrow> 'x::len word"
    using right_KINT [OF ok na(2) P(3) k that] by auto
  have o1: "opd J (int64 (ins_t f)) (ins_op1 f)" by (rule fins_opd1 [OF ok na(1)])
  have nb: "ins_o f \<noteq> BNOT" using na(2) by auto
  have left: "rule_ok J f (J, LEFTFOLD f)"
    if c: "ins_o ?irk = KINT" and kk: "kfold_intop (ins_i ?irk) (ins_i (fright J f)) (ins_o f) = Some (ins_i ?irk)"
    unfolding LEFTFOLD_def
  proof (rule fold_to_ref [OF wf ok na(3) o1])
    show "sem_view f \<rho> \<in> {Done (\<rho> (ins_op1 f)), Undef}" if v: "view J \<rho> (int64 (ins_t f)) \<rho>" for \<rho> :: "nat \<Rightarrow> u64"
    proof -
      have "\<rho> (ins_op2 (fleft J f)) = 0" "\<rho> (ins_op2 f) = 0"
        using nk [OF nb c v] rk [OF v] view_wide [OF v] by auto
      then show ?thesis using sem_w_assoc [OF op L(5) [OF v], of 0 0] L(5) [OF v] sem_w_0_0 [OF op, where 'a = 64] by simp
    qed
    show "sem_view f (v32 \<rho>) \<in> {Done (v32 \<rho> (ins_op1 f)), Undef}" if v: "view J \<rho> (int64 (ins_t f)) (v32 \<rho>)" for \<rho>
      using sem_w_assoc [OF op L(5) [OF v], of "ins_i (fright J f)"] L(5) [OF v] kfold_intop_Done [OF P(1) kk] nk(1) [OF nb c v] rk(1) [OF v] by simp
  qed
  have again: "rule_ok J f (with_kint J v (\<lambda>r. RETRYFOLD (f\<lparr>ins_op1 := ins_op1 (fleft J f), ins_op2 := r\<rparr>)))"
    if c: "ins_o ?irk = KINT" and kk: "kfold_intop (ins_i ?irk) (ins_i (fright J f)) (ins_o f) = Some v" and ne: "v \<noteq> ins_i ?irk" for v
  proof (rule rule_with_kint [OF wf])
    have w: "\<not> int64 (ins_t f)" "int32 (ins_t f)"
    proof -
      have oo: "opd J (int64 (ins_t f)) (ins_op2 (fleft J f))" "opd J (int64 (ins_t f)) (ins_op2 f)"
        using L(2) [OF nb] fins_opd2 [OF ok na(2)] P(3) by simp_all
      show "\<not> int64 (ins_t f)"
      proof
        assume w: "int64 (ins_t f)"
        have "ins_i ?irk = 0" "ins_i (fright J f) = 0"
          using operand_KINT_64(1) [OF wf _ c] operand_KINT_64(1) [OF wf _ k] oo w by (simp_all add: fright_def)
        then show False using kk ne kfold_intop_Done [OF P(1), of 0 0 v] sem_w_0_0 [OF op, where 'a = 32] by simp
      qed
      then show "int32 (ins_t f)" using fins_width [OF ok na(1)] by simp
    qed
    fix J' r
    assume g: "grows J J'" and r: "opd J' False r" "r < REF_BIAS" and val: "\<And>\<rho>. run J' \<rho> \<Longrightarrow> \<rho> r = u64_of_u32 v"
    let ?f = "f\<lparr>ins_op1 := ins_op1 (fleft J f), ins_op2 := r\<rparr>"
    show "rule_ok J f (J', RETRYFOLD ?f)"
    proof (rule fold_to_retry_32 [OF g ok na(3) w(1)])
      show "fins_ok J' ?f" using w(2) r(1) opd_grows [OF g L(1)] w(1) P(4,5) by (intro fins_okI_32) auto
      show "(fold_order J' ?f, fold_order J f) \<in> lex3" using L(3) refw_const [OF r(2)] by (intro order_refs) auto
      fix \<rho> assume \<rho>: "run J' \<rho>" "view J' \<rho> False (v32 \<rho>)"
      have v: "view J \<rho> False (v32 \<rho>)" using view_32 [OF wf run_extends [OF growsD(2) [OF g] \<rho>(1)]] .
      show "sem_view f (v32 \<rho>) \<in> {sem_view ?f (v32 \<rho>), Undef}"
        using sem_w_assoc [OF op L(5), of \<rho> "v32 \<rho>"] kfold_intop_Done [OF P(1) kk] nk(1) [OF nb c, of \<rho> "v32 \<rho>"]
          rk(1) [of \<rho> "v32 \<rho>"] v w(1) val [OF \<rho>(1)] by simp
    qed (use w na in auto)
  qed
  show ?thesis
    using left again by (auto simp: reassoc_intarith_k_def Let_def rule_ok_def [of J f "(J, ERRFOLD ABORTED)"] split: option.split)
qed

lemma reassoc_minmax_k_eq: "reassoc_minmax_k = reassoc_intarith_k"
  by (intro ext) (auto simp: reassoc_minmax_k_def reassoc_intarith_k_def Let_def split: option.split)

lemma fins_ok_bxor:
  assumes "fins_ok J f" "ins_o f = BXOR" "ins_o f' = BXOR" "ins_t f' = ins_t f"
    "opd J' (int64 (ins_t f)) (ins_op1 f')" "opd J' (int64 (ins_t f)) (ins_op2 f')"
    "int64 (ins_t f) \<Longrightarrow> ref_o J' (ins_op1 f') \<noteq> KINT \<and> ref_o J' (ins_op2 f') \<noteq> KINT"
  shows "fins_ok J' f'"
  using assms fins_width [OF assms(1)] by (auto simp: fins_ok_def typed_def Let_def op_classes)

lemma reassoc_intarith_k64_ok:
  assumes wf: "wf_ir J" and ok: "fins_ok J f" and op: "ins_o f \<in> {ADD, MUL, BAND, BOR, BXOR}" and l: "ref_o J (ins_op1 f) = ins_o f"
    and k: "ref_o J (ins_op2 f) = KINT64"
  shows "rule_ok J f (reassoc_intarith_k64 J f)"
proof -
  let ?irk = "cur_ir J (ins_op2 (fleft J f))"
  let ?k = "kfold_int64arith_op (ins_k64 ?irk) (ins_k64 (fright J f)) (ins_o f)"
  have ra: "ins_o f \<in> reassoc_ops" using op by (auto simp: reassoc_ops_def)
  note P = reassoc_ops_facts [OF ra]
  have na: "ins_o f \<noteq> ABC" "ins_o f \<notin> {ABC, BNOT, BSWAP}" "ins_o f \<notin> {BSWAP, ABC}" "ins_o f \<noteq> BNOT" using P(4) by auto
  note L = left_operand [OF wf ok na(1), unfolded l, OF P(2)]
  have o2: "opd J (int64 (ins_t f)) (ins_op2 f)" using fins_opd2 [OF ok na(2)] P(3) by simp
  have w: "int64 (ins_t f)" by (rule operand_KINT64(1) [OF wf o2 k])
  have "rule_ok J f (with_kint64 J ?k (\<lambda>r. RETRYFOLD (f\<lparr>ins_op1 := ins_op1 (fleft J f), ins_op2 := r\<rparr>)))"
    if c: "ins_o ?irk = KINT64"
  proof (rule rule_with_kint64 [OF wf])
    fix J' r
    assume g: "grows J J'" and r: "opd J' True r" "cur_ir J' r = kint64_ins ?k" "r < REF_BIAS" and val: "\<And>\<rho>. run J' \<rho> \<Longrightarrow> \<rho> r = ?k"
    let ?f = "f\<lparr>ins_op1 := ins_op1 (fleft J f), ins_op2 := r\<rparr>"
    have o1: "opd J' (int64 (ins_t f)) (ins_op1 (fleft J f))" by (rule opd_grows [OF g L(1)])
    have nb: "ref_o J' (ins_op1 (fleft J f)) \<noteq> KINT" if "ins_o f = BXOR"
    proof -
      have "typed J (fleft J f)" "int64 (ins_t (fleft J f))"
        using operand_ins(1,6) [OF wf fins_opd1 [OF ok na(1)]] l P(5) w by (auto simp: fleft_def)
      then have "ref_o J (ins_op1 (fleft J f)) \<noteq> KINT" using that l by (auto simp: typed_def Let_def fleft_def)
      then show ?thesis using growsD(2) [OF g] opd_valid [OF L(1)] by (simp add: extends_def)
    qed
    show "rule_ok J f (J', RETRYFOLD ?f)"
    proof (rule fold_to_retry_64 [OF g ok na(3) w])
      show "fins_ok J' ?f"
      proof (cases "ins_o f = BXOR")
        case True
        show ?thesis using True r o1 w nb [OF True] by (intro fins_ok_bxor [OF ok True]) (auto simp: kint64_ins_def)
      next
        case False
        then show ?thesis using op r(1) o1 w na(1) by (intro fins_okI [OF ok]) auto
      qed
      show "(fold_order J' ?f, fold_order J f) \<in> lex3" using L(3) refw_const [OF r(3)] by (intro order_refs) auto
      fix \<rho> assume \<rho>: "run J' \<rho>"
      have v: "view J \<rho> (int64 (ins_t f)) \<rho>" using view_64 [OF wf run_extends [OF growsD(2) [OF g] \<rho>]] w by simp
      have V: "\<rho> (ins_op2 (fleft J f)) = ins_k64 ?irk" "\<rho> (ins_op2 f) = ins_k64 (fright J f)"
        using nested_KINT64 [OF wf ok na(1) _ _ _ _ v] l P(2,3) na(4) c right_KINT64(1) [OF ok na(2) P(3) k v] by auto
      have "sem_w (ins_o f) (ins_k64 ?irk) (ins_k64 (fright J f)) = Done ?k" using op by auto
      then show "sem_view f \<rho> \<in> {sem_view ?f \<rho>, Undef}"
        using sem_w_assoc [OF ra L(5) [OF v], of "\<rho> (ins_op2 f)" ?k] val [OF \<rho>] by (simp add: V)
    qed (use w na in auto)
  qed
  then show ?thesis by (simp add: reassoc_intarith_k64_def Let_def)
qed

lemma reassoc_dup_ok:
  assumes wf: "wf_ir J" and ok: "fins_ok J f" and op: "ins_o f \<in> {BAND, BOR}" and l: "ref_o J (ins_op1 f) = ins_o f"
  shows "rule_ok J f (reassoc_dup J f)"
proof -
  have p: "plain (ref_o J (ins_op1 f))" "ins_o f \<noteq> ABC" using op l by auto
  note L = left_operand [OF wf ok p(2,1)]
  have law: "sem_view f V \<in> {Done (V (ins_op1 f)), Undef}"
    if "view J \<rho> (int64 (ins_t f)) V" "ins_op2 f = ins_op1 (fleft J f) \<or> ins_op2 f = ins_op2 (fleft J f)"
    for \<rho> and V :: "nat \<Rightarrow> 'x::len word"
    using L(5) [OF that(1)] that(2) op l by (auto simp: ac_simps)
  have "rule_ok J f (J, LEFTFOLD f)" if "ins_op2 f = ins_op1 (fleft J f) \<or> ins_op2 f = ins_op2 (fleft J f)"
    unfolding LEFTFOLD_def using op fins_opd1 [OF ok] that by (intro fold_to_ref [OF wf ok] law) auto
  then show ?thesis by (simp add: reassoc_dup_def)
qed

lemma reassoc_dup_minmax_ok:
  assumes wf: "wf_ir J" and ok: "fins_ok J f" and op: "ins_o f \<in> {IR_MIN, IR_MAX}" and l: "ref_o J (ins_op1 f) = ins_o f"
  shows "rule_ok J f (reassoc_dup_minmax J f)"
proof -
  have p: "plain (ref_o J (ins_op1 f))" "ins_o f \<noteq> ABC" using op l by auto
  note L = left_operand [OF wf ok p(2,1)]
  have law: "sem_view f V \<in> {Done (V (ins_op1 f)), Undef}"
    if "view J \<rho> (int64 (ins_t f)) V" "ins_op2 f = ins_op2 (fleft J f)" for \<rho> and V :: "nat \<Rightarrow> 'x::len word"
    using L(5) [OF that(1)] that(2) op l by (auto split: if_splits)
  have "rule_ok J f (J, LEFTFOLD f)" if "ins_op2 f = ins_op2 (fleft J f)"
    unfolding LEFTFOLD_def using op fins_opd1 [OF ok] that by (intro fold_to_ref [OF wf ok] law) auto
  then show ?thesis by (simp add: reassoc_dup_minmax_def)
qed

lemma reassoc_bxor_ok:
  assumes wf: "wf_ir J" and ok: "fins_ok J f" and op: "ins_o f = BXOR" and l: "ref_o J (ins_op1 f) = BXOR"
  shows "rule_ok J f (reassoc_bxor J f)"
proof -
  note L = left_operand [OF wf ok, simplified op l, simplified]
  have law1: "sem_view f V \<in> {Done (V (ins_op2 (fleft J f))), Undef}"
    if "view J \<rho> (int64 (ins_t f)) V" "ins_op2 f = ins_op1 (fleft J f)" for \<rho> and V :: "nat \<Rightarrow> 'x::len word"
    using L(5) [OF that(1)] that(2) op by (simp add: xor.commute [of "V (ins_op1 (fleft J f))"] xor.assoc)
  have law2: "sem_view f V \<in> {Done (V (ins_op1 (fleft J f))), Undef}"
    if "view J \<rho> (int64 (ins_t f)) V" "ins_op2 f = ins_op2 (fleft J f)" for \<rho> and V :: "nat \<Rightarrow> 'x::len word"
    using L(5) [OF that(1)] that(2) op by (simp add: xor.assoc)
  have "rule_ok J f (J, REFFOLD (ins_op2 (fleft J f)))" if "ins_op2 f = ins_op1 (fleft J f)"
    using op L(2) that by (intro fold_to_ref [OF wf ok] law1) auto
  moreover have "rule_ok J f (J, REFFOLD (ins_op1 (fleft J f)))" if "ins_op2 f = ins_op2 (fleft J f)"
    using op L(1) that by (intro fold_to_ref [OF wf ok] law2) auto
  ultimately show ?thesis by (simp add: reassoc_bxor_def)
qed

subsection \<open>Shifts by constants\<close>

lemma rotl_roti: "word_rotl n x = word_roti (- int n) x" and rotr_roti: "word_rotr n x = word_roti (int n) x"
  for x :: "'a::len word"
  by (cases "n = 0"; simp)+

lemma word_rot_add: "word_rotl m (word_rotl n x) = word_rotl (m + n) x" "word_rotr m (word_rotr n x) = word_rotr (m + n) x"
  for x :: "'a::len word"
  by (simp_all only: rotl_roti rotr_roti word_roti_add [symmetric] of_nat_add minus_add_distrib)

lemma word_rot_mod: "word_rotl (n mod LENGTH('a)) x = word_rotl n x" "word_rotr (n mod LENGTH('a)) x = word_rotr n x"
  for x :: "'a::len word"
  by (rule bit_word_eqI, simp add: bit_simps mod_simps)+

lemma sar_saturates: "LENGTH('a) \<le> n \<Longrightarrow> signed_drop_bit n x = signed_drop_bit (LENGTH('a) - 1) x" for x :: "'a::len word"
  by (rule bit_word_eqI, case_tac "na = 0") (auto simp: bit_simps min_def)

text \<open>Two shifts in a row, and the count that replaces them.\<close>

lemma shift_twice:
  fixes x b c d :: "'a::len word"
  assumes "is_shift op" "Done y = sem_w op x b"
    and "shcount d = shcount b + shcount c \<or>
      op = BSAR \<and> LENGTH('a) \<le> shcount b + shcount c \<and> shcount d = LENGTH('a) - 1 \<or>
      op \<in> {BROL, BROR} \<and> shcount d = (shcount b + shcount c) mod LENGTH('a)"
  shows "sem_w op y c = sem_w op x d"
proof -
  consider "shcount d = shcount b + shcount c" |
    "op = BSAR" "LENGTH('a) \<le> shcount b + shcount c" "shcount d = LENGTH('a) - 1" |
    "op \<in> {BROL, BROR}" "shcount d = (shcount b + shcount c) mod LENGTH('a)"
    using assms(3) by blast
  then show ?thesis
  proof cases
    case 1
    then show ?thesis using assms(1,2) by (auto simp: is_shift_def word_rot_add add.commute)
  next
    case 2
    then show ?thesis using assms(2) sar_saturates [of "shcount b + shcount c" x] by (simp add: add.commute)
  next
    case 3
    then show ?thesis using assms(2) by (auto simp: word_rot_add word_rot_mod add.commute)
  qed
qed

lemma shift_out:
  fixes x b c :: "'a::len word"
  assumes "op \<in> {BSHL, BSHR}" "Done y = sem_w op x b" "LENGTH('a) \<le> shcount b + shcount c"
  shows "sem_w op y c = Done 0"
proof -
  have "push_bit n x = 0" if "LENGTH('a) \<le> n" for n using that by (rule push_bit_word_beyond)
  moreover have "drop_bit n x = 0" if "LENGTH('a) \<le> n" for n using that by (rule drop_bit_word_beyond)
  ultimately show ?thesis using assms by (auto simp: add.commute)
qed

lemma view_extends:
  assumes "extends J J'" "view J' \<rho> w V"
  shows "view J \<rho> w V"
proof -
  have e: "opd J' u r \<and> cur_ir J' r = cur_ir J r" if "opd J u r" for u r
    using opd_extends [OF assms(1) that] assms(1) opd_valid [OF that] by (simp add: extends_def)
  show ?thesis
    unfolding view_def
  proof (intro conjI allI impI)
    show "LENGTH('a) = (if w then 64 else 32)" by (rule view_length [OF assms(2)])
    fix r
    show "sem_view (cur_ir J r) V = Done (V r)" if "opd J w r" "plain (ref_o J r)"
      using view_ins [OF assms(2), of r] e [OF that(1)] that(2) by simp
    show "V r = ucast (ins_i (cur_ir J r))" if "opd J w r" "ref_o J r = KINT"
      using view_KINT(1) [OF assms(2), of r] e [OF that(1)] that(2) by simp
    show "ins_i (cur_ir J r) = 0" if "opd J w r" "ref_o J r = KINT" w
      using view_KINT(2) [OF assms(2), of r] e [OF that(1)] that(2,3) by simp
    show w "V r = ucast (ins_k64 (cur_ir J r))" if "opd J w r" "ref_o J r = KINT64"
      using view_KINT64 [OF assms(2), of r] e [OF that(1)] that(2) by simp_all
    show "V r = ucast (v32 \<rho> r)" if "opd J False r"
      using view_count [OF assms(2), of r] e [OF that] by simp
  qed
qed

lemma shift_sum:
  fixes a b m :: u32
  assumes "m = 31 \<or> m = 63"
  shows "unat ((a AND m) + (b AND m)) = unat (a AND m) + unat (b AND m)"
    "sint ((a AND m) + (b AND m)) > sint m \<longleftrightarrow> Suc (unat m) \<le> unat (a AND m) + unat (b AND m)"
    "unat (a AND m) \<le> unat m" "unat (b AND m) \<le> unat m"
proof -
  have m63: "unat m \<le> 63" using assms by auto
  show le: "unat (a AND m) \<le> unat m" "unat (b AND m) \<le> unat m"
    using word_and_le1 [of a m] word_and_le1 [of b m] by (simp_all add: word_le_nat_alt)
  then show s: "unat ((a AND m) + (b AND m)) = unat (a AND m) + unat (b AND m)"
    using m63 by (intro unat_add_lem [THEN iffD1]) simp
  have small: "sint x = int (unat x)" if "unat x < 2 ^ 31" for x :: u32
    using that by (simp add: sint_of_small del: of_nat_unat)
  show "sint ((a AND m) + (b AND m)) > sint m \<longleftrightarrow> Suc (unat m) \<le> unat (a AND m) + unat (b AND m)"
    using small [of "(a AND m) + (b AND m)"] small [of m] s le m63 by (simp del: of_nat_unat uint_nat) linarith
qed

lemma reassoc_shift_ok:
  assumes wf: "wf_ir J" and ok: "fins_ok J f" and op: "is_shift (ins_o f)" and l: "ref_o J (ins_op1 f) = ins_o f"
    and k: "ref_o J (ins_op2 f) = KINT"
  shows "rule_ok J f (reassoc_shift J f)"
proof -
  let ?irk = "cur_ir J (ins_op2 (fleft J f))" and ?m = "shmask f"
  let ?a = "ins_i ?irk AND ?m" and ?b = "ins_i (fright J f) AND ?m"
  note o = shift_opds [OF ok op]
  have p: "plain (ref_o J (ins_op1 f))" "ref_o J (ins_op1 f) \<noteq> BNOT" using l op by (auto simp: is_shift_def)
  note L = left_operand [OF wf ok o(4) p(1)]
  have ok2: "opd J False (ins_op2 (fleft J f))" using L(2) [OF p(2)] l op by simp
  have m: "?m = (if int64 (ins_t f) then 63 else 31)" "?m = 31 \<or> ?m = 63" using shmask_64 [OF ok o(4)] by auto
  note S = shift_sum(1,2) [OF m(2), of "ins_i ?irk" "ins_i (fright J f)"] shift_sum(3) [OF m(2)]
  have counts: "shcount (V (ins_op2 (fleft J f))) = unat ?a" "shcount (V (ins_op2 f)) = unat ?b" "LENGTH('x) = Suc (unat ?m)"
    "Done (V (ins_op1 f)) = sem_w (ins_o f) (V (ins_op1 (fleft J f))) (V (ins_op2 (fleft J f)))"
    if "run J \<rho>" "view J \<rho> (int64 (ins_t f)) V" "ins_o ?irk = KINT" for \<rho> and V :: "nat \<Rightarrow> 'x::len word"
    using shift_count_const [OF ok op ok2 that(3,1,2)] shift_count_const [OF ok op o(2) k that(1,2)]
      view_length [OF that(2)] m(1) L(5) [OF that(2)] l
    by (simp_all add: fright_def)
  have zero: "rule_ok J f (if ?m = 31 then (J, KINTFOLD 0) else INT64FOLD J 0)"
    if c: "ins_o ?irk = KINT" and big: "Suc (unat ?m) \<le> unat ?a + unat ?b" and s: "ins_o f = BSHL \<or> ins_o f = BSHR"
  proof -
    have law: "sem_view f V = Done 0" if "run J \<rho>" "view J \<rho> (int64 (ins_t f)) V" for \<rho> and V :: "nat \<Rightarrow> 'x::len word"
      using shift_out [OF _ counts(4) [OF that c], of "V (ins_op2 f)"] counts [OF that c] big s by simp
    have "rule_ok J f (if irt_is64 (ins_t f) then INT64FOLD J 0 else (J, KINTFOLD 0))"
      using o by (intro fold_to_zero [OF wf ok] law) auto
    then show ?thesis by (simp add: shmask_def split: if_splits)
  qed
  have again: "rule_ok J f (with_kint J n (\<lambda>r. RETRYFOLD (f\<lparr>ins_op1 := ins_op1 (fleft J f), ins_op2 := r\<rparr>)))"
    if c: "ins_o ?irk = KINT" and n: "unat (n AND ?m) = unat ?a + unat ?b \<or>
      ins_o f = BSAR \<and> Suc (unat ?m) \<le> unat ?a + unat ?b \<and> unat (n AND ?m) = unat ?m \<or>
      ins_o f \<in> {BROL, BROR} \<and> unat (n AND ?m) = (unat ?a + unat ?b) mod Suc (unat ?m)" for n
  proof (rule rule_with_kint [OF wf])
    fix J' r
    assume g: "grows J J'" and r: "opd J' False r" "cur_ir J' r = kint_ins n" "r < REF_BIAS"
    let ?f = "f\<lparr>ins_op1 := ins_op1 (fleft J f), ins_op2 := r\<rparr>"
    have ok': "fins_ok J' ?f" by (rule fins_ok_count [OF ok op g r(1) opd_grows [OF g L(1)]])
    have law: "sem_view f V \<in> {sem_view ?f V, Undef}" if \<rho>: "run J' \<rho>" and v': "view J' \<rho> (int64 (ins_t f)) V"
      for \<rho> and V :: "nat \<Rightarrow> 'x::len word"
    proof -
      note v = run_extends [OF growsD(2) [OF g] \<rho>] view_extends [OF growsD(2) [OF g] v']
      have "shcount (V r) = unat (n AND ?m)"
        using shift_count_const [OF ok' _ r(1) _ \<rho>, of V] v' op r(2) by (simp add: shmask_def)
      with shift_twice [OF op counts(4) [OF v c], of "V r" "V (ins_op2 f)"] counts [OF v c] n show ?thesis by auto
    qed
    show "rule_ok J f (J', RETRYFOLD ?f)"
      using o L(3) refw_const [OF r(3)] ok' by (intro fold_to_retry [OF g ok] order_refs law) auto
  qed
  have "unat ((?a + ?b) AND ?m) = (unat ?a + unat ?b) mod Suc (unat ?m)"
    using unat_and_shmask [of "?a + ?b" "int64 (ins_t f)"] S(1) m(1) by (simp split: if_splits)
  then have n: "unat (?m AND ?m) = unat ?m" "unat ((?a + ?b) AND ?m AND ?m) = (unat ?a + unat ?b) mod Suc (unat ?m)"
    "unat ?a + unat ?b < Suc (unat ?m) \<Longrightarrow> unat ((?a + ?b) AND ?m) = unat ?a + unat ?b"
    by simp_all
  have rot: "ins_o f \<in> {BROL, BROR}" if "ins_o f \<notin> {BSHL, BSHR, BSAR}" using op that by (auto simp: is_shift_def)
  show ?thesis
  proof (cases "Suc (unat ?m) \<le> unat ?a + unat ?b")
    case True
    then show ?thesis
      using zero again [of ?m] again [of "(?a + ?b) AND ?m"] n(1,2) rot S(2)
      by (auto simp: reassoc_shift_def Let_def and.assoc)
  next
    case False
    then show ?thesis
      using again [of "?a + ?b"] n(3) S(2) by (auto simp: reassoc_shift_def Let_def)
  qed
qed

section \<open>Array bounds check elimination\<close>

lemma const_KINT_32: "wf_ir J \<Longrightarrow> opd J False r \<Longrightarrow> irref_isk r \<Longrightarrow> ref_o J r = KINT"
  using opd_const [of J False r] by (simp add: irref_isk_def)

lemma abc_holds:
  assumes "wf_ir J" "run J \<rho>" "r \<in> set (chain J ABC)"
  shows "v32 \<rho> (ins_op2 (cur_ir J r)) < v32 \<rho> (ins_op1 (cur_ir J r))"
proof -
  have c: "REF_BIAS \<le> r \<and> r < cur_nins J \<and> ref_o J r = ABC" using wf_chainD [OF assms(1) _ assms(3)] by (simp add: is_const_def)
  then have "sem_ins \<rho> (cur_ir J r) = Done (\<rho> r)" using run_ins [OF assms(2), of r] by (simp add: valid_def op_classes)
  then show ?thesis using sem_ins_abc [of "cur_ir J r" \<rho>] c by (auto simp: guard_def split: if_splits)
qed

lemma abc_fwd_ok:
  assumes wf: "wf_ir J" and ok: "fins_ok J f" and op: "ins_o f = ABC" and r: "ref_o J (ins_op2 f) = ADD"
  shows "rule_ok J f (abc_fwd J f)"
proof -
  let ?r = "fright J f"
  let ?add2 = "cur_ir J (ins_op1 ?r)"
  note o = abc_opds [OF ok op]
  have o2: "opd J False (ins_op1 ?r)" "opd J False (ins_op2 ?r)"
    using operand_opd [OF wf o(2)] r by (simp_all add: fright_def op_classes)
  have "sem_ins \<rho> f = Done 0"
    if c: "irref_isk (ins_op2 ?r)" "ins_o ?add2 = ADD" "irref_isk (ins_op2 ?add2)"
        "ins_i (cur_ir J (ins_op2 ?r)) = - ins_i (cur_ir J (ins_op2 ?add2))"
      and ref: "ref \<in> set (chain J ABC)" "ins_op1 (cur_ir J ref) = ins_op1 f" "ins_op2 (cur_ir J ref) = ins_op1 ?add2"
      and \<rho>: "run J \<rho>" for ref \<rho>
  proof -
    have o3: "opd J False (ins_op2 ?add2)" using operand_opd(2) [OF wf o2(1)] c(2) by (simp add: op_classes)
    have "v32 \<rho> (ins_op2 f) = v32 \<rho> (ins_op1 ?r) + ins_i (cur_ir J (ins_op2 ?r))"
      using operand_32 [OF wf \<rho> o(2)] operand_KINT_32 [OF \<rho> o2(2) const_KINT_32 [OF wf o2(2) c(1)]] r
      by (simp add: fright_def op_classes)
    moreover have "v32 \<rho> (ins_op1 ?r) = v32 \<rho> (ins_op1 ?add2) + ins_i (cur_ir J (ins_op2 ?add2))"
      using operand_32 [OF wf \<rho> o2(1)] operand_KINT_32 [OF \<rho> o3 const_KINT_32 [OF wf o3 c(3)]] c(2) by (simp add: op_classes)
    ultimately have "v32 \<rho> (ins_op2 f) = v32 \<rho> (ins_op1 ?add2)" using c(4) by simp
    then show ?thesis using abc_holds [OF wf \<rho> ref(1)] ref(2,3) sem_ins_abc [OF op] by (simp add: guard_def)
  qed
  then show ?thesis by (auto simp: abc_fwd_def Let_def dest!: set_takeWhileD intro!: rule_drop [OF wf])
qed

text \<open>Raising the constant of an earlier check.\<close>

definition patch_op2 :: "jit_State \<Rightarrow> nat \<Rightarrow> nat \<Rightarrow> jit_State" where
  "patch_op2 J ref k = J\<lparr>cur_ir := (cur_ir J)(ref := (cur_ir J ref)\<lparr>ins_op2 := k\<rparr>)\<rparr>"

lemma patch_fields [simp]:
  "chain (patch_op2 J ref k) = chain J" "cur_nins (patch_op2 J ref k) = cur_nins J" "cur_nk (patch_op2 J ref k) = cur_nk J"
  "ref_o (patch_op2 J ref k) r = ref_o J r" "ref_t (patch_op2 J ref k) r = ref_t J r"
  "ins_i (cur_ir (patch_op2 J ref k) r) = ins_i (cur_ir J r)" "ins_k64 (cur_ir (patch_op2 J ref k) r) = ins_k64 (cur_ir J r)"
  "opt_fold (patch_op2 J ref k) = opt_fold J" "opt_cse (patch_op2 J ref k) = opt_cse J" "opt_abc (patch_op2 J ref k) = opt_abc J"
  by (simp_all add: patch_op2_def)

lemma patch_ir: "cur_ir (patch_op2 J ref k) r = (if r = ref then (cur_ir J ref)\<lparr>ins_op2 := k\<rparr> else cur_ir J r)"
  by (simp add: patch_op2_def)

lemma patch_same [simp]:
  "valid (patch_op2 J ref k) = valid J" "opd (patch_op2 J ref k) = opd J"
  "typed (patch_op2 J ref k) = typed J" "canonical (patch_op2 J ref k) = canonical J"
  by (intro ext, simp add: valid_def opd_def typed_def canonical_def Let_def)+

lemma patch_wf:
  assumes wf: "wf_ir J" and ref: "ref \<in> set (chain J ABC)" and k: "opd J False k" "k < REF_BIAS"
  shows "wf_ir (patch_op2 J ref k)"
proof -
  have c: "REF_BIAS \<le> ref" "ref < cur_nins J" "ref_o J ref = ABC" using wf_chainD [OF wf _ ref] by (auto simp: is_const_def)
  have "wf_ins (patch_op2 J ref k) r" if "REF_BIAS \<le> r" "r < cur_nins J" for r
  proof -
    have "wf_ins J r" by (rule wf_insD [OF wf that])
    then show ?thesis
      using c k by (auto simp: wf_ins_def Let_def typed_def canonical_def op_classes patch_ir)
  qed
  moreover have "cur_ir (patch_op2 J ref k) r = cur_ir J r" if "r < REF_BIAS" for r using that c(1) by (auto simp: patch_ir)
  ultimately show ?thesis using wf by (simp add: wf_ir_def)
qed

lemma abc_patch_ok:
  assumes wf: "wf_ir J" and ok: "fins_ok J f" and op: "ins_o f = ABC" and k: "ref_o J (ins_op2 f) = KINT"
    and ref: "ref \<in> set (chain J ABC)" "ins_op1 (cur_ir J ref) = ins_op1 f" "irref_isk (ins_op2 (cur_ir J ref))"
    and less: "ins_i (fright J f) > ins_i (cur_ir J (ins_op2 (cur_ir J ref)))"
  shows "rule_ok J f (patch_op2 J ref (ins_op2 f), DROPFOLD)"
proof -
  let ?J = "patch_op2 J ref (ins_op2 f)"
  note o = abc_opds [OF ok op]
  have c: "REF_BIAS \<le> ref" "ref < cur_nins J" "ref_o J ref = ABC" using wf_chainD [OF wf _ ref(1)] by (auto simp: is_const_def)
  have kv: "v32 \<rho> (ins_op2 f) = ins_i (fright J f)" if "completes J \<rho> (ins_op2 f)" for \<rho>
    using that k by (simp add: completes_def fright_def)
  have k0: "opd J False (ins_op2 (cur_ir J ref))" using wf_insD [OF wf c(1,2)] c(3) by (auto simp: wf_ins_def typed_def op_classes Let_def)
  have kc: "ref_o J (ins_op2 (cur_ir J ref)) = KINT" by (rule const_KINT_32 [OF wf k0 ref(3)])
  have abc: "completes J \<rho> ref \<longleftrightarrow> v32 \<rho> (ins_op2 (cur_ir J ref)) < v32 \<rho> (ins_op1 f) \<and> \<rho> ref = 0"
    "completes ?J \<rho> ref \<longleftrightarrow> v32 \<rho> (ins_op2 f) < v32 \<rho> (ins_op1 f) \<and> \<rho> ref = 0" for \<rho>
    using c(3) ref(2) sem_ins_abc [of "cur_ir J ref" \<rho>] sem_ins_abc [of "(cur_ir J ref)\<lparr>ins_op2 := ins_op2 f\<rparr>" \<rho>]
    by (auto simp: completes_def Let_def patch_ir op_classes guard_def)
  have other: "completes ?J \<rho> r = completes J \<rho> r" if "r \<noteq> ref" for \<rho> r using that by (simp add: completes_def patch_ir)
  have v: "valid J ref" "valid J (ins_op2 f)" "valid J (ins_op2 (cur_ir J ref))"
    using c o k0 by (auto simp: valid_def opd_def)
  have ne: "ins_op2 f \<noteq> ref" "ins_op2 (cur_ir J ref) \<noteq> ref" using k kc c(3) by auto
  have runs: "run ?J \<rho> \<longleftrightarrow> run J \<rho> \<and> v32 \<rho> (ins_op2 f) < v32 \<rho> (ins_op1 f)" for \<rho>
  proof -
    have "v32 \<rho> (ins_op2 (cur_ir J ref)) < v32 \<rho> (ins_op2 f)"
      if "completes J \<rho> (ins_op2 f)" "completes J \<rho> (ins_op2 (cur_ir J ref))"
      using kv [OF that(1)] that(2) kc less by (simp add: completes_def)
    then have "completes J \<rho> ref \<and> v32 \<rho> (ins_op2 f) < v32 \<rho> (ins_op1 f) \<longleftrightarrow> completes ?J \<rho> ref"
      if "completes J \<rho> (ins_op2 f)" "completes J \<rho> (ins_op2 (cur_ir J ref))"
      using abc [of \<rho>] that by auto
    then show ?thesis unfolding run_def using other v ne by (metis patch_same(1))
  qed
  have r: "implements J f ?J (\<lambda>_. 0)"
    unfolding implements_def
  proof (intro conjI allI impI)
    show "wf_ir ?J" using patch_wf [OF wf ref(1) o(2)] const_refw wf_kint(2) [OF wf] valid_KINT_iff [OF wf v(2)] k by blast
    fix \<rho>
    show "run J \<rho>" if "run ?J \<rho>" using runs that by blast
    show "sem_ins \<rho> f = Done 0 \<or> sem_ins \<rho> f = Undef" if "run ?J \<rho>"
      using runs that sem_ins_abc [OF op] by (auto simp: guard_def)
    show "\<exists>\<rho>'. run ?J \<rho>' \<and> agree J \<rho> \<rho>' \<and> 0 = x" if "run J \<rho>" "sem_ins \<rho> f = Done x" for x
      using runs that sem_ins_abc [OF op, of \<rho>] by (intro exI [of _ \<rho>]) (auto simp: guard_def split: if_splits)
  qed
  then show ?thesis using op by (simp add: rule_ok_def same_flags_def)
qed

lemma abc_k_ok:
  assumes wf: "wf_ir J" and ok: "fins_ok J f" and op: "ins_o f = ABC" and k: "ref_o J (ins_op2 f) = KINT"
  shows "rule_ok J f (abc_k J f)"
proof (cases "find (\<lambda>ref. ins_op1 (cur_ir J ref) = ins_op1 f \<and> irref_isk (ins_op2 (cur_ir J ref)))
    (takeWhile (\<lambda>ref. ins_op1 f < ref) (chain J ABC))")
  case None
  have em: "emittable J f" using ok op by (auto simp: emittable_def fins_ok_def canonical_def)
  obtain J' r where e: "lj_ir_emit J f = (J', r)" by (cases "lj_ir_emit J f")
  show ?thesis using None emit_result [OF wf e em] e by (simp add: abc_k_def rule_ok_def)
next
  case (Some ref)
  have ref: "ref \<in> set (chain J ABC)" "ins_op1 (cur_ir J ref) = ins_op1 f" "irref_isk (ins_op2 (cur_ir J ref))"
    using find_cases(1) [OF Some] by (auto dest: set_takeWhileD)
  note o = abc_opds [OF ok op]
  have k0: "opd J False (ins_op2 (cur_ir J ref))" "ref_o J (ins_op2 (cur_ir J ref)) = KINT"
  proof -
    have "REF_BIAS \<le> ref" "ref < cur_nins J" "ref_o J ref = ABC" using wf_chainD [OF wf _ ref(1)] by (auto simp: is_const_def)
    then show "opd J False (ins_op2 (cur_ir J ref))"
      using wf_insD [OF wf, of ref] by (auto simp: wf_ins_def typed_def op_classes Let_def)
    then show "ref_o J (ins_op2 (cur_ir J ref)) = KINT" using const_KINT_32 [OF wf _ ref(3)] by simp
  qed
  have "rule_ok J f (J, DROPFOLD)" if le: "\<not> ins_i (fright J f) > ins_i (cur_ir J (ins_op2 (cur_ir J ref)))"
  proof (rule rule_drop [OF wf])
    fix \<rho> assume \<rho>: "run J \<rho>"
    have "v32 \<rho> (ins_op2 f) \<le> v32 \<rho> (ins_op2 (cur_ir J ref))"
      using operand_KINT_32 [OF \<rho> o(2) k] operand_KINT_32 [OF \<rho> k0] le by (simp add: fright_def not_less)
    then show "sem_ins \<rho> f = Done 0" using abc_holds [OF wf \<rho> ref(1)] ref(2) sem_ins_abc [OF op] by (simp add: guard_def)
  qed
  with abc_patch_ok [OF wf ok op k ref] Some show ?thesis by (simp add: abc_k_def patch_op2_def [symmetric])
qed

lemma abc_invar_ok: "fins_ok J f \<Longrightarrow> ins_o f = ABC \<Longrightarrow> rule_ok J f (abc_invar J f)"
  by (auto simp: abc_invar_def fins_ok_def)

section \<open>Commutativity\<close>

lemma commutes_facts:
  "commutes op \<Longrightarrow> op \<notin> {ABC, BNOT, BSWAP, DIV, POW, MOD, BSHR, BROL, BROR, SUB}" "commutes op \<Longrightarrow> \<not> is_shift op"
  "commutes op \<Longrightarrow> \<not> is_const op \<and> \<not> is_opaque op"
  by (auto simp: commutes_def comparisons_def op_classes)

lemma swap_fields [simp]:
  "ins_o (swap_ops f) = ins_o f" "ins_t (swap_ops f) = ins_t f" "ins_op1 (swap_ops f) = ins_op2 f" "ins_op2 (swap_ops f) = ins_op1 f"
  by (simp_all add: swap_ops_def)

lemma fins_ok_swap:
  assumes "fins_ok J f" "commutes (ins_o f)" "commutes op" "ins_o f = BXOR \<longleftrightarrow> op = BXOR" "only32 op \<longleftrightarrow> only32 (ins_o f)"
  shows "fins_ok J ((swap_ops f)\<lparr>ins_o := op\<rparr>)"
  using assms commutes_facts [OF assms(2)] commutes_facts [OF assms(3)]
  by (auto simp: fins_ok_def typed_def Let_def)

lemma swap_order:
  assumes "commutes (ins_o f)" "commutes op" "ins_op1 f < ins_op2 f" "fold_group op = fold_group (ins_o f)"
  shows "(fold_order J ((swap_ops f)\<lparr>ins_o := op\<rparr>), fold_order J f) \<in> lex3"
  using assms commutes_facts [OF assms(1)] commutes_facts [OF assms(2)]
  by (intro order_detail) (auto simp: fold_detail_def)

lemma swap_ok:
  assumes wf: "wf_ir J" and ok: "fins_ok J f" and op: "commutes (ins_o f)" "commutes op" "ins_o f = BXOR \<longleftrightarrow> op = BXOR"
      "only32 op \<longleftrightarrow> only32 (ins_o f)" "fold_group op = fold_group (ins_o f)"
    and less: "ins_op1 f < ins_op2 f"
    and law64: "\<And>a b :: u64. sem_w op a b = sem_w (ins_o f) b a" and law32: "\<And>a b :: u32. sem_w op a b = sem_w (ins_o f) b a"
  shows "rule_ok J f (J, RETRYFOLD ((swap_ops f)\<lparr>ins_o := op\<rparr>))"
  using fins_ok_swap [OF ok op(1-4)] swap_order [OF op(1,2) less op(5)] commutes_facts(1) [OF op(1)] commutes_facts(1) [OF op(2)]
  by (intro fold_to_retry [OF grows_refl [OF wf] ok]) (auto simp: law64 law32)

definition symmetric_ops :: "irop set" where
  "symmetric_ops = {ADD, MUL, ADDOV, MULOV, EQ, NE, BAND, BOR, BXOR}"

lemma sem_w_sym: "op \<in> symmetric_ops \<Longrightarrow> sem_w op a b = sem_w op b a"
  unfolding symmetric_ops_def by (elim insertE) (auto simp: ac_simps eq_commute [of b a])

lemma comm_swap_ok:
  assumes wf: "wf_ir J" and ok: "fins_ok J f" and op: "ins_o f \<in> symmetric_ops"
  shows "rule_ok J f (comm_swap J f)"
proof -
  have c: "commutes (ins_o f)" using op by (auto simp: symmetric_ops_def commutes_def)
  have "(swap_ops f)\<lparr>ins_o := ins_o f\<rparr> = swap_ops f" by (simp add: swap_ops_def)
  with swap_ok [OF wf ok c c _ _ _ _ sem_w_sym [OF op] sem_w_sym [OF op]] show ?thesis by (simp add: comm_swap_def)
qed

lemma comm_equal_ok:
  assumes wf: "wf_ir J" and ok: "fins_ok J f" and op: "ins_o f \<in> {EQ, NE}"
  shows "rule_ok J f (comm_equal J f)"
proof -
  have cmp: "ins_o f \<in> cmps" "ins_o f \<in> symmetric_ops" using op by (auto simp: cmps_def symmetric_ops_def)
  have "rule_ok J f (J, CONDFOLD (ins_o f = EQ))" if "ins_op1 f = ins_op2 f"
    using sem_ins_cmp [OF ok cmp(1)] that op by (intro rule_cond [OF wf]) auto
  with comm_swap_ok [OF wf ok cmp(2)] show ?thesis by (simp add: comm_equal_def)
qed

text \<open>The opcode arithmetic on comparisons.\<close>

lemma comparison_numbers:
  assumes "op \<in> set comparisons"
  shows "comparisons ! (cmp_num op XOR 3) \<in> set comparisons"
    "sem_w (comparisons ! (cmp_num op XOR 3)) a b = sem_w op b a"
    "(cmp_num op XOR (cmp_num op div 2)) AND 1 = 1 \<longleftrightarrow> cmp_holds op a a"
proof -
  have mirror: "comparisons ! (cmp_num LT XOR 3) = GT" "comparisons ! (cmp_num GE XOR 3) = LE"
    "comparisons ! (cmp_num LE XOR 3) = GE" "comparisons ! (cmp_num GT XOR 3) = LT"
    "comparisons ! (cmp_num ULT XOR 3) = UGT" "comparisons ! (cmp_num UGE XOR 3) = ULE"
    "comparisons ! (cmp_num ULE XOR 3) = UGE" "comparisons ! (cmp_num UGT XOR 3) = ULT"
    by code_simp+
  have refl: "(cmp_num LT XOR (cmp_num LT div 2)) AND 1 \<noteq> 1" "(cmp_num GE XOR (cmp_num GE div 2)) AND 1 = 1"
    "(cmp_num LE XOR (cmp_num LE div 2)) AND 1 = 1" "(cmp_num GT XOR (cmp_num GT div 2)) AND 1 \<noteq> 1"
    "(cmp_num ULT XOR (cmp_num ULT div 2)) AND 1 \<noteq> 1" "(cmp_num UGE XOR (cmp_num UGE div 2)) AND 1 = 1"
    "(cmp_num ULE XOR (cmp_num ULE div 2)) AND 1 = 1" "(cmp_num UGT XOR (cmp_num UGT div 2)) AND 1 \<noteq> 1"
    by code_simp+
  have op: "op \<in> {LT, GE, LE, GT, ULT, UGE, ULE, UGT}" using assms by (simp add: comparisons_def)
  have "comparisons ! (cmp_num op XOR 3) \<in> {LT, GE, LE, GT, ULT, UGE, ULE, UGT} \<and>
      sem_w (comparisons ! (cmp_num op XOR 3)) a b = sem_w op b a"
    using op by (elim insertE) (simp_all only: mirror, auto)
  then show "comparisons ! (cmp_num op XOR 3) \<in> set comparisons"
    "sem_w (comparisons ! (cmp_num op XOR 3)) a b = sem_w op b a" by (auto simp: comparisons_def)
  show "(cmp_num op XOR (cmp_num op div 2)) AND 1 = 1 \<longleftrightarrow> cmp_holds op a a"
    using op by (elim insertE) (simp_all only: refl, auto)
qed

lemma comm_comp_ok:
  assumes wf: "wf_ir J" and ok: "fins_ok J f" and op: "ins_o f \<in> set comparisons"
  shows "rule_ok J f (comm_comp J f)"
proof -
  let ?n = "cmp_num (ins_o f)"
  let ?op = "comparisons ! (?n XOR 3)"
  have cmp: "ins_o f \<in> cmps" using op by (auto simp: comparisons_def cmps_def)
  have cm: "commutes (ins_o f)" "commutes ?op" "ins_o f = BXOR \<longleftrightarrow> ?op = BXOR" "only32 ?op \<longleftrightarrow> only32 (ins_o f)"
    "fold_group ?op = fold_group (ins_o f)"
    using op comparison_numbers(1) [OF op] by (auto simp: commutes_def comparisons_def op_classes)
  have "rule_ok J f (J, CONDFOLD ((?n XOR (?n div 2)) AND 1 = 1))" if "ins_op1 f = ins_op2 f"
  proof (rule rule_cond [OF wf])
    fix \<rho>
    show "sem_ins \<rho> f = guard ((?n XOR (?n div 2)) AND 1 = 1)"
      using sem_ins_cmp [OF ok cmp, of \<rho>] that comparison_numbers(3) [OF op, of "\<rho> (ins_op1 f)"]
        comparison_numbers(3) [OF op, of "v32 \<rho> (ins_op1 f)"] by simp
  qed
  moreover have "rule_ok J f (J, RETRYFOLD ((swap_ops f)\<lparr>ins_o := ?op\<rparr>))" if "ins_op1 f < ins_op2 f"
    by (rule swap_ok [OF wf ok cm that comparison_numbers(2) [OF op] comparison_numbers(2) [OF op]])
  ultimately show ?thesis by (simp add: comm_comp_def Let_def)
qed

lemma comm_dup_ok:
  assumes wf: "wf_ir J" and ok: "fins_ok J f" and op: "ins_o f \<in> {BAND, BOR}"
  shows "rule_ok J f (comm_dup J f)"
proof -
  have "rule_ok J f (J, LEFTFOLD f)" if "ins_op1 f = ins_op2 f"
    unfolding LEFTFOLD_def using op that fins_opd1 [OF ok] by (intro fold_to_ref [OF wf ok]) auto
  moreover have "rule_ok J f (comm_swap J f)" using op by (intro comm_swap_ok [OF wf ok]) (auto simp: symmetric_ops_def)
  ultimately show ?thesis by (simp add: comm_dup_def)
qed

lemma comm_dup_minmax_ok:
  assumes wf: "wf_ir J" and ok: "fins_ok J f" and op: "ins_o f \<in> {IR_MIN, IR_MAX}"
  shows "rule_ok J f (comm_dup_minmax J f)"
proof -
  have "rule_ok J f (J, LEFTFOLD f)" if "ins_op1 f = ins_op2 f"
    unfolding LEFTFOLD_def using op that fins_opd1 [OF ok] by (intro fold_to_ref [OF wf ok]) auto
  then show ?thesis by (simp add: comm_dup_minmax_def)
qed

lemma comm_bxor_ok:
  assumes wf: "wf_ir J" and ok: "fins_ok J f" and op: "ins_o f = BXOR"
  shows "rule_ok J f (comm_bxor J f)"
proof -
  have "rule_ok J f (if irt_is64 (ins_t f) then INT64FOLD J 0 else (J, KINTFOLD 0))" if "ins_op1 f = ins_op2 f"
    using op that by (intro fold_to_zero [OF wf ok]) auto
  moreover have "rule_ok J f (comm_swap J f)" using op by (intro comm_swap_ok [OF wf ok]) (auto simp: symmetric_ops_def)
  ultimately show ?thesis by (simp add: comm_bxor_def)
qed

end
