(* ===== verification/Fold_Sound.thy ===== *)
theory Fold_Sound
  imports Fold_Reassoc
begin

text \<open>
  The FOLD engine is correct and terminates: with enough fuel \<^verbatim>\<open>lj_opt_fold\<close> has a result, the result
  does not depend on the fuel, and it implements the instruction. The induction is on the order on
  instructions of \<^verbatim>\<open>Fold_Contract\<close>: every retry, and the inner call of \<^verbatim>\<open>simplify_shiftk_andk\<close>, is for a
  smaller instruction.
\<close>

section \<open>The contract of the engine\<close>

text \<open>Guards have no value; only they may be dropped.\<close>

definition guards :: "irop set" where
  "guards = insert ABC cmps"

definition value_rule :: "jit_State \<times> foldres \<Rightarrow> bool" where
  "value_rule jr = (case snd jr of DROPFOLD \<Rightarrow> False | RETRYFOLD f' \<Rightarrow> ins_o f' \<notin> guards | _ \<Rightarrow> True)"

definition step_ok :: "jit_State \<Rightarrow> irins \<Rightarrow> jit_State \<times> foldres \<Rightarrow> bool" where
  "step_ok J f jr \<longleftrightarrow> rule_ok J f jr \<and> (ins_o f \<notin> guards \<longrightarrow> value_rule jr)"

definition fold_ok :: "jit_State \<Rightarrow> irins \<Rightarrow> ferr + jit_State \<times> tref \<Rightarrow> bool" where
  "fold_ok J f res = (case res of
       Inl e \<Rightarrow> e \<noteq> OUT_OF_FUEL \<and>
         (e = LJ_TRERR_GFAIL \<longrightarrow> (\<forall>\<rho>. run J \<rho> \<longrightarrow> sem_ins \<rho> f = Exit \<or> sem_ins \<rho> f = Undef))
     | Inr (J', TREF r) \<Rightarrow> result_ok J f J' r
     | Inr (J', TREF_DROP) \<Rightarrow> ins_o f \<in> guards \<and> implements J f J' (\<lambda>_. 0) \<and> same_flags J J' \<and> (ins_o f \<noteq> ABC \<longrightarrow> extends J J'))"

text \<open>Passing on the result of a rewritten instruction.\<close>

lemma implements_retry:
  assumes ext: "extends J J'" and ty: "typed J f"
    and lift: "\<And>\<rho>. run J \<rho> \<Longrightarrow> \<exists>\<rho>'. run J' \<rho>' \<and> agree J \<rho> \<rho>'"
    and eq: "equiv_ins J' f f'" and im: "implements J' f' J'' v"
  shows "implements J f J'' v"
  unfolding implements_def
proof (intro conjI allI impI)
  show "wf_ir J''" using im by (simp add: implements_def)
  fix \<rho>
  show "run J \<rho>" "sem_ins \<rho> f = Done (v \<rho>) \<or> sem_ins \<rho> f = Undef" if "run J'' \<rho>"
  proof -
    have "run J' \<rho>" "sem_ins \<rho> f' = Done (v \<rho>) \<or> sem_ins \<rho> f' = Undef" using im that by (auto simp: implements_def)
    with eq show "sem_ins \<rho> f = Done (v \<rho>) \<or> sem_ins \<rho> f = Undef" unfolding equiv_ins_def by metis
    show "run J \<rho>" by (rule run_extends [OF ext \<open>run J' \<rho>\<close>])
  qed
  show "\<exists>\<rho>'. run J'' \<rho>' \<and> agree J \<rho> \<rho>' \<and> v \<rho>' = x" if r: "run J \<rho>" and x: "sem_ins \<rho> f = Done x" for x
  proof -
    obtain \<rho>' where \<rho>': "run J' \<rho>'" "agree J \<rho> \<rho>'" using lift [OF r] by auto
    have "sem_ins \<rho>' f' = Done x" using sem_ins_agree [OF ty \<rho>'(2)] x eq \<rho>'(1) by (auto simp: equiv_ins_def)
    then obtain \<rho>'' where "run J'' \<rho>''" "agree J' \<rho>' \<rho>''" "v \<rho>'' = x"
      using im \<rho>'(1) unfolding implements_def by blast
    then show ?thesis using agree_trans [OF ext \<rho>'(2)] by blast
  qed
qed

lemma fold_ok_retry:
  assumes ty: "typed J f" and step: "step_ok J f (J', RETRYFOLD f')" and res: "fold_ok J' f' res"
  shows "fold_ok J f res"
proof -
  have ext: "extends J J'" and fl: "same_flags J J'" and eq: "equiv_ins J' f f'"
    and w: "int64 (ins_t f') = int64 (ins_t f)" "ins_o f' = ABC \<longleftrightarrow> ins_o f = ABC"
    and lift: "\<And>\<rho>. run J \<rho> \<Longrightarrow> \<exists>\<rho>'. run J' \<rho>' \<and> agree J \<rho> \<rho>'"
    using step by (auto simp: step_ok_def rule_ok_def)
  have gd: "ins_o f \<in> guards" if "ins_o f' \<in> guards" using step that by (auto simp: step_ok_def value_rule_def)
  note im = implements_retry [OF ext ty lift eq]
  show ?thesis
  proof (cases res)
    case (Inl e)
    have "sem_ins \<rho> f = Exit \<or> sem_ins \<rho> f = Undef" if e: "e = LJ_TRERR_GFAIL" and r: "run J \<rho>" for \<rho>
    proof -
      obtain \<rho>' where \<rho>': "run J' \<rho>'" "agree J \<rho> \<rho>'" using lift [OF r] by auto
      then show ?thesis
        using sem_ins_agree [OF ty \<rho>'(2)] eq res e unfolding Inl fold_ok_def equiv_ins_def by fastforce
    qed
    with res Inl show ?thesis by (auto simp: fold_ok_def)
  next
    case (Inr jr)
    then obtain J'' tr where jr: "res = Inr (J'', tr)" by (cases jr) auto
    show ?thesis
      using res im same_flags_trans [OF fl] extends_trans [OF ext] w gd
      by (cases tr) (auto simp: jr fold_ok_def result_ok_def)
  qed
qed

lemma fold_ok_kint:
  assumes wf: "wf_ir J" and ty: "typed J f" and rule: "rule_ok J f (J, KINTFOLD k)" and eq: "lj_ir_kint J k = Some (J', r)"
  shows "fold_ok J f (Inr (J', TREF r))"
proof -
  note g = lj_ir_kint_grows [OF wf eq]
  have k: "int64 (ins_t f) \<Longrightarrow> k = 0" and hv: "has_value J f (\<lambda>_. u64_of_u32 k)" using rule by (auto simp: rule_ok_def)
  have "\<rho> r = u64_of_u32 k" if "run J' \<rho>" for \<rho> using run_kint [OF that, of r] g by simp
  moreover have "run J \<rho>" if "run J' \<rho>" for \<rho> using run_extends [OF growsD(2) that] g by blast
  ultimately have "has_value J' f (\<lambda>\<rho>. \<rho> r)" using hv unfolding has_value_def by metis
  then have "implements J f J' (\<lambda>\<rho>. \<rho> r)" using g ty by (intro implements_value) auto
  moreover have "opd J' (int64 (ins_t f)) r" using g k by (auto simp: opd_def int32_def)
  ultimately show ?thesis using g by (simp add: fold_ok_def result_ok_def growsD grows_flags)
qed

section \<open>Moving a shift inside a mask\<close>

lemma sem_shift_Done: "is_shift op \<Longrightarrow> \<exists>v. sem_w op a b = Done v"
  by (auto simp: is_shift_def)

lemma fins_shift_Done:
  assumes "fins_ok J f" "is_shift (ins_o f)"
  shows "\<exists>v. sem_ins \<rho> f = Done v"
proof -
  have "ins_o f \<notin> {BSWAP, ABC}" using assms(2) by (auto simp: is_shift_def)
  from sem_ins_view [OF fins_typed [OF assms(1)] this fins_plain [OF assms(1) this], of \<rho>] show ?thesis
    using sem_shift_Done [OF assms(2)] by (metis outcome.map(1))
qed

text \<open>Shifts and rotates distribute over a mask.\<close>

lemma shift_and:
  assumes "op \<in> {BSHL, BSHR, BROL, BROR}" "sem_w op x c = Done u" "sem_w op y c = Done v"
  shows "sem_w op (x AND y) c = Done (u AND v)"
  using assms by (auto simp: word_rot_logs)

lemma shiftk_facts:
  assumes wf: "wf_ir J" and ok: "fins_ok J f" and op: "ins_o f \<in> {BSHL, BSHR, BROL, BROR}" and l: "ref_o J (ins_op1 f) = BAND"
  shows "fins_ok J (f\<lparr>ins_op1 := ins_op1 (fleft J f)\<rparr>)" "refw (ins_op1 (fleft J f)) < refw (ins_op1 f)"
    "opd J (int64 (ins_t f)) (ins_op2 (fleft J f))"
    "ref_o J (ins_op2 (fleft J f)) = KINT \<Longrightarrow> \<not> int64 (ins_t f)"
    "int64 (ins_t (fleft J f)) = int64 (ins_t f)"
proof -
  have sh: "is_shift (ins_o f)" using op by auto
  note o = shift_opds [OF ok sh]
  note L = left_operand [OF wf ok o(4), simplified l, simplified]
  have i: "canonical J (fleft J f)" "int64 (ins_t (fleft J f)) = int64 (ins_t f)"
    using operand_ins(2,6) [OF wf o(1)] l by (auto simp: fleft_def op_classes)
  show "fins_ok J (f\<lparr>ins_op1 := ins_op1 (fleft J f)\<rparr>)"
    using fins_ok_count [OF ok sh grows_refl [OF wf] o(2) L(1)] by simp
  show "refw (ins_op1 (fleft J f)) < refw (ins_op1 f)" "opd J (int64 (ins_t f)) (ins_op2 (fleft J f))"
    "int64 (ins_t (fleft J f)) = int64 (ins_t f)" using L(2,3) i(2) by auto
  show "\<not> int64 (ins_t f)" if "ref_o J (ins_op2 (fleft J f)) = KINT"
    using i that l by (auto simp: canonical_def fleft_def)
qed

text \<open>The shifted mask, and the value of the inner shift.\<close>

lemma shiftk_law:
  assumes wf: "wf_ir J" and ok: "fins_ok J f" and op: "ins_o f \<in> {BSHL, BSHR, BROL, BROR}" and l: "ref_o J (ins_op1 f) = BAND"
    and v: "view J \<rho> (int64 (ins_t f)) V" and inner: "sem_view (f\<lparr>ins_op1 := ins_op1 (fleft J f)\<rparr>) V = Done x"
    and mask: "sem_w (ins_o f) (V (ins_op2 (fleft J f))) (V (ins_op2 f)) = Done y"
  shows "sem_view f V = Done (x AND y)"
proof -
  have na: "ins_o f \<noteq> ABC" using op by auto
  have "V (ins_op1 f) = V (ins_op1 (fleft J f)) AND V (ins_op2 (fleft J f))"
    using left_operand(5) [OF wf ok na _ v] l by simp
  with shift_and [OF op _ mask] inner show ?thesis by simp
qed

lemma shiftk_retry:
  assumes wf: "wf_ir J" and ok: "fins_ok J f" and op: "ins_o f \<in> {BSHL, BSHR, BROL, BROR}" and l: "ref_o J (ins_op1 f) = BAND"
    and inner: "fold_ok J (f\<lparr>ins_op1 := ins_op1 (fleft J f)\<rparr>) (Inr (J1, TREF a))"
    and g: "grows J1 J2" and r: "opd J2 (int64 (ins_t f)) r"
    and f': "ins_o f' = BAND" "ins_op1 f' = a" "ins_op2 f' = r" "int64 (ins_t f') = int64 (ins_t f)" "int32 (ins_t f') = int32 (ins_t f)"
    and mask64: "\<And>\<rho>. run J2 \<rho> \<Longrightarrow> view J \<rho> (int64 (ins_t f)) \<rho> \<Longrightarrow>
      sem_w (ins_o f) (\<rho> (ins_op2 (fleft J f))) (\<rho> (ins_op2 f)) = Done (\<rho> r)"
    and mask32: "\<And>\<rho>. run J2 \<rho> \<Longrightarrow> view J \<rho> (int64 (ins_t f)) (v32 \<rho>) \<Longrightarrow>
      sem_w (ins_o f) (v32 \<rho> (ins_op2 (fleft J f))) (v32 \<rho> (ins_op2 f)) = Done (v32 \<rho> r)"
  shows "rule_ok J f (J2, RETRYFOLD f')"
proof -
  let ?f1 = "f\<lparr>ins_op1 := ins_op1 (fleft J f)\<rparr>"
  note S = shiftk_facts [OF wf ok op l]
  have na: "ins_o f \<noteq> ABC" "ins_o f \<notin> {BSWAP, ABC}" "is_shift (ins_o f)" using op by auto
  have im: "implements J ?f1 J1 (\<lambda>\<rho>. \<rho> a)" and fl: "same_flags J J1" and ext1: "extends J J1" and oa: "opd J1 (int64 (ins_t f)) a"
    using inner na by (auto simp: fold_ok_def result_ok_def)
  have ext: "extends J J2" by (rule extends_trans [OF ext1 growsD(2) [OF g]])
  have ok': "fins_ok J2 f'"
  proof (rule fins_okI [OF _ na(1)])
    have "chain J2 LOOP = chain J LOOP" using fl g by (simp add: same_flags_def grows_def is_const_def)
    then show "fins_ok J2 f" using ok typed_extends [OF ext] by (auto simp: fins_ok_def)
  qed (use f' r opd_grows [OF g oa] in auto)
  have inner_run: "sem_ins \<rho> ?f1 = Done (\<rho> a)" if "run J2 \<rho>" for \<rho>
    using im run_extends [OF growsD(2) [OF g] that] fins_shift_Done [OF S(1), of \<rho>] na(3) by (auto simp: implements_def)
  have ni: "ins_o ?f1 \<notin> {BSWAP, ABC}" using na(2) by simp
  have inner_view: "sem_ins \<rho> ?f1 = (if int64 (ins_t f) then sem_view ?f1 \<rho> else map_outcome u64_of_u32 (sem_view ?f1 (v32 \<rho>)))" for \<rho>
    using sem_ins_view [OF fins_typed [OF S(1)] ni fins_plain [OF S(1) ni], of \<rho>] by simp
  have "equiv_ins J2 f f'"
  proof (rule equiv_width [OF growsD(1) [OF g] typed_extends [OF ext fins_typed [OF ok]] na(2) fins_plain [OF ok na(2)]
        fins_typed [OF ok'] _ _ f'(4)])
    fix \<rho> assume \<rho>: "run J2 \<rho>"
    show "sem_view f \<rho> \<in> {sem_view f' \<rho>, Undef}" if "view J2 \<rho> (int64 (ins_t f)) \<rho>"
    proof -
      have v: "view J \<rho> (int64 (ins_t f)) \<rho>" by (rule view_extends [OF ext that])
      have "sem_view ?f1 \<rho> = Done (\<rho> a)" using inner_run [OF \<rho>] inner_view [of \<rho>] view_wide [OF v] by simp
      from shiftk_law [OF wf ok op l v this mask64 [OF \<rho> v]] f' show ?thesis by simp
    qed
    show "sem_view f (v32 \<rho>) \<in> {sem_view f' (v32 \<rho>), Undef}" if "view J2 \<rho> (int64 (ins_t f)) (v32 \<rho>)"
    proof -
      have v: "view J \<rho> (int64 (ins_t f)) (v32 \<rho>)" by (rule view_extends [OF ext that])
      have "sem_view ?f1 (v32 \<rho>) = Done (v32 \<rho> a)"
        using inner_run [OF \<rho>] inner_view [of \<rho>] view_narrow [OF v] by (auto simp: map_outcome_Done)
      from shiftk_law [OF wf ok op l v this mask32 [OF \<rho> v]] f' show ?thesis by simp
    qed
  qed (use f' in auto)
  moreover have "\<exists>\<rho>'. run J2 \<rho>' \<and> agree J \<rho> \<rho>'" if run: "run J \<rho>" for \<rho>
  proof -
    obtain x where "sem_ins \<rho> ?f1 = Done x" using fins_shift_Done [OF S(1), of \<rho>] na(3) by auto
    then obtain \<rho>' where "run J1 \<rho>'" "agree J \<rho> \<rho>'" using im run unfolding implements_def by blast
    then show ?thesis using grows_run [OF g, of \<rho>'] agree_trans [OF ext1] by blast
  qed
  moreover have "(fold_order J2 f', fold_order J f) \<in> lex3" using op f'(1) by (intro order_group) auto
  ultimately show ?thesis
    using ext same_flags_trans [OF fl grows_flags [OF g]] growsD(1) [OF g] ok' f' na(1) by (simp add: rule_ok_def)
qed

text \<open>What the engine must have given for the inner shift.\<close>

definition inner_ok :: "jit_State \<Rightarrow> irins \<Rightarrow> folder \<Rightarrow> bool" where
  "inner_ok J f refold \<longleftrightarrow>
     (let f1 = f\<lparr>ins_op1 := ins_op1 (fleft J f)\<rparr> in fold_ok J f1 (refold J f1))"

lemma shiftk_inner_ok:
  assumes inner: "inner_ok J f refold" and ok1: "fins_ok J (f\<lparr>ins_op1 := ins_op1 (fleft J f)\<rparr>)" "is_shift (ins_o f)"
    and k: "\<And>J1 a. fold_ok J (f\<lparr>ins_op1 := ins_op1 (fleft J f)\<rparr>) (Inr (J1, TREF a)) \<Longrightarrow> wf_ir J1 \<Longrightarrow> rule_ok J f (g J1 a)"
  shows "rule_ok J f (shiftk_inner refold J f g)"
proof (cases "refold J (f\<lparr>ins_op1 := ins_op1 (fleft J f)\<rparr>)")
  case (Inl e)
  let ?f1 = "f\<lparr>ins_op1 := ins_op1 (fleft J f)\<rparr>"
  have "\<not> run J \<rho>" if "e = LJ_TRERR_GFAIL" for \<rho>
    using inner Inl that fins_shift_Done [OF ok1(1), of \<rho>] ok1(2) by (auto simp: inner_ok_def fold_ok_def Let_def)
  with inner Inl show ?thesis by (auto simp: shiftk_inner_def inner_ok_def Let_def fold_ok_def rule_ok_def)
next
  case (Inr jr)
  have ng: "ins_o f \<notin> guards" using ok1(2) by (auto simp: guards_def cmps_def is_shift_def)
  from Inr obtain J1 a where jr: "jr = (J1, TREF a)"
    using inner ng by (cases jr; cases "snd jr") (auto simp: inner_ok_def Let_def fold_ok_def)
  have ok: "fold_ok J (f\<lparr>ins_op1 := ins_op1 (fleft J f)\<rparr>) (Inr (J1, TREF a))" using inner Inr jr by (simp add: inner_ok_def Let_def)
  moreover have "wf_ir J1" using ok by (simp add: fold_ok_def result_ok_def implements_def)
  ultimately show ?thesis using k Inr jr by (simp add: shiftk_inner_def)
qed

lemma unat_scast_63: "unat (scast (k :: u32) AND (63 :: u64)) = unat (k AND 63)"
proof -
  have "scast k AND (63 :: u64) = ucast (k AND 63)"
  proof (rule bit_word_eqI)
    have "(63 :: u64) = mask 6" "(63 :: u32) = mask 6" by (simp_all add: mask_eq_exp_minus_1)
    then show "bit (scast k AND (63 :: u64)) n = bit (ucast (k AND 63) :: u64) n" if "n < LENGTH(64)" for n
      using that by (simp only: bit_and_iff bit_mask_iff bit_signed_iff bit_unsigned_iff) (auto simp: min_def)
  qed
  then show ?thesis by (simp add: unat_ucast_u32)
qed

lemma simplify_shiftk_andk_ok:
  assumes wf: "wf_ir J" and ok: "fins_ok J f" and op: "ins_o f \<in> {BSHL, BSHR, BROL, BROR}" and l: "ref_o J (ins_op1 f) = BAND"
    and k: "ref_o J (ins_op2 f) = KINT" and inner: "inner_ok J f refold"
  shows "rule_ok J f (simplify_shiftk_andk refold J f)"
proof -
  let ?irk = "cur_ir J (ins_op2 (fleft J f))"
  note S = shiftk_facts [OF wf ok op l]
  have sh: "is_shift (ins_o f)" "ins_o f \<in> intops" using op by (auto simp: intops_def)
  note o = shift_opds [OF ok sh(1)]
  have narrow: "rule_ok J f (shiftk_inner refold J f (\<lambda>J' op1. with_kint J' m (\<lambda>r.
      RETRYFOLD (f\<lparr>ins_o := BAND, ins_t := IRT_INT, ins_guard := False, ins_phi := False, ins_op1 := op1, ins_op2 := r\<rparr>))))"
    if c: "ins_o ?irk = KINT" and m: "kfold_intop (ins_i ?irk) (ins_i (fright J f)) (ins_o f) = Some m" for m
  proof (rule shiftk_inner_ok [OF inner S(1) sh(1)])
    fix J1 a
    assume in1: "fold_ok J (f\<lparr>ins_op1 := ins_op1 (fleft J f)\<rparr>) (Inr (J1, TREF a))" and wf1: "wf_ir J1"
    have w: "\<not> int64 (ins_t f)" "int32 (ins_t f)" using S(4) [OF c] fins_width [OF ok o(4)] by auto
    let ?g = "\<lambda>r. f\<lparr>ins_o := BAND, ins_t := IRT_INT, ins_guard := False, ins_phi := False, ins_op1 := a, ins_op2 := r\<rparr>"
    show "rule_ok J f (with_kint J1 m (\<lambda>r. RETRYFOLD (?g r)))"
    proof (cases "lj_ir_kint J1 m")
      case (Some jr)
      then obtain J2 r where eq: "lj_ir_kint J1 m = Some (J2, r)" by (cases jr) auto
      note g = lj_ir_kint_grows [OF wf1 eq]
      have val: "v32 \<rho> r = m" if "run J2 \<rho>" for \<rho> using run_kint [OF that, of r] g by simp
      have "rule_ok J f (J2, RETRYFOLD (?g r))"
      proof (rule shiftk_retry [OF wf ok op l in1 conjunct1 [OF g]])
        show "opd J2 (int64 (ins_t f)) r" using g w by (simp add: opd_def int32_def)
        fix \<rho> assume \<rho>: "run J2 \<rho>"
        show "sem_w (ins_o f) (\<rho> (ins_op2 (fleft J f))) (\<rho> (ins_op2 f)) = Done (\<rho> r)" if "view J \<rho> (int64 (ins_t f)) \<rho>"
          using view_wide [OF that] w by simp
        show "sem_w (ins_o f) (v32 \<rho> (ins_op2 (fleft J f))) (v32 \<rho> (ins_op2 f)) = Done (v32 \<rho> r)"
          if v: "view J \<rho> (int64 (ins_t f)) (v32 \<rho>)"
          using view_KINT(1) [OF v S(3) c] view_KINT(1) [OF v _ k] o(2) w kfold_intop_Done [OF sh(2) m] val [OF \<rho>]
          by (simp add: fright_def)
      qed (use w in \<open>auto simp: int32_def int64_def\<close>)
      with eq show ?thesis by (simp add: with_kint_def)
    qed (simp add: with_kint_def rule_ok_def)
  qed
  let ?m = "kfold_int64arith_op (ins_k64 ?irk) (scast (ins_i (fright J f))) (ins_o f)"
  have wide: "rule_ok J f (shiftk_inner refold J f (\<lambda>J' op1. with_kint64 J' ?m (\<lambda>r.
      RETRYFOLD (f\<lparr>ins_o := ins_o (fleft J f), ins_t := ins_t (fleft J f), ins_guard := ins_guard (fleft J f),
        ins_phi := ins_phi (fleft J f), ins_op1 := op1, ins_op2 := r\<rparr>))))"
    if c: "ins_o ?irk = KINT64"
  proof (rule shiftk_inner_ok [OF inner S(1) sh(1)])
    fix J1 a
    assume in1: "fold_ok J (f\<lparr>ins_op1 := ins_op1 (fleft J f)\<rparr>) (Inr (J1, TREF a))" and wf1: "wf_ir J1"
    have w: "int64 (ins_t f)" by (rule operand_KINT64(1) [OF wf S(3) c])
    then have bshl: "ins_o f = BSHL" using ok op by (auto simp: fins_ok_def)
    let ?g = "\<lambda>r. f\<lparr>ins_o := ins_o (fleft J f), ins_t := ins_t (fleft J f), ins_guard := ins_guard (fleft J f),
        ins_phi := ins_phi (fleft J f), ins_op1 := a, ins_op2 := r\<rparr>"
    show "rule_ok J f (with_kint64 J1 ?m (\<lambda>r. RETRYFOLD (?g r)))"
    proof (cases "lj_ir_kint64 J1 ?m")
      case (Some jr)
      then obtain J2 r where eq: "lj_ir_kint64 J1 ?m = Some (J2, r)" by (cases jr) auto
      note g = lj_ir_kint64_grows [OF wf1 eq]
      have val: "\<rho> r = ?m" if "run J2 \<rho>" for \<rho> using run_kint64 [OF that, of r] g by (simp add: kint64_ins_def)
      have "rule_ok J f (J2, RETRYFOLD (?g r))"
      proof (rule shiftk_retry [OF wf ok op l in1 conjunct1 [OF g]])
        show "opd J2 (int64 (ins_t f)) r" using g w by (simp add: opd_def int64_def kint64_ins_def)
        fix \<rho> assume \<rho>: "run J2 \<rho>"
        show "sem_w (ins_o f) (\<rho> (ins_op2 (fleft J f))) (\<rho> (ins_op2 f)) = Done (\<rho> r)" if v: "view J \<rho> (int64 (ins_t f)) \<rho>"
        proof -
          have "run J1 \<rho>" using run_extends [OF growsD(2) \<rho>] g by blast
          then have "run J \<rho>" using in1 by (simp add: fold_ok_def result_ok_def implements_def)
          have "shcount (\<rho> (ins_op2 f)) = unat (ins_i (fright J f) AND 63)"
            using shift_count_const [OF ok sh(1) o(2) k _ v] shmask_64 [OF ok o(4)] w \<open>run J \<rho>\<close> by (simp add: fright_def)
          then show ?thesis
            using view_KINT64(1) [OF v S(3) c] val [OF \<rho>] bshl by (simp add: unat_scast_63)
        qed
        show "sem_w (ins_o f) (v32 \<rho> (ins_op2 (fleft J f))) (v32 \<rho> (ins_op2 f)) = Done (v32 \<rho> r)"
          if v: "view J \<rho> (int64 (ins_t f)) (v32 \<rho>)"
          using view_narrow [OF v] w by simp
      qed (use w S(5) l in \<open>auto simp: int32_def int64_def fleft_def\<close>)
      with eq show ?thesis by (simp add: with_kint64_def)
    qed (simp add: with_kint64_def rule_ok_def)
  qed
  show ?thesis
    using narrow wide by (auto simp: simplify_shiftk_andk_def Let_def rule_ok_def [of J f "(J, ERRFOLD ABORTED)"] split: option.split)
qed

section \<open>The table of rules\<close>

subsection \<open>Values are never dropped\<close>

lemma value_simps [simp]:
  "value_rule (J, NEXTFOLD)" "value_rule (J, KINTFOLD k)" "value_rule (J, REFFOLD r)" "value_rule (J, FAILFOLD)"
  "value_rule (J, LEFTFOLD f)" "value_rule (J, RIGHTFOLD f)" "value_rule (J, ERRFOLD e)" "value_rule (J, RETRYFOLD f) \<longleftrightarrow> ins_o f \<notin> guards"
  by (simp_all add: value_rule_def LEFTFOLD_def RIGHTFOLD_def)

lemma value_with_kint [simp]:
  "(\<And>J r. value_rule (J, g r)) \<Longrightarrow> value_rule (with_kint J k g)"
  "(\<And>J r. value_rule (J, g r)) \<Longrightarrow> value_rule (with_kint64 J k64 g)"
  by (auto simp: with_kint_def with_kint64_def split: option.split)

lemma value_INT64 [simp]: "value_rule (INT64FOLD J k)"
  by (simp add: INT64FOLD_def)

lemma value_shiftk_inner: "(\<And>J a. value_rule (g J a)) \<Longrightarrow> value_rule (shiftk_inner refold J f g)"
  by (auto simp: shiftk_inner_def split: sum.split)

lemma value_ops [simp]:
  "op \<in> {ADD, SUB, MUL, MOD, NEG, BNOT, BSWAP, BAND, BOR, BXOR, BSHL, BSHR, BSAR, BROL, BROR, ADDOV, SUBOV, MULOV, IR_MIN, IR_MAX} \<Longrightarrow> op \<notin> guards"
  by (auto simp: guards_def cmps_def)

lemma guard_ops [simp]:
  "LT \<in> guards" "GE \<in> guards" "LE \<in> guards" "GT \<in> guards" "ULT \<in> guards" "UGE \<in> guards" "ULE \<in> guards" "UGT \<in> guards"
  "EQ \<in> guards" "NE \<in> guards" "ABC \<in> guards"
  by (simp_all add: guards_def cmps_def)

fun fits :: "jit_State \<Rightarrow> nat \<Rightarrow> pat \<Rightarrow> bool" where
  "fits J r (Op op) = (ref_o J r = op)"
| "fits J r _ = True"

definition applies :: "jit_State \<Rightarrow> irins \<Rightarrow> irop list \<times> pat \<times> pat \<Rightarrow> bool" where
  "applies J f k = (case k of (ops, l, r) \<Rightarrow> ins_o f \<in> set ops \<and> fits J (ins_op1 f) l \<and> fits J (ins_op2 f) r)"

lemmas fold_rule_defs = kfold_intarith_def kfold_intovarith_def kfold_bnot_def kfold_bswap_def kfold_int64arith_def
  kfold_int64arith2_def kfold_int64shift_def kfold_bnot64_def kfold_bswap64_def shortcut_leftleft_def
  simplify_numadd_negx_def simplify_numadd_xneg_def simplify_numsub_xneg_def simplify_nummuldiv_negneg_def
  simplify_intadd_k_def fold_simplify_intmul_k_def simplify_intsub_k_def simplify_intsub_kleft_def simplify_intadd_k64_def
  simplify_intsub_k64_def simplify_intmul_k_def simplify_intmul_k32_def simplify_intmul_k64_def simplify_intmod_k_def
  simplify_intmod_kleft_def simplify_intsub_def simplify_intsubadd_leftcancel_def simplify_intsubsub_leftcancel_def
  simplify_intsubsub_rightcancel_def simplify_intsubadd_rightcancel_def simplify_intsubaddadd_cancel_def
  simplify_band_k_def simplify_bor_k_def simplify_bxor_k_def simplify_shift_ik_def simplify_shift_andk_def
  simplify_shift1_ki_def simplify_shift2_ki_def simplify_andk_shiftk_def simplify_andor_k_def simplify_andor_k64_def
  reassoc_intarith_k_def reassoc_intarith_k64_def reassoc_dup_def reassoc_dup_minmax_def reassoc_bxor_def
  reassoc_shift_def reassoc_minmax_k_def comm_swap_def comm_dup_def comm_dup_minmax_def comm_bxor_def fold_base_def

lemma fold_table_values:
  "list_all (\<lambda>s. applies J f (fst s) \<longrightarrow> ins_o f \<notin> guards \<longrightarrow> value_rule (snd s J f)) (fold_table refold)"
proof -
  have shiftk: "value_rule (simplify_shiftk_andk refold J f)" if "ref_o J (ins_op1 f) = BAND"
    using that by (auto simp: simplify_shiftk_andk_def fleft_def Let_def intro!: value_shiftk_inner split: option.split)
  show ?thesis
    unfolding fold_table_def
    by (simp add: applies_def, intro conjI impI; (elim conjE disjE)?;
      (auto simp: fold_rule_defs Let_def shiftk split: option.split prod.split)?)
qed

subsection \<open>Every rule keeps the contract\<close>

lemmas arith_rules_ok = kfold_intovarith_ok kfold_bnot_ok kfold_bswap_ok kfold_intcomp_ok kfold_intcomp0_ok
  kfold_int64comp_ok kfold_int64comp0_ok kfold_kref_ok kfold_int64arith_ok kfold_int64shift_ok kfold_bnot64_ok kfold_bswap64_ok
  shortcut_leftleft_ok simplify_numadd_negx_ok simplify_numadd_xneg_ok simplify_numsub_xneg_ok simplify_nummuldiv_negneg_ok
  simplify_intadd_k_ok simplify_intadd_k64_ok fold_simplify_intmul_k_ok simplify_intsub_k_ok simplify_intsub_kleft_ok
  simplify_intsub_k64_ok simplify_intmul_k32_ok simplify_intmul_k64_ok simplify_intmod_k_ok simplify_intmod_kleft_ok
  simplify_intsub_ok simplify_intsubadd_leftcancel_ok simplify_intsubsub_rightcancel_ok simplify_intsubsub_leftcancel_ok
  simplify_intsubadd_rightcancel_ok simplify_intsubaddadd_cancel_ok

lemmas bit_rules_ok = simplify_band_k_ok simplify_bor_k_ok simplify_bxor_k_ok simplify_shift_ik_ok simplify_shift_andk_ok
  simplify_shift1_ki_ok simplify_shift2_ki_ok simplify_andk_shiftk_ok simplify_andor_k_ok simplify_andor_k64_ok
  reassoc_intarith_k64_ok reassoc_dup_ok reassoc_dup_minmax_ok reassoc_bxor_ok reassoc_shift_ok
  abc_fwd_ok abc_k_ok comm_equal_ok comm_comp_ok comm_dup_ok comm_dup_minmax_ok comm_bxor_ok comm_swap_ok

lemma fold_base_ok:
  assumes wf: "wf_ir J" and ok: "fins_ok J f" and op: "ins_o f \<in> {SUB, EQ}"
    and base: "ref_o J (ins_op1 f) = BASE \<or> ref_o J (ins_op2 f) = BASE"
  shows "rule_ok J f (fold_base J f)"
proof -
  have "emittable J f" using ok op base by (auto simp: emittable_def fins_ok_def canonical_def is_shift_def)
  then have "result_ok J f J' r" if "lj_opt_cselim J f lim = (J', r)" for lim J' r
    using lj_opt_cselim_result [OF wf that] op by auto
  then show ?thesis by (simp add: fold_base_def rule_ok_def split: prod.split)
qed

lemma fold_table_rules:
  assumes wf: "wf_ir J" and ok: "fins_ok J f"
    and inner: "ins_o f \<in> {BSHL, BSHR, BROL, BROR} \<Longrightarrow> ref_o J (ins_op1 f) = BAND \<Longrightarrow> ref_o J (ins_op2 f) = KINT \<Longrightarrow> inner_ok J f refold"
  shows "list_all (\<lambda>s. applies J f (fst s) \<longrightarrow> rule_ok J f (snd s J f)) (fold_table refold)"
proof -
  have arith2: "rule_ok J f (kfold_int64arith2 J f)"
    if "ins_o f \<in> {DIV, MOD, POW}" "ref_o J (ins_op1 f) = KINT64"
    using that ok operand_KINT64(1) [OF wf fins_opd1 [OF ok] that(2)] by (auto simp: fins_ok_def)
  have div: "ins_o f \<noteq> DIV" using ok by (simp add: fins_ok_def)
  show ?thesis
    unfolding fold_table_def
    by (simp only: list.pred_inject, intro conjI TrueI impI; simp add: applies_def; (elim conjE)?;
      (rule kfold_intarith_ok [OF wf ok] arith_rules_ok [OF wf ok] bit_rules_ok [OF wf ok] reassoc_intarith_k_ok [OF wf ok]
         reassoc_intarith_k_ok [OF wf ok, folded reassoc_minmax_k_eq] abc_invar_ok [OF ok] arith2 fold_base_ok [OF wf ok]
         simplify_shiftk_andk_ok [OF wf ok _ _ _ inner] | fail);
      (auto simp: intops_def comparisons_def reassoc_ops_def symmetric_ops_def div is_shift_def)?)
qed

subsection \<open>Trying the rules\<close>

definition entry_ok :: "jit_State \<Rightarrow> irins \<Rightarrow> fold_spec \<Rightarrow> bool" where
  "entry_ok J f s \<longleftrightarrow> (applies J f (fst s) \<longrightarrow> step_ok J f (snd s J f))"

lemma fold_table_ok:
  assumes "wf_ir J" "fins_ok J f"
    and "ins_o f \<in> {BSHL, BSHR, BROL, BROR} \<Longrightarrow> ref_o J (ins_op1 f) = BAND \<Longrightarrow> ref_o J (ins_op2 f) = KINT \<Longrightarrow> inner_ok J f refold"
  shows "list_all (entry_ok J f) (fold_table refold)"
  using fold_table_rules [OF assms] fold_table_values [of J f refold] unfolding list_all_iff entry_ok_def step_ok_def by blast

definition keys_fit :: "jit_State \<Rightarrow> irins \<Rightarrow> (pat \<times> pat) list \<Rightarrow> bool" where
  "keys_fit J f ks \<longleftrightarrow> (\<forall>(l, r) \<in> set ks. fits J (ins_op1 f) l \<and> fits J (ins_op2 f) r)"

lemma attempts_fit: "keys_fit J f (attempts J f)"
  by (auto simp: keys_fit_def attempts_def left_key_def right_key_def fleft_def fright_def Let_def)

lemma found_step:
  assumes "list_all (entry_ok J f) tab" "find (spec_matches (ins_o f) l r) tab = Some s"
    "fits J (ins_op1 f) l" "fits J (ins_op2 f) r"
  shows "step_ok J f (snd s J f)"
proof -
  have "s \<in> set tab" "applies J f (fst s)"
    using find_cases(1) [OF assms(2)] assms(3,4) by (auto simp: spec_matches_def applies_def split: prod.splits)
  with assms(1) show ?thesis by (simp add: list_all_iff entry_ok_def)
qed

lemma step_next: "step_ok J f (J', NEXTFOLD) \<Longrightarrow> J' = J"
  by (simp add: step_ok_def rule_ok_def)

lemma try_rules_ok:
  assumes "list_all (entry_ok J f) tab" "keys_fit J f ks"
  shows "step_ok J f (try_rules tab f ks J)"
  using assms(2)
proof (induction ks)
  case Nil
  then show ?case by (simp add: step_ok_def)
next
  case (Cons k ks)
  obtain l r where k: "k = (l, r)" by (cases k)
  have IH: "step_ok J f (try_rules tab f ks J)" using Cons by (simp add: keys_fit_def)
  show ?case
  proof (cases "find (spec_matches (ins_o f) l r) tab")
    case (Some s)
    have st: "step_ok J f (snd s J f)" using found_step [OF assms(1) Some] Cons.prems k by (auto simp: keys_fit_def)
    obtain J' res where eq: "snd s J f = (J', res)" by (cases "snd s J f")
    show ?thesis using IH st step_next [of J f J'] k Some eq by (cases res) auto
  qed (use IH k in simp)
qed

text \<open>If no rule applies, every rule found for one of the keys declined.\<close>

lemma try_rules_next:
  assumes "list_all (entry_ok J f) tab" "keys_fit J f ks" "snd (try_rules tab f ks J) = NEXTFOLD"
    "(l, r) \<in> set ks" "find (spec_matches (ins_o f) l r) tab = Some s"
  shows "snd (snd s J f) = NEXTFOLD"
  using assms(2-4)
proof (induction ks)
  case (Cons k ks)
  obtain l' r' where k: "k = (l', r')" by (cases k)
  show ?case
  proof (cases "find (spec_matches (ins_o f) l' r') tab")
    case None
    then show ?thesis using Cons k assms(5) by (auto simp: keys_fit_def)
  next
    case (Some t)
    have st: "step_ok J f (snd t J f)" using found_step [OF assms(1) Some] Cons.prems k by (auto simp: keys_fit_def)
    obtain J' res where eq: "snd t J f = (J', res)" by (cases "snd t J f")
    have "res = NEXTFOLD" using Cons.prems(2) k Some eq by (cases res) auto
    then show ?thesis
      using Cons st step_next [of J f J'] k Some eq assms(5) by (auto simp: keys_fit_def)
  qed
qed simp

text \<open>The engine uses the inner call only at one instruction.\<close>

definition same_entry :: "jit_State \<Rightarrow> irins \<Rightarrow> fold_spec \<Rightarrow> fold_spec \<Rightarrow> bool" where
  "same_entry J f s t \<longleftrightarrow> fst s = fst t \<and> (applies J f (fst s) \<longrightarrow> snd s J f = snd t J f)"

lemma fold_table_same:
  assumes "ins_o f \<in> {BSHL, BSHR, BROL, BROR} \<Longrightarrow> ref_o J (ins_op1 f) = BAND \<Longrightarrow> ref_o J (ins_op2 f) = KINT \<Longrightarrow>
    refold J (f\<lparr>ins_op1 := ins_op1 (fleft J f)\<rparr>) = refold' J (f\<lparr>ins_op1 := ins_op1 (fleft J f)\<rparr>)"
  shows "list_all2 (same_entry J f) (fold_table refold) (fold_table refold')"
proof -
  have "same_entry J f (([BSHL, BSHR, BROL, BROR], Op BAND, Op KINT), simplify_shiftk_andk refold)
    (([BSHL, BSHR, BROL, BROR], Op BAND, Op KINT), simplify_shiftk_andk refold')"
    (is "same_entry J f (?k, _) _")
  proof -
    have "simplify_shiftk_andk refold J f = simplify_shiftk_andk refold' J f" if "applies J f ?k"
    proof -
      have eq: "refold J (f\<lparr>ins_op1 := ins_op1 (fleft J f)\<rparr>) = refold' J (f\<lparr>ins_op1 := ins_op1 (fleft J f)\<rparr>)"
        using that by (intro assms) (auto simp: applies_def)
      show ?thesis unfolding simplify_shiftk_andk_def shiftk_inner_def eq by (rule refl)
    qed
    then show ?thesis by (simp add: same_entry_def)
  qed
  moreover have "same_entry J f s s" for s by (simp add: same_entry_def)
  ultimately show ?thesis unfolding fold_table_def by (simp only: list.rel_inject conj_absorb simp_thms)
qed

lemma find_same:
  assumes "list_all2 (same_entry J f) tab tab'" "fits J (ins_op1 f) l" "fits J (ins_op2 f) r"
  shows "rel_option (\<lambda>s t. snd s J f = snd t J f)
    (find (spec_matches (ins_o f) l r) tab) (find (spec_matches (ins_o f) l r) tab')"
  using assms(1)
  by (induction rule: list_all2_induct)
     (use assms(2,3) in \<open>auto simp: same_entry_def spec_matches_def applies_def split: prod.splits\<close>)

lemma try_rules_same:
  assumes "list_all2 (same_entry J f) tab tab'" "list_all (entry_ok J f) tab" "keys_fit J f ks"
  shows "try_rules tab f ks J = try_rules tab' f ks J"
  using assms(3)
proof (induction ks)
  case (Cons k ks)
  obtain l r where k: "k = (l, r)" by (cases k)
  then have fit: "fits J (ins_op1 f) l" "fits J (ins_op2 f) r" and IH: "try_rules tab f ks J = try_rules tab' f ks J"
    using Cons by (auto simp: keys_fit_def)
  note rel = find_same [OF assms(1) fit]
  show ?case
  proof (cases "find (spec_matches (ins_o f) l r) tab")
    case None
    then show ?thesis using rel IH k by (auto split: option.split)
  next
    case (Some s)
    then obtain t where t: "find (spec_matches (ins_o f) l r) tab' = Some t" "snd s J f = snd t J f"
      using rel by (cases "find (spec_matches (ins_o f) l r) tab'") auto
    obtain J' res where eq: "snd s J f = (J', res)" "snd t J f = (J', res)" using t(2) by (metis surj_pair)
    show ?thesis
      using Some t(1) eq IH k step_next [of J f J'] found_step [OF assms(2) Some fit] by (cases res) auto
  qed
qed simp

section \<open>Instructions no rule changes can be emitted\<close>

text \<open>The rules that settle the 64-bit instructions on a 32-bit zero.\<close>

lemma settled_by:
  "find (spec_matches BSWAP (Op KINT) NoOp) (fold_table refold) = Some (([BSWAP], Op KINT, NoOp), kfold_bswap)"
  "find (spec_matches BAND Any (Op KINT)) (fold_table refold) = Some (([BAND], Any, Op KINT), simplify_band_k)"
  "op \<in> {BSHL, BSHR} \<Longrightarrow> find (spec_matches op (Op KINT) Any) (fold_table refold) = Some (([BSHL, BSHR], Op KINT, Any), simplify_shift1_ki)"
  "op \<in> {BSAR, BROL, BROR} \<Longrightarrow>
    find (spec_matches op (Op KINT) Any) (fold_table refold) = Some (([BSAR, BROL, BROR], Op KINT, Any), simplify_shift2_ki)"
  "op \<in> {ADD, SUB, MUL, NEG, BAND, BOR} \<Longrightarrow> \<exists>k. find (spec_matches op (Op KINT) (Op KINT)) (fold_table refold) = Some (k, kfold_intarith)"
  "op \<in> set comparisons \<Longrightarrow> \<exists>k. find (spec_matches op (Op KINT) (Op KINT)) (fold_table refold) = Some (k, kfold_intcomp)"
  "op \<in> {EQ, NE} \<Longrightarrow> \<exists>k. find (spec_matches op (Op KINT) (Op KINT)) (fold_table refold) = Some (k, kfold_kref)"
  by (auto simp: fold_table_def spec_matches_def comparisons_def)

lemma never_next:
  "snd (kfold_bswap J f) \<noteq> NEXTFOLD" "snd (kfold_intarith J f) \<noteq> NEXTFOLD" "snd (kfold_intcomp J f) \<noteq> NEXTFOLD"
  "snd (kfold_kref J f) \<noteq> NEXTFOLD" "bitop_k (fright J f) = 0 \<Longrightarrow> snd (simplify_band_k J f) \<noteq> NEXTFOLD"
  "bitop_k (fleft J f) = 0 \<Longrightarrow> snd (simplify_shift1_ki J f) \<noteq> NEXTFOLD"
  "bitop_k (fleft J f) = 0 \<Longrightarrow> snd (simplify_shift2_ki J f) \<noteq> NEXTFOLD"
  by (auto simp: kfold_bswap_def kfold_intarith_def kfold_intcomp_def kfold_kref_def simplify_band_k_def Let_def
      simplify_shift1_ki_def simplify_shift2_ki_def CONDFOLD_def LEFTFOLD_def RIGHTFOLD_def split: option.split irop.split)

lemma keys_KINT:
  assumes "wf_ir J" "fins_ok J f" 
  shows "ref_o J (ins_op1 f) = KINT \<Longrightarrow> left_key J f = Op KINT"
    "ins_o f \<notin> {BNOT, BSWAP} \<Longrightarrow> ref_o J (ins_op2 f) = KINT \<Longrightarrow> right_key J f = Op KINT"
    "ins_o f = BSWAP \<Longrightarrow> right_key J f = NoOp"
  using wf_limits [OF assms(1)] valid_bounds [OF assms(1) typed_valid(1) [OF fins_typed [OF assms(2)]]]
    valid_bounds [OF assms(1) typed_valid(2) [OF fins_typed [OF assms(2)]]] assms(2)
  by (auto simp: left_key_def right_key_def fleft_def fright_def fins_ok_def typed_def Let_def)

lemma wide_op_cases:
  assumes "fins_ok J f" "int64 (ins_t f)" "ins_o f \<noteq> ABC"
  shows "ins_o f \<in> {BNOT, BSWAP, BXOR} \<or> is_shift (ins_o f) \<or> ins_o f \<in> {ADD, SUB, MUL, NEG, BAND, BOR} \<or>
    ins_o f \<in> set comparisons \<or> ins_o f \<in> {EQ, NE}"
  using assms fins_64 [OF assms(1,2)] by (cases "ins_o f") (auto simp: fins_ok_def op_classes comparisons_def)

lemma unchanged_emittable:
  assumes wf: "wf_ir J" and ok: "fins_ok J f" and tab: "list_all (entry_ok J f) (fold_table refold)"
    and nx: "snd (try_rules (fold_table refold) f (attempts J f) J) = NEXTFOLD"
  shows "emittable J f"
proof -
  let ?tab = "fold_table refold"
  have declined: False
    if "(l, r) \<in> set (attempts J f)" "find (spec_matches (ins_o f) l r) ?tab = Some (k, rl)" "snd (rl J f) \<noteq> NEXTFOLD" for l r k rl
    using try_rules_next [OF tab attempts_fit nx that(1,2)] that(3) by simp
  have att: "(left_key J f, right_key J f) \<in> set (attempts J f)" "(Any, right_key J f) \<in> set (attempts J f)"
    "(left_key J f, Any) \<in> set (attempts J f)"
    by (simp_all add: attempts_def Let_def)
  note K = keys_KINT [OF wf ok]
  have masked: False if "int64 (ins_t f)" "ins_o f = BAND" "ref_o J (ins_op2 f) = KINT"
  proof -
    have "bitop_k (fright J f) = 0"
      using operand_KINT_64(1) [OF wf _ that(3)] fins_opd2 [OF ok] that by (simp add: fright_def bitop_k_def)
    then show False
      using declined [OF att(2)] K(2) that settled_by(2) [of refold] never_next(5) [of J f] by simp
  qed
  have left: "ins_o f \<notin> {BNOT, BSWAP} \<and> \<not> is_shift (ins_o f) \<and> ref_o J (ins_op2 f) \<noteq> KINT"
    if w: "int64 (ins_t f)" "ins_o f \<noteq> ABC" and l: "ref_o J (ins_op1 f) = KINT"
  proof -
    have lk: "left_key J f = Op KINT" by (rule K(1) [OF l])
    have z: "bitop_k (fleft J f) = 0"
      using operand_KINT_64(1) [OF wf _ l] fins_opd1 [OF ok w(2)] w(1) l by (simp add: fleft_def bitop_k_def)
    have xor: "ins_o f \<notin> {BNOT, BXOR}" using fins_typed [OF ok] w l by (auto simp: typed_def Let_def)
    have swap: "ins_o f \<noteq> BSWAP"
      using declined [OF att(1)] K(3) lk settled_by(1) [of refold] never_next(1) [of J f] by auto
    have shift: "\<not> is_shift (ins_o f)"
    proof
      assume "is_shift (ins_o f)"
      then consider "ins_o f \<in> {BSHL, BSHR}" | "ins_o f \<in> {BSAR, BROL, BROR}" by (auto simp: is_shift_def)
      then show False
        using declined [OF att(3)] settled_by(3,4) [of "ins_o f" refold] never_next(6,7) [OF z] lk by cases auto
    qed
    have "ref_o J (ins_op2 f) \<noteq> KINT"
    proof
      assume r: "ref_o J (ins_op2 f) = KINT"
      have rk: "right_key J f = Op KINT" using K(2) xor swap r by auto
      from wide_op_cases [OF ok w] show False
        using xor swap shift declined [OF att(1)] lk rk settled_by(5,6,7) [of "ins_o f" refold] never_next(2,3,4) [of J f]
        by (auto; blast)
    qed
    with xor swap shift show ?thesis by auto
  qed
  from ok left masked show ?thesis by (auto simp: emittable_def fins_ok_def canonical_def)
qed

section \<open>The engine\<close>

lemma fold_order_inner:
  assumes "wf_ir J" "fins_ok J f" "ins_o f \<in> {BSHL, BSHR, BROL, BROR}" "ref_o J (ins_op1 f) = BAND"
  shows "(fold_order J (f\<lparr>ins_op1 := ins_op1 (fleft J f)\<rparr>), fold_order J f) \<in> lex3"
  using shiftk_facts(2) [OF assms] by (intro order_refs) auto

text \<open>One round of the engine, with the results for smaller instructions at hand.\<close>

definition engine_finish :: "(jit_State \<Rightarrow> irins \<Rightarrow> ferr + jit_State \<times> tref) \<Rightarrow> irins \<Rightarrow> jit_State \<times> foldres \<Rightarrow> ferr + jit_State \<times> tref" where
  "engine_finish again f jr = (case jr of
        (J', NEXTFOLD) \<Rightarrow> (let (J'', r) = lj_opt_cse J' f in Inr (J'', TREF r))
      | (J', REFFOLD r) \<Rightarrow> Inr (J', TREF r)
      | (J', RETRYFOLD f') \<Rightarrow> again J' f'
      | (J', KINTFOLD k) \<Rightarrow> (case lj_ir_kint J' k of None \<Rightarrow> Inl ABORTED | Some (J'', r) \<Rightarrow> Inr (J'', TREF r))
      | (J', FAILFOLD) \<Rightarrow> Inl LJ_TRERR_GFAIL
      | (J', DROPFOLD) \<Rightarrow> Inr (J', TREF_DROP)
      | (J', ERRFOLD e) \<Rightarrow> Inl e)"

lemma lj_opt_fold_Suc:
  "opt_fold J \<Longrightarrow> lj_opt_fold (Suc n) J f =
     engine_finish (lj_opt_fold n) f (try_rules (fold_table (lj_opt_fold n)) f (attempts J f) J)"
  by (simp add: engine_finish_def split: foldres.split prod.split)

lemma engine_finish_ok:
  assumes wf: "wf_ir J" and ok: "fins_ok J f" and step: "step_ok J f jr"
    and nx: "snd jr = NEXTFOLD \<Longrightarrow> emittable J f"
    and again: "\<And>J' f'. jr = (J', RETRYFOLD f') \<Longrightarrow> fold_ok J' f' (again J' f')"
  shows "fold_ok J f (engine_finish again f jr)"
proof -
  obtain J' res where jr: "jr = (J', res)" by (cases jr)
  note ty = fins_typed [OF ok]
  have r: "rule_ok J f (J', res)" using step jr by (simp add: step_ok_def)
  show ?thesis
  proof (cases res)
    case NEXTFOLD
    then have J: "J' = J" and em: "emittable J f" using r nx jr by (auto simp: rule_ok_def)
    obtain J'' q where q: "lj_opt_cse J f = (J'', q)" by (cases "lj_opt_cse J f")
    have "result_ok J f J'' q" using ok by (intro lj_opt_cse_result [OF wf q em]) (auto simp: fins_ok_def)
    then show ?thesis using NEXTFOLD jr J q by (simp add: engine_finish_def fold_ok_def)
  next
    case (RETRYFOLD f')
    then show ?thesis using fold_ok_retry [OF ty _ again] step jr by (simp add: engine_finish_def)
  next
    case (KINTFOLD k)
    then have J: "J' = J" using r by (simp add: rule_ok_def)
    show ?thesis
      using fold_ok_kint [OF wf ty] r KINTFOLD jr J by (auto simp: engine_finish_def fold_ok_def [of J f "Inl ABORTED"] split: option.split)
  next
    case DROPFOLD
    then show ?thesis using r step jr by (auto simp: engine_finish_def fold_ok_def rule_ok_def step_ok_def value_rule_def)
  qed (use r jr in \<open>auto simp: engine_finish_def fold_ok_def rule_ok_def\<close>)
qed

lemma engine_finish_again:
  "(\<And>J' f'. jr = (J', RETRYFOLD f') \<Longrightarrow> again J' f' = again' J' f') \<Longrightarrow> engine_finish again f jr = engine_finish again' f jr"
  by (cases jr; cases "snd jr") (auto simp: engine_finish_def)

lemma lj_opt_fold_converges:
  "wf_ir J \<Longrightarrow> fins_ok J f \<Longrightarrow> opt_fold J \<Longrightarrow> \<exists>N res. fold_ok J f res \<and> (\<forall>n \<ge> N. lj_opt_fold n J f = res)"
proof (induction "fold_order J f" arbitrary: J f rule: wf_induct_rule [OF wf_lex3])
  case (1 J f)
  note wf = 1(2) and ok = 1(3) and on = 1(4)
  let ?f1 = "f\<lparr>ins_op1 := ins_op1 (fleft J f)\<rparr>"
  let ?inner = "ins_o f \<in> {BSHL, BSHR, BROL, BROR} \<and> ref_o J (ins_op1 f) = BAND \<and> ref_o J (ins_op2 f) = KINT"
  have "\<exists>N res. fold_ok J ?f1 res \<and> (\<forall>n \<ge> N. lj_opt_fold n J ?f1 = res)" if ?inner
    using 1(1) [OF fold_order_inner wf shiftk_facts(1) on] that wf ok by blast
  then obtain N1 where N1: "?inner \<Longrightarrow> \<exists>res. fold_ok J ?f1 res \<and> (\<forall>n \<ge> N1. lj_opt_fold n J ?f1 = res)" by blast
  define T where "T = try_rules (fold_table (lj_opt_fold N1)) f (attempts J f) J"
  have in1: "inner_ok J f (lj_opt_fold N1)" if ?inner using N1 [OF that] by (auto simp: inner_ok_def)
  have tab: "list_all (entry_ok J f) (fold_table (lj_opt_fold N1))" using in1 by (intro fold_table_ok [OF wf ok]) auto
  have T: "try_rules (fold_table (lj_opt_fold n)) f (attempts J f) J = T" if "N1 \<le> n" for n
  proof -
    have "lj_opt_fold N1 J ?f1 = lj_opt_fold n J ?f1" if ?inner using N1 [OF that] \<open>N1 \<le> n\<close> by force
    then have "list_all2 (same_entry J f) (fold_table (lj_opt_fold N1)) (fold_table (lj_opt_fold n))"
      by (intro fold_table_same) auto
    from try_rules_same [OF this tab attempts_fit] show ?thesis by (simp add: T_def)
  qed
  have step: "step_ok J f T" unfolding T_def by (rule try_rules_ok [OF tab attempts_fit])
  have "\<exists>N res. fold_ok J' f' res \<and> (\<forall>n \<ge> N. lj_opt_fold n J' f' = res)" if "T = (J', RETRYFOLD f')" for J' f'
    using step that on by (intro 1(1)) (auto simp: step_ok_def rule_ok_def same_flags_def)
  then obtain N2 where N2: "\<And>J' f'. T = (J', RETRYFOLD f') \<Longrightarrow> \<exists>res. fold_ok J' f' res \<and> (\<forall>n \<ge> N2. lj_opt_fold n J' f' = res)"
    by (cases T; cases "snd T") fastforce+
  let ?M = "max N1 N2"
  have "lj_opt_fold n J f = engine_finish (lj_opt_fold ?M) f T" if n: "Suc ?M \<le> n" for n
  proof -
    obtain m where m: "n = Suc m" "?M \<le> m" using n by (cases n) auto
    have "engine_finish (lj_opt_fold m) f T = engine_finish (lj_opt_fold ?M) f T"
      using N2 m(2) by (intro engine_finish_again) fastforce
    then show ?thesis using lj_opt_fold_Suc [OF on, of m f] T [of m] m by simp
  qed
  moreover have "fold_ok J f (engine_finish (lj_opt_fold ?M) f T)"
  proof (rule engine_finish_ok [OF wf ok step])
    show "emittable J f" if "snd T = NEXTFOLD" using unchanged_emittable [OF wf ok tab] that by (simp add: T_def)
    show "fold_ok J' f' (lj_opt_fold ?M J' f')" if "T = (J', RETRYFOLD f')" for J' f' using N2 [OF that] by fastforce
  qed
  ultimately show ?case by blast
qed

section \<open>Guards on constants\<close>

lemma keys_valid:
  assumes "wf_ir J" "fins_ok J f" "ins_o f \<in> guards"
  shows "left_key J f = Op (ref_o J (ins_op1 f))" "right_key J f = Op (ref_o J (ins_op2 f))"
proof -
  have "ins_o f \<notin> {BNOT, BSWAP}" using assms(3) by (auto simp: guards_def cmps_def)
  note v = typed_valid [OF fins_typed [OF assms(2)]] this
  show "left_key J f = Op (ref_o J (ins_op1 f))" using valid_bounds [OF assms(1) v(1)] by (simp add: left_key_def fleft_def)
  show "right_key J f = Op (ref_o J (ins_op2 f))"
    using valid_bounds [OF assms(1) v(2)] v(3) by (simp add: right_key_def fright_def)
qed

text \<open>The rules found for a guard on two constants decide it.\<close>

lemma const_guard_rule:
  assumes "wf_ir J" "fins_ok J f" "ins_o f \<in> guards" "ref_o J (ins_op1 f) = k" "ref_o J (ins_op2 f) = k" "k \<in> {KINT, KINT64}"
  shows "\<exists>key rl c. find (spec_matches (ins_o f) (Op k) (Op k)) (fold_table refold) = Some (key, rl) \<and> rl J f = (J, CONDFOLD c)"
proof -
  have abc: "\<not> (ins_o f = ABC \<and> k = KINT64)"
    using operand_KINT64(1) [OF assms(1) typed_opd1 [OF fins_typed [OF assms(2)]]] assms(4) by auto
  consider (int) "k = KINT" "ins_o f \<in> insert ABC (set comparisons)" | (wide) "k = KINT64" "ins_o f \<in> set comparisons"
    | (eq) "ins_o f \<in> {EQ, NE}"
    using assms(3,6) abc by (auto simp: guards_def cmps_def comparisons_def)
  then show ?thesis
  proof cases
    case int
    then show ?thesis by (auto simp: fold_table_def spec_matches_def comparisons_def kfold_intcomp_def Let_def)
  next
    case wide
    then show ?thesis by (auto simp: fold_table_def spec_matches_def comparisons_def kfold_int64comp_def Let_def)
  next
    case eq
    then show ?thesis using assms(6) by (auto simp: fold_table_def spec_matches_def kfold_kref_def)
  qed
qed

lemma const_guard_try:
  assumes "wf_ir J" "fins_ok J f" "ins_o f \<in> guards" "ref_o J (ins_op1 f) = k" "ref_o J (ins_op2 f) = k" "k \<in> {KINT, KINT64}"
  shows "\<exists>c. try_rules (fold_table refold) f (attempts J f) J = (J, CONDFOLD c)"
proof -
  obtain key rl c where "find (spec_matches (ins_o f) (Op k) (Op k)) (fold_table refold) = Some (key, rl)" "rl J f = (J, CONDFOLD c)"
    using const_guard_rule [OF assms] by blast
  then show ?thesis
    using keys_valid [OF assms(1-3)] assms(4,5)
    by (intro exI [of _ c]) (simp add: attempts_def Let_def CONDFOLD_def)
qed

lemma const_guard_decided:
  assumes wf: "wf_ir J" and ok: "fins_ok J f" and on: "opt_fold J" and g: "ins_o f \<in> guards"
    and k: "ref_o J (ins_op1 f) = k" "ref_o J (ins_op2 f) = k" "k \<in> {KINT, KINT64}" and r: "run J \<rho>"
  shows "lj_opt_fold (Suc n) J f = (if sem_ins \<rho> f = Exit then Inl LJ_TRERR_GFAIL else Inr (J, TREF_DROP))"
proof -
  let ?inner = "ins_o f \<in> {BSHL, BSHR, BROL, BROR}"
  obtain c where c: "try_rules (fold_table (lj_opt_fold n)) f (attempts J f) J = (J, CONDFOLD c)"
    using const_guard_try [OF wf ok g k] by blast
  have "\<not> ?inner" using g by (auto simp: guards_def cmps_def)
  then have "list_all (entry_ok J f) (fold_table (lj_opt_fold n))" by (intro fold_table_ok [OF wf ok]) auto
  from try_rules_ok [OF this attempts_fit] have "rule_ok J f (J, CONDFOLD c)" by (simp add: c step_ok_def)
  then have "sem_ins \<rho> f = Exit \<longleftrightarrow> \<not> c"
    using r by (auto simp: rule_ok_def CONDFOLD_def implements_def split: if_splits)
  then show ?thesis by (simp add: on c CONDFOLD_def)
qed

section \<open>Properties of the engine\<close>

text \<open>A small trace for the examples: \<^verbatim>\<open>BASE\<close>, one 32-bit and one 64-bit stack slot, the constants 8 and 0,
  and a bounds check of the index 8 against the first slot.\<close>

definition opaque_ins :: "irop \<Rightarrow> irtype \<Rightarrow> irins" where
  "opaque_ins op t = \<lparr>ins_o = op, ins_t = t, ins_guard = False, ins_phi = False, ins_op1 = 0, ins_op2 = 0, ins_i = 0, ins_k64 = 0\<rparr>"

definition demo_ins :: "irop \<Rightarrow> irtype \<Rightarrow> nat \<Rightarrow> nat \<Rightarrow> irins" where
  "demo_ins op t a b = (opaque_ins op t)\<lparr>ins_op1 := a, ins_op2 := b\<rparr>"

definition demo_J :: jit_State where
  "demo_J = \<lparr>cur_ir = (\<lambda>_. opaque_ins BASE IRT_P64)(0x7ffe := kint_ins 8, 0x7ffd := kint_ins 0, 0x8001 := opaque_ins SLOAD IRT_INT,
       0x8002 := opaque_ins SLOAD IRT_I64, 0x8003 := demo_ins ABC IRT_INT 0x8001 0x7ffe),
     cur_nk = 0x7ffd, cur_nins = 0x8004,
     chain = (\<lambda>_. [])(KINT := [0x7ffd, 0x7ffe], SLOAD := [0x8002, 0x8001], ABC := [0x8003]),
     opt_fold = True, opt_cse = True, opt_abc = True, guardemit = False\<rparr>"

lemma demo_refs: "0x8000 \<le> r \<Longrightarrow> r < 0x8004 \<Longrightarrow> r = 0x8000 \<or> r = 0x8001 \<or> r = 0x8002 \<or> r = 0x8003" for r :: nat
  by auto

lemma demo_wf: "wf_ir demo_J"
  unfolding wf_ir_def
proof (intro conjI allI impI)
  show "wf_ins demo_J r" if "REF_BIAS \<le> r" "r < cur_nins demo_J" for r
    using demo_refs [of r] that
    by (auto simp: demo_J_def REF_BIAS_def wf_ins_def Let_def opaque_ins_def demo_ins_def op_classes kint_ins_def typed_def canonical_def opd_def
        valid_def int32_def)
  show "\<forall>r \<in> set (chain demo_J op). REF_BIAS \<le> r \<and> r < cur_nins demo_J \<and> ref_o demo_J r = op" if "\<not> is_const op" for op
    using that by (auto simp: demo_J_def REF_BIAS_def opaque_ins_def demo_ins_def is_const_def)
qed (auto simp: demo_J_def REF_BIAS_def kint_ins_def inj_on_def)

lemma demo_ok: "fins_ok demo_J (demo_ins MUL IRT_INT 0x8001 0x7ffe)" "fins_ok demo_J (demo_ins ABC IRT_INT 0x8001 0x7ffd)"
  "fins_ok demo_J (demo_ins LT IRT_INT 0x7ffe 0x7ffd)" "fins_ok demo_J (demo_ins GE IRT_INT 0x7ffe 0x7ffd)"
  by (auto simp: fins_ok_def typed_def Let_def demo_ins_def opaque_ins_def opd_def valid_def demo_J_def REF_BIAS_def kint_ins_def
      int32_def int64_def op_classes)

lemma demo_on: "opt_fold demo_J"
  by (simp add: demo_J_def)

text \<open>The multiplication by 8 becomes a shift by 3, a new constant and a new instruction.\<close>

definition demo_J' :: jit_State where
  "demo_J' = demo_J\<lparr>cur_ir := (cur_ir demo_J)(0x7ffc := kint_ins 3, 0x8004 := demo_ins BSHL IRT_INT 0x8001 0x7ffc),
     cur_nk := 0x7ffc, cur_nins := 0x8005,
     chain := (chain demo_J)(KINT := [0x7ffc, 0x7ffd, 0x7ffe], BSHL := [0x8004])\<rparr>"

lemma lj_fls_8: "lj_fls 8 = 3"
  by code_simp

lemma demo_simps [simp]:
  "ins_o (demo_ins op t a b) = op" "ins_t (demo_ins op t a b) = t" "ins_op1 (demo_ins op t a b) = a" "ins_op2 (demo_ins op t a b) = b"
  "(demo_ins op t a b)\<lparr>ins_o := op', ins_op2 := b'\<rparr> = demo_ins op' t a b'"
  "opt_fold demo_J" "opt_cse demo_J" "cur_nk demo_J = 0x7ffd" "cur_nins demo_J = 0x8004" "chain demo_J KINT = [0x7ffd, 0x7ffe]"
  "chain demo_J BSHL = []" "\<not> guardemit demo_J"
  "cur_ir demo_J 0x8001 = opaque_ins SLOAD IRT_INT" "cur_ir demo_J 0x7ffe = kint_ins 8" "cur_ir demo_J 0x7ffd = kint_ins 0"
  "\<not> ins_guard (demo_ins op t a b)" "ins_o (opaque_ins op t) = op" "ins_o (kint_ins k) = KINT" "ins_i (kint_ins k) = k"
  by (simp_all add: demo_ins_def opaque_ins_def demo_J_def kint_ins_def)

lemma demo_mul: "lj_opt_fold (Suc (Suc n)) demo_J (demo_ins MUL IRT_INT 0x8001 0x7ffe) = Inr (demo_J', TREF 0x8004)"
proof -
  let ?mul = "demo_ins MUL IRT_INT 0x8001 0x7ffe" and ?shl = "demo_ins BSHL IRT_INT 0x8001 0x7ffc"
  define J where "J = demo_J\<lparr>cur_ir := (cur_ir demo_J)(0x7ffc := kint_ins 3), cur_nk := 0x7ffc,
     chain := (chain demo_J)(KINT := [0x7ffc, 0x7ffd, 0x7ffe])\<rparr>"
  have J: "opt_fold J" "opt_cse J" "cur_nk J = 0x7ffc" "cur_nins J = 0x8004" "chain J BSHL = []"
    "cur_ir J 0x8001 = opaque_ins SLOAD IRT_INT" "cur_ir J 0x7ffc = kint_ins 3"
    by (simp_all add: J_def)
  have "lj_ir_kint demo_J 3 = Some (J, 0x7ffc)"
    by (simp add: lj_ir_kint_def ir_nextk_def add_const_def J_def)
  then have "try_rules (fold_table (lj_opt_fold (Suc n))) ?mul (attempts demo_J ?mul) demo_J = (J, RETRYFOLD ?shl)"
    by (simp add: attempts_def left_key_def right_key_def fleft_def fright_def Let_def fold_table_def spec_matches_def
        simplify_intmul_k32_def simplify_intmul_k_def with_kint_def lj_fls_8)
  moreover have "try_rules (fold_table (lj_opt_fold n)) ?shl (attempts J ?shl) J = (J, NEXTFOLD)"
    by (simp add: attempts_def left_key_def right_key_def fleft_def fright_def Let_def fold_table_def spec_matches_def
        simplify_shift_ik_def shmask_def J)
  moreover have "lj_opt_cse J ?shl = (demo_J', 0x8004)"
    by (simp add: lj_opt_cse_def cse_find_def lj_ir_emit_def J demo_J'_def) (simp add: J_def demo_J_def fun_upd_twist)
  ultimately show ?thesis using J(1) by simp
qed

text \<open>C11: The retry loop of the FOLD engine ends, for the well-typed integer instructions without 64-bit modulo,
  logical right shift or rotate, without division and power, and with a bounds check of pointer type only in
  a trace that has no loop. With enough fuel the engine gives a result that is not exhaustion, and more
  fuel does not change it.\<close>

theorem lj_opt_fold_terminates:
  assumes "wf_ir J" "fins_ok J f" "opt_fold J"
  shows "\<exists>N res. res \<noteq> Inl OUT_OF_FUEL \<and> (\<forall>n. N \<le> n \<longrightarrow> lj_opt_fold n J f = res)"
proof -
  obtain N res where "fold_ok J f res" "\<forall>n \<ge> N. lj_opt_fold n J f = res" using lj_opt_fold_converges [OF assms] by blast
  then show ?thesis by (intro exI [of _ N] exI [of _ res]) (auto simp: fold_ok_def)
qed

theorem lj_opt_fold_terminates_witness:
  "\<exists>N res. res \<noteq> Inl OUT_OF_FUEL \<and> (\<forall>n. N \<le> n \<longrightarrow> lj_opt_fold n demo_J (demo_ins MUL IRT_INT 0x8001 0x7ffe) = res)"
  by (rule lj_opt_fold_terminates [OF demo_wf demo_ok(1) demo_on])

text \<open>C1: The FOLD engine is correct on the instructions of its contract: well-typed integer instructions,
  but no division or power, no 64-bit modulo, logical right shift or rotate (the engine folds some of
  these wrongly), and a bounds check of pointer type only in a trace that has no loop. Given enough fuel, a
  reference it returns has the value of the instruction in every run of the new buffer, and every run of
  the old buffer in which the instruction completes is a run of the new one; only a guard is dropped, and
  only when the runs of the new buffer are those in which it holds. Otherwise the trace is given up:
  because the instruction completes in no run, or with \<open>ABORTED\<close>, the value for the end of the slots for
  constants and for the trap of folding a modulo by zero.\<close>

theorem lj_opt_fold_sound:
  assumes "wf_ir J" "fins_ok J f" "opt_fold J"
  shows "\<exists>N. \<forall>n J'. N \<le> n \<longrightarrow>
    (\<forall>r. lj_opt_fold n J f = Inr (J', TREF r) \<longrightarrow> implements J f J' (\<lambda>\<rho>. \<rho> r)) \<and>
    (lj_opt_fold n J f = Inr (J', TREF_DROP) \<longrightarrow> ins_o f \<in> guards \<and> implements J f J' (\<lambda>_. 0)) \<and>
    (\<forall>e. lj_opt_fold n J f = Inl e \<longrightarrow> e = ABORTED \<or> e = LJ_TRERR_GFAIL \<and> (\<forall>\<rho> x. run J \<rho> \<longrightarrow> sem_ins \<rho> f \<noteq> Done x))"
proof -
  obtain N res where N: "fold_ok J f res" "\<forall>n \<ge> N. lj_opt_fold n J f = res" using lj_opt_fold_converges [OF assms] by blast
  have "e = ABORTED \<or> e = LJ_TRERR_GFAIL \<and> (\<forall>\<rho> x. run J \<rho> \<longrightarrow> sem_ins \<rho> f \<noteq> Done x)" if "res = Inl e" for e
    using N(1) that by (cases e) (fastforce simp: fold_ok_def)+
  with N show ?thesis by (intro exI [of _ N]) (auto simp: fold_ok_def result_ok_def)
qed

text \<open>The engine answers the multiplication with the reference of a shift, and that reference has its value.\<close>

theorem lj_opt_fold_sound_witness:
  "(\<forall>n. lj_opt_fold (Suc (Suc n)) demo_J (demo_ins MUL IRT_INT 0x8001 0x7ffe) = Inr (demo_J', TREF 0x8004)) \<and>
   implements demo_J (demo_ins MUL IRT_INT 0x8001 0x7ffe) demo_J' (\<lambda>\<rho>. \<rho> 0x8004)"
proof -
  obtain N where "\<And>n J' r. N \<le> n \<Longrightarrow> lj_opt_fold n demo_J (demo_ins MUL IRT_INT 0x8001 0x7ffe) = Inr (J', TREF r) \<Longrightarrow>
      implements demo_J (demo_ins MUL IRT_INT 0x8001 0x7ffe) J' (\<lambda>\<rho>. \<rho> r)"
    using lj_opt_fold_sound [OF demo_wf demo_ok(1) demo_on] by blast
  from this [of "Suc (Suc N)" demo_J' "0x8004"] show ?thesis using demo_mul by simp
qed

text \<open>C29: When the engine gives up a trace because a guard always fails, the guard completes in no run; this is
  for the well-typed integer instructions without 64-bit modulo, logical right shift or rotate, without
  division and power, and with a bounds check of pointer type only in a trace that has no loop. A guard
  on two constants of the same width is always decided: the engine gives up the trace exactly when the
  guard fails, and otherwise drops the guard.\<close>

theorem lj_opt_fold_fails:
  assumes "wf_ir J" "fins_ok J f" "opt_fold J"
  shows "(\<exists>N. \<forall>n. N \<le> n \<longrightarrow> lj_opt_fold n J f = Inl LJ_TRERR_GFAIL \<longrightarrow> (\<forall>\<rho> x. run J \<rho> \<longrightarrow> sem_ins \<rho> f \<noteq> Done x)) \<and>
    (ins_o f \<in> guards \<longrightarrow> ref_o J (ins_op1 f) = ref_o J (ins_op2 f) \<longrightarrow> ref_o J (ins_op1 f) \<in> {KINT, KINT64} \<longrightarrow>
      (\<forall>n \<rho>. run J \<rho> \<longrightarrow>
        lj_opt_fold (Suc n) J f = (if sem_ins \<rho> f = Exit then Inl LJ_TRERR_GFAIL else Inr (J, TREF_DROP))))"
proof (intro conjI impI allI)
  obtain N res where "fold_ok J f res" "\<forall>n \<ge> N. lj_opt_fold n J f = res" using lj_opt_fold_converges [OF assms] by blast
  then show "\<exists>N. \<forall>n. N \<le> n \<longrightarrow> lj_opt_fold n J f = Inl LJ_TRERR_GFAIL \<longrightarrow> (\<forall>\<rho> x. run J \<rho> \<longrightarrow> sem_ins \<rho> f \<noteq> Done x)"
    by (intro exI [of _ N]) (fastforce simp: fold_ok_def)
qed (rule const_guard_decided [OF assms _ _ _ _, where k = "ref_o J (ins_op1 f)"], simp_all)

text \<open>The guard \<open>8 < 0\<close> makes the engine give up, and fails in a run of the buffer.\<close>

definition demo_run :: "nat \<Rightarrow> u64" where
  "demo_run = (\<lambda>_. 0)(0x7ffe := 8, 0x8001 := 9)"

lemma demo_run: "run demo_J demo_run"
  unfolding run_def
proof (intro allI impI)
  fix r assume "valid demo_J r"
  then have "r = 0x7ffd \<or> r = 0x7ffe \<or> r = 0x8000 \<or> r = 0x8001 \<or> r = 0x8002 \<or> r = 0x8003"
    using demo_refs [of r] by (auto simp: valid_def demo_J_def REF_BIAS_def)
  then show "completes demo_J demo_run r"
    by (auto simp: completes_def demo_J_def demo_run_def opaque_ins_def demo_ins_def kint_ins_def is_opaque_def
        sem_ins_def sem_def guard_def)
qed

theorem lj_opt_fold_fails_witness:
  "(\<forall>n. lj_opt_fold (Suc n) demo_J (demo_ins LT IRT_INT 0x7ffe 0x7ffd) = Inl LJ_TRERR_GFAIL) \<and>
   (\<forall>n. lj_opt_fold (Suc n) demo_J (demo_ins GE IRT_INT 0x7ffe 0x7ffd) = Inr (demo_J, TREF_DROP)) \<and>
   run demo_J demo_run \<and> (\<forall>x. sem_ins demo_run (demo_ins LT IRT_INT 0x7ffe 0x7ffd) \<noteq> Done x)"
proof -
  let ?lt = "demo_ins LT IRT_INT 0x7ffe 0x7ffd" and ?ge = "demo_ins GE IRT_INT 0x7ffe 0x7ffd"
  note F = lj_opt_fold_fails [OF demo_wf demo_ok(3) demo_on] lj_opt_fold_fails [OF demo_wf demo_ok(4) demo_on]
  have sem: "sem_ins demo_run ?lt = Exit" "sem_ins demo_run ?ge = Done 0"
    by (simp_all add: sem_ins_def sem_def demo_run_def demo_ins_def opaque_ins_def guard_def)
  have k: "ins_o ?lt \<in> guards" "ins_o ?ge \<in> guards" "ref_o demo_J (ins_op1 ?lt) = KINT" "ref_o demo_J (ins_op2 ?lt) = KINT"
    "ref_o demo_J (ins_op1 ?ge) = KINT" "ref_o demo_J (ins_op2 ?ge) = KINT"
    by (simp_all add: demo_ins_def opaque_ins_def demo_J_def kint_ins_def)
  have lt: "lj_opt_fold (Suc n) demo_J ?lt = Inl LJ_TRERR_GFAIL" for n using F(1) k demo_run sem by auto
  moreover have "lj_opt_fold (Suc n) demo_J ?ge = Inr (demo_J, TREF_DROP)" for n using F(2) k demo_run sem by auto
  moreover obtain N where "\<And>n \<rho> x. N \<le> n \<Longrightarrow> lj_opt_fold n demo_J ?lt = Inl LJ_TRERR_GFAIL \<Longrightarrow> run demo_J \<rho> \<Longrightarrow> sem_ins \<rho> ?lt \<noteq> Done x"
    using F(1) by blast
  from this [of "Suc N"] lt demo_run have "sem_ins demo_run ?lt \<noteq> Done x" for x by simp
  ultimately show ?thesis using demo_run by blast
qed

text \<open>C30: The FOLD engine keeps the instruction buffer well formed: constants stay unique, operands
  precede their uses and have the width of the instruction. For an instruction other than a bounds check
  it also keeps all instructions of the buffer as they are, and the reference it returns is an operand of
  the width of the instruction (a bounds check may be merged into an earlier one, whose operand changes).
  The instruction to fold is a well-typed integer instruction, but no division or power and no 64-bit
  modulo, logical right shift or rotate, and a bounds check of pointer type only in a trace that has no
  loop.\<close>

theorem lj_opt_fold_invariant:
  assumes "wf_ir J" "fins_ok J f" "opt_fold J"
  shows "\<exists>N. \<forall>n J' tr. N \<le> n \<longrightarrow> lj_opt_fold n J f = Inr (J', tr) \<longrightarrow>
    wf_ir J' \<and> (ins_o f \<noteq> ABC \<longrightarrow> extends J J' \<and> (\<forall>r. tr = TREF r \<longrightarrow> opd J' (int64 (ins_t f)) r))"
proof -
  obtain N res where N: "fold_ok J f res" "\<forall>n \<ge> N. lj_opt_fold n J f = res" using lj_opt_fold_converges [OF assms] by blast
  have "wf_ir J' \<and> (ins_o f \<noteq> ABC \<longrightarrow> extends J J' \<and> (\<forall>r. tr = TREF r \<longrightarrow> opd J' (int64 (ins_t f)) r))"
    if "res = Inr (J', tr)" for J' tr
    using N(1) that by (cases tr) (auto simp: fold_ok_def result_ok_def implements_def)
  with N(2) show ?thesis by blast
qed

theorem lj_opt_fold_invariant_witness:
  "(\<forall>n. lj_opt_fold (Suc (Suc n)) demo_J (demo_ins MUL IRT_INT 0x8001 0x7ffe) = Inr (demo_J', TREF 0x8004)) \<and>
   wf_ir demo_J' \<and> extends demo_J demo_J' \<and> opd demo_J' False 0x8004"
proof -
  let ?mul = "demo_ins MUL IRT_INT 0x8001 0x7ffe"
  have mul: "ins_o ?mul \<noteq> ABC" "\<not> int64 (ins_t ?mul)" by (simp_all add: demo_ins_def opaque_ins_def int64_def)
  obtain N where "\<And>n J' tr. N \<le> n \<Longrightarrow> lj_opt_fold n demo_J ?mul = Inr (J', tr) \<Longrightarrow>
      wf_ir J' \<and> extends demo_J J' \<and> (\<forall>r. tr = TREF r \<longrightarrow> opd J' (int64 (ins_t ?mul)) r)"
    using lj_opt_fold_invariant [OF demo_wf demo_ok(1) demo_on] mul(1) by metis
  from this [of "Suc (Suc N)" demo_J' "TREF 0x8004"] show ?thesis using demo_mul mul(2) by simp
qed

section \<open>Instructions outside the contract\<close>

text \<open>The helper that folds the mask of a 64-bit shift works on the low half of the mask: for
  \<open>(x AND 0xffffffff00000000) >> 4\<close> the mask after the shift is computed as zero.\<close>

lemma kfold_int64arith_op_truncates:
  "kfold_int64arith_op 0xffffffff00000000 4 BSHR = 0"
  "sem_w BSHR (0xffffffff00000000 :: u64) 4 = Done 0x0ffffffff0000000"
  by code_simp+

text \<open>Common-subexpression elimination compares opcode and operands only: an unsigned 64-bit division
  gets the result of the signed division of the same operands.\<close>

definition cse_J :: jit_State where
  "cse_J = \<lparr>cur_ir = (\<lambda>_. opaque_ins BASE IRT_P64)(0x8001 := opaque_ins SLOAD IRT_I64, 0x8002 := opaque_ins SLOAD IRT_I64,
       0x8003 := demo_ins DIV IRT_I64 0x8001 0x8002),
     cur_nk = 0x7ffd, cur_nins = 0x8004, chain = (\<lambda>_. [])(SLOAD := [0x8002, 0x8001], DIV := [0x8003]),
     opt_fold = True, opt_cse = True, opt_abc = True, guardemit = False\<rparr>"

lemma lj_opt_cse_merges_signs:
  "lj_opt_cse cse_J (demo_ins DIV IRT_U64 0x8001 0x8002) = (cse_J, 0x8003)"
  "lj_carith_divi64 (- 8) 2 \<noteq> lj_carith_divu64 (- 8) 2"
proof -
  show "lj_opt_cse cse_J (demo_ins DIV IRT_U64 0x8001 0x8002) = (cse_J, 0x8003)"
    by (simp add: lj_opt_cse_def cse_find_def cse_J_def demo_ins_def opaque_ins_def)
  show "lj_carith_divi64 (- 8) 2 \<noteq> lj_carith_divu64 (- 8) 2" by code_simp
qed

end
