(* ===== verification/Buf.thy ===== *)
theory Buf
  imports Snabb_Prelude "HOL-Library.While_Combinator"
begin

text \<open>
  String buffers of RaptorJIT (\<^verbatim>\<open>lj_buf.c\<close>, \<^verbatim>\<open>lj_buf.h\<close>). A buffer is the memory from its base to its
  end pointer, with the write and read pointers as offsets. Sizes are of type \<^verbatim>\<open>MSize\<close>, 32 bits
  wide: where a sum can wrap around, the model says so. Memory that has just been allocated has
  indeterminate contents; the model has zeros there, and no operation reads above the write pointer.

  A store outside the buffer is the error \<open>BUF_OVERRUN\<close>, a loop that never ends \<open>BUF_LOOP\<close>. The
  contract of a buffer is the locale \<open>byte_buffer\<close>; the formatting functions are proved against it.
\<close>

datatype buf_err = LJ_ERR_MEM | BUF_OVERRUN | BUF_LOOP

definition bindE :: "'e + 'a \<Rightarrow> ('a \<Rightarrow> 'e + 'b) \<Rightarrow> 'e + 'b" where
  "bindE m k = (case m of Inl e \<Rightarrow> Inl e | Inr x \<Rightarrow> k x)"

lemma bindE_simps [simp]: "bindE (Inr x) k = k x" "bindE (Inl e) k = Inl e"
  by (simp_all add: bindE_def)

section \<open>Buffers\<close>

text \<open>\<^verbatim>\<open>SBuf\<close> and \<^verbatim>\<open>SBufExt\<close>: the extension and copy-on-write flags, and for a buffer that borrows another one
  the size and write offset the lender is left with.\<close>

record sbuf =
  sb_mem :: "u8 list"
  sb_w :: nat
  sb_r :: nat
  sb_ext :: bool
  sb_cow :: bool
  sb_bsb :: "(nat \<times> nat) option"

definition LJ_MAX_BUF :: nat where "LJ_MAX_BUF = 0x7fffff00"
definition LJ_MAX_STR :: nat where "LJ_MAX_STR = 0x7fffff00"
definition LJ_MIN_SBUF :: nat where "LJ_MIN_SBUF = 32"

definition sbufsz :: "sbuf \<Rightarrow> nat" where "sbufsz sb = length (sb_mem sb)"
definition sbuflen :: "sbuf \<Rightarrow> nat" where "sbuflen sb = sb_w sb"
definition sbufleft :: "sbuf \<Rightarrow> nat" where "sbufleft sb = sbufsz sb - sb_w sb"
definition sbufxlen :: "sbuf \<Rightarrow> nat" where "sbufxlen sb = sb_w sb - sb_r sb"
definition sbufxslack :: "sbuf \<Rightarrow> nat" where "sbufxslack sb = sb_r sb"

definition lj_buf_init :: sbuf where
  "lj_buf_init = \<lparr>sb_mem = [], sb_w = 0, sb_r = 0, sb_ext = False, sb_cow = False, sb_bsb = None\<rparr>"

definition lj_buf_reset :: "sbuf \<Rightarrow> sbuf" where
  "lj_buf_reset sb = sb\<lparr>sb_w := 0\<rparr>"

definition lj_bufx_init :: sbuf where
  "lj_bufx_init = lj_buf_init\<lparr>sb_ext := True\<rparr>"

definition lj_bufx_set_borrow :: "sbuf \<Rightarrow> sbuf" where
  "lj_bufx_set_borrow sb =
     \<lparr>sb_mem = sb_mem sb, sb_w = 0, sb_r = 0, sb_ext = True, sb_cow = False, sb_bsb = Some (sb_w sb, sbufsz sb)\<rparr>"

definition lj_bufx_set_cow :: "u8 list \<Rightarrow> sbuf" where
  "lj_bufx_set_cow p = \<lparr>sb_mem = p, sb_w = length p, sb_r = 0, sb_ext = True, sb_cow = True, sb_bsb = None\<rparr>"

definition lj_bufx_reset :: "sbuf \<Rightarrow> sbuf" where
  "lj_bufx_reset sb = (if sb_cow sb then sb\<lparr>sb_cow := False, sb_mem := [], sb_r := 0, sb_w := 0\<rparr> else sb\<lparr>sb_r := 0, sb_w := 0\<rparr>)"

definition lj_bufx_free :: "sbuf \<Rightarrow> sbuf" where
  "lj_bufx_free sb = lj_bufx_init"

definition lj_bufx_set :: "sbuf \<Rightarrow> u8 list \<Rightarrow> sbuf" where
  "lj_bufx_set sb p = lj_bufx_set_cow p"

section \<open>Growing\<close>

text \<open>\<^verbatim>\<open>while (nsz < sz) nsz += nsz;\<close>\<close>

definition grow_size :: "nat \<Rightarrow> nat \<Rightarrow> nat option" where
  "grow_size sz nsz = while_option (\<lambda>n. n < sz) (\<lambda>n. (n + n) mod 2 ^ 32) nsz"

definition buf_grow :: "sbuf \<Rightarrow> nat \<Rightarrow> buf_err + sbuf" where
  "buf_grow sb sz =
     (let osz = sbufsz sb; len = sbuflen sb
      in case grow_size sz (max osz LJ_MIN_SBUF) of
           None \<Rightarrow> Inl BUF_LOOP
         | Some nsz \<Rightarrow>
             Inr (sb\<lparr>sb_mem := sb_mem sb @ replicate (nsz - osz) 0, sb_cow := False,
               sb_bsb := map_option (\<lambda>_. (len, nsz)) (sb_bsb sb)\<rparr>))"

definition lj_buf_need2 :: "sbuf \<Rightarrow> nat \<Rightarrow> buf_err + sbuf" where
  "lj_buf_need2 sb sz = (if sz > LJ_MAX_BUF then Inl LJ_ERR_MEM else buf_grow sb sz)"

definition buf_compact :: "sbuf \<Rightarrow> sbuf" where
  "buf_compact sb =
     (if sb_r sb \<noteq> 0 then
        (let len = sbufxlen sb
         in sb\<lparr>sb_mem := take len (drop (sb_r sb) (sb_mem sb)) @ drop len (sb_mem sb), sb_r := 0, sb_w := len\<rparr>)
      else sb)"

definition lj_buf_more2 :: "sbuf \<Rightarrow> nat \<Rightarrow> buf_err + sbuf" where
  "lj_buf_more2 sb sz =
     (if sb_ext sb then
        (let len = sbufxlen sb
         in if sz > LJ_MAX_BUF \<or> len + sz > LJ_MAX_BUF then Inl LJ_ERR_MEM
            else if len + sz > sbufsz sb then bindE (buf_grow sb (len + sz)) (\<lambda>sb. Inr (buf_compact sb))
            else if sb_cow sb \<or> sbufxslack sb < sbufsz sb div 8 then buf_grow sb ((sbuflen sb + sz) mod 2 ^ 32)
            else Inr (buf_compact sb))
      else
        (let len = sbuflen sb
         in if sz > LJ_MAX_BUF \<or> len + sz > LJ_MAX_BUF then Inl LJ_ERR_MEM else buf_grow sb (len + sz)))"

definition lj_buf_need :: "sbuf \<Rightarrow> nat \<Rightarrow> buf_err + sbuf" where
  "lj_buf_need sb sz = (if sz > sbufsz sb then lj_buf_need2 sb sz else Inr sb)"

definition lj_buf_more :: "sbuf \<Rightarrow> nat \<Rightarrow> buf_err + sbuf" where
  "lj_buf_more sb sz = (if sz > sbufleft sb then lj_buf_more2 sb sz else Inr sb)"

definition lj_buf_shrink :: "sbuf \<Rightarrow> sbuf" where
  "lj_buf_shrink sb = (if sbufsz sb > 2 * LJ_MIN_SBUF then sb\<lparr>sb_mem := take (sbufsz sb div 2) (sb_mem sb)\<rparr> else sb)"

section \<open>Putting bytes\<close>

text \<open>Stores at the write pointer, which then points behind them.\<close>

definition lj_buf_wmem :: "sbuf \<Rightarrow> u8 list \<Rightarrow> buf_err + sbuf" where
  "lj_buf_wmem sb q =
     (if sb_w sb + length q \<le> sbufsz sb then
        Inr (sb\<lparr>sb_mem := take (sb_w sb) (sb_mem sb) @ q @ drop (sb_w sb + length q) (sb_mem sb), sb_w := sb_w sb + length q\<rparr>)
      else Inl BUF_OVERRUN)"

text \<open>Reserve \<open>need\<close> bytes and store \<open>q\<close>.\<close>

definition buf_write :: "sbuf \<Rightarrow> nat \<Rightarrow> u8 list \<Rightarrow> buf_err + sbuf" where
  "buf_write sb need q = bindE (lj_buf_more sb need) (\<lambda>sb. lj_buf_wmem sb q)"

definition lj_buf_putmem :: "sbuf \<Rightarrow> u8 list \<Rightarrow> buf_err + sbuf" where
  "lj_buf_putmem sb q = buf_write sb (length q) q"

definition lj_buf_putchar2 :: "sbuf \<Rightarrow> c_int \<Rightarrow> buf_err + sbuf" where
  "lj_buf_putchar2 sb c = bindE (lj_buf_more2 sb 1) (\<lambda>sb. lj_buf_wmem sb [u8_of_u32 c])"

definition lj_buf_putchar :: "sbuf \<Rightarrow> c_int \<Rightarrow> buf_err + sbuf" where
  "lj_buf_putchar sb c = (if sb_w sb < sbufsz sb then lj_buf_wmem sb [u8_of_u32 c] else lj_buf_putchar2 sb c)"

definition lj_buf_putb :: "sbuf \<Rightarrow> c_int \<Rightarrow> buf_err + sbuf" where
  "lj_buf_putb sb c = buf_write sb 1 [u8_of_u32 c]"

definition lj_buf_putstr :: "sbuf \<Rightarrow> u8 list \<Rightarrow> buf_err + sbuf" where
  "lj_buf_putstr sb s = buf_write sb (length s) s"

definition lj_buf_putstr_reverse :: "sbuf \<Rightarrow> u8 list \<Rightarrow> buf_err + sbuf" where
  "lj_buf_putstr_reverse sb s = buf_write sb (length s) (rev s)"

definition lower_char :: "u8 \<Rightarrow> u8" where
  "lower_char c = (if c \<ge> 0x41 \<and> c \<le> 0x5a then c + 0x20 else c)"

definition upper_char :: "u8 \<Rightarrow> u8" where
  "upper_char c = (if c \<ge> 0x61 \<and> c \<le> 0x7a then c - 0x20 else c)"

definition lj_buf_putstr_lower :: "sbuf \<Rightarrow> u8 list \<Rightarrow> buf_err + sbuf" where
  "lj_buf_putstr_lower sb s = buf_write sb (length s) (map lower_char s)"

definition lj_buf_putstr_upper :: "sbuf \<Rightarrow> u8 list \<Rightarrow> buf_err + sbuf" where
  "lj_buf_putstr_upper sb s = buf_write sb (length s) (map upper_char s)"

definition lj_buf_putstr_rep :: "sbuf \<Rightarrow> u8 list \<Rightarrow> c_int \<Rightarrow> buf_err + sbuf" where
  "lj_buf_putstr_rep sb s rep =
     (if sint rep > 0 \<and> s \<noteq> [] then
        (let tlen = nat (sint rep) * length s
         in if tlen > LJ_MAX_STR then Inl LJ_ERR_MEM else buf_write sb tlen (concat (replicate (nat (sint rep)) s)))
      else Inr sb)"

section \<open>The contract of a buffer\<close>

definition sbuf_ok :: "sbuf \<Rightarrow> bool" where
  "sbuf_ok sb \<longleftrightarrow> sb_r sb \<le> sb_w sb \<and> sb_w sb \<le> length (sb_mem sb) \<and> (\<not> sb_ext sb \<longrightarrow> sb_r sb = 0 \<and> \<not> sb_cow sb) \<and>
     (sb_cow sb \<longrightarrow> sb_w sb = length (sb_mem sb))"

text \<open>The bytes that have been put and not yet read.\<close>

definition sbuf_data :: "sbuf \<Rightarrow> u8 list" where
  "sbuf_data sb = drop (sb_r sb) (take (sb_w sb) (sb_mem sb))"

definition sbuf_room :: "sbuf \<Rightarrow> nat" where
  "sbuf_room sb = LJ_MAX_BUF - sb_w sb"

lemma grow_size_returns:
  assumes "0 < n" "sz \<le> 2 ^ 31"
  obtains m where "grow_size sz n = Some m" "sz \<le> m" "n \<le> m"
proof -
  let ?P = "\<lambda>k. 0 < k \<and> n \<le> k"
  let ?c = "\<lambda>k::nat. (k + k) mod 2 ^ 32"
  have step: "?P (?c k) \<and> sz - ?c k < sz - k" if "?P k" "k < sz" for k using that assms by auto
  have "\<exists>t. while_option (\<lambda>k. k < sz) ?c n = Some t"
    by (rule measure_while_option_Some [where P = ?P and f = "\<lambda>k. sz - k"]) (use step assms in auto)
  then obtain m where m: "while_option (\<lambda>k. k < sz) ?c n = Some m" by blast
  have "\<not> m < sz" by (rule while_option_stop [OF m])
  moreover have "?P m" by (rule while_option_rule [OF _ m, where P = ?P]) (use step assms in auto)
  ultimately show thesis using that m by (simp add: grow_size_def)
qed

lemma grow_size_zero: "0 < sz \<Longrightarrow> grow_size sz 0 = None"
proof (rule ccontr)
  assume sz: "0 < sz" and "grow_size sz 0 \<noteq> None"
  then obtain m where m: "while_option (\<lambda>k. k < sz) (\<lambda>k. (k + k) mod 2 ^ 32) 0 = Some m" by (auto simp: grow_size_def)
  have "m = 0" by (rule while_option_rule [OF _ m, where P = "\<lambda>k. k = 0"]) auto
  with while_option_stop [OF m] sz show False by simp
qed

lemma grow_size_step: "n < sz \<Longrightarrow> grow_size sz n = grow_size sz ((n + n) mod 2 ^ 32)"
  by (simp add: grow_size_def while_option_unfold [of _ _ n])

lemma buf_grow_ok:
  assumes "sbuf_ok sb" "sz \<le> 2 ^ 31"
  obtains sb' where "buf_grow sb sz = Inr sb'" "sbuf_ok sb'" "sb_w sb' = sb_w sb" "sb_r sb' = sb_r sb" "sbuf_data sb' = sbuf_data sb"
    "sz \<le> sbufsz sb'" "sb_ext sb' = sb_ext sb" "\<not> sb_cow sb'" "\<exists>xs. sb_mem sb' = sb_mem sb @ xs"
proof -
  have pos: "0 < max (sbufsz sb) LJ_MIN_SBUF" by (simp add: LJ_MIN_SBUF_def)
  obtain m where "grow_size sz (max (sbufsz sb) LJ_MIN_SBUF) = Some m" "sz \<le> m" "max (sbufsz sb) LJ_MIN_SBUF \<le> m"
    by (rule grow_size_returns [OF pos assms(2)])
  then show thesis
    using assms(1) that by (auto simp: buf_grow_def Let_def sbuf_ok_def sbuf_data_def sbufsz_def)
qed

lemma buf_compact_ok:
  assumes "sbuf_ok sb" "\<not> sb_cow sb"
  shows "sbuf_ok (buf_compact sb)" "sbuf_data (buf_compact sb) = sbuf_data sb" "sbufsz (buf_compact sb) = sbufsz sb"
    "sb_r (buf_compact sb) = 0" "sb_w (buf_compact sb) = sbufxlen sb" "\<not> sb_cow (buf_compact sb)"
  using assms by (auto simp: buf_compact_def Let_def sbuf_ok_def sbuf_data_def sbufxlen_def sbufsz_def drop_take min_def)

text \<open>Reserving space leaves the contents alone.\<close>

lemma lj_buf_more_ok:
  assumes "sbuf_ok sb" "sz \<le> sbuf_room sb"
  obtains sb' where "lj_buf_more sb sz = Inr sb'" "sbuf_ok sb'" "sbuf_data sb' = sbuf_data sb" "sb_w sb' + sz \<le> sbufsz sb'"
    "sb_w sb' \<le> sb_w sb" "sb_cow sb' \<longrightarrow> sz = 0"
proof (cases "sz > sbufleft sb")
  case False
  then have "sb_w sb + sz \<le> sbufsz sb" using assms(1) by (auto simp: sbufleft_def sbuf_ok_def sbufsz_def)
  with False assms(1) show thesis using that [of sb] by (auto simp: lj_buf_more_def sbuf_ok_def sbufsz_def)
next
  case more: True
  note found = that
  have w: "sb_w sb + sz \<le> LJ_MAX_BUF" "sb_r sb \<le> sb_w sb"
    using assms more by (auto simp: sbuf_room_def sbufleft_def sbuf_ok_def)
  then have sz: "sz \<le> LJ_MAX_BUF" "sb_w sb + sz \<le> 2 ^ 31" "sbufxlen sb + sz \<le> sb_w sb + sz"
    by (auto simp: LJ_MAX_BUF_def sbufxlen_def)
  then have lim: "\<not> (sz > LJ_MAX_BUF \<or> sbufxlen sb + sz > LJ_MAX_BUF)" "\<not> (sz > LJ_MAX_BUF \<or> sb_w sb + sz > LJ_MAX_BUF)"
    "(sb_w sb + sz) mod 2 ^ 32 = sb_w sb + sz" using w by auto
  have grown: thesis if le: "sb_w sb + sz \<le> 2 ^ 31" and eq: "lj_buf_more sb sz = buf_grow sb (sb_w sb + sz)"
  proof -
    obtain sb' where "buf_grow sb (sb_w sb + sz) = Inr sb'" "sbuf_ok sb'" "sb_w sb' = sb_w sb" "sbuf_data sb' = sbuf_data sb"
      "sb_w sb + sz \<le> sbufsz sb'" "\<not> sb_cow sb'"
      by (rule buf_grow_ok [OF assms(1) le]) blast
    then show thesis using eq found [of sb'] by simp
  qed
  consider (plain) "\<not> sb_ext sb" | (grow) "sb_ext sb" "sbufxlen sb + sz > sbufsz sb"
    | (slack) "sb_ext sb" "\<not> sbufxlen sb + sz > sbufsz sb" "sb_cow sb \<or> sbufxslack sb < sbufsz sb div 8"
    | (compact) "sb_ext sb" "\<not> sbufxlen sb + sz > sbufsz sb" "\<not> (sb_cow sb \<or> sbufxslack sb < sbufsz sb div 8)" by blast
  then show thesis
  proof cases
    case plain
    with lim more have "lj_buf_more sb sz = buf_grow sb (sb_w sb + sz)"
      by (simp add: lj_buf_more_def lj_buf_more2_def Let_def sbuflen_def)
    then show ?thesis by (rule grown [OF sz(2)])
  next
    case slack
    with lim more have "lj_buf_more sb sz = buf_grow sb (sb_w sb + sz)"
      by (simp add: lj_buf_more_def lj_buf_more2_def Let_def sbuflen_def)
    then show ?thesis by (rule grown [OF sz(2)])
  next
    case grow
    obtain sb' where sb': "buf_grow sb (sbufxlen sb + sz) = Inr sb'" "sbuf_ok sb'" "sb_w sb' = sb_w sb" "sb_r sb' = sb_r sb"
      "sbuf_data sb' = sbuf_data sb" "sbufxlen sb + sz \<le> sbufsz sb'" "\<not> sb_cow sb'"
      using buf_grow_ok [OF assms(1), of "sbufxlen sb + sz"] sz(2,3) by (metis order_trans)
    note c = buf_compact_ok [OF sb'(2,7)]
    from grow lim more sb'(1) have "lj_buf_more sb sz = Inr (buf_compact sb')"
      by (simp add: lj_buf_more_def lj_buf_more2_def Let_def)
    then show ?thesis using that [of "buf_compact sb'"] c sb' by (simp add: sbufxlen_def)
  next
    case compact
    note c = buf_compact_ok [OF assms(1)]
    from compact lim more have "lj_buf_more sb sz = Inr (buf_compact sb)"
      by (simp add: lj_buf_more_def lj_buf_more2_def Let_def)
    then show ?thesis using that [of "buf_compact sb"] c compact by (simp add: sbufxlen_def)
  qed
qed

lemma lj_buf_wmem_ok:
  assumes "sbuf_ok sb" "sb_w sb + length q \<le> sbufsz sb" "sb_cow sb \<Longrightarrow> q = []"
  obtains sb' where "lj_buf_wmem sb q = Inr sb'" "sbuf_ok sb'" "sbuf_data sb' = sbuf_data sb @ q" "sb_w sb' = sb_w sb + length q"
  using assms by (auto simp: lj_buf_wmem_def sbuf_ok_def sbuf_data_def sbufsz_def)

subsection \<open>The interface used by the formatting functions\<close>

text \<open>What a client of a buffer relies on: a write of at most the reserved number of bytes succeeds as
  long as there is room and appends the bytes.\<close>

locale byte_buffer =
  fixes bwrite :: "'b \<Rightarrow> nat \<Rightarrow> u8 list \<Rightarrow> 'e + 'b"
    and bdata :: "'b \<Rightarrow> u8 list"
    and bok :: "'b \<Rightarrow> bool"
    and broom :: "'b \<Rightarrow> nat"
  assumes write_ok: "bok b \<Longrightarrow> need \<le> broom b \<Longrightarrow> length q \<le> need \<Longrightarrow>
    \<exists>b'. bwrite b need q = Inr b' \<and> bok b' \<and> bdata b' = bdata b @ q \<and> broom b \<le> broom b' + length q"
begin

text \<open>\<open>appends b res q\<close>: the result is a good buffer with \<open>q\<close> appended.\<close>

definition appends :: "'b \<Rightarrow> 'e + 'b \<Rightarrow> u8 list \<Rightarrow> bool" where
  "appends b res q \<longleftrightarrow> (\<exists>b'. res = Inr b' \<and> bok b' \<and> bdata b' = bdata b @ q \<and> broom b \<le> broom b' + length q)"

lemma appends_write: "bok b \<Longrightarrow> need \<le> broom b \<Longrightarrow> length q \<le> need \<Longrightarrow> appends b (bwrite b need q) q"
  using write_ok by (simp add: appends_def)

lemma appends_refl: "bok b \<Longrightarrow> appends b (Inr b) []"
  by (simp add: appends_def)

lemma appends_bind:
  assumes "appends b res q" "\<And>b'. bok b' \<Longrightarrow> broom b \<le> broom b' + length q \<Longrightarrow> appends b' (k b') q'"
  shows "appends b (bindE res k) (q @ q')"
proof -
  obtain b' where b': "res = Inr b'" "bok b'" "bdata b' = bdata b @ q" "broom b \<le> broom b' + length q"
    using assms(1) by (auto simp: appends_def)
  with assms(2) [OF b'(2,4)] show ?thesis by (auto simp: appends_def)
qed

text \<open>A list of writes, each of at most \<open>n\<close> bytes.\<close>

fun writes :: "nat \<Rightarrow> u8 list list \<Rightarrow> 'b \<Rightarrow> 'e + 'b" where
  "writes n [] b = Inr b"
| "writes n (q # qs) b = bindE (bwrite b n q) (writes n qs)"

lemma appends_writes:
  assumes "bok b" "\<forall>q \<in> set qs. length q \<le> n" "n * length qs \<le> broom b"
  shows "appends b (writes n qs b) (concat qs)"
  using assms
proof (induction qs arbitrary: b)
  case (Cons q qs)
  have "appends b (bindE (bwrite b n q) (writes n qs)) (q @ concat qs)"
  proof (rule appends_bind)
    show "appends b (bwrite b n q) q" using Cons.prems by (intro appends_write) auto
    fix b' assume b': "bok b'" "broom b \<le> broom b' + length q"
    have "length q \<le> n" using Cons.prems(2) by simp
    then show "appends b' (writes n qs b') (concat qs)" using Cons.prems b' by (intro Cons.IH) auto
  qed
  then show ?case by simp
qed (simp add: appends_refl)

end

lemma buf_write_ok:
  assumes "sbuf_ok sb" "need \<le> sbuf_room sb" "length q \<le> need"
  shows "\<exists>sb'. buf_write sb need q = Inr sb' \<and> sbuf_ok sb' \<and> sbuf_data sb' = sbuf_data sb @ q \<and>
    sbuf_room sb \<le> sbuf_room sb' + length q"
proof -
  obtain sb1 where sb1: "lj_buf_more sb need = Inr sb1" "sbuf_ok sb1" "sbuf_data sb1 = sbuf_data sb"
    "sb_w sb1 + need \<le> sbufsz sb1" "sb_w sb1 \<le> sb_w sb" "sb_cow sb1 \<longrightarrow> need = 0"
    by (rule lj_buf_more_ok [OF assms(1,2)])
  have "sb_w sb1 + length q \<le> sbufsz sb1" "sb_cow sb1 \<Longrightarrow> q = []" using sb1(4,6) assms(3) by auto
  then obtain sb2 where "lj_buf_wmem sb1 q = Inr sb2" "sbuf_ok sb2" "sbuf_data sb2 = sbuf_data sb1 @ q" "sb_w sb2 = sb_w sb1 + length q"
    using lj_buf_wmem_ok [OF sb1(2)] by metis
  with sb1 show ?thesis by (auto simp: buf_write_def sbuf_room_def)
qed

interpretation sb: byte_buffer buf_write sbuf_data sbuf_ok sbuf_room
  by unfold_locales (rule buf_write_ok)

section \<open>Sequences of puts\<close>

datatype bufop = PutMem "u8 list" | PutChar c_int | PutByte c_int | PutStr "u8 list" | PutReverse "u8 list" | PutLower "u8 list" | PutUpper "u8 list"
  | PutRep "u8 list" c_int

fun buf_op :: "bufop \<Rightarrow> sbuf \<Rightarrow> buf_err + sbuf" where
  "buf_op (PutMem q) sb = lj_buf_putmem sb q"
| "buf_op (PutChar c) sb = lj_buf_putchar sb c"
| "buf_op (PutByte c) sb = lj_buf_putb sb c"
| "buf_op (PutStr s) sb = lj_buf_putstr sb s"
| "buf_op (PutReverse s) sb = lj_buf_putstr_reverse sb s"
| "buf_op (PutLower s) sb = lj_buf_putstr_lower sb s"
| "buf_op (PutUpper s) sb = lj_buf_putstr_upper sb s"
| "buf_op (PutRep s n) sb = lj_buf_putstr_rep sb s n"

fun op_bytes :: "bufop \<Rightarrow> u8 list" where
  "op_bytes (PutMem q) = q"
| "op_bytes (PutChar c) = [u8_of_u32 c]"
| "op_bytes (PutByte c) = [u8_of_u32 c]"
| "op_bytes (PutStr s) = s"
| "op_bytes (PutReverse s) = rev s"
| "op_bytes (PutLower s) = map lower_char s"
| "op_bytes (PutUpper s) = map upper_char s"
| "op_bytes (PutRep s n) = concat (replicate (nat (sint n)) s)"

fun buf_ops :: "bufop list \<Rightarrow> sbuf \<Rightarrow> buf_err + sbuf" where
  "buf_ops [] sb = Inr sb"
| "buf_ops (x # xs) sb = bindE (buf_op x sb) (buf_ops xs)"

lemma lj_buf_putchar_appends:
  assumes "sbuf_ok sb" "1 \<le> sbuf_room sb"
  shows "sb.appends sb (lj_buf_putchar sb c) [u8_of_u32 c]"
proof (cases "sb_w sb < sbufsz sb")
  case True
  then have eq: "lj_buf_putchar sb c = lj_buf_wmem sb [u8_of_u32 c]" and le: "sb_w sb + length [u8_of_u32 c] \<le> sbufsz sb"
    by (simp_all add: lj_buf_putchar_def)
  have "\<not> sb_cow sb" using True assms(1) by (auto simp: sbuf_ok_def sbufsz_def)
  then obtain sb' where "lj_buf_wmem sb [u8_of_u32 c] = Inr sb'" "sbuf_ok sb'" "sbuf_data sb' = sbuf_data sb @ [u8_of_u32 c]"
    "sb_w sb' = sb_w sb + length [u8_of_u32 c]"
    using lj_buf_wmem_ok [OF assms(1) le] by blast
  then show ?thesis unfolding eq by (simp add: sb.appends_def sbuf_room_def)
next
  case False
  then have "sbufleft sb = 0" by (simp add: sbufleft_def)
  then have "lj_buf_putchar sb c = buf_write sb 1 [u8_of_u32 c]"
    using False by (simp add: lj_buf_putchar_def lj_buf_putchar2_def buf_write_def lj_buf_more_def)
  then show ?thesis using sb.appends_write [OF assms, of "[u8_of_u32 c]"] by simp
qed

lemma length_rep: "length (concat (replicate n s)) = n * length s"
  by (induction n) auto

lemma buf_op_appends:
  assumes "sbuf_ok sb" "length (op_bytes x) \<le> sbuf_room sb"
  shows "sb.appends sb (buf_op x sb) (op_bytes x)"
proof (cases x)
  case (PutChar c)
  then show ?thesis using assms lj_buf_putchar_appends by simp
next
  case (PutRep s n)
  show ?thesis
  proof (cases "sint n > 0 \<and> s \<noteq> []")
    case True
    have "sbuf_room sb \<le> LJ_MAX_STR" by (simp add: sbuf_room_def LJ_MAX_BUF_def LJ_MAX_STR_def)
    with True assms PutRep show ?thesis
      by (auto simp: lj_buf_putstr_rep_def Let_def length_rep intro!: sb.appends_write)
  next
    case False
    then have "op_bytes x = []" using PutRep by auto
    moreover have "buf_op x sb = Inr sb" unfolding PutRep buf_op.simps lj_buf_putstr_rep_def by (rule if_not_P [OF False])
    ultimately show ?thesis using sb.appends_refl [OF assms(1)] by simp
  qed
qed (use assms in \<open>auto simp: lj_buf_putmem_def lj_buf_putb_def lj_buf_putstr_def lj_buf_putstr_reverse_def lj_buf_putstr_lower_def
      lj_buf_putstr_upper_def intro!: sb.appends_write\<close>)

lemma buf_ops_appends:
  assumes "sbuf_ok sb" "length (concat (map op_bytes ops)) \<le> sbuf_room sb"
  shows "sb.appends sb (buf_ops ops sb) (concat (map op_bytes ops))"
  using assms
proof (induction ops arbitrary: sb)
  case (Cons x xs)
  have "sb.appends sb (bindE (buf_op x sb) (buf_ops xs)) (op_bytes x @ concat (map op_bytes xs))"
    using Cons.prems by (intro sb.appends_bind buf_op_appends Cons.IH) auto
  then show ?case by simp
qed (simp add: sb.appends_refl)

text \<open>C9: A string buffer implements a byte queue. Any sequence of puts (memory, characters, strings,
  reversed, in lower or upper case, repeated) that fits the maximal buffer length succeeds whatever
  growing and compacting it needs, never stores outside the buffer, and appends exactly the bytes
  put to the bytes that have not been read.\<close>

theorem buf_refines_list:
  assumes "sbuf_ok sb" "length (concat (map op_bytes ops)) \<le> sbuf_room sb"
  shows "\<exists>sb'. buf_ops ops sb = Inr sb' \<and> sbuf_ok sb' \<and> sbuf_data sb' = sbuf_data sb @ concat (map op_bytes ops)"
  using buf_ops_appends [OF assms] by (auto simp: sb.appends_def)

theorem buf_refines_list_witness:
  "\<exists>sb'. buf_ops [PutMem [1, 2], PutReverse [3, 4], PutUpper [0x61], PutRep [7, 8] 2] (lj_bufx_set_cow [9]) = Inr sb' \<and> sbuf_ok sb' \<and>
    sbuf_data sb' = [9, 1, 2, 4, 3, 0x41, 7, 8, 7, 8]"
proof -
  let ?ops = "[PutMem [1, 2], PutReverse [3, 4], PutUpper [0x61], PutRep [7, 8] 2]"
  have bytes: "concat (map op_bytes ?ops) = [1, 2, 4, 3, 0x41, 7, 8, 7, 8]" by code_simp
  have ok: "sbuf_ok (lj_bufx_set_cow [9])" and d: "sbuf_data (lj_bufx_set_cow [9]) = [9]"
    by (simp_all add: sbuf_ok_def sbuf_data_def lj_bufx_set_cow_def)
  have "length (concat (map op_bytes ?ops)) \<le> sbuf_room (lj_bufx_set_cow [9])"
    unfolding bytes by (simp add: sbuf_room_def lj_bufx_set_cow_def LJ_MAX_BUF_def)
  from buf_refines_list [OF ok this] show ?thesis unfolding bytes d by simp
qed

text \<open>From a power of two, growing doubles up to the next power of two.\<close>

lemma grow_size_power:
  assumes "k \<le> m" "m < 32" "2 ^ m < 2 * sz" "sz \<le> 2 ^ m"
  shows "grow_size sz (2 ^ k) = Some (2 ^ m)"
  using assms(1)
proof (induction "m - k" arbitrary: k)
  case 0
  then have "k = m" by simp
  with assms(4) show ?case by (simp add: grow_size_def while_option_unfold [of _ _ "2 ^ m"])
next
  case (Suc d)
  then have k: "Suc k \<le> m" "d = m - Suc k" by simp_all
  then have "(2 :: nat) ^ Suc k \<le> 2 ^ m" by (intro power_increasing) auto
  moreover have "(2 :: nat) ^ m < 2 ^ 32" using assms(2) by (intro power_strict_increasing) auto
  ultimately have "2 ^ k < sz" "(2 ^ k + 2 ^ k) mod 2 ^ 32 = (2 :: nat) ^ Suc k" using assms(3) by simp_all
  then show ?case using grow_size_step [of "2 ^ k" sz] Suc.hyps(1) [OF k(2,1)] by simp
qed

lemma grow_size_wraps: "2 ^ 31 < sz \<Longrightarrow> grow_size sz (2 ^ 31) = None"
  using grow_size_step [of "2 ^ 31" sz] grow_size_zero [of sz] by simp

lemma put_over_half:
  assumes "2 ^ 30 < length q" "length q \<le> LJ_MAX_BUF"
  shows "lj_buf_putmem lj_bufx_init q = Inr (lj_bufx_init\<lparr>sb_mem := q @ replicate (2 ^ 31 - length q) 0, sb_w := length q\<rparr>)"
proof -
  have "grow_size (length q) (2 ^ 5) = Some (2 ^ 31)"
    using assms by (intro grow_size_power) (simp_all add: LJ_MAX_BUF_def)
  then have "grow_size (length q) 32 = Some (2 ^ 31)" by simp
  moreover have "q \<noteq> []" "length q \<le> 2 ^ 31" using assms by (auto simp: LJ_MAX_BUF_def)
  ultimately show ?thesis
    using assms(2)
    by (simp add: lj_buf_putmem_def buf_write_def lj_buf_more_def lj_buf_more2_def buf_grow_def lj_buf_wmem_def lj_bufx_init_def
        lj_buf_init_def Let_def sbufleft_def sbufsz_def sbufxlen_def sbuflen_def buf_compact_def LJ_MIN_SBUF_def)
qed

text \<open>C31: In an extended buffer of \<open>2^31\<close> bytes, reserving space can hang. Whatever \<open>n\<close> bytes above \<open>2^30\<close> are put
  into a fresh extended buffer, it grows to \<open>2^31\<close> bytes; when then fewer than \<open>2^28\<close> of the bytes have been
  read, any request is fatal for which the unread data and the request together fit the maximal buffer
  length but the data put and the request together exceed \<open>2^31\<close>: the doubling of the size wraps around to
  zero, and the loop that looks for a large enough size never ends.\<close>

theorem lj_buf_more_loops:
  assumes "length q = n" "2 ^ 30 < n" "n \<le> LJ_MAX_BUF" "c < n" "c < 2 ^ 28"
    "n - c + sz \<le> LJ_MAX_BUF" "2 ^ 31 < n + sz"
  shows "\<exists>sb. lj_buf_putmem lj_bufx_init q = Inr sb \<and> sb_ext sb \<and> sbufsz sb = 2 ^ 31 \<and> sbuf_data sb = q \<and>
    sbuf_ok (sb\<lparr>sb_r := c\<rparr>) \<and> lj_buf_more (sb\<lparr>sb_r := c\<rparr>) sz = Inl BUF_LOOP"
proof -
  let ?sb = "lj_bufx_init\<lparr>sb_mem := q @ replicate (2 ^ 31 - n) 0, sb_w := n\<rparr>"
  have put: "lj_buf_putmem lj_bufx_init q = Inr ?sb" using put_over_half [of q] assms(1-3) by simp
  have n: "n \<le> 2147483648" "n + sz < 4294967296" "sz \<le> LJ_MAX_BUF" "\<not> LJ_MAX_BUF < n - c + sz" "\<not> 2147483648 < n - c + sz"
    using assms(3-6) by (simp_all add: LJ_MAX_BUF_def)
  then have size: "sbufsz ?sb = 2 ^ 31" using assms(1) by (simp add: sbufsz_def)
  have "grow_size (n + sz) 2147483648 = None" using grow_size_wraps [OF assms(7)] by simp
  then have "lj_buf_more (?sb\<lparr>sb_r := c\<rparr>) sz = Inl BUF_LOOP"
    using n assms(1,5,7)
    by (simp add: lj_buf_more_def lj_buf_more2_def buf_grow_def Let_def sbufleft_def sbufsz_def sbufxlen_def sbufxslack_def
        sbuflen_def lj_bufx_init_def lj_buf_init_def LJ_MIN_SBUF_def)
  moreover have "sbuf_ok (?sb\<lparr>sb_r := c\<rparr>)" "sb_ext ?sb" "sbuf_data ?sb = q"
    using assms(1,4) by (simp_all add: sbuf_ok_def sbuf_data_def lj_bufx_init_def lj_buf_init_def)
  ultimately show ?thesis using put size by blast
qed

theorem lj_buf_more_loops_witness:
  "\<exists>sb. lj_buf_putmem lj_bufx_init (replicate 0x7fffff00 7) = Inr sb \<and> sbufxlen (sb\<lparr>sb_r := 0x200\<rparr>) + 0x200 = LJ_MAX_BUF \<and>
    lj_buf_more (sb\<lparr>sb_r := 0x200\<rparr>) 0x200 = Inl BUF_LOOP"
proof -
  let ?q = "replicate 0x7fffff00 7 :: u8 list"
  have "\<exists>sb. lj_buf_putmem lj_bufx_init ?q = Inr sb \<and> sb_ext sb \<and> sbufsz sb = 2 ^ 31 \<and> sbuf_data sb = ?q \<and>
      sbuf_ok (sb\<lparr>sb_r := 0x200\<rparr>) \<and> lj_buf_more (sb\<lparr>sb_r := 0x200\<rparr>) 0x200 = Inl BUF_LOOP"
    by (rule lj_buf_more_loops [OF length_replicate]) (simp_all add: LJ_MAX_BUF_def)
  moreover have "sb_w sb = 0x7fffff00" if "lj_buf_putmem lj_bufx_init ?q = Inr sb" for sb
    using that put_over_half [of ?q] by (auto simp: LJ_MAX_BUF_def)
  ultimately show ?thesis by (auto simp: sbufxlen_def LJ_MAX_BUF_def)
qed

end
