(* ===== verification/Str.thy ===== *)
theory Str
  imports Buf Ir "HOL-Library.List_Lexorder"
begin

text \<open>
  String helpers of RaptorJIT: the character classes of \<^verbatim>\<open>lj_char.c\<close>, and from \<^verbatim>\<open>lj_str.c\<close> the ordered comparison
  that reads four bytes at a time, the search for a fixed string and the test for pattern characters.
  A string is the list of its bytes; where the code reads the memory behind a string, that memory is a
  second list. A read outside of the list is \<open>None\<close>.
\<close>

section \<open>Character classes\<close>

definition LJ_CHAR_CNTRL :: u8 where "LJ_CHAR_CNTRL = 0x01"
definition LJ_CHAR_PUNCT :: u8 where "LJ_CHAR_PUNCT = 0x04"
definition LJ_CHAR_DIGIT :: u8 where "LJ_CHAR_DIGIT = 0x08"

text \<open>The table, whose first entry is the class of the end of a file.\<close>

definition lj_char_bits :: "u8 list" where
  "lj_char_bits =
  [0,
   1, 1, 1, 1, 1, 1, 1, 1, 1, 3, 3, 3, 3, 3, 1, 1,
   1, 1, 1, 1, 1, 1, 1, 1, 1, 1, 1, 1, 1, 1, 1, 1,
   2, 4, 4, 4, 4, 4, 4, 4, 4, 4, 4, 4, 4, 4, 4, 4,
   152, 152, 152, 152, 152, 152, 152, 152, 152, 152, 4, 4, 4, 4, 4, 4,
   4, 176, 176, 176, 176, 176, 176, 160, 160, 160, 160, 160, 160, 160, 160, 160,
   160, 160, 160, 160, 160, 160, 160, 160, 160, 160, 160, 4, 4, 4, 4, 132,
   4, 208, 208, 208, 208, 208, 208, 192, 192, 192, 192, 192, 192, 192, 192, 192,
   192, 192, 192, 192, 192, 192, 192, 192, 192, 192, 192, 4, 4, 4, 4, 1,
   128, 128, 128, 128, 128, 128, 128, 128, 128, 128, 128, 128, 128, 128, 128, 128,
   128, 128, 128, 128, 128, 128, 128, 128, 128, 128, 128, 128, 128, 128, 128, 128,
   128, 128, 128, 128, 128, 128, 128, 128, 128, 128, 128, 128, 128, 128, 128, 128,
   128, 128, 128, 128, 128, 128, 128, 128, 128, 128, 128, 128, 128, 128, 128, 128,
   128, 128, 128, 128, 128, 128, 128, 128, 128, 128, 128, 128, 128, 128, 128, 128,
   128, 128, 128, 128, 128, 128, 128, 128, 128, 128, 128, 128, 128, 128, 128, 128,
   128, 128, 128, 128, 128, 128, 128, 128, 128, 128, 128, 128, 128, 128, 128, 128,
   128, 128, 128, 128, 128, 128, 128, 128, 128, 128, 128, 128, 128, 128, 128, 128]"

definition lj_char_isa :: "u8 \<Rightarrow> u8 \<Rightarrow> bool" where
  "lj_char_isa c t \<longleftrightarrow> lj_char_bits ! (1 + unat c) AND t \<noteq> 0"

definition lj_char_iscntrl :: "u8 \<Rightarrow> bool" where "lj_char_iscntrl c \<longleftrightarrow> lj_char_isa c LJ_CHAR_CNTRL"
definition lj_char_ispunct :: "u8 \<Rightarrow> bool" where "lj_char_ispunct c \<longleftrightarrow> lj_char_isa c LJ_CHAR_PUNCT"
definition lj_char_isdigit :: "u8 \<Rightarrow> bool" where "lj_char_isdigit c \<longleftrightarrow> lj_char_isa c LJ_CHAR_DIGIT"

section \<open>Reading words\<close>

text \<open>\<^verbatim>\<open>lj_getu32\<close> on a little-endian machine.\<close>

definition lj_getu32 :: "u8 list \<Rightarrow> nat \<Rightarrow> u32 option" where
  "lj_getu32 m i =
     (if i + 4 \<le> length m then
        Some (u32_of_u8 (m ! i) OR push_bit 8 (u32_of_u8 (m ! (i + 1))) OR push_bit 16 (u32_of_u8 (m ! (i + 2))) OR
              push_bit 24 (u32_of_u8 (m ! (i + 3))))
      else None)"

section \<open>Comparison\<close>

text \<open>The loop of \<^verbatim>\<open>lj_str_cmp\<close> on the memory of both strings: the three results are a difference in the first
  \<open>n\<close> bytes, none (after the loop, or left by \<^verbatim>\<open>break\<close>), or an access out of bounds.\<close>

function str_cmp_loop :: "u8 list \<Rightarrow> u8 list \<Rightarrow> nat \<Rightarrow> nat \<Rightarrow> c_int option option" where
  "str_cmp_loop ma mb n i =
     (if i < n then
        do { va \<leftarrow> lj_getu32 ma i; vb \<leftarrow> lj_getu32 mb i;
             if va \<noteq> vb then
               (let va = lj_bswap va; vb = lj_bswap vb; j = word_of_nat i - word_of_nat n :: u32 in
                if sint j \<ge> -3 then
                  (let sh = unat (32 + push_bit 3 j); va = drop_bit sh va; vb = drop_bit sh vb in
                   if va = vb then Some None else Some (Some (if va < vb then -1 else 1)))
                else Some (Some (if va < vb then -1 else 1)))
             else str_cmp_loop ma mb n (i + 4) }
      else Some None)"
  by pat_completeness auto
termination
  by (relation "measure (\<lambda>(ma, mb, n, i). n - i)") auto

declare str_cmp_loop.simps [simp del]

definition lj_str_cmp :: "u8 list \<Rightarrow> u8 list \<Rightarrow> u8 list \<Rightarrow> u8 list \<Rightarrow> c_int option" where
  "lj_str_cmp a pa b pb =
     do { r \<leftarrow> str_cmp_loop (a @ pa) (b @ pb) (min (length a) (length b)) 0;
          Some (case r of Some c \<Rightarrow> c | None \<Rightarrow> word_of_nat (length a) - word_of_nat (length b)) }"

section \<open>Search\<close>

text \<open>\<^verbatim>\<open>memchr(s, c, n)\<close>: the offset of the first \<open>c\<close> among the first \<open>n\<close> bytes.\<close>

definition memchr :: "u8 list \<Rightarrow> u8 \<Rightarrow> nat \<Rightarrow> nat option" where
  "memchr s c n = (let i = length (takeWhile (\<lambda>x. x \<noteq> c) (take n s)) in if i < length (take n s) then Some i else None)"

text \<open>The loop of \<^verbatim>\<open>lj_str_find\<close>: \<open>s\<close> is the memory from the current position \<open>i\<close>, \<open>p\<close> the rest of the searched
  string after its first character \<open>c\<close>.\<close>

function str_find_loop :: "u8 list \<Rightarrow> u8 \<Rightarrow> u8 list \<Rightarrow> nat \<Rightarrow> nat \<Rightarrow> nat option" where
  "str_find_loop s c p i slen =
     (if slen = 0 then None
      else case memchr s c slen of
             None \<Rightarrow> None
           | Some q \<Rightarrow>
               if take (length p) (drop (q + 1) s) = p then Some (i + q)
               else str_find_loop (drop (q + 1) s) c p (i + q + 1) (slen - (q + 1)))"
  by pat_completeness auto
termination
  by (relation "measure (\<lambda>(s, c, p, i, slen). slen)") auto

declare str_find_loop.simps [simp del]

definition lj_str_find :: "u8 list \<Rightarrow> u8 list \<Rightarrow> nat option" where
  "lj_str_find s p =
     (if length p \<le> length s then
        (case p of [] \<Rightarrow> Some 0 | c # p' \<Rightarrow> str_find_loop s c p' 0 (length s - length p'))
      else None)"

text \<open>The characters of \<^verbatim>\<open>"^$*+?.([%-"\<close>.\<close>

definition pattern_chars :: "u8 list" where
  "pattern_chars = [0x5e, 0x24, 0x2a, 0x2b, 0x3f, 0x2e, 0x28, 0x5b, 0x25, 0x2d]"

fun lj_str_haspattern :: "u8 list \<Rightarrow> bool" where
  "lj_str_haspattern [] = False"
| "lj_str_haspattern (c # s) = (if lj_char_ispunct c \<and> (c \<in> set pattern_chars \<or> c = 0) then True else lj_str_haspattern s)"

section \<open>The comparison is lexicographic\<close>

text \<open>The big-endian value of some bytes.\<close>

definition be_val :: "u8 list \<Rightarrow> nat" where
  "be_val = foldl (\<lambda>v b. v * 256 + unat b) 0"

lemma digits_cmp:
  fixes v w x y :: nat
  assumes "x < 256" "y < 256"
  shows "v * 256 + x < w * 256 + y \<longleftrightarrow> v < w \<or> v = w \<and> x < y" "v * 256 + x = w * 256 + y \<longleftrightarrow> v = w \<and> x = y"
  using assms by (cases v w rule: linorder_cases; linarith)+

lemma be_val_less:
  assumes "length xs = length ys"
  shows "be_val xs < be_val ys \<longleftrightarrow> xs < ys" "be_val xs = be_val ys \<longleftrightarrow> xs = ys"
proof -
  have *: "(foldl (\<lambda>v b. v * 256 + unat b) v xs < foldl (\<lambda>v b. v * 256 + unat b) w ys \<longleftrightarrow> v < w \<or> v = w \<and> xs < ys) \<and>
      (foldl (\<lambda>v b. v * 256 + unat b) v xs = foldl (\<lambda>v b. v * 256 + unat b) w ys \<longleftrightarrow> v = w \<and> xs = ys)" for v w
    using assms
  proof (induction xs ys arbitrary: v w rule: list_induct2)
    case (Cons x xs y ys)
    have lt: "v * 256 + unat x < w * 256 + unat y \<longleftrightarrow> v < w \<or> v = w \<and> x < y" and
      eq: "v * 256 + unat x = w * 256 + unat y \<longleftrightarrow> v = w \<and> x = y"
      using digits_cmp [OF unat_less_8 unat_less_8] by (simp_all add: word_less_nat_alt word_unat_eq_iff)
    then show ?case using Cons.IH [of "v * 256 + unat x" "w * 256 + unat y"] by auto
  qed auto
  show "be_val xs < be_val ys \<longleftrightarrow> xs < ys" "be_val xs = be_val ys \<longleftrightarrow> xs = ys" using * [of 0 0] by (simp_all add: be_val_def)
qed

lemma be_val_from: "foldl (\<lambda>v b. v * 256 + unat b) v ys = v * 256 ^ length ys + be_val ys"
proof (induction ys arbitrary: v)
  case (Cons y ys)
  show ?case using Cons.IH [of "v * 256 + unat y"] Cons.IH [of "unat y"] by (simp add: be_val_def algebra_simps)
qed (simp add: be_val_def)

lemma be_val_append: "be_val (xs @ ys) = be_val xs * 256 ^ length ys + be_val ys"
  using be_val_from [of "be_val xs" ys] by (simp add: be_val_def)

lemma be_val_bound: "be_val xs < 256 ^ length xs"
proof (induction xs rule: rev_induct)
  case (snoc x xs)
  then show ?case using unat_less_8 [of x] by (simp add: be_val_append) (simp add: be_val_def)
qed (simp add: be_val_def)

lemma be_val_take: "be_val (take k xs) = be_val xs div 256 ^ (length xs - k)"
  using be_val_append [of "take k xs" "drop k xs"] be_val_bound [of "drop k xs"] by simp

lemma bswap_bytes:
  fixes b0 b1 b2 b3 :: u8
  defines "w \<equiv> u32_of_u8 b0 OR push_bit 8 (u32_of_u8 b1) OR push_bit 16 (u32_of_u8 b2) OR push_bit 24 (u32_of_u8 b3)"
  shows "lj_bswap w = push_bit 24 (u32_of_u8 b0) OR push_bit 16 (u32_of_u8 b1) OR push_bit 8 (u32_of_u8 b2) OR u32_of_u8 b3"
proof -
  have m: "(0xff00 :: u32) = push_bit 8 (mask 8)" by (simp add: mask_eq_exp_minus_1)
  have hi [simp]: "\<not> bit (b :: u8) n" if "8 \<le> n" for b n using that by (auto dest: bit_imp_le_length)
  show ?thesis unfolding lj_bswap_def m
  proof (rule bit_eqI)
    fix n assume "possible_bit TYPE(u32) n"
    then consider "n < 8" | "8 \<le> n" "n < 16" | "16 \<le> n" "n < 24" | "24 \<le> n" "n < 32" by fastforce
    then show "bit (push_bit 24 w OR push_bit 8 (w AND push_bit 8 (mask 8)) OR (drop_bit 8 w AND push_bit 8 (mask 8)) OR drop_bit 24 w) n =
      bit (push_bit 24 (u32_of_u8 b0) OR push_bit 16 (u32_of_u8 b1) OR push_bit 8 (u32_of_u8 b2) OR u32_of_u8 b3) n"
      by cases (auto simp: w_def bit_simps)
  qed
qed

lemma unat_be_bytes:
  fixes b0 b1 b2 b3 :: u8
  shows "unat (push_bit 24 (u32_of_u8 b0) OR push_bit 16 (u32_of_u8 b1) OR push_bit 8 (u32_of_u8 b2) OR u32_of_u8 b3) = be_val [b0, b1, b2, b3]"
proof -
  have hi [simp]: "\<not> bit (b :: u8) n" if "8 \<le> n" for b n using that by (auto dest: bit_imp_le_length)
  have d: "push_bit 8 (u32_of_u8 b2) AND u32_of_u8 b3 = 0"
    "push_bit 16 (u32_of_u8 b1) AND (push_bit 8 (u32_of_u8 b2) OR u32_of_u8 b3) = 0"
    "push_bit 24 (u32_of_u8 b0) AND (push_bit 16 (u32_of_u8 b1) OR push_bit 8 (u32_of_u8 b2) OR u32_of_u8 b3) = 0"
    by (rule bit_eqI, auto simp: bit_simps intro: hi)+
  have p: "unat (push_bit k (u32_of_u8 b)) = unat b * 2 ^ k" if "k \<le> 24" for k b
  proof -
    have "unat b * 2 ^ k < 2 ^ 8 * 2 ^ k" using unat_less_8 [of b] by simp
    also have "\<dots> \<le> 2 ^ 8 * 2 ^ 24" using that by (intro mult_left_mono power_increasing) auto
    finally show ?thesis using unat_push_bit_small [of "u32_of_u8 b" k] by simp
  qed
  show ?thesis by (simp add: unat_or_disjoint d p be_val_def)
qed

lemma take4_nth: "i + 4 \<le> length m \<Longrightarrow> take 4 (drop i m) = [m ! i, m ! (i + 1), m ! (i + 2), m ! (i + 3)]"
  by (rule nth_equalityI) (auto simp: less_Suc_eq numeral_eq_Suc)

lemma lj_getu32_be: 
  assumes "i + 4 \<le> length m"
  obtains v where "lj_getu32 m i = Some v" "unat (lj_bswap v) = be_val (take 4 (drop i m))"
  using assms that unfolding take4_nth [OF assms] lj_getu32_def by (simp only: bswap_bytes unat_be_bytes if_True)

lemma lj_bswap_inj: "lj_bswap (lj_bswap v) = v"
proof -
  have m: "(0xff00 :: u32) = push_bit 8 (mask 8)" by (simp add: mask_eq_exp_minus_1)
  show ?thesis unfolding lj_bswap_def m
  proof (rule bit_eqI, goal_cases)
    case (1 n)
    then consider "n < 8" | "8 \<le> n" "n < 16" | "16 \<le> n" "n < 24" | "24 \<le> n" "n < 32" by fastforce
    then show ?case by cases (auto simp: bit_simps dest: bit_imp_le_length)
  qed
qed

lemma less_append_distinct:
  fixes u v :: "'a::linorder list"
  assumes "length u = length v" "u \<noteq> v"
  shows "u @ x < v @ y \<longleftrightarrow> u < v" "u @ x \<noteq> v @ y"
  using assms by (induction u v rule: list_induct2) auto

lemma sint_nat_diff:
  assumes "i < 2 ^ 31" "n < 2 ^ 31"
  shows "sint (word_of_nat i - word_of_nat n :: u32) = int i - int n"
proof -
  have j: "(word_of_nat i - word_of_nat n :: u32) = word_of_int (int i - int n)" by simp
  have "- (2 ^ 31) \<le> int i - int n" "int i - int n < 2 ^ 31" using assms by auto
  then show ?thesis unfolding j signed_of_int by (simp add: signed_take_bit_int_eq_self)
qed

lemma tail_shift:
  assumes "i < n" "n < 2 ^ 31"
  shows "sint (word_of_nat i - word_of_nat n :: u32) = int i - int n"
    "n - i \<le> 3 \<Longrightarrow> unat (32 + push_bit 3 (word_of_nat i - word_of_nat n :: u32)) = 8 * (4 - (n - i))"
proof -
  show "sint (word_of_nat i - word_of_nat n :: u32) = int i - int n" using assms by (intro sint_nat_diff) auto
  assume "n - i \<le> 3"
  then consider "n = i + 1" | "n = i + 2" | "n = i + 3" using assms(1) by linarith
  then show "unat (32 + push_bit 3 (word_of_nat i - word_of_nat n :: u32)) = 8 * (4 - (n - i))"
    by cases (simp_all add: push_bit_eq_mult)
qed

text \<open>The sign of a comparison of two lists, if they differ.\<close>

definition cmp_result :: "u8 list \<Rightarrow> u8 list \<Rightarrow> c_int option" where
  "cmp_result x y = (if x = y then None else Some (if x < y then -1 else 1))"

lemma cmp_result_words:
  assumes "unat va = be_val x" "unat vb = be_val y" "length x = length y" "va \<noteq> vb"
  shows "cmp_result x y = Some (if va < vb then -1 else 1)"
  using assms be_val_less [OF assms(3)] by (auto simp: cmp_result_def word_less_nat_alt word_unat_eq_iff)

lemma less_append_same: "u @ x < u @ y \<longleftrightarrow> x < y" for u x y :: "u8 list"
  by (induction u) auto

lemma cmp_result_append:
  shows "length u = length v \<Longrightarrow> u \<noteq> v \<Longrightarrow> cmp_result (u @ x) (v @ y) = cmp_result u v" "cmp_result (u @ x) (u @ y) = cmp_result x y"
  by (auto simp: cmp_result_def less_append_distinct less_append_same)

text \<open>What is compared from offset \<open>i\<close> on, and its first four bytes.\<close>

lemma take_word_split: "4 \<le> n - i \<Longrightarrow> take (n - i) (drop i m) = take 4 (drop i m) @ take (n - (i + 4)) (drop (i + 4) m)"
  using take_add [of 4 "n - i - 4" "drop i m"] by (simp add: add.commute)

lemma take_word_short: "n - i \<le> 3 \<Longrightarrow> take (n - i) (drop i m) = take (n - i) (take 4 (drop i m))"
  by (simp add: min_def)

text \<open>Two words that differ, in the middle of the strings and at the end of the shorter one.\<close>

lemma str_cmp_differ:
  assumes i: "i < n" "n < 2 ^ 31" and le: "i + 4 \<le> length ma" "i + 4 \<le> length mb"
    and va: "lj_getu32 ma i = Some va" "unat (lj_bswap va) = be_val (take 4 (drop i ma))"
    and vb: "lj_getu32 mb i = Some vb" "unat (lj_bswap vb) = be_val (take 4 (drop i mb))" and neq: "va \<noteq> vb"
  shows "str_cmp_loop ma mb n i = Some (cmp_result (take (n - i) (drop i ma)) (take (n - i) (drop i mb)))"
proof -
  let ?x = "take 4 (drop i ma)" and ?y = "take 4 (drop i mb)"
  have len: "length ?x = 4" "length ?y = 4" "length ?x = length ?y" using le by simp_all
  have bs: "lj_bswap va \<noteq> lj_bswap vb" using neq by (metis lj_bswap_inj)
  then have xy: "?x \<noteq> ?y" using va(2) vb(2) by (auto simp: word_unat_eq_iff)
  note u = str_cmp_loop.simps [of ma mb n i] and sh = tail_shift [OF i]
  show ?thesis
  proof (cases "n - i \<le> 3")
    case True
    let ?k = "8 * (4 - (n - i))"
    have s: "sint (word_of_nat i - word_of_nat n :: u32) \<ge> -3" using sh(1) True by linarith
    have k: "(2::nat) ^ ?k = 256 ^ (4 - (n - i))" by (simp add: power_mult)
    have vals: "unat (drop_bit ?k (lj_bswap va)) = be_val (take (n - i) ?x)" "unat (drop_bit ?k (lj_bswap vb)) = be_val (take (n - i) ?y)"
      unfolding be_val_take len unat_drop_bit_div va(2) vb(2) k by simp_all
    have l: "length (take (n - i) ?x) = length (take (n - i) ?y)" using len by simp
    have "str_cmp_loop ma mb n i = Some (cmp_result (take (n - i) ?x) (take (n - i) ?y))"
    proof (cases "drop_bit ?k (lj_bswap va) = drop_bit ?k (lj_bswap vb)")
      case same: True
      then have "be_val (take (n - i) ?x) = be_val (take (n - i) ?y)" using vals by simp
      then have "take (n - i) ?x = take (n - i) ?y" using be_val_less(2) [OF l] by simp
      then show ?thesis unfolding u using i va(1) vb(1) neq s same sh(2) [OF True] by (simp add: Let_def cmp_result_def)
    next
      case False
      from cmp_result_words [OF vals l this] show ?thesis
        unfolding u using i va(1) vb(1) neq s False sh(2) [OF True] by (simp add: Let_def)
    qed
    then show ?thesis unfolding take_word_short [OF True] .
  next
    case False
    then have f: "4 \<le> n - i" and s: "\<not> sint (word_of_nat i - word_of_nat n :: u32) \<ge> -3" using sh(1) by linarith+
    have "str_cmp_loop ma mb n i = Some (cmp_result ?x ?y)"
      unfolding u cmp_result_words [OF va(2) vb(2) len(3) bs] using i va(1) vb(1) neq s by (simp add: Let_def)
    then show ?thesis unfolding take_word_split [OF f] cmp_result_append(1) [OF len(3) xy] .
  qed
qed

lemma str_cmp_loop_correct:
  assumes "n < 2 ^ 31" "n + 3 \<le> length ma" "n + 3 \<le> length mb"
  shows "str_cmp_loop ma mb n i = Some (cmp_result (take (n - i) (drop i ma)) (take (n - i) (drop i mb)))"
  using assms
proof (induction ma mb n i rule: str_cmp_loop.induct)
  case (1 ma mb n i)
  show ?case
  proof (cases "i < n")
    case False
    then show ?thesis by (simp add: str_cmp_loop.simps cmp_result_def)
  next
    case i: True
    then have le: "i + 4 \<le> length ma" "i + 4 \<le> length mb" using "1.prems" by linarith+
    obtain va where va: "lj_getu32 ma i = Some va" "unat (lj_bswap va) = be_val (take 4 (drop i ma))" by (rule lj_getu32_be [OF le(1)])
    obtain vb where vb: "lj_getu32 mb i = Some vb" "unat (lj_bswap vb) = be_val (take 4 (drop i mb))" by (rule lj_getu32_be [OF le(2)])
    show ?thesis
    proof (cases "va = vb")
      case True
      then have xy: "take 4 (drop i ma) = take 4 (drop i mb)" using va(2) vb(2) le by (simp add: be_val_less(2) [symmetric])
      have "str_cmp_loop ma mb n i = str_cmp_loop ma mb n (i + 4)" using i va vb True by (simp add: str_cmp_loop.simps [of ma mb n i])
      also have "\<dots> = Some (cmp_result (take (n - (i + 4)) (drop (i + 4) ma)) (take (n - (i + 4)) (drop (i + 4) mb)))"
        using "1.IH" [OF i va(1) vb(1)] True "1.prems" by simp
      also have "\<dots> = Some (cmp_result (take (n - i) (drop i ma)) (take (n - i) (drop i mb)))"
      proof (cases "n - i \<le> 3")
        case True
        then show ?thesis unfolding take_word_short [OF True] xy by (simp add: cmp_result_def)
      next
        case False
        then have f: "4 \<le> n - i" by simp
        show ?thesis unfolding take_word_split [OF f] xy cmp_result_append(2) ..
      qed
      finally show ?thesis .
    next
      case False
      show ?thesis by (rule str_cmp_differ [OF i "1.prems"(1) le va vb False])
    qed
  qed
qed

lemma cmp_min_prefix:
  fixes a b :: "u8 list"
  defines "n \<equiv> min (length a) (length b)"
  shows "a < b \<longleftrightarrow> take n a < take n b \<or> take n a = take n b \<and> length a < length b"
proof -
  have ab: "a = take n a @ drop n a" "b = take n b @ drop n b" by simp_all
  have l: "length (take n a) = length (take n b)" by (simp add: n_def)
  show ?thesis
  proof (cases "take n a = take n b")
    case True
    then have "a < b \<longleftrightarrow> drop n a < drop n b" by (metis ab less_append_same)
    also have "\<dots> \<longleftrightarrow> drop n a = [] \<and> drop n b \<noteq> []"
    proof -
      have "drop n a = [] \<or> drop n b = []" by (simp add: n_def min_def)
      then show ?thesis by (cases "drop n a"; cases "drop n b") auto
    qed
    also have "\<dots> \<longleftrightarrow> length a < length b" by (auto simp: n_def)
    finally show ?thesis using True by simp
  next
    case False
    then show ?thesis using less_append_distinct(1) [OF l False, of "drop n a" "drop n b"] by simp
  qed
qed

text \<open>C32: The comparison of two strings four bytes at a time gives the lexicographic order on their bytes. It reads
  up to three bytes behind the shorter string, and the result does not depend on them.\<close>

theorem lj_str_cmp_correct:
  assumes "length a < LJ_MAX_STR" "length b < LJ_MAX_STR" "3 \<le> length pa" "3 \<le> length pb"
  shows "\<exists>c. lj_str_cmp a pa b pb = Some c \<and> (sint c < 0 \<longleftrightarrow> a < b) \<and> (c = 0 \<longleftrightarrow> a = b)"
proof -
  define n where "n = min (length a) (length b)"
  have n: "n < 2 ^ 31" "n + 3 \<le> length (a @ pa)" "n + 3 \<le> length (b @ pb)"
    using assms by (auto simp: n_def LJ_MAX_STR_def)
  have s: "sint (word_of_nat (length a) - word_of_nat (length b) :: c_int) = int (length a) - int (length b)"
    using assms(1,2) by (intro sint_nat_diff) (simp_all add: LJ_MAX_STR_def)
  have "lj_str_cmp a pa b pb = Some (case cmp_result (take n a) (take n b) of Some c \<Rightarrow> c | None \<Rightarrow> word_of_nat (length a) - word_of_nat (length b))"
    unfolding lj_str_cmp_def str_cmp_loop_correct [OF n, unfolded n_def] n_def by simp
  moreover have "a = b \<longleftrightarrow> take n a = take n b \<and> length a = length b" by (auto simp: n_def)
  moreover have "(c = 0) = (sint c = 0)" for c :: c_int by (metis signed_0 signed_word_eqI)
  ultimately show ?thesis using s cmp_min_prefix [of a b] unfolding n_def [symmetric] by (auto simp: cmp_result_def)
qed

theorem lj_str_cmp_correct_witness:
  "\<exists>c. lj_str_cmp [0x61, 0x62, 0x63, 0x64, 0xe1] [0, 0x55, 0x66] [0x61, 0x62, 0x63, 0x64, 0x65, 0x66] [0, 1, 2] = Some c \<and> \<not> sint c < 0 \<and> c \<noteq> 0"
proof -
  have "\<exists>c. lj_str_cmp [0x61, 0x62, 0x63, 0x64, 0xe1] [0, 0x55, 0x66] [0x61, 0x62, 0x63, 0x64, 0x65, 0x66] [0, 1, 2] = Some c \<and>
      (sint c < 0 \<longleftrightarrow> [0x61, 0x62, 0x63, 0x64, 0xe1] < [0x61, 0x62, 0x63, 0x64, 0x65, 0x66 :: u8]) \<and>
      (c = 0 \<longleftrightarrow> [0x61, 0x62, 0x63, 0x64, 0xe1] = [0x61, 0x62, 0x63, 0x64, 0x65, 0x66 :: u8])"
    by (rule lj_str_cmp_correct) (simp_all add: LJ_MAX_STR_def)
  then show ?thesis by simp
qed

section \<open>The search finds the first occurrence\<close>

lemma length_takeWhile_less: "length (takeWhile P xs) < length xs \<longleftrightarrow> (\<exists>x \<in> set xs. \<not> P x)"
  by (induction xs) auto

lemma memchr_None: "memchr s c n = None \<longleftrightarrow> c \<notin> set (take n s)"
  unfolding memchr_def Let_def length_takeWhile_less by auto

lemma memchr_Some:
  assumes "memchr s c n = Some q"
  shows "q < n" "q < length s" "s ! q = c" "\<forall>j<q. s ! j \<noteq> c"
proof -
  let ?w = "takeWhile (\<lambda>x. x \<noteq> c) (take n s)"
  have q: "q = length ?w" "length ?w < length (take n s)" using assms by (auto simp: memchr_def Let_def split: if_splits)
  then show "q < n" "q < length s" by auto
  have "\<not> take n s ! length ?w \<noteq> c" by (rule nth_length_takeWhile) (rule q(2))
  then show "s ! q = c" using q by simp
  show "\<forall>j<q. s ! j \<noteq> c"
  proof safe
    fix j assume j: "j < q" "c = s ! j"
    then have "?w ! j = s ! j" using q by (simp add: takeWhile_nth)
    moreover have "?w ! j \<in> set ?w" using j q by simp
    ultimately show False using j by (metis (mono_tags, lifting) set_takeWhileD)
  qed
qed

text \<open>\<open>occurs s p i\<close>: the string \<open>p\<close> occurs in \<open>s\<close> at offset \<open>i\<close>.\<close>

definition occurs :: "u8 list \<Rightarrow> u8 list \<Rightarrow> nat \<Rightarrow> bool" where
  "occurs s p i \<longleftrightarrow> i + length p \<le> length s \<and> take (length p) (drop i s) = p"

lemma occurs_Cons:
  "occurs s (c # p) i \<longleftrightarrow> i < length s \<and> s ! i = c \<and> occurs s p (i + 1)"
proof (cases "i < length s")
  case True
  then show ?thesis using Cons_nth_drop_Suc [OF True, symmetric] by (auto simp: occurs_def)
qed (simp add: occurs_def)

lemma str_find_loop_correct:
  assumes "slen + length p = length s"
  shows "case str_find_loop s c p i slen of
      None \<Rightarrow> \<forall>j. \<not> occurs s (c # p) j
    | Some r \<Rightarrow> i \<le> r \<and> occurs s (c # p) (r - i) \<and> (\<forall>j<r - i. \<not> occurs s (c # p) j)"
  using assms
proof (induction s c p i slen rule: str_find_loop.induct)
  case (1 s c p i slen)
  note u = str_find_loop.simps [of s c p i slen]
  have fits: "j < slen" if "occurs s (c # p) j" for j using that "1.prems" by (simp add: occurs_def)
  show ?case
  proof (cases "slen = 0 \<or> memchr s c slen = None")
    case True
    have "\<not> occurs s (c # p) j" for j
    proof
      assume o: "occurs s (c # p) j"
      then have "j < slen" "j < length s" "s ! j = c" using fits by (auto simp: occurs_Cons)
      with True show False by (auto simp: memchr_None in_set_conv_nth)
    qed
    then show ?thesis unfolding u using True by auto
  next
    case False
    then obtain q where q: "memchr s c slen = Some q" and pos: "slen \<noteq> 0" by auto
    note ms = memchr_Some [OF q]
    have before: "\<not> occurs s (c # p) j" if "j < q" for j using ms(4) that by (auto simp: occurs_Cons)
    have at: "occurs s (c # p) q \<longleftrightarrow> take (length p) (drop (q + 1) s) = p"
      using ms "1.prems" by (auto simp: occurs_Cons) (auto simp: occurs_def)
    show ?thesis
    proof (cases "take (length p) (drop (q + 1) s) = p")
      case True
      then show ?thesis unfolding u using pos q at before by simp
    next
      case miss: False
      have shift: "occurs (drop (q + 1) s) (c # p) j \<longleftrightarrow> occurs s (c # p) (q + 1 + j)" for j
        using ms(2) by (auto simp: occurs_def add.commute)
      have before': "\<not> occurs s (c # p) j" if "j < q + 1" for j using before at miss that by (cases "j = q") auto
      have eq: "str_find_loop s c p i slen = str_find_loop (drop (q + 1) s) c p (i + q + 1) (slen - (q + 1))"
        unfolding u using pos q miss by simp
      have "slen - (q + 1) + length p = length (drop (q + 1) s)" using ms(1) "1.prems" by simp
      note IH = "1.IH" [OF pos q miss this]
      show ?thesis
      proof (cases "str_find_loop (drop (q + 1) s) c p (i + q + 1) (slen - (q + 1))")
        case None
        then have "\<not> occurs s (c # p) j" for j
          using IH shift before' by (metis le_add_diff_inverse not_less option.simps(4))
        then show ?thesis unfolding eq None by simp
      next
        case (Some r)
        then have r: "i + q + 1 \<le> r" "occurs s (c # p) (r - i)" "\<forall>j<r - (i + q + 1). \<not> occurs s (c # p) (q + 1 + j)"
          using IH shift [of "r - (i + q + 1)"] shift by (auto simp: Suc_diff_Suc)
        have "\<not> occurs s (c # p) j" if "j < r - i" for j
        proof (cases "j < q + 1")
          case False
          then have "j - (q + 1) < r - (i + q + 1)" "q + 1 + (j - (q + 1)) = j" using that r(1) by auto
          then show ?thesis using r(3) by metis
        qed (rule before')
        then show ?thesis unfolding eq Some using r by simp
      qed
    qed
  qed
qed

text \<open>C33: The search for a fixed string returns the first offset at which it occurs, and nothing if and only if it does
  not occur. The empty string is found at once.\<close>

theorem lj_str_find_correct:
  "case lj_str_find s p of
     None \<Rightarrow> \<forall>i. \<not> occurs s p i
   | Some i \<Rightarrow> occurs s p i \<and> (\<forall>j<i. \<not> occurs s p j)"
proof (cases p)
  case Nil
  then show ?thesis by (simp add: lj_str_find_def occurs_def)
next
  case (Cons c p')
  show ?thesis
  proof (cases "length p \<le> length s")
    case True
    then have "length s - length p' + length p' = length s" using Cons by simp
    from str_find_loop_correct [OF this, of c 0] show ?thesis using True Cons by (simp add: lj_str_find_def split: option.splits)
  next
    case False
    then show ?thesis by (auto simp: lj_str_find_def occurs_def)
  qed
qed

theorem lj_str_find_correct_witness:
  "\<exists>i. lj_str_find [1, 2, 1, 3] [1, 3] = Some i \<and> occurs [1, 2, 1, 3] [1, 3] i"
proof -
  have "occurs [1, 2, 1, 3] [1, 3] 2" by (simp add: occurs_def)
  then show ?thesis using lj_str_find_correct [of "[1, 2, 1, 3]" "[1, 3]"] by (auto split: option.splits)
qed

text \<open>Only the characters of the pattern syntax make a string a pattern.\<close>

lemma punct_pattern: "\<forall>c \<in> set pattern_chars. lj_char_ispunct c" "\<not> lj_char_ispunct 0"
  by (simp_all add: pattern_chars_def lj_char_ispunct_def lj_char_isa_def LJ_CHAR_PUNCT_def lj_char_bits_def)

lemma lj_str_haspattern_iff: "lj_str_haspattern s \<longleftrightarrow> set s \<inter> set pattern_chars \<noteq> {}"
  using punct_pattern by (induction s) auto

end
