(* ===== verification/Strtab.thy ===== *)
theory Strtab
  imports Str Carith
begin

text \<open>
  String interning (\<^verbatim>\<open>lj_str.c\<close>) together with the part of the collector that sweeps the string table (\<^verbatim>\<open>lj_gc.c\<close>).
  A string object lives at a reference; a hash chain, which the code links through the objects, is the
  list of its references. The reference 0 is the empty string, which is a part of the global state.
  A dereference of a freed string is the error \<open>STR_FAULT\<close>.

  The state is changed by a step relation: interning, marking, fixing, the flip of the current white
  at the atomic phase, sweeping a chain, and shrinking the table.
\<close>

section \<open>The string table\<close>

record gcstr =
  str_marked :: u8
  str_hash :: u32
  str_data :: "u8 list"

record strtab =
  strhash :: "nat list list"
  strmask :: u32
  strnum :: u32
  currentwhite :: u8
  sweeping :: bool
  heap :: "nat \<rightharpoonup> gcstr"
  fresh :: nat

datatype str_err = LJ_ERR_STROV | STR_FAULT

definition LJ_MAX_STRTAB :: u32 where "LJ_MAX_STRTAB = push_bit 26 1"
definition LJ_MIN_STRTAB :: u32 where "LJ_MIN_STRTAB = 256"

definition LJ_GC_WHITES :: u8 where "LJ_GC_WHITES = 0x03"
definition LJ_GC_COLORS :: u8 where "LJ_GC_COLORS = 0x07"
definition LJ_GC_FIXED :: u8 where "LJ_GC_FIXED = 0x20"

definition otherwhite :: "strtab \<Rightarrow> u8" where "otherwhite g = currentwhite g XOR LJ_GC_WHITES"
definition curwhite :: "strtab \<Rightarrow> u8" where "curwhite g = currentwhite g AND LJ_GC_WHITES"
definition isdead :: "strtab \<Rightarrow> gcstr \<Rightarrow> bool" where "isdead g s \<longleftrightarrow> str_marked s AND otherwhite g AND LJ_GC_WHITES \<noteq> 0"
definition flipwhite :: "gcstr \<Rightarrow> gcstr" where "flipwhite s = s\<lparr>str_marked := str_marked s XOR LJ_GC_WHITES\<rparr>"
definition makewhite :: "strtab \<Rightarrow> gcstr \<Rightarrow> gcstr" where
  "makewhite g s = s\<lparr>str_marked := (str_marked s AND NOT LJ_GC_COLORS) OR curwhite g\<rparr>"
definition fixstring :: "gcstr \<Rightarrow> gcstr" where "fixstring s = s\<lparr>str_marked := str_marked s OR LJ_GC_FIXED\<rparr>"
definition gc_mark_str :: "gcstr \<Rightarrow> gcstr" where "gc_mark_str s = s\<lparr>str_marked := str_marked s AND NOT LJ_GC_WHITES\<rparr>"

subsection \<open>Resizing\<close>

definition reinsert :: "strtab \<Rightarrow> u32 \<Rightarrow> nat \<Rightarrow> nat list list \<Rightarrow> nat list list option" where
  "reinsert g newmask p newhash =
     do { s \<leftarrow> heap g p;
          let h = unat (str_hash s AND newmask);
          c \<leftarrow> aget newhash h;
          aset newhash h (p # c) }"

fun rehash :: "strtab \<Rightarrow> u32 \<Rightarrow> nat list \<Rightarrow> nat list list \<Rightarrow> nat list list option" where
  "rehash g newmask [] newhash = Some newhash"
| "rehash g newmask (p # ps) newhash = do { newhash \<leftarrow> reinsert g newmask p newhash; rehash g newmask ps newhash }"

definition lj_str_resize :: "strtab \<Rightarrow> u32 \<Rightarrow> strtab option" where
  "lj_str_resize g newmask =
     (if sweeping g \<or> newmask \<ge> LJ_MAX_STRTAB - 1 then Some g
      else do { newhash \<leftarrow> rehash g newmask (concat (rev (strhash g))) (replicate (unat newmask + 1) []);
                Some (g\<lparr>strmask := newmask, strhash := newhash\<rparr>) })"

subsection \<open>Interning\<close>

definition str_hash_of :: "u8 list \<Rightarrow> u32 option" where
  "str_hash_of str =
     (let len = length str; h = word_of_nat len in
      do { (a, b, h) \<leftarrow>
             (if len \<ge> 4 then
                do { a \<leftarrow> lj_getu32 str 0;
                     c \<leftarrow> lj_getu32 str (len - 4);
                     let h = h XOR c;
                     b \<leftarrow> lj_getu32 str (len div 2 - 2);
                     let h = h XOR b;
                     let h = h - lj_rol32 b 14;
                     c \<leftarrow> lj_getu32 str (len div 4 - 1);
                     Some (a, b + c, h) }
              else
                do { a \<leftarrow> aget str 0;
                     c \<leftarrow> aget str (len - 1);
                     let h = h XOR u32_of_u8 c;
                     b \<leftarrow> aget str (len div 2);
                     let b = u32_of_u8 b;
                     let h = h XOR b;
                     Some (u32_of_u8 a, b, h - lj_rol32 b 14) });
           let a = a XOR h; let a = a - lj_rol32 h 11;
           let b = b XOR a; let b = b - lj_rol32 a 25;
           let h = h XOR b; let h = h - lj_rol32 b 16;
           Some h })"

text \<open>The walk along a hash chain.\<close>

fun chain_find :: "strtab \<Rightarrow> u32 \<Rightarrow> u8 list \<Rightarrow> nat list \<Rightarrow> nat option option" where
  "chain_find g h str [] = Some None"
| "chain_find g h str (r # rs) =
     do { sx \<leftarrow> heap g r;
          if str_hash sx = h \<and> length (str_data sx) = length str \<and> str_data sx = str then Some (Some r) else chain_find g h str rs }"

text \<open>A new string object in the chain \<open>i\<close>.\<close>

definition str_alloc :: "strtab \<Rightarrow> u8 list \<Rightarrow> u32 \<Rightarrow> nat \<Rightarrow> strtab option" where
  "str_alloc g str h i =
     do { c \<leftarrow> aget (strhash g) i;
          let r = fresh g;
          let num = strnum g;
          let g = g\<lparr>strhash := (strhash g)[i := r # c], heap := (heap g)(r \<mapsto> \<lparr>str_marked = curwhite g, str_hash = h, str_data = str\<rparr>),
                    fresh := r + 1, strnum := num + 1\<rparr>;
          if num > strmask g then lj_str_resize g (push_bit 1 (strmask g) + 1) else Some g }"

definition lj_str_new :: "strtab \<Rightarrow> u8 list \<Rightarrow> str_err + nat \<times> strtab" where
  "lj_str_new g str =
     (if length str \<ge> LJ_MAX_STR then Inl LJ_ERR_STROV
      else if str = [] then Inr (0, g)
      else case
        do { h \<leftarrow> str_hash_of str;
             chain \<leftarrow> aget (strhash g) (unat (h AND strmask g));
             found \<leftarrow> chain_find g h str chain;
             case found of
               Some r \<Rightarrow>
                 do { sx \<leftarrow> heap g r;
                      Some (r, if isdead g sx then g\<lparr>heap := (heap g)(r \<mapsto> flipwhite sx)\<rparr> else g) }
             | None \<Rightarrow> do { g' \<leftarrow> str_alloc g str h (unat (h AND strmask g)); Some (fresh g, g') } }
        of None \<Rightarrow> Inl STR_FAULT | Some x \<Rightarrow> Inr x)"

definition lj_str_free :: "strtab \<Rightarrow> nat \<Rightarrow> strtab" where
  "lj_str_free g r = g\<lparr>strnum := strnum g - 1, heap := (heap g)(r := None)\<rparr>"

subsection \<open>Sweeping\<close>

text \<open>\<^verbatim>\<open>gc_sweep\<close> on a chain of strings, as \<^verbatim>\<open>gc_fullsweep\<close> calls it for the string table: what is left of the
  chain, and the state. With the limit \<^verbatim>\<open>LJ_MAX_MEM\<close> the loop goes to the end of the chain, so the limit is left
  out, and so is the case of a thread, which is not on such a chain.\<close>

fun gc_sweep :: "strtab \<Rightarrow> nat list \<Rightarrow> (nat list \<times> strtab) option" where
  "gc_sweep g [] = Some ([], g)"
| "gc_sweep g (r # rs) =
     do { s \<leftarrow> heap g r;
          if (str_marked s XOR LJ_GC_WHITES) AND otherwhite g \<noteq> 0 then
            do { (rs', g') \<leftarrow> gc_sweep (g\<lparr>heap := (heap g)(r \<mapsto> makewhite g s)\<rparr>) rs; Some (r # rs', g') }
          else gc_sweep (lj_str_free g r) rs }"

definition sweep_chain :: "strtab \<Rightarrow> nat \<Rightarrow> strtab option" where
  "sweep_chain g i =
     do { c \<leftarrow> aget (strhash g) i;
          (c', g') \<leftarrow> gc_sweep g c;
          Some (g'\<lparr>strhash := (strhash g')[i := c']\<rparr>) }"

text \<open>The end of the sweep phase: a table that has become too large is shrunk.\<close>

definition str_shrink :: "strtab \<Rightarrow> strtab option" where
  "str_shrink g =
     (if strnum g \<le> drop_bit 2 (strmask g) \<and> strmask g > LJ_MIN_STRTAB * 2 - 1 then lj_str_resize g (drop_bit 1 (strmask g)) else Some g)"

text \<open>\<^verbatim>\<open>lj_str_init\<close> at the start of a state: \<^verbatim>\<open>strmask\<close> is \<^verbatim>\<open>~0\<close> and there is no table yet.\<close>

definition str_initial :: strtab where
  "str_initial = \<lparr>strhash = [], strmask = -1, strnum = 0, currentwhite = 0x21, sweeping = False, heap = Map.empty, fresh = 1\<rparr>"

definition str_init :: "strtab option" where
  "str_init = lj_str_resize str_initial (LJ_MIN_STRTAB - 1)"

section \<open>The invariant\<close>

definition table_ok :: "nat list list \<Rightarrow> u32 \<Rightarrow> (nat \<rightharpoonup> gcstr) \<Rightarrow> bool" where
  "table_ok T m H \<longleftrightarrow> length T = unat m + 1 \<and> distinct (concat T) \<and>
     (\<forall>i<length T. \<forall>r \<in> set (T ! i). \<exists>s. H r = Some s \<and> unat (str_hash s AND m) = i)"

definition marks_ok :: "gcstr \<Rightarrow> bool" where
  "marks_ok s \<longleftrightarrow> \<not> (bit (str_marked s) 0 \<and> bit (str_marked s) 1)"

definition heap_ok :: "(nat \<rightharpoonup> gcstr) \<Rightarrow> nat \<Rightarrow> bool" where
  "heap_ok H n \<longleftrightarrow>
     (\<forall>r s. H r = Some s \<longrightarrow> 0 < r \<and> r < n \<and> str_data s \<noteq> [] \<and> str_hash_of (str_data s) = Some (str_hash s) \<and> marks_ok s) \<and>
     (\<forall>r s r' s'. H r = Some s \<longrightarrow> H r' = Some s' \<longrightarrow> str_data s = str_data s' \<longrightarrow> r = r')"

definition strtab_ok :: "strtab \<Rightarrow> bool" where
  "strtab_ok g \<longleftrightarrow> table_ok (strhash g) (strmask g) (heap g) \<and> set (concat (strhash g)) = dom (heap g) \<and>
     heap_ok (heap g) (fresh g) \<and> 0 < fresh g \<and> currentwhite g \<in> {0x21, 0x22} \<and>
     strnum g = word_of_nat (length (concat (strhash g)))"

text \<open>The contents of a string object.\<close>

definition str_at :: "strtab \<Rightarrow> nat \<Rightarrow> u8 list option" where
  "str_at g r = (if r = 0 then Some [] else map_option str_data (heap g r))"

lemma concat_split:
  assumes "i < length T"
  shows "concat T = concat (take i T) @ T ! i @ concat (drop (Suc i) T)"
    "concat (T[i := xs]) = concat (take i T) @ xs @ concat (drop (Suc i) T)"
  using assms arg_cong [OF id_take_nth_drop [OF assms], of concat] by (simp_all add: upd_conv_take_nth_drop)

lemma concat_update:
  assumes "i < length T"
  shows "set (concat (T[i := xs])) = set (concat (take i T)) \<union> set xs \<union> set (concat (drop (Suc i) T))"
    "length (concat (T[i := xs])) + length (T ! i) = length (concat T) + length xs"
    "distinct (concat T) \<Longrightarrow> distinct xs \<Longrightarrow> set xs \<inter> (set (concat T) - set (T ! i)) = {} \<Longrightarrow> distinct (concat (T[i := xs]))"
  unfolding concat_split [OF assms] by (simp_all del: set_concat) blast+

lemma concat_nth:
  assumes "i < length T"
  shows "set (concat T) = set (concat (take i T)) \<union> set (T ! i) \<union> set (concat (drop (Suc i) T))"
    "distinct (concat T) \<Longrightarrow> distinct (T ! i) \<and> set (T ! i) \<inter> (set (concat (take i T)) \<union> set (concat (drop (Suc i) T))) = {}"
  unfolding concat_split(1) [OF assms] by (simp_all del: set_concat) blast+

lemma distinct_concat_rev: "distinct (concat (rev T)) \<longleftrightarrow> distinct (concat T)"
  by (induction T) auto

subsection \<open>Resizing keeps the strings\<close>

lemma reinsert_ok:
  assumes "table_ok T m (heap g)" "heap g p \<noteq> None" "p \<notin> set (concat T)"
  obtains T' where "reinsert g m p T = Some T'" "table_ok T' m (heap g)" "set (concat T') = insert p (set (concat T))"
    "length (concat T') = length (concat T) + 1"
proof -
  obtain s where s: "heap g p = Some s" using assms(2) by auto
  define h where "h = unat (str_hash s AND m)"
  have "h \<le> unat m" unfolding h_def by (simp add: word_and_le1 word_le_nat_alt [symmetric])
  then have h: "h < length T" using assms(1) by (simp add: table_ok_def)
  note u = concat_update [OF h, of "p # T ! h"] concat_nth [OF h]
  have "distinct (concat (T[h := p # T ! h]))"
    using u assms by (simp add: table_ok_def del: set_concat)
  moreover have "\<exists>s. heap g r = Some s \<and> unat (str_hash s AND m) = i"
    if "i < length T" "r \<in> set (T[h := p # T ! h] ! i)" for i r
    using that assms(1) s h by (cases "i = h") (auto simp: table_ok_def h_def [symmetric])
  ultimately have "table_ok (T[h := p # T ! h]) m (heap g)" using assms(1) by (auto simp: table_ok_def)
  moreover have "reinsert g m p T = Some (T[h := p # T ! h])" using s h by (simp add: reinsert_def h_def Let_def)
  ultimately show thesis using that u(1,2,4) by (simp del: set_concat)
qed

lemma rehash_ok:
  assumes "table_ok T m (heap g)" "set ps \<subseteq> dom (heap g)" "distinct ps" "set ps \<inter> set (concat T) = {}"
  shows "\<exists>T'. rehash g m ps T = Some T' \<and> table_ok T' m (heap g) \<and> set (concat T') = set ps \<union> set (concat T) \<and>
    length (concat T') = length (concat T) + length ps"
  using assms
proof (induction ps arbitrary: T)
  case (Cons p ps)
  have "heap g p \<noteq> None" "p \<notin> set (concat T)" using Cons.prems by auto
  then obtain T1 where T1: "reinsert g m p T = Some T1" "table_ok T1 m (heap g)" "set (concat T1) = insert p (set (concat T))"
    "length (concat T1) = length (concat T) + 1"
    by (rule reinsert_ok [OF Cons.prems(1)])
  have "set ps \<subseteq> dom (heap g)" "distinct ps" "set ps \<inter> set (concat T1) = {}" using Cons.prems T1(3) by auto
  from Cons.IH [OF T1(2) this] T1 show ?case by auto
qed simp

lemma lj_str_resize_ok:
  assumes "strtab_ok g"
  obtains g' where "lj_str_resize g m = Some g'" "strtab_ok g'" "heap g' = heap g" "currentwhite g' = currentwhite g" "fresh g' = fresh g"
    "sweeping g' = sweeping g"
proof (cases "sweeping g \<or> m \<ge> LJ_MAX_STRTAB - 1")
  case True
  then show thesis using assms that [of g] by (simp add: lj_str_resize_def)
next
  case False
  have ok: "table_ok (strhash g) (strmask g) (heap g)" "set (concat (strhash g)) = dom (heap g)" using assms by (simp_all add: strtab_ok_def)
  let ?T0 = "replicate (unat m + 1) ([] :: nat list)"
  have c0: "concat ?T0 = []" by simp
  have "table_ok ?T0 m (heap g)" unfolding table_ok_def c0 by (simp del: replicate_Suc)
  moreover have "distinct (concat (rev (strhash g)))" using ok(1) by (simp add: table_ok_def distinct_concat_rev)
  moreover have "set (concat (rev (strhash g))) = dom (heap g)" using ok(2) by simp
  ultimately obtain T' where T': "rehash g m (concat (rev (strhash g))) ?T0 = Some T'" "table_ok T' m (heap g)"
    "set (concat T') = dom (heap g)" "length (concat T') = length (concat (rev (strhash g)))"
    using rehash_ok [of ?T0 m g "concat (rev (strhash g))"] unfolding c0 by auto
  have "length (concat (rev (strhash g))) = length (concat (strhash g))" by (simp add: length_concat rev_map [symmetric] sum_list_rev)
  then show thesis using that [of "g\<lparr>strmask := m, strhash := T'\<rparr>"] assms False T' by (simp add: lj_str_resize_def strtab_ok_def)
qed

subsection \<open>Interning\<close>

lemma lj_getu32_Some: "i + 4 \<le> length m \<Longrightarrow> \<exists>v. lj_getu32 m i = Some v"
  by (simp add: lj_getu32_def)

lemma str_hash_of_Some:
  assumes "str \<noteq> []"
  obtains h where "str_hash_of str = Some h"
proof (cases "length str \<ge> 4")
  case True
  then obtain a b c d where "lj_getu32 str 0 = Some a" "lj_getu32 str (length str - 4) = Some b"
    "lj_getu32 str (length str div 2 - 2) = Some c" "lj_getu32 str (length str div 4 - 1) = Some d"
    using lj_getu32_Some [of 0 str] lj_getu32_Some [of "length str - 4" str] lj_getu32_Some [of "length str div 2 - 2" str]
      lj_getu32_Some [of "length str div 4 - 1" str] by force
  then show thesis using that True by (simp add: str_hash_of_def Let_def)
next
  case False
  then show thesis using that assms by (simp add: str_hash_of_def Let_def)
qed

text \<open>The walk along a chain finds the string if the chain has it.\<close>

lemma chain_find_ok:
  assumes "\<forall>r \<in> set c. \<exists>s. heap g r = Some s" "\<forall>r \<in> set c. \<forall>s. heap g r = Some s \<longrightarrow> str_hash_of (str_data s) = Some (str_hash s)"
    and "str_hash_of str = Some h"
  obtains "chain_find g h str c = Some None" "\<forall>r \<in> set c. \<forall>s. heap g r = Some s \<longrightarrow> str_data s \<noteq> str"
  | r s where "chain_find g h str c = Some (Some r)" "r \<in> set c" "heap g r = Some s" "str_data s = str"
proof -
  have "chain_find g h str c = Some None \<and> (\<forall>r \<in> set c. \<forall>s. heap g r = Some s \<longrightarrow> str_data s \<noteq> str) \<or>
    (\<exists>r s. chain_find g h str c = Some (Some r) \<and> r \<in> set c \<and> heap g r = Some s \<and> str_data s = str)"
    using assms(1,2)
  proof (induction c)
    case (Cons r rs)
    then obtain s where s: "heap g r = Some s" "str_hash_of (str_data s) = Some (str_hash s)" by auto
    show ?case
    proof (cases "str_data s = str")
      case True
      then show ?thesis using s assms(3) by auto
    next
      case False
      then show ?thesis using s Cons by auto
    qed
  qed simp
  then show thesis using that by blast
qed

lemma heap_ok_mark:
  assumes "heap_ok H n" "H r = Some s" "str_data s' = str_data s" "str_hash s' = str_hash s" "marks_ok s'"
  shows "heap_ok (H(r \<mapsto> s')) n"
  using assms unfolding heap_ok_def by (auto split: if_splits)

lemma table_ok_mark:
  assumes "table_ok T m H" "H r = Some s" "str_hash s' = str_hash s"
  shows "table_ok T m (H(r \<mapsto> s'))"
  using assms unfolding table_ok_def by fastforce

text \<open>Changing the marks of a string changes nothing else.\<close>

lemma strtab_ok_mark:
  assumes "strtab_ok g" "heap g r = Some s" "str_data s' = str_data s" "str_hash s' = str_hash s" "marks_ok s'"
  shows "strtab_ok (g\<lparr>heap := (heap g)(r \<mapsto> s')\<rparr>)" "str_at (g\<lparr>heap := (heap g)(r \<mapsto> s')\<rparr>) q = str_at g q"
  using assms heap_ok_mark [where H = "heap g" and r = r and s = s and s' = s'] table_ok_mark [where H = "heap g" and r = r and s = s and s' = s']
  by (auto simp: strtab_ok_def str_at_def simp del: set_concat)

lemma white_bits [simp]:
  "bit (0x21 :: u8) 0" "\<not> bit (0x21 :: u8) (Suc 0)" "\<not> bit (0x22 :: u8) 0" "bit (0x22 :: u8) (Suc 0)" "bit (3 :: u8) 0" "bit (3 :: u8) (Suc 0)"
  "bit (7 :: u8) 0" "bit (7 :: u8) (Suc 0)"
  by (simp_all add: bit_numeral_rec)

lemma and_bit_iff:
  fixes x :: u8
  shows "x AND 1 \<noteq> 0 \<longleftrightarrow> bit x 0" "x AND 2 \<noteq> 0 \<longleftrightarrow> bit x 1"
  using and_exp_eq_0_iff_not_bit [of x 0] and_exp_eq_0_iff_not_bit [of x 1] by simp_all

lemma isdead_bit:
  assumes "currentwhite g \<in> {0x21, 0x22}"
  shows "isdead g s \<longleftrightarrow> (if currentwhite g = 0x21 then bit (str_marked s) 1 else bit (str_marked s) 0)"
  using assms and_bit_iff [of "str_marked s"] by (auto simp: isdead_def otherwhite_def LJ_GC_WHITES_def and.assoc)

lemma isdead_white: "currentwhite g' = currentwhite g \<Longrightarrow> isdead g' s = isdead g s"
  by (simp add: isdead_def otherwhite_def)

lemma flipwhite_ok:
  assumes "currentwhite g \<in> {0x21, 0x22}" "marks_ok s" "isdead g s"
  shows "marks_ok (flipwhite s)" "\<not> isdead g (flipwhite s)"
  using assms isdead_bit [OF assms(1)] by (auto simp: marks_ok_def flipwhite_def LJ_GC_WHITES_def bit_simps split: if_splits)

lemma new_mark_ok:
  assumes "currentwhite g \<in> {0x21, 0x22}" "str_marked s = curwhite g"
  shows "marks_ok s" "\<not> isdead g s"
  using assms isdead_bit [OF assms(1)] by (auto simp: marks_ok_def curwhite_def LJ_GC_WHITES_def bit_simps split: if_splits)

lemma heap_ok_new:
  assumes "heap_ok H n" "0 < n" "str_data s \<noteq> []" "str_hash_of (str_data s) = Some (str_hash s)" "marks_ok s"
    "\<forall>r t. H r = Some t \<longrightarrow> str_data t \<noteq> str_data s"
  shows "heap_ok (H(n \<mapsto> s)) (n + 1)"
proof -
  have old: "0 < r \<and> r < n \<and> str_data t \<noteq> [] \<and> str_hash_of (str_data t) = Some (str_hash t) \<and> marks_ok t" if "H r = Some t" for r t
    using assms(1) that by (simp add: heap_ok_def)
  have same: "r = r'" if "H r = Some t" "H r' = Some t'" "str_data t = str_data t'" for r t r' t'
    using assms(1) that unfolding heap_ok_def by blast
  have "0 < r \<and> r < n + 1 \<and> str_data t \<noteq> [] \<and> str_hash_of (str_data t) = Some (str_hash t) \<and> marks_ok t" if t: "(H(n \<mapsto> s)) r = Some t" for r t
  proof (cases "r = n")
    case True
    then have "t = s" using t by simp
    show ?thesis unfolding \<open>t = s\<close> \<open>r = n\<close> by (intro conjI less_add_one assms)
  next
    case False
    then have "H r = Some t" using t by simp
    from old [OF this] show ?thesis by (elim conjE, intro conjI) (assumption | erule less_trans, rule less_add_one)+
  qed
  moreover have "r = r'" if t: "(H(n \<mapsto> s)) r = Some t" "(H(n \<mapsto> s)) r' = Some t'" "str_data t = str_data t'" for r t r' t'
  proof (cases "r = n \<or> r' = n")
    case True
    then show ?thesis using t assms(6) by (metis fun_upd_apply option.inject)
  next
    case False
    then show ?thesis using t same by simp
  qed
  ultimately show ?thesis unfolding heap_ok_def by blast
qed

lemma str_alloc_ok:
  assumes ok: "strtab_ok g" and h: "str_hash_of str = Some h" and str: "str \<noteq> []"
    and new: "\<forall>r s. heap g r = Some s \<longrightarrow> str_data s \<noteq> str"
  obtains g' where "str_alloc g str h (unat (h AND strmask g)) = Some g'" "strtab_ok g'" "currentwhite g' = currentwhite g"
    "heap g' = (heap g)(fresh g \<mapsto> \<lparr>str_marked = curwhite g, str_hash = h, str_data = str\<rparr>)" "sweeping g' = sweeping g"
proof -
  let ?i = "unat (h AND strmask g)" and ?s = "\<lparr>str_marked = curwhite g, str_hash = h, str_data = str\<rparr>" and ?T = "strhash g"
  define g1 where "g1 = g\<lparr>strhash := ?T[?i := fresh g # ?T ! ?i], heap := (heap g)(fresh g \<mapsto> ?s), fresh := fresh g + 1, strnum := strnum g + 1\<rparr>"
  have T: "table_ok ?T (strmask g) (heap g)" "set (concat ?T) = dom (heap g)" "heap_ok (heap g) (fresh g)" "0 < fresh g"
    "currentwhite g \<in> {0x21, 0x22}" "strnum g = word_of_nat (length (concat ?T))" using ok by (auto simp: strtab_ok_def)
  have "?i \<le> unat (strmask g)" by (simp add: word_and_le1 word_le_nat_alt [symmetric])
  then have i: "?i < length ?T" using T(1) by (simp add: table_ok_def)
  have dom: "fresh g \<notin> dom (heap g)" using T(3) by (auto simp: heap_ok_def)
  note u = concat_update [OF i, of "fresh g # ?T ! ?i"] concat_nth [OF i]
  have "distinct (concat (?T[?i := fresh g # ?T ! ?i]))"
    using u dom T by (simp add: table_ok_def del: set_concat)
  moreover have "\<exists>s. heap g1 r = Some s \<and> unat (str_hash s AND strmask g) = j"
    if j: "j < length ?T" "r \<in> set (?T[?i := fresh g # ?T ! ?i] ! j)" for j r
  proof (cases "r = fresh g")
    case True
    moreover have "fresh g \<notin> set (?T ! j)" using dom T(2) j(1) by (metis UN_I nth_mem set_concat)
    ultimately have "j = ?i" using j(2) by (cases "j = ?i") auto
    then show ?thesis using True by (simp add: g1_def)
  next
    case False
    then have "r \<in> set (?T ! j)" using j i by (cases "j = ?i") auto
    then show ?thesis using T(1) j(1) False by (auto simp: table_ok_def g1_def)
  qed
  ultimately have t: "table_ok (strhash g1) (strmask g1) (heap g1)" using T(1) by (simp add: table_ok_def g1_def)
  have "marks_ok ?s" by (rule new_mark_ok(1) [OF T(5)]) simp
  then have "heap_ok (heap g1) (fresh g1)" using heap_ok_new [OF T(3,4), of ?s] h str new by (simp add: g1_def)
  moreover have "set (concat (strhash g1)) = dom (heap g1)" using u(1,4) T(2) by (auto simp: g1_def simp del: set_concat)
  moreover have "strnum g1 = word_of_nat (length (concat (strhash g1)))" using u(2) T(6) by (simp add: g1_def)
  ultimately have ok1: "strtab_ok g1" using t T(4,5) by (simp add: strtab_ok_def g1_def)
  obtain g2 where g2: "lj_str_resize g1 (push_bit 1 (strmask g) + 1) = Some g2" "strtab_ok g2" "heap g2 = heap g1" "currentwhite g2 = currentwhite g1"
    "sweeping g2 = sweeping g1" by (rule lj_str_resize_ok [OF ok1])
  have "str_alloc g str h ?i = (if strnum g > strmask g then lj_str_resize g1 (push_bit 1 (strmask g) + 1) else Some g1)"
    using i by (simp add: str_alloc_def Let_def g1_def)
  then show thesis using that [of g1] that [of g2] ok1 g2 by (auto simp: g1_def split: if_splits)
qed

text \<open>Interning returns a living string with the given contents, and keeps all others.\<close>

lemma lj_str_new_ok:
  assumes "strtab_ok g" "length str < LJ_MAX_STR"
  obtains r g' where "lj_str_new g str = Inr (r, g')" "strtab_ok g'" "str_at g' r = Some str"
    "\<forall>q t. str_at g q = Some t \<longrightarrow> str_at g' q = Some t" "\<forall>s. heap g' r = Some s \<longrightarrow> \<not> isdead g' s"
    "\<forall>q s. heap g q = Some s \<and> \<not> isdead g s \<longrightarrow> heap g' q = Some s" "currentwhite g' = currentwhite g" "sweeping g' = sweeping g"
proof (cases "str = []")
  case True
  have "heap g 0 = None" using assms(1) by (cases "heap g 0") (auto simp: strtab_ok_def heap_ok_def)
  then show thesis using True assms that [of 0 g] by (simp add: lj_str_new_def str_at_def)
next
  case False
  note found = that
  obtain h where h: "str_hash_of str = Some h" by (rule str_hash_of_Some [OF False])
  let ?i = "unat (h AND strmask g)"
  have T: "table_ok (strhash g) (strmask g) (heap g)" "set (concat (strhash g)) = dom (heap g)" "heap_ok (heap g) (fresh g)"
    "currentwhite g \<in> {0x21, 0x22}" "0 < fresh g" using assms(1) by (auto simp: strtab_ok_def)
  have "?i \<le> unat (strmask g)" by (simp add: word_and_le1 word_le_nat_alt [symmetric])
  then have i: "?i < length (strhash g)" using T(1) by (simp add: table_ok_def)
  have c: "\<forall>r \<in> set (strhash g ! ?i). \<exists>s. heap g r = Some s" "\<forall>r \<in> set (strhash g ! ?i). \<forall>s. heap g r = Some s \<longrightarrow> str_hash_of (str_data s) = Some (str_hash s)"
    using T(1,3) i by (fastforce simp: table_ok_def, auto simp: heap_ok_def)
  show thesis
  proof (rule chain_find_ok [OF c h])
    assume none: "chain_find g h str (strhash g ! ?i) = Some None" "\<forall>r \<in> set (strhash g ! ?i). \<forall>s. heap g r = Some s \<longrightarrow> str_data s \<noteq> str"
    have "str_data s \<noteq> str" if s: "heap g r = Some s" for r s
    proof
      assume d: "str_data s = str"
      have "r \<in> set (concat (strhash g))" using s T(2) by auto
      then obtain j where j: "j < length (strhash g)" "r \<in> set (strhash g ! j)" unfolding set_concat by (metis UN_E in_set_conv_nth)
      then have "unat (str_hash s AND strmask g) = j" using T(1) s by (fastforce simp: table_ok_def)
      moreover have "str_hash s = h" using T(3) s d h by (auto simp: heap_ok_def)
      ultimately show False using none(2) j(2) s d by auto
    qed
    then obtain g' where g': "str_alloc g str h ?i = Some g'" "strtab_ok g'" "currentwhite g' = currentwhite g"
      "heap g' = (heap g)(fresh g \<mapsto> \<lparr>str_marked = curwhite g, str_hash = h, str_data = str\<rparr>)" "sweeping g' = sweeping g"
      using str_alloc_ok [OF assms(1) h False] by metis
    have "fresh g \<notin> dom (heap g)" using T(3) by (auto simp: heap_ok_def)
    then have "\<forall>q t. str_at g q = Some t \<longrightarrow> str_at g' q = Some t" "\<forall>q s. heap g q = Some s \<longrightarrow> heap g' q = Some s"
      using g'(4) by (auto simp: str_at_def)
    moreover have "\<not> isdead g' \<lparr>str_marked = curwhite g, str_hash = h, str_data = str\<rparr>"
      using new_mark_ok(2) [of g'] T(4) g'(3) by (simp add: curwhite_def)
    ultimately show thesis
      using found [of "fresh g" g'] none g' h i assms(2) False T(5) by (simp add: lj_str_new_def str_at_def)
  next
    fix r s assume r: "chain_find g h str (strhash g ! ?i) = Some (Some r)" "r \<in> set (strhash g ! ?i)" "heap g r = Some s" "str_data s = str"
    then have m: "marks_ok s" "0 < r" using T(3) by (auto simp: heap_ok_def)
    let ?g = "if isdead g s then g\<lparr>heap := (heap g)(r \<mapsto> flipwhite s)\<rparr> else g"
    have new: "lj_str_new g str = Inr (r, ?g)" using r h i assms(2) False by (simp add: lj_str_new_def)
    show thesis
    proof (cases "isdead g s")
      case True
      note f = flipwhite_ok [OF T(4) m(1) True]
      let ?f = "g\<lparr>heap := (heap g)(r \<mapsto> flipwhite s)\<rparr>"
      have "str_data (flipwhite s) = str_data s" "str_hash (flipwhite s) = str_hash s" by (simp_all add: flipwhite_def)
      note ok = strtab_ok_mark [OF assms(1) r(3) this f(1)]
      show ?thesis
      proof (rule found)
        show "lj_str_new g str = Inr (r, ?f)" using new True by simp
        show "str_at ?f r = Some str" "\<forall>q t. str_at g q = Some t \<longrightarrow> str_at ?f q = Some t"
          unfolding ok(2) using r m by (simp_all add: str_at_def)
        show "\<forall>t. heap ?f r = Some t \<longrightarrow> \<not> isdead ?f t" using f(2) isdead_white [of ?f g "flipwhite s"] by simp
        show "\<forall>q t. heap g q = Some t \<and> \<not> isdead g t \<longrightarrow> heap ?f q = Some t" using True r(3) by simp
      qed (simp_all add: ok(1))
    next
      case False
      then show ?thesis using found [OF new] assms(1) r m by (simp add: str_at_def)
    qed
  qed
qed

subsection \<open>Sweeping\<close>

text \<open>The strings that survive a sweep: those that are not of the other white, and the fixed ones.\<close>

definition keeps :: "u8 \<Rightarrow> gcstr \<Rightarrow> bool" where
  "keeps ow s \<longleftrightarrow> (str_marked s XOR LJ_GC_WHITES) AND ow \<noteq> 0"

definition kept :: "strtab \<Rightarrow> nat \<Rightarrow> bool" where
  "kept g r \<longleftrightarrow> (\<exists>s. heap g r = Some s \<and> keeps (otherwhite g) s)"

definition swept :: "strtab \<Rightarrow> nat list \<Rightarrow> nat \<rightharpoonup> gcstr" where
  "swept g c r = (if r \<in> set c then (if kept g r then map_option (makewhite g) (heap g r) else None) else heap g r)"

lemma gc_sweep_eq:
  assumes "distinct c" "set c \<subseteq> dom (heap g)"
  shows "gc_sweep g c = Some (filter (kept g) c, g\<lparr>heap := swept g c, strnum := strnum g - word_of_nat (length (filter (\<lambda>r. \<not> kept g r) c))\<rparr>)"
  using assms
proof (induction c arbitrary: g)
  case Nil
  have "swept g [] = heap g" by (rule ext) (simp add: swept_def)
  then show ?case by simp
next
  case (Cons r rs)
  then obtain s where s: "heap g r = Some s" and rs: "r \<notin> set rs" "distinct rs" "set rs \<subseteq> dom (heap g)" by auto
  define g1 where "g1 = (if kept g r then g\<lparr>heap := (heap g)(r \<mapsto> makewhite g s)\<rparr> else lj_str_free g r)"
  have w: "otherwhite g1 = otherwhite g" "makewhite g1 = makewhite g"
    by (auto simp: g1_def otherwhite_def makewhite_def curwhite_def lj_str_free_def fun_eq_iff)
  have h1: "heap g1 q = heap g q" if "q \<noteq> r" for q using that by (simp add: g1_def lj_str_free_def)
  have k1: "kept g1 q = kept g q" if "q \<in> set rs" for q
    using that rs(1) h1 [of q] w by (cases "q = r") (simp_all add: kept_def)
  have "set rs \<subseteq> dom (heap g1)" using rs h1 by fastforce
  note IH = Cons.IH [OF rs(2) this]
  have f: "filter (kept g1) rs = filter (kept g) rs" "filter (\<lambda>r. \<not> kept g1 r) rs = filter (\<lambda>r. \<not> kept g r) rs"
    using k1 by (auto intro: filter_cong)
  have "swept g1 rs q = swept g (r # rs) q" for q
    using s h1 k1 w rs(1) by (cases "q = r") (auto simp: swept_def g1_def lj_str_free_def)
  then have sw: "swept g1 rs = swept g (r # rs)" ..
  show ?case
  proof (cases "kept g r")
    case True
    then have "gc_sweep g (r # rs) = bind (gc_sweep g1 rs) (\<lambda>(rs', g'). Some (r # rs', g'))"
      using s by (simp add: kept_def keeps_def g1_def)
    then show ?thesis unfolding IH f sw using True by (simp add: g1_def)
  next
    case False
    then have "gc_sweep g (r # rs) = gc_sweep g1 rs" using s by (simp add: kept_def keeps_def g1_def)
    then show ?thesis unfolding IH f sw using False by (simp add: g1_def lj_str_free_def)
  qed
qed

lemma makewhite_ok:
  assumes "currentwhite g \<in> {0x21, 0x22}"
  shows "marks_ok (makewhite g s)" "str_data (makewhite g s) = str_data s" "str_hash (makewhite g s) = str_hash s"
  using assms by (auto simp: marks_ok_def makewhite_def curwhite_def LJ_GC_WHITES_def LJ_GC_COLORS_def bit_simps)

lemma alive_kept:
  assumes "currentwhite g \<in> {0x21, 0x22}" "heap g r = Some s" "\<not> isdead g s"
  shows "kept g r"
proof -
  define n :: nat where "n = (if currentwhite g = 0x21 then 1 else 0)"
  have n: "bit (otherwhite g) n" "n \<in> {0, 1}" "\<not> bit (str_marked s) n"
    using assms isdead_bit [OF assms(1)] by (auto simp: n_def otherwhite_def LJ_GC_WHITES_def bit_simps split: if_splits)
  then have "bit ((str_marked s XOR LJ_GC_WHITES) AND otherwhite g) n" by (auto simp: bit_simps LJ_GC_WHITES_def)
  then have "keeps (otherwhite g) s" by (auto simp: keeps_def)
  then show ?thesis using assms(2) by (auto simp: kept_def)
qed

lemma sweep_chain_ok:
  assumes ok: "strtab_ok g" and i: "i < length (strhash g)"
  obtains g' where "sweep_chain g i = Some g'" "strtab_ok g'" "heap g' = swept g (strhash g ! i)"
proof -
  let ?T = "strhash g" and ?c = "strhash g ! i" and ?k = "filter (kept g) (strhash g ! i)"
  have T: "table_ok ?T (strmask g) (heap g)" "set (concat ?T) = dom (heap g)" "heap_ok (heap g) (fresh g)"
    "currentwhite g \<in> {0x21, 0x22}" "strnum g = word_of_nat (length (concat ?T))" using ok by (auto simp: strtab_ok_def)
  note u = concat_update [OF i, of ?k] concat_nth [OF i]
  have c: "distinct ?c" "set ?c \<subseteq> dom (heap g)" using u(4,5) T by (auto simp: table_ok_def simp del: set_concat)
  define g' where "g' = g\<lparr>heap := swept g ?c, strnum := strnum g - word_of_nat (length (filter (\<lambda>r. \<not> kept g r) ?c)), strhash := ?T[i := ?k]\<rparr>"
  have eq: "sweep_chain g i = Some g'" unfolding sweep_chain_def gc_sweep_eq [OF c] using i by (simp add: gc_sweep_eq [OF c] g'_def)
  note mw = makewhite_ok [OF T(4)]
  have sub: "\<exists>t. heap g r = Some t \<and> str_data s = str_data t \<and> str_hash s = str_hash t \<and> (marks_ok t \<longrightarrow> marks_ok s)" if "swept g ?c r = Some s" for r s
    using that mw by (auto simp: swept_def split: if_splits)
  have h: "heap_ok (swept g ?c) (fresh g)" unfolding heap_ok_def using sub T(3) [unfolded heap_ok_def] by metis
  have "distinct (concat (?T[i := ?k]))" using u c T by (simp add: table_ok_def del: set_concat) blast
  moreover have "\<exists>s. swept g ?c r = Some s \<and> unat (str_hash s AND strmask g) = j"
    if j: "j < length ?T" "r \<in> set (?T[i := ?k] ! j)" for j r
  proof -
    have r: "r \<in> set (?T ! j)" using j i by (cases "j = i") auto
    then obtain s where s: "heap g r = Some s" "unat (str_hash s AND strmask g) = j" using T(1) j(1) by (fastforce simp: table_ok_def)
    have "kept g r" if "r \<in> set ?c"
    proof -
      have "j = i" using T(1) s i that by (fastforce simp: table_ok_def)
      then show ?thesis using j(2) i by simp
    qed
    then show ?thesis using s mw(3) by (auto simp: swept_def)
  qed
  ultimately have "table_ok (strhash g') (strmask g') (heap g')" using T(1) by (simp add: table_ok_def g'_def)
  moreover have "set (concat (strhash g')) = dom (heap g')"
  proof -
    have "dom (swept g ?c) = dom (heap g) - set ?c \<union> set ?k"
      using c(2) by (auto simp: swept_def kept_def split: if_splits)
    also have "\<dots> = set (concat (?T[i := ?k]))"
      unfolding T(2) [symmetric] u(1,4) using u(5) T(1) by (auto simp: table_ok_def simp del: set_concat)
    finally show ?thesis by (simp add: g'_def)
  qed
  moreover have "strnum g' = word_of_nat (length (concat (strhash g')))"
  proof -
    have "length (concat ?T) = length (concat (?T[i := ?k])) + length (filter (\<lambda>r. \<not> kept g r) ?c)"
      using u(2) sum_length_filter_compl [of "kept g" ?c] by linarith
    then show ?thesis using T(5) by (simp add: g'_def)
  qed
  ultimately have "strtab_ok g'" using ok h by (simp add: strtab_ok_def g'_def)
  with eq show thesis using that by (simp add: g'_def)
qed

section \<open>The life of the string table\<close>

inductive str_step :: "strtab \<Rightarrow> strtab \<Rightarrow> bool" where
  step_intern: "lj_str_new g str = Inr (r, g') \<Longrightarrow> str_step g g'"
| step_mark: "heap g r = Some s \<Longrightarrow> str_step g (g\<lparr>heap := (heap g)(r \<mapsto> gc_mark_str s)\<rparr>)"
| step_fix: "heap g r = Some s \<Longrightarrow> str_step g (g\<lparr>heap := (heap g)(r \<mapsto> fixstring s)\<rparr>)"
| step_atomic: "str_step g (g\<lparr>currentwhite := otherwhite g, sweeping := True\<rparr>)"
| step_sweep: "sweeping g \<Longrightarrow> sweep_chain g i = Some g' \<Longrightarrow> str_step g g'"
| step_swept: "str_step g (g\<lparr>sweeping := False\<rparr>)"
| step_shrink: "str_shrink g = Some g' \<Longrightarrow> str_step g g'"

inductive str_reachable :: "strtab \<Rightarrow> bool" where
  reach_init: "str_init = Some g \<Longrightarrow> str_reachable g"
| reach_step: "str_reachable g \<Longrightarrow> str_step g g' \<Longrightarrow> str_reachable g'"

lemma str_init_ok: "\<exists>g. str_init = Some g \<and> strtab_ok g"
proof -
  let ?T = "replicate 256 ([] :: nat list)"
  have c: "concat ?T = []" by simp
  have r: "replicate (unat (LJ_MIN_STRTAB - 1) + 1) ([] :: nat list) = ?T" by (simp add: LJ_MIN_STRTAB_def)
  have "table_ok ?T 255 Map.empty" unfolding table_ok_def c by (simp add: nth_replicate)
  moreover have "str_init = Some (str_initial\<lparr>strmask := 255, strhash := ?T\<rparr>)"
    unfolding str_init_def lj_str_resize_def r by (simp add: str_initial_def LJ_MIN_STRTAB_def LJ_MAX_STRTAB_def)
  ultimately show ?thesis unfolding strtab_ok_def using c by (auto simp: str_initial_def heap_ok_def)
qed

lemma strtab_ok_new:
  assumes "strtab_ok g" "lj_str_new g str = Inr (r, g')"
  shows "strtab_ok g'"
proof -
  have "length str < LJ_MAX_STR" using assms(2) by (simp add: lj_str_new_def split: if_splits)
  then obtain r1 g1 where "lj_str_new g str = Inr (r1, g1)" "strtab_ok g1" by (rule lj_str_new_ok [OF assms(1)])
  then show ?thesis using assms(2) by simp
qed

lemma strtab_ok_step: "str_step g g' \<Longrightarrow> strtab_ok g \<Longrightarrow> strtab_ok g'"
proof (induction rule: str_step.induct)
  case (step_intern g str r g')
  then show ?case using strtab_ok_new by blast
next
  case (step_mark g r s)
  then have "marks_ok s" by (auto simp: strtab_ok_def heap_ok_def)
  then have "marks_ok (gc_mark_str s)" by (auto simp: marks_ok_def gc_mark_str_def bit_simps)
  with step_mark show ?case by (intro strtab_ok_mark(1)) (auto simp: gc_mark_str_def)
next
  case (step_fix g r s)
  then have "marks_ok s" by (auto simp: strtab_ok_def heap_ok_def)
  then have "marks_ok (fixstring s)" by (auto simp: marks_ok_def fixstring_def LJ_GC_FIXED_def bit_simps bit_numeral_rec)
  with step_fix show ?case by (intro strtab_ok_mark(1)) (auto simp: fixstring_def)
next
  case (step_atomic g)
  then have "otherwhite g \<in> {0x21, 0x22}" by (auto simp: strtab_ok_def otherwhite_def LJ_GC_WHITES_def)
  with step_atomic show ?case by (simp add: strtab_ok_def)
next
  case (step_sweep g i g')
  then have "i < length (strhash g)" by (auto simp: sweep_chain_def aget_def split: if_splits)
  with step_sweep show ?case using sweep_chain_ok by (metis option.inject)
next
  case (step_swept g)
  then show ?case by (simp add: strtab_ok_def)
next
  case (step_shrink g g')
  then show ?case using lj_str_resize_ok [of g "drop_bit 1 (strmask g)"] by (auto simp: str_shrink_def split: if_splits)
qed

lemma reachable_ok: "str_reachable g \<Longrightarrow> strtab_ok g"
proof (induction rule: str_reachable.induct)
  case (reach_init g)
  then show ?case using str_init_ok by (metis option.inject)
qed (rule strtab_ok_step)

text \<open>Equal contents are one reference.\<close>

lemma str_at_inj:
  assumes "strtab_ok g" "str_at g r = Some t" "str_at g r' = Some t"
  shows "r = r'"
proof -
  have d: "str_data s \<noteq> []" if "heap g q = Some s" for q s using assms(1) that by (auto simp: strtab_ok_def heap_ok_def)
  consider "r = 0" | "r' = 0" | "r \<noteq> 0" "r' \<noteq> 0" by blast
  then show ?thesis
  proof cases
    case 3
    then obtain s s' where "heap g r = Some s" "heap g r' = Some s'" "str_data s = str_data s'"
      using assms(2,3) by (auto simp: str_at_def)
    moreover have "heap_ok (heap g) (fresh g)" using assms(1) by (simp add: strtab_ok_def)
    ultimately show ?thesis unfolding heap_ok_def by blast
  qed (use assms(2,3) d in \<open>auto simp: str_at_def split: if_splits\<close>)
qed

text \<open>A string that is not dead survives the sweep.\<close>

lemma alive_survives:
  assumes "strtab_ok g" "heap g' = swept g c" "\<forall>s. heap g r = Some s \<longrightarrow> \<not> isdead g s"
  shows "str_at g' r = str_at g r"
proof (cases "heap g r")
  case (Some s)
  have "currentwhite g \<in> {0x21, 0x22}" using assms(1) by (simp add: strtab_ok_def)
  then have "kept g r" using alive_kept Some assms(3) by blast
  with Some assms(2) show ?thesis by (simp add: str_at_def swept_def makewhite_def)
qed (auto simp: str_at_def assms(2) swept_def kept_def)

text \<open>C5: Strings are interned. In every state of the string table that interning, marking, fixing, the flip of the
  current white, sweeping, growing and shrinking lead to, two string objects are the same if and only if
  their contents are equal.\<close>

theorem strings_interned:
  assumes "str_reachable g" "str_at g r = Some t" "str_at g r' = Some t'"
  shows "r = r' \<longleftrightarrow> t = t'"
  using assms str_at_inj [OF reachable_ok [OF assms(1)]] by auto

theorem strings_interned_witness:
  "\<exists>g r g' r' g''. str_init = Some g \<and> lj_str_new g [1, 2] = Inr (r, g') \<and> lj_str_new g' [1, 3] = Inr (r', g'') \<and> r \<noteq> r'"
proof -
  obtain g where g: "str_init = Some g" "str_reachable g" "strtab_ok g" using str_init_ok reach_init by blast
  have len: "length [1 :: u8, 2] < LJ_MAX_STR" "length [1 :: u8, 3] < LJ_MAX_STR" by (simp_all add: LJ_MAX_STR_def)
  obtain r g' where 1: "lj_str_new g [1, 2] = Inr (r, g')" "strtab_ok g'" "str_at g' r = Some [1, 2]" by (rule lj_str_new_ok [OF g(3) len(1)])
  obtain r' g'' where 2: "lj_str_new g' [1, 3] = Inr (r', g'')" "str_at g'' r' = Some [1, 3]"
    "\<forall>q t. str_at g' q = Some t \<longrightarrow> str_at g'' q = Some t" by (rule lj_str_new_ok [OF 1(2) len(2)])
  have "str_reachable g''" using g(2) 1(1) 2(1) by (blast intro: reach_step step_intern)
  from strings_interned [OF this, of r "[1, 2]" r' "[1, 3]"] 1 2 g(1) show ?thesis by auto
qed

text \<open>A living string: it has its contents and is not of the white that the next sweep frees.\<close>

definition str_alive :: "strtab \<Rightarrow> nat \<Rightarrow> u8 list \<Rightarrow> bool" where
  "str_alive g r str \<longleftrightarrow> str_at g r = Some str \<and> (\<forall>s. heap g r = Some s \<longrightarrow> \<not> isdead g s)"

text \<open>A step between two flips of the current white: every step but \<open>step_atomic\<close>.\<close>

definition str_quiet :: "strtab \<Rightarrow> strtab \<Rightarrow> bool" where
  "str_quiet g g' \<longleftrightarrow> str_step g g' \<and> currentwhite g' = currentwhite g"

text \<open>A string that the collector has marked is of neither white.\<close>

definition str_black :: "strtab \<Rightarrow> nat \<Rightarrow> u8 list \<Rightarrow> bool" where
  "str_black g r str \<longleftrightarrow> str_at g r = Some str \<and> (\<forall>s. heap g r = Some s \<longrightarrow> \<not> bit (str_marked s) 0 \<and> \<not> bit (str_marked s) 1)"

lemma heap_0: "strtab_ok g \<Longrightarrow> heap g 0 = None"
  by (cases "heap g 0") (auto simp: strtab_ok_def heap_ok_def)

lemma str_quiet_ok: "str_quiet\<^sup>*\<^sup>* g g' \<Longrightarrow> strtab_ok g \<Longrightarrow> strtab_ok g'"
  by (induction rule: rtranclp_induct) (auto simp: str_quiet_def dest: strtab_ok_step)

lemma mark_bits:
  "bit (str_marked (gc_mark_str s)) 0 = False" "bit (str_marked (gc_mark_str s)) (Suc 0) = False"
  "bit (str_marked (fixstring s)) 0 = bit (str_marked s) 0" "bit (str_marked (fixstring s)) (Suc 0) = bit (str_marked s) (Suc 0)"
  by (simp_all add: gc_mark_str_def fixstring_def LJ_GC_WHITES_def LJ_GC_FIXED_def bit_simps bit_numeral_rec)

lemma mark_data [simp]: "str_data (gc_mark_str s) = str_data s" "str_data (fixstring s) = str_data s"
  by (simp_all add: gc_mark_str_def fixstring_def)

lemma makewhite_alive:
  assumes "currentwhite g \<in> {0x21, 0x22}"
  shows "\<not> isdead g (makewhite g s)"
  using assms isdead_bit [OF assms, of "makewhite g s"]
  by (auto simp: makewhite_def curwhite_def LJ_GC_WHITES_def LJ_GC_COLORS_def bit_simps split: if_splits)

lemma intern_keeps:
  assumes "strtab_ok g" "lj_str_new g str = Inr (r, g')"
  shows "\<forall>q t. str_at g q = Some t \<longrightarrow> str_at g' q = Some t" "\<forall>q s. heap g q = Some s \<and> \<not> isdead g s \<longrightarrow> heap g' q = Some s"
    "currentwhite g' = currentwhite g" "sweeping g' = sweeping g"
proof -
  have "length str < LJ_MAX_STR" using assms(2) by (simp add: lj_str_new_def split: if_splits)
  then obtain r1 g1 where "lj_str_new g str = Inr (r1, g1)" "\<forall>q t. str_at g q = Some t \<longrightarrow> str_at g1 q = Some t"
    "\<forall>q s. heap g q = Some s \<and> \<not> isdead g s \<longrightarrow> heap g1 q = Some s" "currentwhite g1 = currentwhite g" "sweeping g1 = sweeping g"
    by (rule lj_str_new_ok [OF assms(1)])
  then show "\<forall>q t. str_at g q = Some t \<longrightarrow> str_at g' q = Some t" "\<forall>q s. heap g q = Some s \<and> \<not> isdead g s \<longrightarrow> heap g' q = Some s"
    "currentwhite g' = currentwhite g" "sweeping g' = sweeping g" using assms(2) by simp_all
qed

lemma shrink_keeps:
  assumes "strtab_ok g" "str_shrink g = Some g'"
  shows "heap g' = heap g" "currentwhite g' = currentwhite g" "sweeping g' = sweeping g"
  using assms lj_str_resize_ok [OF assms(1), of "drop_bit 1 (strmask g)"] by (auto simp: str_shrink_def split: if_splits)

lemma sweep_heap:
  assumes "strtab_ok g" "sweep_chain g i = Some g'"
  shows "heap g' = swept g (strhash g ! i)"
proof -
  have "i < length (strhash g)" using assms(2) by (auto simp: sweep_chain_def aget_def split: if_splits)
  then show ?thesis using sweep_chain_ok [OF assms(1)] assms(2) by (metis option.inject)
qed

lemma heap_of_str_at: "str_at g r = Some str \<Longrightarrow> r \<noteq> 0 \<Longrightarrow> \<exists>s. heap g r = Some s \<and> str_data s = str"
  by (auto simp: str_at_def)

text \<open>No step between two flips frees a living string.\<close>

lemma str_alive_quiet:
  assumes "strtab_ok g" "str_alive g r str" "str_quiet g g'"
  shows "str_alive g' r str"
proof -
  have white: "currentwhite g' = currentwhite g" and step: "str_step g g'" using assms(3) by (simp_all add: str_quiet_def)
  have cw: "currentwhite g \<in> {0x21, 0x22}" using assms(1) by (simp add: strtab_ok_def)
  note none = heap_0 [OF assms(1)]
  note dead = isdead_white [OF white] isdead_bit [OF cw]
  note alive = assms(2) [unfolded str_alive_def]
  from step show ?thesis
  proof cases
    case (step_intern str' r')
    note k = intern_keeps [OF assms(1) this]
    have "heap g' r = heap g r" if "r \<noteq> 0" using heap_of_str_at [OF conjunct1 [OF alive] that] alive k(2) by auto
    moreover have "heap g' 0 = None" by (rule heap_0 [OF strtab_ok_new [OF assms(1) step_intern]])
    ultimately show ?thesis using alive k(1) dead(1) none by (cases "r = 0") (auto simp: str_alive_def)
  next
    case (step_mark q s)
    then show ?thesis using alive dead mark_bits by (auto simp: str_alive_def str_at_def dead(1))
  next
    case (step_fix q s)
    then show ?thesis using alive dead mark_bits by (auto simp: str_alive_def str_at_def dead(1))
  next
    case step_atomic
    then show ?thesis using white cw by (auto simp: otherwhite_def LJ_GC_WHITES_def)
  next
    case (step_sweep i)
    note h = sweep_heap [OF assms(1) step_sweep(2)]
    have "\<not> isdead g s" if "heap g' r = Some s" for s
      using that alive makewhite_alive [OF cw] unfolding h by (auto simp: swept_def split: if_splits)
    then show ?thesis using alive_survives [OF assms(1) h] alive dead(1) by (auto simp: str_alive_def)
  next
    case step_swept
    then show ?thesis using alive dead(1) by (auto simp: str_alive_def str_at_def)
  next
    case step_shrink
    then show ?thesis using alive dead(1) shrink_keeps(1) [OF assms(1)] by (auto simp: str_alive_def str_at_def)
  qed
qed

lemma str_alive_quiets: "str_quiet\<^sup>*\<^sup>* g g' \<Longrightarrow> strtab_ok g \<Longrightarrow> str_alive g r str \<Longrightarrow> str_alive g' r str"
  by (induction rule: rtranclp_induct) (auto intro: str_alive_quiet dest: str_quiet_ok)

lemma str_black_alive: "strtab_ok g \<Longrightarrow> str_black g r str \<Longrightarrow> str_alive g r str"
  using isdead_bit [of g] by (auto simp: strtab_ok_def str_black_def str_alive_def split: if_splits)

text \<open>Outside the sweep phase a marked string stays marked.\<close>

lemma str_black_quiet:
  assumes "strtab_ok g" "str_black g r str" "\<not> sweeping g" "str_quiet g g'"
  shows "str_black g' r str \<and> \<not> sweeping g'"
proof -
  have white: "currentwhite g' = currentwhite g" and step: "str_step g g'" using assms(4) by (simp_all add: str_quiet_def)
  have cw: "currentwhite g \<in> {0x21, 0x22}" using assms(1) by (simp add: strtab_ok_def)
  note none = heap_0 [OF assms(1)]
  note black = assms(2) [unfolded str_black_def]
  note alive = str_black_alive [OF assms(1,2), unfolded str_alive_def]
  from step show ?thesis
  proof cases
    case (step_intern str' r')
    note k = intern_keeps [OF assms(1) this]
    have "heap g' r = heap g r" if "r \<noteq> 0" using heap_of_str_at [OF conjunct1 [OF alive] that] alive k(2) by auto
    moreover have "heap g' 0 = None" by (rule heap_0 [OF strtab_ok_new [OF assms(1) step_intern]])
    ultimately show ?thesis using black k(1,4) assms(3) none by (cases "r = 0") (auto simp: str_black_def)
  next
    case (step_mark q s)
    then show ?thesis using black mark_bits assms(3) by (auto simp: str_black_def str_at_def)
  next
    case (step_fix q s)
    then show ?thesis using black mark_bits assms(3) by (auto simp: str_black_def str_at_def)
  next
    case step_atomic
    then show ?thesis using white cw by (auto simp: otherwhite_def LJ_GC_WHITES_def)
  next
    case (step_sweep i)
    then show ?thesis using assms(3) by simp
  next
    case step_swept
    then show ?thesis using black by (auto simp: str_black_def str_at_def)
  next
    case step_shrink
    then show ?thesis using black shrink_keeps [OF assms(1)] assms(3) by (auto simp: str_black_def str_at_def)
  qed
qed

lemma str_black_quiets:
  "str_quiet\<^sup>*\<^sup>* g g' \<Longrightarrow> strtab_ok g \<Longrightarrow> str_black g r str \<Longrightarrow> \<not> sweeping g \<Longrightarrow> str_black g' r str \<and> \<not> sweeping g'"
  by (induction rule: rtranclp_induct) (auto dest: str_quiet_ok str_black_quiet)

text \<open>A string that is marked outside the sweep phase survives the cycle after the next flip.\<close>

lemma marked_survives:
  assumes "strtab_ok g" "str_at g r = Some str" "\<not> sweeping g" "heap g r = Some s"
    "str_quiet\<^sup>*\<^sup>* (g\<lparr>heap := (heap g)(r \<mapsto> gc_mark_str s)\<rparr>) g1"
    "str_quiet\<^sup>*\<^sup>* (g1\<lparr>currentwhite := otherwhite g1, sweeping := True\<rparr>) g2"
  shows "str_alive g2 r str"
proof -
  let ?m = "g\<lparr>heap := (heap g)(r \<mapsto> gc_mark_str s)\<rparr>" and ?f = "g1\<lparr>currentwhite := otherwhite g1, sweeping := True\<rparr>"
  have m: "strtab_ok ?m" using strtab_ok_step [OF step_mark [OF assms(4)] assms(1)] .
  have "str_black ?m r str" using assms(2,4) mark_bits by (auto simp: str_black_def str_at_def)
  then have b: "str_black g1 r str" using str_black_quiets [OF assms(5) m] assms(3) by simp
  have f: "strtab_ok ?f" by (rule strtab_ok_step [OF step_atomic str_quiet_ok [OF assms(5) m]])
  have "str_black ?f r str" using b by (auto simp: str_black_def str_at_def)
  then show ?thesis by (intro str_alive_quiets [OF assms(6) f] str_black_alive [OF f])
qed

text \<open>C34: Interning a string never fails below the length limit, where it raises the overflow error. It returns a
  string object with the given contents, even if the object was dead before, and no other string object is
  lost or changed. The string lives at least until the collector flips the current white: no sequence of
  interning, marking, fixing, sweeping of chains, ending the sweep and shrinking frees or changes it. If the
  collector marks it after the sweep has ended and before that flip, it also lives through all such steps
  after the flip, in particular through the sweep of the whole table.\<close>

theorem lj_str_new_correct:
  assumes "str_reachable g"
  shows "if length str < LJ_MAX_STR
    then \<exists>r g'. lj_str_new g str = Inr (r, g') \<and> str_at g' r = Some str \<and> (\<forall>q t. str_at g q = Some t \<longrightarrow> str_at g' q = Some t) \<and>
      (\<forall>g1. str_quiet\<^sup>*\<^sup>* g' g1 \<longrightarrow> str_at g1 r = Some str) \<and>
      (\<forall>g1 s g2 g3. str_quiet\<^sup>*\<^sup>* g' g1 \<longrightarrow> \<not> sweeping g1 \<longrightarrow> heap g1 r = Some s \<longrightarrow>
         str_quiet\<^sup>*\<^sup>* (g1\<lparr>heap := (heap g1)(r \<mapsto> gc_mark_str s)\<rparr>) g2 \<longrightarrow>
         str_quiet\<^sup>*\<^sup>* (g2\<lparr>currentwhite := otherwhite g2, sweeping := True\<rparr>) g3 \<longrightarrow> str_at g3 r = Some str)
    else lj_str_new g str = Inl LJ_ERR_STROV"
proof (cases "length str < LJ_MAX_STR")
  case True
  then obtain r g' where new: "lj_str_new g str = Inr (r, g')" "strtab_ok g'" "str_at g' r = Some str"
    "\<forall>q t. str_at g q = Some t \<longrightarrow> str_at g' q = Some t" "\<forall>s. heap g' r = Some s \<longrightarrow> \<not> isdead g' s"
    by (rule lj_str_new_ok [OF reachable_ok [OF assms]])
  have "str_alive g' r str" using new(3,5) by (simp add: str_alive_def)
  then have lives: "str_at g1 r = Some str" if "str_quiet\<^sup>*\<^sup>* g' g1" for g1
    using str_alive_quiets [OF that new(2)] by (simp add: str_alive_def)
  have "str_at g3 r = Some str" if "str_quiet\<^sup>*\<^sup>* g' g1" "\<not> sweeping g1" "heap g1 r = Some s"
      "str_quiet\<^sup>*\<^sup>* (g1\<lparr>heap := (heap g1)(r \<mapsto> gc_mark_str s)\<rparr>) g2"
      "str_quiet\<^sup>*\<^sup>* (g2\<lparr>currentwhite := otherwhite g2, sweeping := True\<rparr>) g3" for g1 s g2 g3
    using marked_survives [OF str_quiet_ok [OF that(1) new(2)] lives [OF that(1)] that(2-5)] by (simp add: str_alive_def)
  with new True lives show ?thesis by auto
qed (simp add: lj_str_new_def)

text \<open>The string is still there after another one has been interned.\<close>

theorem lj_str_new_correct_witness:
  "\<exists>g r g' r' g''. str_init = Some g \<and> lj_str_new g [1, 2] = Inr (r, g') \<and> lj_str_new g' [1, 3] = Inr (r', g'') \<and>
    str_at g'' r = Some [1, 2] \<and> str_at g'' r' = Some [1, 3]"
proof -
  obtain g where g: "str_init = Some g" "str_reachable g" "strtab_ok g" using str_init_ok reach_init by blast
  have len: "length [1 :: u8, 2] < LJ_MAX_STR" "length [1 :: u8, 3] < LJ_MAX_STR" by (simp_all add: LJ_MAX_STR_def)
  obtain r g' where 1: "lj_str_new g [1, 2] = Inr (r, g')" "\<forall>g1. str_quiet\<^sup>*\<^sup>* g' g1 \<longrightarrow> str_at g1 r = Some [1, 2]"
    using lj_str_new_correct [OF g(2), of "[1, 2]"] len(1) by auto
  have g': "strtab_ok g'" by (rule strtab_ok_new [OF g(3) 1(1)])
  obtain r' g'' where 2: "lj_str_new g' [1, 3] = Inr (r', g'')" "str_at g'' r' = Some [1, 3]" "currentwhite g'' = currentwhite g'"
    by (rule lj_str_new_ok [OF g' len(2)])
  have "str_quiet g' g''" using step_intern [OF 2(1)] 2(3) by (simp add: str_quiet_def)
  then have "str_at g'' r = Some [1, 2]" using 1(2) by blast
  with g(1) 1(1) 2 show ?thesis by blast
qed

end
