(* ===== verification/Strfmt.thy ===== *)
theory Strfmt
  imports Str
begin

text \<open>
  String formatting of RaptorJIT (\<^verbatim>\<open>lj_strfmt.c\<close>): the format parser, the raw conversions of integers, pointers and
  ULEB128 numbers, and the conversions that write into a string buffer. A raw conversion is the list
  of the bytes it stores. The write conversions reserve space in the buffer and store their bytes;
  they are proved against the contract \<open>byte_buffer\<close> of a buffer.

  A format string is the list of its bytes; the NUL byte behind it is what the parser reads at the end.
\<close>

type_synonym SFormat = u32

section \<open>Formats\<close>

datatype FormatType = STRFMT_EOF | STRFMT_ERR | STRFMT_LIT | STRFMT_INT | STRFMT_UINT | STRFMT_NUM | STRFMT_STR | STRFMT_CHAR | STRFMT_PTR

fun fmt_code :: "FormatType \<Rightarrow> u32" where
  "fmt_code STRFMT_EOF = 0" | "fmt_code STRFMT_ERR = 1" | "fmt_code STRFMT_LIT = 2" | "fmt_code STRFMT_INT = 3" | "fmt_code STRFMT_UINT = 4"
| "fmt_code STRFMT_NUM = 5" | "fmt_code STRFMT_STR = 6" | "fmt_code STRFMT_CHAR = 7" | "fmt_code STRFMT_PTR = 8"

definition STRFMT_T_HEX :: u32 where "STRFMT_T_HEX = 0x0010"
definition STRFMT_T_OCT :: u32 where "STRFMT_T_OCT = 0x0020"
definition STRFMT_F_LEFT :: u32 where "STRFMT_F_LEFT = 0x0100"
definition STRFMT_F_PLUS :: u32 where "STRFMT_F_PLUS = 0x0200"
definition STRFMT_F_ZERO :: u32 where "STRFMT_F_ZERO = 0x0400"
definition STRFMT_F_SPACE :: u32 where "STRFMT_F_SPACE = 0x0800"
definition STRFMT_F_ALT :: u32 where "STRFMT_F_ALT = 0x1000"
definition STRFMT_F_UPPER :: u32 where "STRFMT_F_UPPER = 0x2000"

definition STRFMT_SH_WIDTH :: nat where "STRFMT_SH_WIDTH = 16"
definition STRFMT_SH_PREC :: nat where "STRFMT_SH_PREC = 24"

definition STRFMT_TYPE :: "SFormat \<Rightarrow> u32" where "STRFMT_TYPE sf = sf AND 15"
definition STRFMT_WIDTH :: "SFormat \<Rightarrow> u32" where "STRFMT_WIDTH sf = drop_bit STRFMT_SH_WIDTH sf AND 255"
definition STRFMT_PREC :: "SFormat \<Rightarrow> u32" where "STRFMT_PREC sf = (drop_bit STRFMT_SH_PREC sf AND 255) - 1"

text \<open>The formats of the conversion characters \<^verbatim>\<open>A\<close> to \<^verbatim>\<open>x\<close>.\<close>

definition strfmt_map :: "u32 list" where
  "strfmt_map =
    [0x05, 0, 0, 0, 0x15, 0x25, 0x35, 0, 0, 0, 0, 0, 0,
     0, 0, 0, 0, 0, 0, 0, 0, 0, 0, 0x14, 0, 0,
     0, 0, 0, 0, 0, 0,
     0x05, 0, 0x07, 0x03, 0x15, 0x25, 0x35, 0, 0x03, 0, 0, 0, 0,
     0, 0x24, 0x08, 0x16, 0, 0x06, 0, 0x04, 0, 0, 0x14]"

definition peek :: "u8 list \<Rightarrow> u8" where
  "peek p = (case p of [] \<Rightarrow> 0 | c # _ \<Rightarrow> c)"

fun parse_flags :: "SFormat \<Rightarrow> u8 list \<Rightarrow> SFormat \<times> u8 list" where
  "parse_flags sf [] = (sf, [])"
| "parse_flags sf (c # p) =
     (if u32_of_u8 c - 0x20 \<le> 0x30 - 0x20 then
        if c = 0x2d then parse_flags (sf OR STRFMT_F_LEFT) p
        else if c = 0x2b then parse_flags (sf OR STRFMT_F_PLUS) p
        else if c = 0x30 then parse_flags (sf OR STRFMT_F_ZERO) p
        else if c = 0x20 then parse_flags (sf OR STRFMT_F_SPACE) p
        else if c = 0x23 then parse_flags (sf OR STRFMT_F_ALT) p
        else (sf, c # p)
      else (sf, c # p))"

text \<open>At most two decimal digits.\<close>

definition parse_num2 :: "u8 list \<Rightarrow> u32 option \<times> u8 list" where
  "parse_num2 p =
     (if u32_of_u8 (peek p) - 0x30 < 10 then
        (let n = u32_of_u8 (peek p) - 0x30; p = tl p
         in if u32_of_u8 (peek p) - 0x30 < 10 then (Some (u32_of_u8 (peek p) - 0x30 + n * 10), tl p) else (Some n, p))
      else (None, p))"

definition parse_width :: "SFormat \<Rightarrow> u8 list \<Rightarrow> SFormat \<times> u8 list" where
  "parse_width sf p = (case parse_num2 p of (Some width, p) \<Rightarrow> (sf OR push_bit STRFMT_SH_WIDTH width, p) | (None, p) \<Rightarrow> (sf, p))"

definition parse_prec :: "SFormat \<Rightarrow> u8 list \<Rightarrow> SFormat \<times> u8 list" where
  "parse_prec sf p =
     (if peek p = 0x2e then
        (case parse_num2 (tl p) of
           (Some prec, p) \<Rightarrow> (sf OR push_bit STRFMT_SH_PREC (prec + 1), p)
         | (None, p) \<Rightarrow> (sf OR push_bit STRFMT_SH_PREC (0 + 1), p))
      else (sf, p))"

text \<open>A conversion, after its percent sign: the format, the literal string (of an error) and the rest of the
  format string.\<close>

definition parse_conv :: "u8 list \<Rightarrow> SFormat \<times> u8 list \<times> u8 list" where
  "parse_conv p0 =
     (let (sf, p) = parse_flags 0 p0;
          (sf, p) = parse_width sf p;
          (sf, p) = parse_prec sf p;
          c = u32_of_u8 (peek p) - 0x41;
          sx = (if c \<le> 0x78 - 0x41 then strfmt_map ! unat c else 0)
      in if sx \<noteq> 0 then (sf OR sx OR (if c AND 0x20 \<noteq> 0 then 0 else STRFMT_F_UPPER), [], tl p)
         else (let p = (if peek p \<ge> 32 then tl p else p)
               in (fmt_code STRFMT_ERR, 0x25 # take (length p0 - length p) p0, [])))"

fun scan_lit :: "u8 list \<Rightarrow> u8 list \<Rightarrow> SFormat \<times> u8 list \<times> u8 list" where
  "scan_lit str [] = (if str \<noteq> [] then fmt_code STRFMT_LIT else fmt_code STRFMT_EOF, str, [])"
| "scan_lit str (c # p) =
     (if c = 0x25 then
        if peek p = 0x25 then (fmt_code STRFMT_LIT, str @ [0x25], tl p)
        else if str \<noteq> [] then (fmt_code STRFMT_LIT, str, c # p)
        else parse_conv p
      else scan_lit (str @ [c]) p)"

definition lj_strfmt_parse :: "u8 list \<Rightarrow> SFormat \<times> u8 list \<times> u8 list" where
  "lj_strfmt_parse p = scan_lit [] p"

section \<open>Raw conversions\<close>

definition dig :: "u32 \<Rightarrow> u8" where "dig d = u8_of_u32 (0x30 + d)"

text \<open>\<^verbatim>\<open>WINT_R(x, sh, sc)\<close>: the leading digit by multiplication with a reciprocal, and the remainder.\<close>

definition WINT_R :: "u32 \<Rightarrow> nat \<Rightarrow> u32 \<Rightarrow> u8 \<times> u32" where
  "WINT_R x sh sc = (let d = drop_bit sh (x * ((push_bit sh 1 + sc - 1) div sc)) in (dig d, x - d * sc))"

definition dig1 :: "u32 \<Rightarrow> u8 list" where "dig1 u = [dig u]"
definition dig2 :: "u32 \<Rightarrow> u8 list" where "dig2 u = (case WINT_R u 10 10 of (c, u) \<Rightarrow> c # dig1 u)"
definition dig3 :: "u32 \<Rightarrow> u8 list" where "dig3 u = (case WINT_R u 12 100 of (c, u) \<Rightarrow> c # dig2 u)"
definition dig4 :: "u32 \<Rightarrow> u8 list" where "dig4 u = (case WINT_R u 23 1000 of (c, u) \<Rightarrow> c # dig3 u)"

text \<open>The digits of the part \<open>v\<close> above the last four, and all digits.\<close>

definition wint_high :: "u32 \<Rightarrow> u8 list" where
  "wint_high v =
     (if v < 10000 then
        (if v < 10 then dig1 v else if v < 100 then dig2 v else if v < 1000 then dig3 v else dig4 v)
      else
        (let w = v div 10000; v = v - w * 10000
         in (if w \<ge> 10 then (case WINT_R w 10 10 of (c, w) \<Rightarrow> c # dig1 w) else dig1 w) @ dig4 v))"

definition lj_strfmt_wint :: "c_int \<Rightarrow> u8 list" where
  "lj_strfmt_wint k =
     (let (sgn, u) = (if sint k < 0 then ([0x2d], - k) else ([], k)) in
      sgn @
      (if u < 10000 then
         (if u < 10 then dig1 u else if u < 100 then dig2 u else if u < 1000 then dig3 u else dig4 u)
       else
         (let v = u div 10000; u = u - v * 10000 in
          wint_high v @ dig4 u)))"

definition hexdig :: "bool \<Rightarrow> u64 \<Rightarrow> u8" where
  "hexdig upper d = (if d < 10 then 0x30 + u8_of_u32 (u32_of_u64 d) else (if upper then 0x41 else 0x61) + u8_of_u32 (u32_of_u64 d) - 10)"

text \<open>The \<open>n\<close> low hexadecimal digits of \<open>x\<close>; the shift is that of a signed number.\<close>

fun ptr_digits :: "nat \<Rightarrow> u64 \<Rightarrow> u8 list" where
  "ptr_digits 0 x = []"
| "ptr_digits (Suc n) x = ptr_digits n (signed_drop_bit 4 x) @ [hexdig False (x AND 15)]"

definition lj_strfmt_wptr :: "u64 \<Rightarrow> u8 list" where
  "lj_strfmt_wptr v =
     (if v = 0 then [0x4e, 0x55, 0x4c, 0x4c]
      else
        (let hi = u32_of_u64 (signed_drop_bit 32 v);
             n = 2 + 2 * 4 + (if signed_drop_bit 32 v \<noteq> 0 then 2 + 2 * (unat (lj_fls hi) div 8) else 0)
         in [0x30, 0x78] @ ptr_digits (n - 2) v))"

function lj_strfmt_wuleb128 :: "u32 \<Rightarrow> u8 list" where
  "lj_strfmt_wuleb128 v =
     (if v \<ge> 0x80 then u8_of_u32 ((v AND 0x7f) OR 0x80) # lj_strfmt_wuleb128 (drop_bit 7 v) else [u8_of_u32 v])"
  by pat_completeness auto
termination
proof (relation "measure unat")
  fix v :: u32 assume "v \<ge> 0x80"
  then have "128 \<le> unat v" by (simp add: word_le_nat_alt)
  then show "(drop_bit 7 v, v) \<in> measure unat" by (simp add: unat_drop_bit_div)
qed simp

declare lj_strfmt_wuleb128.simps [simp del]

text \<open>\<^verbatim>\<open>lj_buf_ruleb128\<close>; a shift by 32 or more is undefined. The source shifts the seven bits as a C \<^verbatim>\<open>int\<close>; where
  a fifth byte shifts ones into or past the sign bit, ISO C leaves the result undefined and the compilers
  that build the program (gcc and clang) keep the low 32 bits, as the model does.\<close>

fun uleb_rest :: "u32 \<Rightarrow> nat \<Rightarrow> u8 list \<Rightarrow> (u32 \<times> u8 list) option" where
  "uleb_rest v sh [] = None"
| "uleb_rest v sh (b # w) =
     (if sh + 7 \<ge> 32 then None
      else
        (let v = v OR push_bit (sh + 7) (u32_of_u8 (b AND 0x7f))
         in if b \<ge> 0x80 then uleb_rest v (sh + 7) w else Some (v, w)))"

definition lj_buf_ruleb128 :: "u8 list \<Rightarrow> (u32 \<times> u8 list) option" where
  "lj_buf_ruleb128 w =
     (case w of
        [] \<Rightarrow> None
      | b # w \<Rightarrow> if u32_of_u8 b \<ge> 0x80 then uleb_rest (u32_of_u8 b AND 0x7f) 0 w else Some (u32_of_u8 b, w))"

section \<open>Conversions to a buffer\<close>

definition STRFMT_MAXBUF_XINT :: nat where "STRFMT_MAXBUF_XINT = 1 + 22"
definition STRFMT_MAXBUF_INT :: nat where "STRFMT_MAXBUF_INT = 1 + 10"
definition STRFMT_MAXBUF_PTR :: nat where "STRFMT_MAXBUF_PTR = 2 + 2 * 8"

definition lj_strfmt_putint :: "sbuf \<Rightarrow> c_int \<Rightarrow> buf_err + sbuf" where
  "lj_strfmt_putint sb k = buf_write sb STRFMT_MAXBUF_INT (lj_strfmt_wint k)"

definition lj_strfmt_putptr :: "sbuf \<Rightarrow> u64 \<Rightarrow> buf_err + sbuf" where
  "lj_strfmt_putptr sb v = buf_write sb STRFMT_MAXBUF_PTR (lj_strfmt_wptr v)"

text \<open>The bytes for one character \<open>c\<close> of a quoted string that is followed by \<open>nx\<close>.\<close>

definition quote_tens :: "u32 \<Rightarrow> u8 list" where
  "quote_tens c = (let d = drop_bit 11 (c * 205); c = c - d * 10 in [dig d, u8_of_u32 (c + 0x30)])"

definition quote_char :: "u8 \<Rightarrow> u8 \<Rightarrow> u8 list" where
  "quote_char ch nx =
     (let c = u32_of_u8 ch in
      if c = 0x22 \<or> c = 0x5c \<or> c = 0x0a then [0x5c, ch]
      else if lj_char_iscntrl ch then
        0x5c #
        (if c \<ge> 100 \<or> lj_char_isdigit nx then dig (if c \<ge> 100 then 1 else 0) # quote_tens (if c \<ge> 100 then c - 100 else c)
         else if c \<ge> 10 then quote_tens c
         else [u8_of_u32 (c + 0x30)])
      else [ch])"

text \<open>The loop of \<^verbatim>\<open>strfmt_putquotedlen\<close>; \<open>nx\<close> is the byte behind the string, zero for a string object.\<close>

fun quote_loop :: "u8 list \<Rightarrow> u8 \<Rightarrow> sbuf \<Rightarrow> buf_err + sbuf" where
  "quote_loop [] nx sb = Inr sb"
| "quote_loop (c # s) nx sb = bindE (buf_write sb 4 (quote_char c (case s of [] \<Rightarrow> nx | d # _ \<Rightarrow> d))) (quote_loop s nx)"

definition strfmt_putquotedlen :: "sbuf \<Rightarrow> u8 list \<Rightarrow> u8 \<Rightarrow> buf_err + sbuf" where
  "strfmt_putquotedlen sb s nx = bindE (lj_buf_putb sb 0x22) (\<lambda>sb. bindE (quote_loop s nx sb) (\<lambda>sb. lj_buf_putb sb 0x22))"

definition lj_strfmt_putquoted :: "sbuf \<Rightarrow> u8 list \<Rightarrow> buf_err + sbuf" where
  "lj_strfmt_putquoted sb str = strfmt_putquotedlen sb str 0"

text \<open>\<^verbatim>\<open>while (width-- > n)\<close> stores this many bytes.\<close>

definition pad_count :: "u32 \<Rightarrow> u32 \<Rightarrow> nat" where
  "pad_count width n = unat width - unat n"

definition lj_strfmt_putfchar :: "sbuf \<Rightarrow> SFormat \<Rightarrow> c_int \<Rightarrow> buf_err + sbuf" where
  "lj_strfmt_putfchar sb sf c =
     (let width = STRFMT_WIDTH sf; left = sf AND STRFMT_F_LEFT \<noteq> 0
      in buf_write sb (unat (if width > 1 then width else 1))
           ((if left then [u8_of_u32 c] else []) @ replicate (pad_count width 1) 0x20 @ (if \<not> left then [u8_of_u32 c] else [])))"

definition strfmt_putfstrlen :: "sbuf \<Rightarrow> SFormat \<Rightarrow> u8 list \<Rightarrow> buf_err + sbuf" where
  "strfmt_putfstrlen sb sf s =
     (let width = STRFMT_WIDTH sf;
          len = (if length s > unat (STRFMT_PREC sf) then unat (STRFMT_PREC sf) else length s);
          left = sf AND STRFMT_F_LEFT \<noteq> 0
      in buf_write sb (if unat width > len then unat width else len)
           ((if left then take len s else []) @ replicate (unat width - len) 0x20 @ (if \<not> left then take len s else [])))"

definition lj_strfmt_putfstr :: "sbuf \<Rightarrow> SFormat \<Rightarrow> u8 list \<Rightarrow> buf_err + sbuf" where
  "lj_strfmt_putfstr sb sf str = strfmt_putfstrlen sb sf str"

subsection \<open>Formatted integers\<close>

text \<open>The digit loops of \<^verbatim>\<open>lj_strfmt_putfxint\<close> fill a fixed-size buffer from its end; \<open>q\<close> is the part that is filled.\<close>

function dec_high :: "u64 \<Rightarrow> u8 list \<Rightarrow> u64 \<times> u8 list" where
  "dec_high k q = (if drop_bit 32 k \<noteq> 0 then dec_high (k div 10) (dig (u32_of_u64 (k mod 10)) # q) else (k, q))"
  by pat_completeness auto
termination
  by (relation "measure (\<lambda>(k, q). unat k)") (auto simp: unat_div unat_eq_0 intro!: div_less_dividend gr0I)

function dec_low :: "u32 \<Rightarrow> u8 list \<Rightarrow> u8 list" where
  "dec_low k q = (let q = dig (k mod 10) # q; k = k div 10 in if k \<noteq> 0 then dec_low k q else q)"
  by pat_completeness auto
termination
  by (relation "measure (\<lambda>(k, q). unat k)") (auto simp: unat_div unat_eq_0 [symmetric])

function hex_loop :: "bool \<Rightarrow> u64 \<Rightarrow> u8 list \<Rightarrow> u8 list" where
  "hex_loop upper k q = (let q = hexdig upper (k AND 15) # q; k = drop_bit 4 k in if k \<noteq> 0 then hex_loop upper k q else q)"
  by pat_completeness auto
termination
  by (relation "measure (\<lambda>(upper, k, q). unat k)") (auto simp: unat_drop_bit_div unat_eq_0 [symmetric])

function oct_loop :: "u64 \<Rightarrow> u8 list \<Rightarrow> u8 list" where
  "oct_loop k q = (let q = dig (u32_of_u64 (k AND 7)) # q; k = drop_bit 3 k in if k \<noteq> 0 then oct_loop k q else q)"
  by pat_completeness auto
termination
  by (relation "measure (\<lambda>(k, q). unat k)") (auto simp: unat_drop_bit_div unat_eq_0 [symmetric])

declare dec_high.simps [simp del] dec_low.simps [simp del] hex_loop.simps [simp del] oct_loop.simps [simp del]

definition fxint_sign :: "SFormat \<Rightarrow> u64 \<Rightarrow> u64 \<times> u32" where
  "fxint_sign sf k =
     (if STRFMT_TYPE sf = fmt_code STRFMT_INT then
        if sint k < 0 then (- k, 256 + 0x2d)
        else if sf AND STRFMT_F_PLUS \<noteq> 0 then (k, 256 + 0x2b)
        else if sf AND STRFMT_F_SPACE \<noteq> 0 then (k, 256 + 0x20)
        else (k, 0)
      else (k, 0))"

definition fxint_digits :: "SFormat \<Rightarrow> u32 \<Rightarrow> u64 \<Rightarrow> u32 \<Rightarrow> u8 list \<times> u32" where
  "fxint_digits sf prec k pfx =
     (if k = 0 then
        (if prec \<noteq> 0 \<or> sf AND (STRFMT_T_OCT OR STRFMT_F_ALT) = (STRFMT_T_OCT OR STRFMT_F_ALT) then [0x30] else [], pfx)
      else if sf AND (STRFMT_T_HEX OR STRFMT_T_OCT) = 0 then
        (case dec_high k [] of (k, q) \<Rightarrow> dec_low (u32_of_u64 k) q, pfx)
      else if sf AND STRFMT_T_HEX \<noteq> 0 then
        (hex_loop (sf AND STRFMT_F_UPPER \<noteq> 0) k [],
         if sf AND STRFMT_F_ALT \<noteq> 0 then 512 + (if sf AND STRFMT_F_UPPER \<noteq> 0 then 0x58 else 0x78) else pfx)
      else
        (let q = oct_loop k [] in (if sf AND STRFMT_F_ALT \<noteq> 0 then 0x30 # q else q, pfx)))"

definition lj_strfmt_putfxint :: "sbuf \<Rightarrow> SFormat \<Rightarrow> u64 \<Rightarrow> buf_err + sbuf" where
  "lj_strfmt_putfxint sb sf k =
     (let (k, pfx) = fxint_sign sf k;
          prec = STRFMT_PREC sf;
          sf = (if sint prec \<ge> 0 then sf AND NOT STRFMT_F_ZERO else sf);
          (q, pfx) = fxint_digits sf prec k pfx
      in if length q > STRFMT_MAXBUF_XINT then Inl BUF_OVERRUN
         else
           (let len = word_of_nat (length q);
                prec = (if sint len \<ge> sint prec then len else prec);
                width = STRFMT_WIDTH sf;
                pprec = prec + drop_bit 8 pfx;
                need = (if width > pprec then width else pprec);
                lz = sf AND (STRFMT_F_LEFT OR STRFMT_F_ZERO)
            in buf_write sb (unat need)
                 ((if lz = 0 then replicate (pad_count width pprec) 0x20 else []) @
                  (if pfx \<noteq> 0 then (if u8_of_u32 pfx \<ge> 0x58 then [0x30] else []) @ [u8_of_u32 pfx] else []) @
                  (if lz = STRFMT_F_ZERO then replicate (pad_count width pprec) 0x30 else []) @
                  replicate (pad_count prec len) 0x30 @
                  q @
                  (if sf AND STRFMT_F_LEFT \<noteq> 0 then replicate (pad_count width pprec) 0x20 else []))))"

section \<open>Digits\<close>

text \<open>The digits of a number in base \<open>b\<close>, and exactly \<open>n\<close> decimal digits.\<close>

fun num_digits :: "(nat \<Rightarrow> u8) \<Rightarrow> nat \<Rightarrow> nat \<Rightarrow> u8 list" where
  "num_digits f b n = (if b < 2 \<or> n < b then [f n] else num_digits f b (n div b) @ [f (n mod b)])"

declare num_digits.simps [simp del]

definition dec_digit :: "nat \<Rightarrow> u8" where "dec_digit d = 0x30 + word_of_nat d"

definition hex_digit :: "bool \<Rightarrow> nat \<Rightarrow> u8" where
  "hex_digit upper d = (if d < 10 then 0x30 + word_of_nat d else (if upper then 0x41 else 0x61) + (word_of_nat d - 10))"

fun pad_digits :: "nat \<Rightarrow> nat \<Rightarrow> u8 list" where
  "pad_digits 0 n = []"
| "pad_digits (Suc k) n = pad_digits k (n div 10) @ [dec_digit (n mod 10)]"

lemma num_digits_step: "2 \<le> b \<Longrightarrow> num_digits f b n = (if n < b then [f n] else num_digits f b (n div b) @ [f (n mod b)])"
  by (subst num_digits.simps) simp

lemma num_digits_length: "2 \<le> b \<Longrightarrow> 0 < m \<Longrightarrow> n < b ^ m \<Longrightarrow> length (num_digits f b n) \<le> m"
proof (induction m arbitrary: n)
  case (Suc m)
  show ?case
  proof (cases "n < b")
    case False
    then have "0 < m" using Suc.prems by (cases m) auto
    moreover have "n div b < b ^ m" using Suc.prems by (simp add: less_mult_imp_div_less mult.commute)
    ultimately show ?thesis using Suc.IH [of "n div b"] Suc.prems False by (simp add: num_digits_step)
  qed (use Suc in \<open>simp add: num_digits_step\<close>)
qed simp

lemma dig_dec: "unat d < 10 \<Longrightarrow> dig d = dec_digit (unat d)"
  by (simp add: dig_def dec_digit_def word_unat_eq_iff unat_narrow unat_word_ariths unat_of_nat)

lemma hexdig_hex: 
  assumes "unat d < 16"
  shows "hexdig upper d = hex_digit upper (unat d)"
proof -
  have "u8_of_u32 (u32_of_u64 d) = ucast d" by (rule bit_eqI) (simp add: bit_simps)
  moreover have "d < 10 \<longleftrightarrow> unat d < 10" by (simp add: word_less_nat_alt)
  ultimately show ?thesis unfolding hexdig_def hex_digit_def by (simp add: algebra_simps)
qed

lemma dec_low_digits: "dec_low k q = num_digits dec_digit 10 (unat k) @ q"
proof (induction k q rule: dec_low.induct)
  case (1 k q)
  have d: "dig (k mod 10) = dec_digit (unat k mod 10)" using dig_dec [of "k mod 10"] by (simp add: unat_mod)
  have z: "k div 10 = 0 \<longleftrightarrow> unat k < 10" by (simp add: unat_eq_0 [symmetric] unat_div div_eq_0_iff)
  show ?case
  proof (cases "k div 10 = 0")
    case True
    then show ?thesis using z d by (subst dec_low.simps) (simp add: Let_def num_digits_step)
  next
    case False
    then show ?thesis using z d 1 by (subst dec_low.simps) (simp add: Let_def num_digits_step [of 10 _ "unat k"] unat_div)
  qed
qed

lemma dec_high_digits: "case dec_high k q of (k', q') \<Rightarrow> unat k' < 2 ^ 32 \<and> num_digits dec_digit 10 (unat k') @ q' = num_digits dec_digit 10 (unat k) @ q"
proof (induction k q rule: dec_high.induct)
  case (1 k q)
  have d: "dig (u32_of_u64 (k mod 10)) = dec_digit (unat k mod 10)"
    using dig_dec [of "u32_of_u64 (k mod 10)"] by (simp add: unat_mod unat_narrow)
  have z: "drop_bit 32 k = 0 \<longleftrightarrow> unat k < 2 ^ 32" by (simp add: unat_eq_0 [symmetric] unat_drop_bit_div div_eq_0_iff)
  show ?case
  proof (cases "drop_bit 32 k = 0")
    case True
    then show ?thesis using z by (subst dec_high.simps) simp
  next
    case False
    then show ?thesis using z d 1 by (subst dec_high.simps) (auto simp: num_digits_step [of 10 _ "unat k"] unat_div split: prod.splits)
  qed
qed

lemma hex_loop_digits: "hex_loop upper k q = num_digits (hex_digit upper) 16 (unat k) @ q"
proof (induction upper k q rule: hex_loop.induct)
  case (1 upper k q)
  have m: "unat (k AND 15) = unat k mod 16" using unat_and_mask [of k 4] by (simp add: mask_eq_exp_minus_1)
  then have d: "hexdig upper (k AND 15) = hex_digit upper (unat k mod 16)" using hexdig_hex [of "k AND 15"] by simp
  have z: "drop_bit 4 k = 0 \<longleftrightarrow> unat k < 16" by (simp add: unat_eq_0 [symmetric] unat_drop_bit_div div_eq_0_iff)
  show ?case
  proof (cases "drop_bit 4 k = 0")
    case True
    then show ?thesis using z d by (subst hex_loop.simps) (simp add: Let_def num_digits_step)
  next
    case False
    then show ?thesis using z d 1 by (subst hex_loop.simps) (simp add: Let_def num_digits_step [of 16 _ "unat k"] unat_drop_bit_div)
  qed
qed

lemma oct_loop_digits: "oct_loop k q = num_digits dec_digit 8 (unat k) @ q"
proof (induction k q rule: oct_loop.induct)
  case (1 k q)
  have m: "unat (k AND 7) = unat k mod 8" using unat_and_mask [of k 3] by (simp add: mask_eq_exp_minus_1)
  have "unat (u32_of_u64 (k AND 7)) = unat k mod 8" unfolding unat_narrow m by simp
  then have d: "dig (u32_of_u64 (k AND 7)) = dec_digit (unat k mod 8)" using dig_dec [of "u32_of_u64 (k AND 7)"] by simp
  have z: "drop_bit 3 k = 0 \<longleftrightarrow> unat k < 8" by (simp add: unat_eq_0 [symmetric] unat_drop_bit_div div_eq_0_iff)
  show ?case
  proof (cases "drop_bit 3 k = 0")
    case True
    then show ?thesis using z d by (subst oct_loop.simps) (simp add: Let_def num_digits_step)
  next
    case False
    then show ?thesis using z d 1 by (subst oct_loop.simps) (simp add: Let_def num_digits_step [of 8 _ "unat k"] unat_drop_bit_div)
  qed
qed

lemma pad_digits_add: "pad_digits (j + k) n = pad_digits j (n div 10 ^ k) @ pad_digits k n"
  by (induction k arbitrary: n) (simp_all add: div_mult2_eq)

lemma pad_digits_mod: "pad_digits k (n mod 10 ^ k) = pad_digits k n"
proof (induction k arbitrary: n)
  case (Suc k)
  have "n mod 10 ^ Suc k div 10 = n div 10 mod 10 ^ k" "n mod 10 ^ Suc k mod 10 = n mod 10"
    by (simp_all add: mod_mult2_eq)
  then show ?case using Suc [of "n div 10"] by simp
qed simp

lemma pad_digits_front: "n < 10 ^ (k + 1) \<Longrightarrow> pad_digits (k + 1) n = dec_digit (n div 10 ^ k) # pad_digits k (n mod 10 ^ k)"
  using pad_digits_add [of 1 k n] by (simp add: pad_digits_mod less_mult_imp_div_less add.commute)

lemma num_digits_pad: "n < 10 ^ Suc k \<Longrightarrow> k = 0 \<or> 10 ^ k \<le> n \<Longrightarrow> num_digits dec_digit 10 n = pad_digits (Suc k) n"
proof (induction k arbitrary: n)
  case (Suc k)
  have "10 ^ 1 \<le> (10 ^ Suc k :: nat)" by (rule power_increasing) auto
  then have "\<not> n < 10" using Suc.prems(2) by (auto simp del: power_Suc)
  moreover have "n div 10 < 10 ^ Suc k" "10 ^ k \<le> n div 10" using Suc.prems by (auto simp: less_mult_imp_div_less mult.commute)
  ultimately show ?case using Suc.IH [of "n div 10"] by (simp add: num_digits_step [of 10 _ n])
qed (simp add: num_digits_step)

lemma reciprocal_div:
  fixes n m s e sh :: nat
  assumes "m * s = 2 ^ sh + e" "n div s * e + n mod s * m < 2 ^ sh"
  shows "n * m div 2 ^ sh = n div s"
proof -
  have "n * m = (n div s * s + n mod s) * m" by simp
  also have "\<dots> = n div s * (m * s) + n mod s * m" by algebra
  also have "\<dots> = (n div s * e + n mod s * m) + n div s * 2 ^ sh" unfolding assms(1) by algebra
  finally show ?thesis using assms(2) by simp
qed

text \<open>Multiplication with the reciprocals is division on the ranges they are used on.\<close>

lemma WINT_R_1000: "unat x < 10000 \<Longrightarrow> WINT_R x 23 1000 = (dec_digit (unat x div 1000), x mod 1000)"
  and WINT_R_100: "unat x < 1000 \<Longrightarrow> WINT_R x 12 100 = (dec_digit (unat x div 100), x mod 100)"
  and WINT_R_10: "unat x < 100 \<Longrightarrow> WINT_R x 10 10 = (dec_digit (unat x div 10), x mod 10)"
proof -
  have rule: "WINT_R x sh sc = (dec_digit (unat x div unat sc), x mod sc)"
    if m: "(push_bit sh 1 + sc - 1) div sc = m" and d: "unat x * unat m div 2 ^ sh = unat x div unat sc" and o: "unat x * unat m < 2 ^ 32"
      and t: "unat x div unat sc < 10" for x sc m :: u32 and sh
  proof -
    have "unat (drop_bit sh (x * m)) = unat (x div sc)" unfolding unat_drop_bit_div unat_div d [symmetric] using o by (simp add: unat_word_ariths)
    then have e: "drop_bit sh (x * m) = x div sc" by (simp add: word_unat_eq_iff)
    have "dig (x div sc) = dec_digit (unat x div unat sc)" using dig_dec [of "x div sc"] t by (simp add: unat_div)
    then show ?thesis unfolding WINT_R_def m Let_def e by (simp add: minus_div_mult_eq_mod)
  qed
  have bound: "n div s * e + n mod s * m < B" if "n < 10 * s" "0 < s" "9 * e + (s - 1) * m < B" for n s e m B :: nat
  proof -
    have "n div s < 10" using that(1) by (simp add: less_mult_imp_div_less)
    moreover have "n mod s \<le> s - 1" using that(2) mod_less_divisor [of s n] by linarith
    ultimately have "n div s * e + n mod s * m \<le> 9 * e + (s - 1) * m" by (intro add_mono mult_right_mono) auto
    with that(3) show ?thesis by simp
  qed
  show "WINT_R x 23 1000 = (dec_digit (unat x div 1000), x mod 1000)" if "unat x < 10000"
    using rule [of 23 1000 8389 x] that reciprocal_div [of 8389 1000 23 392 "unat x"] bound [of "unat x" 1000 392 8389 "2 ^ 23"] by simp
  show "WINT_R x 12 100 = (dec_digit (unat x div 100), x mod 100)" if "unat x < 1000"
    using rule [of 12 100 41 x] that reciprocal_div [of 41 100 12 4 "unat x"] bound [of "unat x" 100 4 41 "2 ^ 12"] by simp
  show "WINT_R x 10 10 = (dec_digit (unat x div 10), x mod 10)" if "unat x < 100"
    using rule [of 10 10 103 x] that reciprocal_div [of 103 10 10 6 "unat x"] bound [of "unat x" 10 6 103 "2 ^ 10"] by simp
qed

lemma dig_pad:
  shows dig1_pad: "unat u < 10 \<Longrightarrow> dig1 u = pad_digits 1 (unat u)"
    and dig2_pad: "unat u < 100 \<Longrightarrow> dig2 u = pad_digits 2 (unat u)"
    and dig3_pad: "unat u < 1000 \<Longrightarrow> dig3 u = pad_digits 3 (unat u)"
    and dig4_pad: "unat u < 10000 \<Longrightarrow> dig4 u = pad_digits 4 (unat u)"
proof -
  have 1: "dig1 u = pad_digits 1 (unat u)" if "unat u < 10" for u using that by (simp add: dig1_def dig_dec)
  have 2: "dig2 u = pad_digits 2 (unat u)" if "unat u < 100" for u
  proof -
    have "pad_digits 2 (unat u) = [dec_digit (unat u div 10 mod 10), dec_digit (unat u mod 10)]" by (simp add: numeral_2_eq_2)
    moreover have "unat u div 10 mod 10 = unat u div 10" using that by (simp add: less_mult_imp_div_less)
    ultimately show ?thesis using that 1 [of "u mod 10"] by (simp add: dig2_def WINT_R_10 unat_mod)
  qed
  have 3: "dig3 u = pad_digits 3 (unat u)" if "unat u < 1000" for u
    using that 2 [of "u mod 100"] pad_digits_front [of "unat u" 2] by (simp add: dig3_def WINT_R_100 unat_mod)
  have 4: "dig4 u = pad_digits 4 (unat u)" if "unat u < 10000" for u
    using that 3 [of "u mod 1000"] pad_digits_front [of "unat u" 3] by (simp add: dig4_def WINT_R_1000 unat_mod)
  show "unat u < 10 \<Longrightarrow> dig1 u = pad_digits 1 (unat u)" "unat u < 100 \<Longrightarrow> dig2 u = pad_digits 2 (unat u)"
    "unat u < 1000 \<Longrightarrow> dig3 u = pad_digits 3 (unat u)" "unat u < 10000 \<Longrightarrow> dig4 u = pad_digits 4 (unat u)"
    using 1 2 3 4 by blast+
qed

lemma num_digits_split: "10 ^ k \<le> n \<Longrightarrow> num_digits dec_digit 10 n = num_digits dec_digit 10 (n div 10 ^ k) @ pad_digits k n"
proof (induction k arbitrary: n)
  case (Suc k)
  have "10 ^ 1 \<le> (10 ^ Suc k :: nat)" by (rule power_increasing) auto
  then have "\<not> n < 10" using Suc.prems by (auto simp del: power_Suc)
  moreover have "10 ^ k \<le> n div 10" using Suc.prems by auto
  ultimately show ?case using Suc.IH [of "n div 10"] by (simp add: num_digits_step [of 10 _ n] div_mult2_eq)
qed simp

lemma short_digits:
  assumes "unat u < 10000"
  shows "(if u < 10 then dig1 u else if u < 100 then dig2 u else if u < 1000 then dig3 u else dig4 u) = num_digits dec_digit 10 (unat u)"
proof -
  let ?n = "unat u"
  have lt: "u < 10 \<longleftrightarrow> ?n < 10" "u < 100 \<longleftrightarrow> ?n < 100" "u < 1000 \<longleftrightarrow> ?n < 1000" by (simp_all add: word_less_nat_alt)
  have "num_digits dec_digit 10 ?n = pad_digits 1 ?n" if "?n < 10" using num_digits_pad [of ?n 0] that by simp
  moreover have "num_digits dec_digit 10 ?n = pad_digits 2 ?n" if "10 \<le> ?n" "?n < 100"
    using num_digits_pad [of ?n 1] that by (simp add: numeral_2_eq_2)
  moreover have "num_digits dec_digit 10 ?n = pad_digits 3 ?n" if "100 \<le> ?n" "?n < 1000"
    using num_digits_pad [of ?n "Suc (Suc 0)"] that by (simp add: numeral_3_eq_3)
  moreover have "num_digits dec_digit 10 ?n = pad_digits 4 ?n" if "1000 \<le> ?n"
  proof -
    have "num_digits dec_digit 10 ?n = pad_digits (Suc 3) ?n" using num_digits_pad [of ?n 3] that assms by simp
    then show ?thesis by simp
  qed
  ultimately show ?thesis using assms unfolding lt by (simp add: dig1_pad dig2_pad dig3_pad dig4_pad)
qed

lemma wint_high_digits:
  assumes "unat v < 1000000"
  shows "wint_high v = num_digits dec_digit 10 (unat v)"
proof (cases "unat v < 10000")
  case True
  then show ?thesis unfolding wint_high_def using short_digits [of v] by (simp add: word_less_nat_alt)
next
  case False
  let ?w = "v div 10000"
  have w: "unat ?w = unat v div 10000" "unat v div 10000 < 100" using assms by (simp_all add: unat_div less_mult_imp_div_less)
  have "(if ?w \<ge> 10 then (case WINT_R ?w 10 10 of (c, w) \<Rightarrow> c # dig1 w) else dig1 ?w) = num_digits dec_digit 10 (unat v div 10000)"
  proof (cases "?w < 10")
    case True
    then have "\<not> 10 \<le> ?w" by (simp add: not_le)
    then show ?thesis using short_digits [of ?w] w True by simp
  next
    case False
    then have "10 \<le> ?w" "?w < 100" using w by (simp_all add: not_less word_less_nat_alt word_le_nat_alt)
    then show ?thesis using short_digits [of ?w] w False by (simp add: dig2_def)
  qed
  moreover have "v - ?w * 10000 = v mod 10000" by (simp add: minus_div_mult_eq_mod)
  moreover have "dig4 (v mod 10000) = pad_digits 4 (unat v)"
    using dig4_pad [of "v mod 10000"] pad_digits_mod [of 4 "unat v"] by (simp add: unat_mod)
  ultimately show ?thesis
    unfolding wint_high_def using False num_digits_split [of 4 "unat v"] by (simp add: Let_def word_less_nat_alt)
qed

lemma unat_uminus_neg:
  fixes w :: "'a::len word"
  assumes "sint w < 0"
  shows "unat (- w) = nat (- sint w)" "nat (- sint w) \<le> 2 ^ (LENGTH('a) - 1)"
proof -
  have e: "- w = word_of_int (- sint w)" by simp
  have le: "- sint w \<le> 2 ^ (LENGTH('a) - 1)" using sint_ge [of w] by linarith
  also have "\<dots> < 2 ^ LENGTH('a)" by simp
  finally have lt: "- sint w < 2 ^ LENGTH('a)" .
  have "uint (word_of_int (- sint w) :: 'a word) = take_bit LENGTH('a) (- sint w)" by (rule uint_word_of_int_eq)
  also have "\<dots> = - sint w" using assms lt by (intro take_bit_int_eq_self) auto
  finally have "uint (word_of_int (- sint w) :: 'a word) = - sint w" .
  then show "unat (- w) = nat (- sint w)" unfolding e unat_eq_nat_uint by simp
  show "nat (- sint w) \<le> 2 ^ (LENGTH('a) - 1)" using nat_mono [OF le] by (simp add: nat_power_eq)
qed

lemma unat_magnitude:
  fixes w :: "'a::len word"
  shows "unat (if sint w < 0 then - w else w) = nat \<bar>sint w\<bar>"
  using unat_uminus_neg [of w] sint_nonneg_unat [of w] by auto

text \<open>The conversion of an integer, which avoids divisions by multiplying with reciprocals, writes its
  decimal digits without leading zeros after a minus sign for negative numbers, in at most the eleven
  bytes its caller has reserved; this includes the smallest integer.\<close>

theorem lj_strfmt_wint_correct:
  "lj_strfmt_wint k = (if sint k < 0 then [0x2d] else []) @ num_digits dec_digit 10 (nat \<bar>sint k\<bar>) \<and> length (lj_strfmt_wint k) \<le> STRFMT_MAXBUF_INT"
proof -
  define u where "u = (if sint k < 0 then - k else k)"
  define n where "n = unat u"
  have nk: "n = nat \<bar>sint k\<bar>" unfolding n_def u_def by (rule unat_magnitude)
  have w: "lj_strfmt_wint k = (if sint k < 0 then [0x2d] else []) @
      (if u < 10000 then (if u < 10 then dig1 u else if u < 100 then dig2 u else if u < 1000 then dig3 u else dig4 u)
       else (let v = u div 10000; u = u - v * 10000 in wint_high v @ dig4 u))"
    by (simp add: lj_strfmt_wint_def u_def wint_high_def Let_def)
  have "lj_strfmt_wint k = (if sint k < 0 then [0x2d] else []) @ num_digits dec_digit 10 n"
  proof (cases "n < 10000")
    case True
    then show ?thesis unfolding w using short_digits [of u] by (simp add: n_def word_less_nat_alt)
  next
    case False
    have v: "wint_high (u div 10000) = num_digits dec_digit 10 (n div 10000)"
      using wint_high_digits [of "u div 10000"] unat_less_32 [of u] by (simp add: unat_div n_def)
    have "u - u div 10000 * 10000 = u mod 10000" by (simp add: minus_div_mult_eq_mod)
    moreover have "dig4 (u mod 10000) = pad_digits 4 n"
      using dig4_pad [of "u mod 10000"] pad_digits_mod [of 4 n] by (simp add: unat_mod n_def)
    ultimately show ?thesis unfolding w using v False num_digits_split [of 4 n] by (simp add: Let_def n_def word_less_nat_alt)
  qed
  moreover have "length (num_digits dec_digit 10 n) \<le> 10"
    using unat_less_32 [of u] by (intro num_digits_length) (auto simp: n_def)
  ultimately show ?thesis unfolding nk [symmetric] by (simp add: STRFMT_MAXBUF_INT_def)
qed

section \<open>ULEB128\<close>

lemma bit_7f_80 [simp]:
  "bit (0x7f :: int) n \<longleftrightarrow> n < 7" "bit (0x7f :: nat) n \<longleftrightarrow> n < 7" "bit (0x80 :: int) n \<longleftrightarrow> n = 7" "bit (0x80 :: nat) n \<longleftrightarrow> n = 7"
proof -
  have "(0x7f :: int) = mask 7" "(0x7f :: nat) = mask 7" "(0x80 :: int) = 2 ^ 7" "(0x80 :: nat) = 2 ^ 7" by (simp_all add: mask_eq_exp_minus_1)
  then show "bit (0x7f :: int) n \<longleftrightarrow> n < 7" "bit (0x7f :: nat) n \<longleftrightarrow> n < 7" "bit (0x80 :: int) n \<longleftrightarrow> n = 7" "bit (0x80 :: nat) n \<longleftrightarrow> n = 7"
    by (auto simp only: bit_mask_iff bit_exp_iff) auto
qed

lemma uleb_byte:
  fixes v :: u32
  shows "u32_of_u8 (u8_of_u32 ((v AND 0x7f) OR 0x80) AND 0x7f) = v AND 0x7f" "u8_of_u32 ((v AND 0x7f) OR 0x80) \<ge> 0x80"
    "(v AND 0x7f) OR push_bit 7 (drop_bit 7 v) = v"
proof -
  show "u32_of_u8 (u8_of_u32 ((v AND 0x7f) OR 0x80) AND 0x7f) = v AND 0x7f" by (rule bit_eqI) (auto simp: bit_simps)
  show "(v AND 0x7f) OR push_bit 7 (drop_bit 7 v) = v"
    by (rule bit_eqI) (auto simp: bit_simps, metis le_add_diff_inverse not_less)
  have "u8_of_u32 ((v AND 0x7f) OR 0x80) = 0x80 OR u8_of_u32 (v AND 0x7f)" by (rule bit_eqI) (auto simp: bit_simps)
  moreover have "0x80 \<le> 0x80 OR u8_of_u32 (v AND 0x7f)" by (rule le_word_or2)
  ultimately show "u8_of_u32 ((v AND 0x7f) OR 0x80) \<ge> 0x80" by simp
qed

lemma uleb_last:
  fixes u :: u32
  assumes "\<not> u \<ge> 0x80"
  shows "u32_of_u8 (u8_of_u32 u) = u" "u32_of_u8 (u8_of_u32 u AND 0x7f) = u" "\<not> u8_of_u32 u \<ge> 0x80"
proof -
  have u: "unat u < 128" using assms by (simp add: word_le_nat_alt)
  have a: "unat (u8_of_u32 u AND 0x7f) = unat (u8_of_u32 u) mod 128"
    using unat_and_mask [of "u8_of_u32 u" 7] by (simp add: mask_eq_exp_minus_1)
  show "u32_of_u8 (u8_of_u32 u) = u" "\<not> u8_of_u32 u \<ge> 0x80" using u by (simp_all only: word_unat_eq_iff word_le_nat_alt unat_widen unat_narrow) auto
  have "unat (u32_of_u8 (u8_of_u32 u AND 0x7f)) = unat u" unfolding unat_widen a unat_narrow using u by simp
  then show "u32_of_u8 (u8_of_u32 u AND 0x7f) = u" by (simp only: word_unat_eq_iff)
qed

text \<open>Reading continues where the bytes read so far are \<open>v\<close> and the next seven bits go to \<open>sh + 7\<close>.\<close>

lemma uleb_rest_read:
  assumes "unat u < 2 ^ (25 - sh)" "sh mod 7 = 0" "sh \<le> 21"
  shows "uleb_rest v sh (lj_strfmt_wuleb128 u @ rest) = Some (v OR push_bit (sh + 7) u, rest)"
  using assms
proof (induction u arbitrary: v sh rule: lj_strfmt_wuleb128.induct)
  case (1 u)
  note w = lj_strfmt_wuleb128.simps [of u]
  show ?case
  proof (cases "u \<ge> 0x80")
    case True
    have "128 \<le> unat u" using True by (simp add: word_le_nat_alt)
    then have "sh \<noteq> 21" using "1.prems"(1) by auto
    then have sh: "sh \<le> 14" using "1.prems"(2,3) by presburger
    have e: "(2::nat) ^ (25 - sh) = 2 ^ (25 - (sh + 7)) * 2 ^ 7" unfolding power_add [symmetric] using sh by simp
    have "unat u < 2 ^ (25 - (sh + 7)) * 128" using "1.prems"(1) unfolding e by simp
    then have "unat (drop_bit 7 u) < 2 ^ (25 - (sh + 7))" unfolding unat_drop_bit_div by (intro less_mult_imp_div_less) simp
    moreover have "(sh + 7) mod 7 = 0" "sh + 7 \<le> 21" using sh "1.prems"(2) by auto
    ultimately have "uleb_rest (v OR push_bit (sh + 7) (u AND 0x7f)) (sh + 7) (lj_strfmt_wuleb128 (drop_bit 7 u) @ rest) =
        Some ((v OR push_bit (sh + 7) (u AND 0x7f)) OR push_bit (sh + 7 + 7) (drop_bit 7 u), rest)"
      by (rule "1.IH" [OF True])
    moreover have "push_bit (sh + 7) (u AND 0x7f) OR push_bit (sh + 7 + 7) (drop_bit 7 u) = push_bit (sh + 7) u"
      using arg_cong [OF uleb_byte(3) [of u], of "push_bit (sh + 7)"] by (simp only: push_bit_or push_bit_push_bit)
    ultimately show ?thesis using True sh uleb_byte(1,2) [of u] by (simp add: w Let_def or.assoc)
  next
    case False
    then show ?thesis using "1.prems" uleb_last [OF False] by (simp add: w Let_def)
  qed
qed

text \<open>C35: A number written in ULEB128 is read back from the buffer, whatever follows it, and takes at most five bytes.\<close>

theorem uleb128_roundtrip:
  "lj_buf_ruleb128 (lj_strfmt_wuleb128 v @ rest) = Some (v, rest) \<and> length (lj_strfmt_wuleb128 v) \<le> 5"
proof
  note w = lj_strfmt_wuleb128.simps [of v]
  show "lj_buf_ruleb128 (lj_strfmt_wuleb128 v @ rest) = Some (v, rest)"
  proof (cases "v \<ge> 0x80")
    case True
    have "unat (drop_bit 7 v) < 2 ^ (25 - 0)" using unat_less_32 [of v] by (simp add: unat_drop_bit_div less_mult_imp_div_less)
    from uleb_rest_read [OF this, of "v AND 0x7f" rest]
    have "uleb_rest (v AND 0x7f) 0 (lj_strfmt_wuleb128 (drop_bit 7 v) @ rest) = Some (v, rest)" by (simp add: uleb_byte(3))
    moreover have "u32_of_u8 (u8_of_u32 ((v AND 0x7f) OR 0x80)) \<ge> 0x80" "u32_of_u8 (u8_of_u32 ((v AND 0x7f) OR 0x80)) AND 0x7f = v AND 0x7f"
      using uleb_byte(2) [of v] by (simp add: word_le_nat_alt) (rule bit_eqI, auto simp: bit_simps)
    ultimately show ?thesis using True by (simp add: w lj_buf_ruleb128_def)
  next
    case False
    then show ?thesis using uleb_last [OF False] by (simp add: w lj_buf_ruleb128_def)
  qed
  have "length (lj_strfmt_wuleb128 u) \<le> n" if "unat u < 128 ^ n" "0 < n" for u n
    using that
  proof (induction n arbitrary: u)
    case (Suc n)
    show ?case
    proof (cases "u \<ge> 0x80")
      case True
      then have "0 < n" using Suc.prems(1) by (cases n) (auto simp: word_le_nat_alt)
      moreover have "unat (drop_bit 7 u) < 128 ^ n" using Suc.prems(1) by (simp add: unat_drop_bit_div less_mult_imp_div_less mult.commute)
      ultimately show ?thesis using Suc.IH [of "drop_bit 7 u"] True by (simp add: lj_strfmt_wuleb128.simps [of u])
    qed (simp add: lj_strfmt_wuleb128.simps [of u])
  qed simp
  from this [of v 5] show "length (lj_strfmt_wuleb128 v) \<le> 5" using unat_less_32 [of v] by simp
qed

section \<open>Formatted integers\<close>

text \<open>What a format asks for: the precision if there is one, the sign or base prefix, the digits, and the padding.\<close>

definition fmt_prec :: "SFormat \<Rightarrow> nat option" where
  "fmt_prec sf = (let x = unat (drop_bit STRFMT_SH_PREC sf AND 255) in if x = 0 then None else Some (x - 1))"

definition fmt_value :: "SFormat \<Rightarrow> u64 \<Rightarrow> nat" where
  "fmt_value sf k = (if STRFMT_TYPE sf = fmt_code STRFMT_INT then nat \<bar>sint k\<bar> else unat k)"

definition fmt_prefix :: "SFormat \<Rightarrow> u64 \<Rightarrow> u8 list" where
  "fmt_prefix sf k =
     (if STRFMT_TYPE sf = fmt_code STRFMT_INT then
        if sint k < 0 then [0x2d] else if sf AND STRFMT_F_PLUS \<noteq> 0 then [0x2b] else if sf AND STRFMT_F_SPACE \<noteq> 0 then [0x20] else []
      else if sf AND STRFMT_T_HEX \<noteq> 0 \<and> sf AND STRFMT_F_ALT \<noteq> 0 \<and> k \<noteq> 0 then [0x30, if sf AND STRFMT_F_UPPER \<noteq> 0 then 0x58 else 0x78]
      else [])"

definition fmt_digits :: "SFormat \<Rightarrow> nat \<Rightarrow> u8 list" where
  "fmt_digits sf n =
     (let oct = sf AND STRFMT_T_HEX = 0 \<and> sf AND STRFMT_T_OCT \<noteq> 0; alt = sf AND STRFMT_F_ALT \<noteq> 0 in
      if n = 0 then (if fmt_prec sf = Some 0 \<and> \<not> (sf AND STRFMT_T_OCT \<noteq> 0 \<and> alt) then [] else [0x30])
      else if sf AND STRFMT_T_HEX \<noteq> 0 then num_digits (hex_digit (sf AND STRFMT_F_UPPER \<noteq> 0)) 16 n
      else if oct then (if alt then [0x30] else []) @ num_digits dec_digit 8 n
      else num_digits dec_digit 10 n)"

definition fmt_int_spec :: "SFormat \<Rightarrow> u64 \<Rightarrow> u8 list" where
  "fmt_int_spec sf k =
     (let pfx = fmt_prefix sf k; ds = fmt_digits sf (fmt_value sf k);
          body = replicate (case fmt_prec sf of None \<Rightarrow> 0 | Some p \<Rightarrow> p - length ds) 0x30 @ ds;
          fill = unat (STRFMT_WIDTH sf) - (length pfx + length body)
      in if sf AND STRFMT_F_LEFT \<noteq> 0 then pfx @ body @ replicate fill 0x20
         else if sf AND STRFMT_F_ZERO \<noteq> 0 \<and> fmt_prec sf = None then pfx @ replicate fill 0x30 @ body
         else replicate fill 0x20 @ pfx @ body)"

text \<open>A signed format has no base bits; every format of the parser is of this kind.\<close>

definition int_format :: "SFormat \<Rightarrow> bool" where
  "int_format sf \<longleftrightarrow> (STRFMT_TYPE sf = fmt_code STRFMT_INT \<longrightarrow> sf AND STRFMT_T_HEX = 0 \<and> sf AND STRFMT_T_OCT = 0)"

lemma and_or_zero: "x AND (a OR b) = 0 \<longleftrightarrow> x AND a = 0 \<and> x AND b = 0" for x a b :: u32
  by (simp add: bit.conj_disj_distrib or_eq_0_iff)

lemmas fmt_bits = STRFMT_T_HEX_def STRFMT_T_OCT_def STRFMT_F_LEFT_def STRFMT_F_PLUS_def STRFMT_F_ZERO_def STRFMT_F_SPACE_def
  STRFMT_F_ALT_def STRFMT_F_UPPER_def

lemma prec_word:
  "fmt_prec sf = None \<Longrightarrow> STRFMT_PREC sf = - 1" "fmt_prec sf = Some p \<Longrightarrow> p < 255 \<and> STRFMT_PREC sf = word_of_nat p"
proof -
  define x where "x = drop_bit STRFMT_SH_PREC sf AND 255"
  have x: "unat x < 256" using unat_and_mask [of "drop_bit STRFMT_SH_PREC sf" 8] by (simp add: x_def mask_eq_exp_minus_1)
  have P: "STRFMT_PREC sf = x - 1" "fmt_prec sf = (if unat x = 0 then None else Some (unat x - 1))"
    by (simp_all add: STRFMT_PREC_def fmt_prec_def x_def Let_def)
  show "STRFMT_PREC sf = - 1" if "fmt_prec sf = None" using that P by (simp add: unat_eq_0 split: if_splits)
  show "p < 255 \<and> STRFMT_PREC sf = word_of_nat p" if "fmt_prec sf = Some p"
  proof -
    have "unat x = p + 1" using that P(2) by (auto split: if_splits)
    moreover have "x = word_of_nat (unat x)" by simp
    ultimately have "x = word_of_nat (p + 1)" by metis
    then show ?thesis using P(1) x \<open>unat x = p + 1\<close> by simp
  qed
qed

lemma width_less: "unat (STRFMT_WIDTH sf) < 256"
  using unat_and_mask [of "drop_bit STRFMT_SH_WIDTH sf" 8] by (simp add: STRFMT_WIDTH_def mask_eq_exp_minus_1)

text \<open>Clearing the zero flag changes no other field.\<close>

lemma clear_zero:
  defines "sf' \<equiv> \<lambda>sf. sf AND NOT STRFMT_F_ZERO"
  shows "sf' sf AND STRFMT_T_HEX = sf AND STRFMT_T_HEX" "sf' sf AND STRFMT_T_OCT = sf AND STRFMT_T_OCT"
    "sf' sf AND STRFMT_F_LEFT = sf AND STRFMT_F_LEFT" "sf' sf AND STRFMT_F_ALT = sf AND STRFMT_F_ALT"
    "sf' sf AND STRFMT_F_UPPER = sf AND STRFMT_F_UPPER" "sf' sf AND STRFMT_F_ZERO = 0"
    "STRFMT_WIDTH (sf' sf) = STRFMT_WIDTH sf" "fmt_prec (sf' sf) = fmt_prec sf"
  by (simp_all add: sf'_def fmt_bits STRFMT_WIDTH_def fmt_prec_def STRFMT_SH_WIDTH_def STRFMT_SH_PREC_def drop_bit_and and.assoc)

lemma oct_alt_set:
  "sf AND (STRFMT_T_OCT OR STRFMT_F_ALT) = STRFMT_T_OCT OR STRFMT_F_ALT \<longleftrightarrow> sf AND STRFMT_T_OCT \<noteq> 0 \<and> sf AND STRFMT_F_ALT \<noteq> 0"
proof
  let ?m = "STRFMT_T_OCT OR STRFMT_F_ALT"
  assume m: "sf AND ?m = ?m"
  have "sf AND STRFMT_T_OCT = (sf AND ?m) AND STRFMT_T_OCT" "sf AND STRFMT_F_ALT = (sf AND ?m) AND STRFMT_F_ALT"
    by (simp_all add: and.assoc fmt_bits)
  then show "sf AND STRFMT_T_OCT \<noteq> 0 \<and> sf AND STRFMT_F_ALT \<noteq> 0" unfolding m by (simp add: fmt_bits)
next
  assume a: "sf AND STRFMT_T_OCT \<noteq> 0 \<and> sf AND STRFMT_F_ALT \<noteq> 0"
  have pow: "STRFMT_T_OCT = 2 ^ 5" "STRFMT_F_ALT = 2 ^ 12" by (simp_all add: fmt_bits)
  have "sf AND 2 ^ n \<noteq> 0 \<Longrightarrow> sf AND 2 ^ n = 2 ^ n" for n 
    by (rule bit_eqI) (auto simp: and_exp_eq_0_iff_not_bit bit_simps)
  then have "sf AND STRFMT_T_OCT = STRFMT_T_OCT" "sf AND STRFMT_F_ALT = STRFMT_F_ALT" using a unfolding pow by blast+
  then show "sf AND (STRFMT_T_OCT OR STRFMT_F_ALT) = STRFMT_T_OCT OR STRFMT_F_ALT" by (simp add: bit.conj_disj_distrib)
qed

lemma fmt_digits_length: 
  assumes "n < 2 ^ 64"
  shows "length (fmt_digits sf n) \<le> STRFMT_MAXBUF_XINT"
proof -
  have "length (num_digits f 16 n) \<le> 22" "length (num_digits f 8 n) \<le> 22" "length (num_digits f 10 n) \<le> 22" for f
    using assms by (auto intro!: num_digits_length)
  then show ?thesis by (auto simp: fmt_digits_def Let_def STRFMT_MAXBUF_XINT_def le_Suc_eq numeral_eq_Suc)
qed

lemma fxint_digits_eq:
  "fst (fxint_digits sf (STRFMT_PREC sf) k pfx) = fmt_digits sf (unat k)"
proof -
  have p: "STRFMT_PREC sf = 0 \<longleftrightarrow> fmt_prec sf = Some 0"
  proof (cases "fmt_prec sf")
    case (Some p)
    then have "p < 255" "STRFMT_PREC sf = word_of_nat p" using prec_word(2) by auto
    then show ?thesis using Some by (simp add: word_unat_eq_iff unat_of_nat)
  qed (simp add: prec_word)
  have d: "(case dec_high k [] of (k, q) \<Rightarrow> dec_low (u32_of_u64 k) q) = num_digits dec_digit 10 (unat k)"
    using dec_high_digits [of k "[]"] by (auto simp: dec_low_digits unat_narrow split: prod.splits)
  show ?thesis
    by (auto simp: fxint_digits_def fmt_digits_def Let_def p and_or_zero oct_alt_set d hex_loop_digits oct_loop_digits unat_eq_0)
qed

definition prefix_bytes :: "u32 \<Rightarrow> u8 list" where
  "prefix_bytes pfx = (if pfx \<noteq> 0 then (if u8_of_u32 pfx \<ge> 0x58 then [0x30] else []) @ [u8_of_u32 pfx] else [])"

lemma prefix_eval:
  "prefix_bytes 0 = []" "prefix_bytes 301 = [0x2d]" "prefix_bytes 299 = [0x2b]" "prefix_bytes 288 = [0x20]"
  "prefix_bytes 600 = [0x30, 0x58]" "prefix_bytes 632 = [0x30, 0x78]"
  "unat (drop_bit 8 (301 :: u32)) = 1" "unat (drop_bit 8 (299 :: u32)) = 1" "unat (drop_bit 8 (288 :: u32)) = 1"
  "unat (drop_bit 8 (600 :: u32)) = 2" "unat (drop_bit 8 (632 :: u32)) = 2"
  by code_simp+

lemma fxint_sign_value: "unat (fst (fxint_sign sf k)) = fmt_value sf k"
  using unat_magnitude [of k] by (auto simp: fxint_sign_def fmt_value_def)

lemma fxint_digits_prefix:
  "snd (fxint_digits sf prec k pfx) =
    (if k \<noteq> 0 \<and> sf AND STRFMT_T_HEX \<noteq> 0 \<and> sf AND STRFMT_F_ALT \<noteq> 0 then 512 + (if sf AND STRFMT_F_UPPER \<noteq> 0 then 0x58 else 0x78) else pfx)"
  by (auto simp: fxint_digits_def Let_def and_or_zero split: prod.splits)

lemma fxint_prefix:
  assumes "int_format sf"
  shows "prefix_bytes (snd (fxint_digits sf prec (fst (fxint_sign sf k)) (snd (fxint_sign sf k)))) = fmt_prefix sf k"
    "unat (drop_bit 8 (snd (fxint_digits sf prec (fst (fxint_sign sf k)) (snd (fxint_sign sf k))))) = length (fmt_prefix sf k)"
proof -
  have "prefix_bytes (snd (fxint_digits sf prec (fst (fxint_sign sf k)) (snd (fxint_sign sf k)))) = fmt_prefix sf k \<and>
    unat (drop_bit 8 (snd (fxint_digits sf prec (fst (fxint_sign sf k)) (snd (fxint_sign sf k))))) = length (fmt_prefix sf k)"
  proof (cases "STRFMT_TYPE sf = fmt_code STRFMT_INT")
    case True
    then have "sf AND STRFMT_T_HEX = 0" using assms by (simp add: int_format_def)
    with True show ?thesis unfolding fxint_digits_prefix fxint_sign_def fmt_prefix_def
      by (cases "sint k < 0"; cases "sf AND STRFMT_F_PLUS = 0"; cases "sf AND STRFMT_F_SPACE = 0")
        (simp_all add: prefix_eval)
  next
    case False
    then show ?thesis unfolding fxint_digits_prefix fxint_sign_def fmt_prefix_def
      by (cases "k = 0"; cases "sf AND STRFMT_T_HEX = 0"; cases "sf AND STRFMT_F_ALT = 0"; cases "sf AND STRFMT_F_UPPER = 0")
        (simp_all add: prefix_eval)
  qed
  then show "prefix_bytes (snd (fxint_digits sf prec (fst (fxint_sign sf k)) (snd (fxint_sign sf k)))) = fmt_prefix sf k"
    "unat (drop_bit 8 (snd (fxint_digits sf prec (fst (fxint_sign sf k)) (snd (fxint_sign sf k))))) = length (fmt_prefix sf k)" by blast+
qed

lemma left_zero_set:
  "sf AND (STRFMT_F_LEFT OR STRFMT_F_ZERO) = STRFMT_F_ZERO \<longleftrightarrow> sf AND STRFMT_F_LEFT = 0 \<and> sf AND STRFMT_F_ZERO \<noteq> 0"
proof
  let ?m = "STRFMT_F_LEFT OR STRFMT_F_ZERO"
  assume m: "sf AND ?m = STRFMT_F_ZERO"
  have "sf AND STRFMT_F_LEFT = (sf AND ?m) AND STRFMT_F_LEFT" "sf AND STRFMT_F_ZERO = (sf AND ?m) AND STRFMT_F_ZERO"
    by (simp_all add: and.assoc fmt_bits)
  then show "sf AND STRFMT_F_LEFT = 0 \<and> sf AND STRFMT_F_ZERO \<noteq> 0" unfolding m by (simp add: fmt_bits)
next
  assume a: "sf AND STRFMT_F_LEFT = 0 \<and> sf AND STRFMT_F_ZERO \<noteq> 0"
  have pow: "STRFMT_F_ZERO = 2 ^ 10" by (simp add: fmt_bits)
  have "sf AND 2 ^ n \<noteq> 0 \<Longrightarrow> sf AND 2 ^ n = 2 ^ n" for n
    by (rule bit_eqI) (auto simp: and_exp_eq_0_iff_not_bit bit_simps)
  then have "sf AND STRFMT_F_ZERO = STRFMT_F_ZERO" using a unfolding pow by blast
  with a show "sf AND (STRFMT_F_LEFT OR STRFMT_F_ZERO) = STRFMT_F_ZERO" by (simp add: bit.conj_disj_distrib)
qed

lemma sint_of_nat_small: "n < 2 ^ 31 \<Longrightarrow> sint (word_of_nat n :: u32) = int n"
  using sint_of_small [of "word_of_nat n :: u32"] by (simp add: unat_of_nat)

lemma prec_nonneg: "sint (STRFMT_PREC sf) \<ge> 0 \<longleftrightarrow> fmt_prec sf \<noteq> None"
  using prec_word [of sf] by (cases "fmt_prec sf") (auto simp: sint_of_nat_small)

lemma prec_join:
  assumes "L \<le> 23"
  shows "(if sint (word_of_nat L :: u32) \<ge> sint (STRFMT_PREC sf) then word_of_nat L else STRFMT_PREC sf) =
    word_of_nat (case fmt_prec sf of None \<Rightarrow> L | Some p \<Rightarrow> max p L)"
  using assms prec_word [of sf] by (cases "fmt_prec sf") (auto simp: sint_of_nat_small max_def)

lemma fmt_digits_clear: "fmt_digits (sf AND NOT STRFMT_F_ZERO) n = fmt_digits sf n"
  unfolding fmt_digits_def Let_def clear_zero ..

text \<open>The bytes that are stored, with the sizes as natural numbers.\<close>

lemma fxint_layout:
  assumes q: "q = fmt_digits sf (fmt_value sf k)" and p: "prefix_bytes pfx = fmt_prefix sf k" "unat (drop_bit 8 pfx) = length (fmt_prefix sf k)"
    and len: "length q \<le> 23"
  defines "sf' \<equiv> if sint (STRFMT_PREC sf) \<ge> 0 then sf AND NOT STRFMT_F_ZERO else sf"
    and "prec \<equiv> if sint (word_of_nat (length q) :: u32) \<ge> sint (STRFMT_PREC sf) then word_of_nat (length q) else STRFMT_PREC sf"
  defines "width \<equiv> STRFMT_WIDTH sf'" and "pprec \<equiv> prec + drop_bit 8 pfx" and "lz \<equiv> sf' AND (STRFMT_F_LEFT OR STRFMT_F_ZERO)"
  shows "(if lz = 0 then replicate (pad_count width pprec) 0x20 else []) @ prefix_bytes pfx @
      (if lz = STRFMT_F_ZERO then replicate (pad_count width pprec) 0x30 else []) @
      replicate (pad_count prec (word_of_nat (length q))) 0x30 @ q @
      (if sf' AND STRFMT_F_LEFT \<noteq> 0 then replicate (pad_count width pprec) 0x20 else []) = fmt_int_spec sf k" (is "?bytes = _")
    "length (fmt_int_spec sf k) = unat (if width > pprec then width else pprec)"
    "length (fmt_int_spec sf k) \<le> 300"
proof -
  define P where "P = (case fmt_prec sf of None \<Rightarrow> length q | Some p \<Rightarrow> max p (length q))"
  let ?l = "length (fmt_prefix sf k)"
  have l2: "?l \<le> 2" by (simp add: fmt_prefix_def)
  have P: "P < 255" "length q \<le> P" using len prec_word(2) [of sf] by (auto simp: P_def split: option.splits)
  have prec: "unat prec = P" using P prec_join [OF len, of sf] by (simp add: prec_def P_def unat_of_nat)
  have uq: "unat (word_of_nat (length q) :: u32) = length q" using len by (simp add: unat_of_nat)
  have pp: "unat pprec = P + ?l" unfolding pprec_def using prec p(2) P l2 by (subst unat_plus_small) auto
  have W: "width = STRFMT_WIDTH sf" "sf' AND STRFMT_F_LEFT = sf AND STRFMT_F_LEFT" by (simp_all add: width_def sf'_def clear_zero)
  have Z: "sf' AND STRFMT_F_ZERO \<noteq> 0 \<longleftrightarrow> sf AND STRFMT_F_ZERO \<noteq> 0 \<and> fmt_prec sf = None"
    unfolding sf'_def prec_nonneg by (simp add: clear_zero)
  then have Z': "sf' AND STRFMT_F_ZERO = 0 \<longleftrightarrow> \<not> (sf AND STRFMT_F_ZERO \<noteq> 0 \<and> fmt_prec sf = None)" by blast
  have zfill: "pad_count prec (word_of_nat (length q)) = P - length q" by (simp add: pad_count_def prec uq)
  have zeros: "P - length q = (case fmt_prec sf of None \<Rightarrow> 0 | Some p \<Rightarrow> p - length q)" by (auto simp: P_def max_def split: option.splits)
  let ?fill = "unat (STRFMT_WIDTH sf) - (?l + P)"
  have body: "length (replicate (P - length q) (0x30 :: u8) @ q) = P" using P(2) by simp
  have spec: "fmt_int_spec sf k =
      (let body = replicate (P - length q) 0x30 @ q
       in if sf AND STRFMT_F_LEFT \<noteq> 0 then fmt_prefix sf k @ body @ replicate ?fill 0x20
         else if sf AND STRFMT_F_ZERO \<noteq> 0 \<and> fmt_prec sf = None then fmt_prefix sf k @ replicate ?fill 0x30 @ body
         else replicate ?fill 0x20 @ fmt_prefix sf k @ body)"
    unfolding fmt_int_spec_def Let_def q [symmetric] zeros [symmetric] body ..
  have fill: "pad_count width pprec = ?fill" by (simp add: pad_count_def pp W add.commute)
  have "?bytes = (if sf AND STRFMT_F_LEFT = 0 \<and> \<not> (sf AND STRFMT_F_ZERO \<noteq> 0 \<and> fmt_prec sf = None) then replicate ?fill 0x20 else []) @ fmt_prefix sf k @
      (if sf AND STRFMT_F_LEFT = 0 \<and> sf AND STRFMT_F_ZERO \<noteq> 0 \<and> fmt_prec sf = None then replicate ?fill 0x30 else []) @
      replicate (P - length q) 0x30 @ q @ (if sf AND STRFMT_F_LEFT \<noteq> 0 then replicate ?fill 0x20 else [])"
    unfolding lz_def left_zero_set and_or_zero fill zfill p(1) W(2) Z Z' not_not ..
  also have "\<dots> = fmt_int_spec sf k" unfolding spec Let_def by simp
  finally show "?bytes = fmt_int_spec sf k" .
  have n: "length (fmt_int_spec sf k) = max (unat (STRFMT_WIDTH sf)) (?l + P)" unfolding spec Let_def using P by (auto simp: max_def)
  show "length (fmt_int_spec sf k) = unat (if width > pprec then width else pprec)"
    unfolding n by (simp add: word_less_nat_alt pp W max_def add.commute)
  show "length (fmt_int_spec sf k) \<le> 300" unfolding n using width_less [of sf] P l2 by simp
qed

lemma lj_strfmt_putfxint_write:
  assumes "int_format sf"
  shows "lj_strfmt_putfxint sb sf k = buf_write sb (length (fmt_int_spec sf k)) (fmt_int_spec sf k)" "length (fmt_int_spec sf k) \<le> 300"
proof -
  let ?sf = "if sint (STRFMT_PREC sf) \<ge> 0 then sf AND NOT STRFMT_F_ZERO else sf"
  obtain k1 p1 where s: "fxint_sign sf k = (k1, p1)" by force
  obtain q p2 where d: "fxint_digits ?sf (STRFMT_PREC sf) k1 p1 = (q, p2)" by force
  have same: "STRFMT_PREC ?sf = STRFMT_PREC sf"
    by (simp add: STRFMT_PREC_def STRFMT_SH_PREC_def drop_bit_and and.assoc fmt_bits)
  have "snd (fxint_digits ?sf (STRFMT_PREC sf) k1 p1) = snd (fxint_digits sf (STRFMT_PREC sf) k1 p1)"
    unfolding fxint_digits_prefix by (simp add: clear_zero)
  then have p: "prefix_bytes p2 = fmt_prefix sf k" "unat (drop_bit 8 p2) = length (fmt_prefix sf k)"
    using fxint_prefix [OF assms, of "STRFMT_PREC sf" k] s d by simp_all
  have "q = fmt_digits ?sf (unat k1)" using fxint_digits_eq [of ?sf k1 p1] d unfolding same by simp
  also have "\<dots> = fmt_digits sf (unat k1)" by (simp add: fmt_digits_clear)
  finally have q: "q = fmt_digits sf (fmt_value sf k)" using fxint_sign_value [of sf k] s by simp
  have "fmt_value sf k < 2 ^ 64" using fxint_sign_value [of sf k] unat_less_64 [of "fst (fxint_sign sf k)"] by simp
  then have len: "length q \<le> 23" using fmt_digits_length [of "fmt_value sf k" sf] by (simp add: q STRFMT_MAXBUF_XINT_def)
  then have fits: "\<not> length q > STRFMT_MAXBUF_XINT" by (simp add: STRFMT_MAXBUF_XINT_def)
  note lay = fxint_layout [OF q p len]
  show "lj_strfmt_putfxint sb sf k = buf_write sb (length (fmt_int_spec sf k)) (fmt_int_spec sf k)"
    unfolding lj_strfmt_putfxint_def s d Let_def case_prod_conv if_not_P [OF fits]
    by (rule arg_cong2 [where f = "buf_write sb", OF lay(2) [symmetric] lay(1) [unfolded prefix_bytes_def]])
  show "length (fmt_int_spec sf k) \<le> 300" by (rule lay(3))
qed

text \<open>C36: Formatting an integer writes exactly what its format describes: the sign or base prefix, at least as many
  digits as the precision asks for, zero or blank padding to the width on the side the flags select, for
  decimal, octal and hexadecimal conversions. Its digits fit their fixed-size buffer and the number of bytes
  reserved in the string buffer is the number of bytes written: the call is one write with a reservation of
  exactly the length of the text.\<close>

theorem lj_strfmt_putfxint_correct:
  assumes "int_format sf" "sbuf_ok sb" "300 \<le> sbuf_room sb"
  shows "lj_strfmt_putfxint sb sf k = buf_write sb (length (fmt_int_spec sf k)) (fmt_int_spec sf k) \<and>
    (\<exists>sb'. lj_strfmt_putfxint sb sf k = Inr sb' \<and> sbuf_ok sb' \<and> sbuf_data sb' = sbuf_data sb @ fmt_int_spec sf k)"
  using sb.appends_write [OF assms(2), of "length (fmt_int_spec sf k)" "fmt_int_spec sf k"] lj_strfmt_putfxint_write [OF assms(1), where k = k] assms(3)
  by (auto simp: sb.appends_def)

theorem lj_strfmt_putfxint_correct_witness:
  "\<exists>sb'. lj_strfmt_putfxint lj_buf_init 0x00061403 (-42) = Inr sb' \<and> sbuf_ok sb' \<and> sbuf_data sb' = [0x2d, 0x30, 0x30, 0x30, 0x34, 0x32]"
proof -
  have i: "int_format 0x00061403" by (simp add: int_format_def STRFMT_TYPE_def fmt_bits)
  have o: "sbuf_ok lj_buf_init" "300 \<le> sbuf_room lj_buf_init" "sbuf_data lj_buf_init = []"
    by (simp_all add: sbuf_ok_def sbuf_room_def sbuf_data_def lj_buf_init_def LJ_MAX_BUF_def)
  have "fmt_int_spec 0x00061403 (-42) = [0x2d, 0x30, 0x30, 0x30, 0x34, 0x32]" by code_simp
  then show ?thesis using conjunct2 [OF lj_strfmt_putfxint_correct [OF i o(1,2), of "-42"]] o(3) by simp
qed

end
