(* ===== verification/Strfmt_Parse.thy ===== *)
theory Strfmt_Parse
  imports Strfmt
begin

text \<open>
  The format parser of \<^verbatim>\<open>lj_strfmt.c\<close> produces well-formed formats and always advances; the conversions of strings,
  characters and pointers write within the space they reserve.
\<close>

section \<open>The fields of a format\<close>

definition flag_mask :: u32 where "flag_mask = push_bit 8 (mask 6)"

definition flags_only :: "SFormat \<Rightarrow> bool" where "flags_only sf \<longleftrightarrow> sf AND flag_mask = sf"

lemma flags_only_simps [simp]:
  "flags_only 0" "flags_only sf \<Longrightarrow> flags_only sf' \<Longrightarrow> flags_only (sf OR sf')"
  by (auto simp: flags_only_def bit.conj_disj_distrib2)

lemma flags_only_flags [simp]:
  "flags_only STRFMT_F_LEFT" "flags_only STRFMT_F_PLUS" "flags_only STRFMT_F_ZERO" "flags_only STRFMT_F_SPACE" "flags_only STRFMT_F_ALT"
  "flags_only STRFMT_F_UPPER"
  by (simp_all add: flags_only_def flag_mask_def fmt_bits mask_eq_exp_minus_1)

lemma flags_only_bit: "flags_only sf \<Longrightarrow> bit sf n \<Longrightarrow> 8 \<le> n \<and> n < 14"
proof -
  assume "flags_only sf" "bit sf n"
  then have "bit (sf AND flag_mask) n" by (simp add: flags_only_def)
  then show ?thesis by (auto simp: flag_mask_def bit_simps)
qed

lemma small_bit: "unat w < 2 ^ m \<Longrightarrow> bit w n \<Longrightarrow> n < m" for w :: u32
proof -
  assume w: "unat w < 2 ^ m" "bit w n"
  have "unat (take_bit m w) = unat w" using w(1) by (simp add: unsigned_take_bit_eq take_bit_nat_eq_self)
  then have "take_bit m w = w" by (simp only: word_unat_eq_iff)
  then have "bit (take_bit m w) n" using w(2) by simp
  then show ?thesis by (simp add: bit_take_bit_iff)
qed

text \<open>The fields do not overlap, so each is read back.\<close>

lemma format_fields:
  assumes F: "flags_only f" and w: "unat w < 128" and q: "unat q < 128" and x: "unat x < 64"
  defines "sf \<equiv> f OR push_bit STRFMT_SH_WIDTH w OR push_bit STRFMT_SH_PREC q OR x"
  shows "STRFMT_WIDTH sf = w" "STRFMT_TYPE sf = x AND 15" "drop_bit STRFMT_SH_PREC sf AND 255 = q"
    "sf AND STRFMT_T_HEX = x AND STRFMT_T_HEX" "sf AND STRFMT_T_OCT = x AND STRFMT_T_OCT"
proof -
  have b: "bit f n \<Longrightarrow> 8 \<le> n \<and> n < 14" "bit w n \<Longrightarrow> n < 7" "bit q n \<Longrightarrow> n < 7" "bit x n \<Longrightarrow> n < 6" for n
    using flags_only_bit [OF F] small_bit [of w 7 n] small_bit [of q 7 n] small_bit [of x 6 n] w q x by auto
  have m: "(255 :: u32) = mask 8" "(15 :: u32) = mask 4" by (simp_all add: mask_eq_exp_minus_1)
  show "STRFMT_WIDTH sf = w" unfolding STRFMT_WIDTH_def m sf_def STRFMT_SH_WIDTH_def STRFMT_SH_PREC_def
    by (rule bit_eqI) (auto simp: bit_simps dest: b)
  show "STRFMT_TYPE sf = x AND 15" unfolding STRFMT_TYPE_def m sf_def STRFMT_SH_WIDTH_def STRFMT_SH_PREC_def
    by (rule bit_eqI) (auto simp: bit_simps dest: b)
  show "drop_bit STRFMT_SH_PREC sf AND 255 = q" unfolding m sf_def STRFMT_SH_WIDTH_def STRFMT_SH_PREC_def
    by (rule bit_eqI) (auto simp: bit_simps dest: b)
  have "sf AND mask 6 = x AND mask 6" unfolding sf_def STRFMT_SH_WIDTH_def STRFMT_SH_PREC_def
    by (rule bit_eqI) (auto simp: bit_simps dest: b)
  then have "(sf AND mask 6) AND c = (x AND mask 6) AND c" for c by simp
  moreover have "mask 6 AND STRFMT_T_HEX = STRFMT_T_HEX" "mask 6 AND STRFMT_T_OCT = STRFMT_T_OCT" by (simp_all add: mask_eq_exp_minus_1 fmt_bits)
  ultimately show "sf AND STRFMT_T_HEX = x AND STRFMT_T_HEX" "sf AND STRFMT_T_OCT = x AND STRFMT_T_OCT" by (metis and.assoc)+
qed

section \<open>The parser\<close>

lemma parse_flags_ok:
  "flags_only sf \<Longrightarrow> parse_flags sf p = (sf', p') \<Longrightarrow> flags_only sf' \<and> length p' \<le> length p"
  by (induction sf p arbitrary: sf' p' rule: parse_flags.induct) (force split: if_splits)+

lemma digit_peek:
  assumes "u32_of_u8 (peek p) - 0x30 < 10"
  shows "p \<noteq> []" "unat (u32_of_u8 (peek p) - 0x30) < 10"
  using assms by (auto simp: peek_def word_less_nat_alt)

lemma two_digits: "unat a < 10 \<Longrightarrow> unat b < 10 \<Longrightarrow> unat (a + b * 10) < 100" for a b :: u32
  by (simp add: unat_word_ariths)

lemma parse_num2_ok:
  "parse_num2 p = (r, p') \<Longrightarrow> length p' \<le> length p \<and> (\<forall>n. r = Some n \<longrightarrow> unat n < 100)"
proof -
  assume r: "parse_num2 p = (r, p')"
  let ?d = "\<lambda>p. u32_of_u8 (peek p) - 0x30"
  have two: "unat (?d (tl p) + ?d p * 10) < 100" if "?d p < 10" "?d (tl p) < 10"
    by (rule two_digits [OF digit_peek(2) [OF that(2)] digit_peek(2) [OF that(1)]])
  have one: "unat (?d p) < 100" if "?d p < 10" using digit_peek(2) [OF that] by simp
  show ?thesis using r two one by (auto simp: parse_num2_def Let_def split: if_splits)
qed

lemma parse_width_ok:
  assumes "parse_width sf p = (sf', p')"
  obtains w where "sf' = sf OR push_bit STRFMT_SH_WIDTH w" "unat w < 100" "length p' \<le> length p"
proof -
  obtain r q where r: "parse_num2 p = (r, q)" by force
  show thesis using assms that [of 0] that parse_num2_ok [OF r] r by (cases r) (auto simp: parse_width_def)
qed

lemma parse_prec_ok:
  assumes "parse_prec sf p = (sf', p')"
  obtains q where "sf' = sf OR push_bit STRFMT_SH_PREC q" "unat q \<le> 100" "length p' \<le> length p"
proof (cases "peek p = 0x2e")
  case True
  obtain r p1 where r: "parse_num2 (tl p) = (r, p1)" by force
  note ok = parse_num2_ok [OF r]
  show thesis
  proof (cases r)
    case None
    then show ?thesis using that [of 1] assms True r ok by (auto simp: parse_prec_def)
  next
    case (Some n)
    then have "unat (n + 1) \<le> 100" using ok by (simp add: unat_word_ariths)
    then show ?thesis using that [of "n + 1"] assms True r ok Some by (auto simp: parse_prec_def)
  qed
next
  case False
  then show thesis using assms that [of 0] by (simp add: parse_prec_def)
qed

text \<open>A well-formed conversion: its type, an integer type without base bits for signed numbers, a width and a precision of
  at most two digits.\<close>

definition format_ok :: "SFormat \<Rightarrow> bool" where
  "format_ok sf \<longleftrightarrow> STRFMT_TYPE sf \<in> fmt_code ` {STRFMT_INT, STRFMT_UINT, STRFMT_NUM, STRFMT_STR, STRFMT_CHAR, STRFMT_PTR} \<and> int_format sf \<and>
     unat (STRFMT_WIDTH sf) < 100 \<and> (\<forall>p. fmt_prec sf = Some p \<longrightarrow> p < 100)"

lemma strfmt_map_ok:
  assumes "x \<in> set strfmt_map" "x \<noteq> 0"
  shows "unat x < 64" "x AND 15 \<in> fmt_code ` {STRFMT_INT, STRFMT_UINT, STRFMT_NUM, STRFMT_STR, STRFMT_CHAR, STRFMT_PTR}"
    "x AND 15 = fmt_code STRFMT_INT \<Longrightarrow> x AND STRFMT_T_HEX = 0 \<and> x AND STRFMT_T_OCT = 0"
  using assms by (auto simp: strfmt_map_def fmt_bits)

lemma parse_conv_ok:
  assumes "parse_conv p = (sf, lit, rest)"
  shows "sf = fmt_code STRFMT_ERR \<and> lit \<noteq> [] \<and> rest = [] \<or> format_ok sf \<and> length rest < length p"
proof -
  obtain f p1 where 1: "parse_flags 0 p = (f, p1)" by force
  obtain sf2 p2 where 2: "parse_width f p1 = (sf2, p2)" by force
  obtain sf3 p3 where 3: "parse_prec sf2 p2 = (sf3, p3)" by force
  have f: "flags_only f" "length p1 \<le> length p" using parse_flags_ok [OF _ 1] by auto
  obtain w where w: "sf2 = f OR push_bit STRFMT_SH_WIDTH w" "unat w < 100" "length p2 \<le> length p1" by (rule parse_width_ok [OF 2])
  obtain q where q: "sf3 = sf2 OR push_bit STRFMT_SH_PREC q" "unat q \<le> 100" "length p3 \<le> length p2" by (rule parse_prec_ok [OF 3])
  define c where "c = u32_of_u8 (peek p3) - 0x41"
  define sx where "sx = (if c \<le> 0x78 - 0x41 then strfmt_map ! unat c else 0)"
  define u where "u = (if c AND 0x20 \<noteq> 0 then 0 else STRFMT_F_UPPER)"
  have conv: "parse_conv p = (if sx \<noteq> 0 then (sf3 OR sx OR u, [], tl p3)
      else (fmt_code STRFMT_ERR, 0x25 # take (length p - length (if peek p3 \<ge> 32 then tl p3 else p3)) p, []))"
    unfolding parse_conv_def sx_def u_def c_def 1 2 3 Let_def case_prod_conv by (rule refl)
  show ?thesis
  proof (cases "sx = 0")
    case True
    then show ?thesis using assms by (auto simp: conv)
  next
    case False
    have c: "c \<le> 0x37" using False by (simp add: sx_def split: if_splits)
    then have "unat c < length strfmt_map" by (simp add: word_le_nat_alt strfmt_map_def)
    then have "sx \<in> set strfmt_map" using c by (simp add: sx_def)
    note x = strfmt_map_ok [OF this False]
    have sf: "sf = (f OR u) OR push_bit STRFMT_SH_WIDTH w OR push_bit STRFMT_SH_PREC q OR sx" "rest = tl p3"
      using assms False by (auto simp: conv w(1) q(1) ac_simps)
    have "flags_only (f OR u)" using f(1) by (simp add: u_def)
    note fields = format_fields [OF this _ _ x(1), of w q, folded sf(1)]
    have "p3 \<noteq> []" using c by (auto simp: c_def peek_def word_le_nat_alt)
    then have "length rest < length p" using sf(2) f(2) w(3) q(3) by (cases p3) auto
    moreover have "format_ok sf"
      using fields w(2) q(2) x(2,3) by (auto simp: format_ok_def int_format_def fmt_prec_def Let_def)
    ultimately show ?thesis by blast
  qed
qed

lemma scan_lit_ok:
  assumes "scan_lit str p = (sf, lit, rest)"
  shows "str = [] \<and> p = [] \<and> sf = fmt_code STRFMT_EOF \<or>
    (sf = fmt_code STRFMT_LIT \<and> lit \<noteq> [] \<or> sf = fmt_code STRFMT_ERR \<and> lit \<noteq> [] \<or> format_ok sf) \<and> length rest < length str + length p"
  using assms
proof (induction str p rule: scan_lit.induct)
  case (2 str c p)
  show ?case
  proof (cases "c = 0x25")
    case True
    then show ?thesis using 2 parse_conv_ok [of p sf lit rest] by (auto split: if_splits)
  next
    case False
    then show ?thesis using 2 by auto
  qed
qed (auto split: if_splits)

text \<open>C37: The format parser is total and always gets on. At the end of the format string it says so; otherwise it consumes at
  least one character and returns a literal, an error location, or a well-formed conversion: of a known
  type, without base bits when it is signed, with a width and a precision below 100.\<close>

theorem lj_strfmt_parse_well_formed:
  "case lj_strfmt_parse p of (sf, lit, rest) \<Rightarrow>
     if p = [] then sf = fmt_code STRFMT_EOF
     else length rest < length p \<and>
       (sf = fmt_code STRFMT_LIT \<and> lit \<noteq> [] \<or> sf = fmt_code STRFMT_ERR \<and> lit \<noteq> [] \<or> format_ok sf)"
  using scan_lit_ok [of "[]" p] by (auto simp: lj_strfmt_parse_def split: prod.splits if_splits)

end
