(* ===== verification/Lex_String.thy ===== *)
theory Lex_String
  imports Strfmt
begin

text \<open>
  String tokens of the lexer (\<^verbatim>\<open>lex_string\<close> of \<^verbatim>\<open>lj_lex.c\<close>), with all escape sequences, and the round trip with the quoted
  strings of \<^verbatim>\<open>lj_strfmt.c\<close>. The input is the list of the characters that are left, its head is the current
  character \<^verbatim>\<open>ls->c\<close> and the empty list is \<^verbatim>\<open>LEX_EOF\<close>: where the reader delivers it in pieces, this is their
  concatenation. The token buffer is the list of bytes saved so far (a string buffer, which refines a list).
\<close>

section \<open>The lexer state\<close>

record lexstate =
  lx_in :: "u8 list"
  lx_sb :: "u8 list"
  lx_line :: nat

datatype lex_err = LJ_ERR_XSTR_EOF | LJ_ERR_XSTR | LJ_ERR_XESC | LJ_ERR_XLINES

definition LJ_MAX_LINE :: nat where "LJ_MAX_LINE = 0x7fffff00"

definition LJ_CHAR_SPACE :: u8 where "LJ_CHAR_SPACE = 0x02"
definition LJ_CHAR_XDIGIT :: u8 where "LJ_CHAR_XDIGIT = 0x10"
definition lj_char_isspace :: "u8 \<Rightarrow> bool" where "lj_char_isspace c \<longleftrightarrow> lj_char_isa c LJ_CHAR_SPACE"
definition lj_char_isxdigit :: "u8 \<Rightarrow> bool" where "lj_char_isxdigit c \<longleftrightarrow> lj_char_isa c LJ_CHAR_XDIGIT"

definition lex_next :: "lexstate \<Rightarrow> lexstate" where
  "lex_next ls = ls\<lparr>lx_in := tl (lx_in ls)\<rparr>"

definition lex_save :: "lexstate \<Rightarrow> u32 \<Rightarrow> lexstate" where
  "lex_save ls c = ls\<lparr>lx_sb := lx_sb ls @ [u8_of_u32 c]\<rparr>"

definition lex_savenext :: "lexstate \<Rightarrow> lexstate" where
  "lex_savenext ls = (case lx_in ls of [] \<Rightarrow> lex_next (lex_save ls (-1)) | c # _ \<Rightarrow> lex_next (lex_save ls (u32_of_u8 c)))"

definition lex_iseol :: "lexstate \<Rightarrow> bool" where
  "lex_iseol ls \<longleftrightarrow> (case lx_in ls of [] \<Rightarrow> False | c # _ \<Rightarrow> c = 0x0a \<or> c = 0x0d)"

definition lex_newline :: "lexstate \<Rightarrow> lex_err + lexstate" where
  "lex_newline ls =
     (let old = lx_in ls; ls = lex_next ls;
          ls = (if lex_iseol ls \<and> hd (lx_in ls) \<noteq> hd old then lex_next ls else ls);
          ls = ls\<lparr>lx_line := lx_line ls + 1\<rparr>
      in if lx_line ls \<ge> LJ_MAX_LINE then Inl LJ_ERR_XLINES else Inr ls)"

text \<open>A hexadecimal digit of an escape; the end of the input is none.\<close>

definition hex_nibble :: "u8 list \<Rightarrow> u32 option" where
  "hex_nibble inp =
     (case inp of
        [] \<Rightarrow> None
      | c # _ \<Rightarrow> if lj_char_isdigit c then Some (u32_of_u8 c AND 15)
                else if lj_char_isxdigit c then Some ((u32_of_u8 c AND 15) + 9) else None)"

definition esc_x :: "lexstate \<Rightarrow> lex_err + u32 \<times> lexstate" where
  "esc_x ls =
     (let ls = lex_next ls in
      case hex_nibble (lx_in ls) of
        None \<Rightarrow> Inl LJ_ERR_XESC
      | Some h \<Rightarrow>
          (let ls = lex_next ls in
           case hex_nibble (lx_in ls) of None \<Rightarrow> Inl LJ_ERR_XESC | Some l \<Rightarrow> Inr (push_bit 4 h + l, ls)))"

text \<open>The digits of a Unicode escape, up to the closing brace.\<close>

fun esc_u_loop :: "u32 \<Rightarrow> u8 list \<Rightarrow> (u32 \<times> u8 list) option" where
  "esc_u_loop c [] = None"
| "esc_u_loop c (ch # inp) =
     (let c = push_bit 4 c OR (u32_of_u8 ch AND 15) in
      if \<not> lj_char_isdigit ch \<and> \<not> lj_char_isxdigit ch then None
      else
        (let c = (if \<not> lj_char_isdigit ch then c + 9 else c) in
         if c \<ge> 0x110000 then None
         else case inp of [] \<Rightarrow> None | d # _ \<Rightarrow> if d = 0x7d then Some (c, inp) else esc_u_loop c inp))"

text \<open>The bytes of a code point but the last, and the last.\<close>

definition esc_utf8 :: "lexstate \<Rightarrow> u32 \<Rightarrow> lex_err + u32 \<times> lexstate" where
  "esc_utf8 ls c =
     (if c < 0x800 then
        if c < 0x80 then Inr (c, ls)
        else Inr (0x80 OR (c AND 0x3f), lex_save ls (0xc0 OR drop_bit 6 c))
      else if c \<ge> 0x10000 then
        Inr (0x80 OR (c AND 0x3f),
             lex_save (lex_save (lex_save ls (0xf0 OR drop_bit 18 c)) (0x80 OR (drop_bit 12 c AND 0x3f))) (0x80 OR (drop_bit 6 c AND 0x3f)))
      else if c \<ge> 0xd800 \<and> c < 0xe000 then Inl LJ_ERR_XESC
      else Inr (0x80 OR (c AND 0x3f), lex_save (lex_save ls (0xe0 OR drop_bit 12 c)) (0x80 OR (drop_bit 6 c AND 0x3f))))"

definition esc_u :: "lexstate \<Rightarrow> lex_err + u32 \<times> lexstate" where
  "esc_u ls =
     (let ls = lex_next ls in
      if (case lx_in ls of [] \<Rightarrow> True | c # _ \<Rightarrow> c \<noteq> 0x7b) then Inl LJ_ERR_XESC
      else
        (let ls = lex_next ls in
         case esc_u_loop 0 (lx_in ls) of
           None \<Rightarrow> Inl LJ_ERR_XESC
         | Some (c, inp) \<Rightarrow> esc_utf8 (ls\<lparr>lx_in := inp\<rparr>) c))"

function esc_z :: "lexstate \<Rightarrow> lex_err + lexstate" where
  "esc_z ls =
     (case lx_in ls of
        [] \<Rightarrow> Inr ls
      | c # _ \<Rightarrow>
          if lj_char_isspace c then
            if lex_iseol ls then (case lex_newline ls of Inl e \<Rightarrow> Inl e | Inr ls \<Rightarrow> esc_z ls) else esc_z (lex_next ls)
          else Inr ls)"
  by pat_completeness auto
termination
  by (relation "measure (\<lambda>ls. length (lx_in ls))")
    (auto simp: lex_next_def lex_newline_def Let_def split: if_splits)

text \<open>A decimal escape of one to three digits, at its first digit.\<close>

definition esc_dec :: "lexstate \<Rightarrow> u8 \<Rightarrow> lex_err + lexstate" where
  "esc_dec ls d1 =
     (let c = u32_of_u8 d1 - 0x30; ls = lex_next ls in
      case lx_in ls of
        [] \<Rightarrow> Inr (lex_save ls c)
      | d2 # _ \<Rightarrow>
          if lj_char_isdigit d2 then
            (let c = c * 10 + (u32_of_u8 d2 - 0x30); ls = lex_next ls in
             case lx_in ls of
               [] \<Rightarrow> Inr (lex_save ls c)
             | d3 # _ \<Rightarrow>
                 if lj_char_isdigit d3 then
                   (let c = c * 10 + (u32_of_u8 d3 - 0x30) in
                    if sint c > 255 then Inl LJ_ERR_XESC else Inr (lex_save (lex_next ls) c))
                 else Inr (lex_save ls c))
          else Inr (lex_save ls c))"

text \<open>The escape after a backslash, which has been skipped.\<close>

definition lex_escape :: "lexstate \<Rightarrow> lex_err + lexstate" where
  "lex_escape ls =
     (let finish = (\<lambda>(c, ls). Inr (lex_next (lex_save ls c))) in
      case lx_in ls of
        [] \<Rightarrow> Inr ls
      | c # _ \<Rightarrow>
          if c = 0x61 then finish (0x07, ls)
          else if c = 0x62 then finish (0x08, ls)
          else if c = 0x66 then finish (0x0c, ls)
          else if c = 0x6e then finish (0x0a, ls)
          else if c = 0x72 then finish (0x0d, ls)
          else if c = 0x74 then finish (0x09, ls)
          else if c = 0x76 then finish (0x0b, ls)
          else if c = 0x78 then bindE (esc_x ls) finish
          else if c = 0x75 then bindE (esc_u ls) finish
          else if c = 0x7a then esc_z (lex_next ls)
          else if c = 0x0a \<or> c = 0x0d then lex_newline (lex_save ls 0x0a)
          else if c = 0x5c \<or> c = 0x22 \<or> c = 0x27 then finish (u32_of_u8 c, ls)
          else if \<not> lj_char_isdigit c then Inl LJ_ERR_XESC
          else esc_dec ls c)"

subsection \<open>Escapes consume input\<close>

lemma lex_next_in [simp]: "lx_in (lex_next ls) = tl (lx_in ls)" "lx_sb (lex_next ls) = lx_sb ls" "lx_line (lex_next ls) = lx_line ls"
  by (simp_all add: lex_next_def)

lemma lex_save_in [simp]: "lx_in (lex_save ls c) = lx_in ls" "lx_sb (lex_save ls c) = lx_sb ls @ [u8_of_u32 c]" "lx_line (lex_save ls c) = lx_line ls"
  by (simp_all add: lex_save_def)

lemma lex_newline_length: "lex_newline ls = Inr ls' \<Longrightarrow> length (lx_in ls') \<le> length (lx_in ls)"
  by (auto simp: lex_newline_def Let_def split: if_splits)

lemma esc_z_length: "esc_z ls = Inr ls' \<Longrightarrow> length (lx_in ls') \<le> length (lx_in ls)"
proof (induction ls rule: esc_z.induct)
  case (1 ls)
  show ?case
  proof (cases "lx_in ls")
    case Nil
    then show ?thesis using "1.prems" by (simp add: esc_z.simps)
  next
    case (Cons c inp)
    show ?thesis
    proof (cases "lj_char_isspace c \<and> lex_iseol ls")
      case True
      then obtain ls1 where ls1: "lex_newline ls = Inr ls1" "esc_z ls1 = Inr ls'"
        using "1.prems" Cons by (subst (asm) esc_z.simps) (auto split: sum.splits)
      then have "length (lx_in ls') \<le> length (lx_in ls1)" using "1.IH"(1) [OF Cons] True by blast
      with lex_newline_length [OF ls1(1)] show ?thesis by simp
    next
      case False
      then have "ls' = ls \<or> lj_char_isspace c \<and> esc_z (lex_next ls) = Inr ls'"
        using "1.prems" Cons by (subst (asm) esc_z.simps) (auto split: if_splits)
      moreover have "length (lx_in ls') \<le> length (lx_in (lex_next ls))" if "lj_char_isspace c" "esc_z (lex_next ls) = Inr ls'"
        using "1.IH"(2) [OF Cons] that False by blast
      ultimately show ?thesis by fastforce
    qed
  qed
qed

declare esc_z.simps [simp del]

lemma esc_u_loop_length: "esc_u_loop c inp = Some (c', inp') \<Longrightarrow> length inp' \<le> length inp"
proof (induction inp arbitrary: c)
  case (Cons ch inp)
  then have "inp' = inp \<or> (\<exists>c2. esc_u_loop c2 inp = Some (c', inp'))"
    unfolding esc_u_loop.simps Let_def by (auto simp del: esc_u_loop.simps split: if_splits list.splits)
  then show ?case using Cons.IH by force
qed simp

lemma esc_x_length: "esc_x ls = Inr (c, ls') \<Longrightarrow> length (lx_in ls') \<le> length (lx_in ls)"
  by (auto simp: esc_x_def Let_def split: option.splits)

lemma esc_u_length: "esc_u ls = Inr (c, ls') \<Longrightarrow> length (lx_in ls') \<le> length (lx_in ls)"
  by (auto simp: esc_u_def esc_utf8_def Let_def split: option.splits if_splits dest!: esc_u_loop_length)

lemma esc_dec_length: "esc_dec ls d = Inr ls' \<Longrightarrow> length (lx_in ls') \<le> length (lx_in ls)"
  by (cases "lx_in ls") (auto simp: esc_dec_def Let_def split: list.splits if_splits)

lemma lex_escape_length: "lex_escape ls = Inr ls' \<Longrightarrow> length (lx_in ls') \<le> length (lx_in ls)"
  unfolding lex_escape_def Let_def bindE_def
  by (auto split: list.splits if_splits sum.splits dest!: esc_x_length esc_u_length esc_dec_length esc_z_length lex_newline_length)

section \<open>String tokens\<close>

function lex_string_loop :: "u8 \<Rightarrow> lexstate \<Rightarrow> lex_err + lexstate" where
  "lex_string_loop delim ls =
     (case lx_in ls of
        [] \<Rightarrow> Inl LJ_ERR_XSTR_EOF
      | c # _ \<Rightarrow>
          if c = delim then Inr ls
          else if c = 0x0a \<or> c = 0x0d then Inl LJ_ERR_XSTR
          else if c = 0x5c then (case lex_escape (lex_next ls) of Inl e \<Rightarrow> Inl e | Inr ls \<Rightarrow> lex_string_loop delim ls)
          else lex_string_loop delim (lex_savenext ls))"
  by pat_completeness auto
termination
  by (relation "measure (\<lambda>(delim, ls). length (lx_in ls))") (auto simp: lex_savenext_def dest!: lex_escape_length)

declare lex_string_loop.simps [simp del]

definition lex_string :: "lexstate \<Rightarrow> lex_err + u8 list \<times> lexstate" where
  "lex_string ls =
     bindE (lex_string_loop (hd (lx_in ls)) (lex_savenext ls))
       (\<lambda>ls. let ls = lex_savenext ls in Inr (take (length (lx_sb ls) - 2) (drop 1 (lx_sb ls)), ls))"

section \<open>Quoted strings are read back\<close>

fun quoted :: "u8 list \<Rightarrow> u8 \<Rightarrow> u8 list" where
  "quoted [] nx = []"
| "quoted (c # s) nx = quote_char c (case s of [] \<Rightarrow> nx | d # _ \<Rightarrow> d) @ quoted s nx"

definition dec_val :: "u8 list \<Rightarrow> u32" where
  "dec_val ds = foldl (\<lambda>v d. v * 10 + (u32_of_u8 d - 0x30)) 0 ds"

text \<open>A backslash and one to three digits that stand for \<open>c\<close>; three if a digit follows.\<close>

definition dec_escape :: "u8 \<Rightarrow> bool \<Rightarrow> u8 list \<Rightarrow> bool" where
  "dec_escape c follows bs \<longleftrightarrow>
     (case bs of
        [] \<Rightarrow> False
      | b # ds \<Rightarrow> b = 0x5c \<and> list_all lj_char_isdigit ds \<and> (length ds = 3 \<or> (length ds = 1 \<or> length ds = 2) \<and> \<not> follows) \<and> dec_val ds = u32_of_u8 c)"

definition cntrl_chars :: "u8 list" where
  "cntrl_chars = map word_of_nat ([0..<32] @ [127])"

lemma iscntrl_chars: "lj_char_iscntrl c \<Longrightarrow> c \<in> set cntrl_chars"
proof -
  have t: "list_all (\<lambda>i. lj_char_bits ! (1 + i) AND 1 = 0 \<or> i < 32 \<or> i = 127) [0..<256]" by code_simp
  assume "lj_char_iscntrl c"
  then have "unat c < 32 \<or> unat c = 127" using t unat_less_8 [of c] by (auto simp: list_all_iff lj_char_iscntrl_def lj_char_isa_def LJ_CHAR_CNTRL_def)
  moreover have "c = word_of_nat (unat c)" by simp
  ultimately show ?thesis unfolding cntrl_chars_def by (metis (no_types, lifting) image_eqI list.set_map set_append Un_iff atLeastLessThan_iff set_upt zero_le list.set_intros(1))
qed

lemma quote_char_cntrl:
  assumes "lj_char_iscntrl c" "c \<noteq> 0x0a"
  shows "dec_escape c (lj_char_isdigit nx) (quote_char c nx)"
proof -
  define n :: u8 where "n = (if lj_char_isdigit nx then 0x30 else 0x41)"
  have d: "lj_char_isdigit n = lj_char_isdigit nx"
  proof -
    have "lj_char_isdigit 0x30 \<and> \<not> lj_char_isdigit 0x41" by code_simp
    then show ?thesis by (simp add: n_def)
  qed
  have t: "list_all (\<lambda>c. c = 0x0a \<or> dec_escape c True (quote_char c 0x30) \<and> dec_escape c False (quote_char c 0x41)) cntrl_chars" by code_simp
  have "quote_char c nx = quote_char c n" unfolding quote_char_def d ..
  moreover have "c \<in> set cntrl_chars" by (rule iscntrl_chars [OF assms(1)])
  ultimately show ?thesis using t assms(2) unfolding list_all_iff n_def by auto
qed

text \<open>The lexer steps over the quoted form of one character.\<close>

definition reads :: "lexstate \<Rightarrow> u8 list \<Rightarrow> u8 \<Rightarrow> lexstate \<Rightarrow> bool" where
  "reads ls tail c ls' \<longleftrightarrow> lx_in ls' = tail \<and> lx_sb ls' = lx_sb ls @ [c] \<and> lx_line ls' \<le> lx_line ls + 1"

lemma loop_escape:
  assumes "lx_in ls = 0x5c # bs" "lex_escape (lex_next ls) = Inr ls'"
  shows "lex_string_loop 0x22 ls = lex_string_loop 0x22 ls'"
  using assms by (simp add: lex_string_loop.simps [of _ ls])

lemma digit_not_escape:
  assumes "lj_char_isdigit d"
  shows "d \<noteq> 0x61" "d \<noteq> 0x62" "d \<noteq> 0x66" "d \<noteq> 0x6e" "d \<noteq> 0x72" "d \<noteq> 0x74" "d \<noteq> 0x76" "d \<noteq> 0x78" "d \<noteq> 0x75" "d \<noteq> 0x7a"
    "d \<noteq> 0x0a" "d \<noteq> 0x0d" "d \<noteq> 0x5c" "d \<noteq> 0x22" "d \<noteq> 0x27"
proof -
  have "list_all (\<lambda>c. \<not> lj_char_isdigit c) [0x61, 0x62, 0x66, 0x6e, 0x72, 0x74, 0x76, 0x78, 0x75, 0x7a, 0x0a, 0x0d, 0x5c, 0x22, 0x27]" by code_simp
  then show "d \<noteq> 0x61" "d \<noteq> 0x62" "d \<noteq> 0x66" "d \<noteq> 0x6e" "d \<noteq> 0x72" "d \<noteq> 0x74" "d \<noteq> 0x76" "d \<noteq> 0x78" "d \<noteq> 0x75" "d \<noteq> 0x7a"
    "d \<noteq> 0x0a" "d \<noteq> 0x0d" "d \<noteq> 0x5c" "d \<noteq> 0x22" "d \<noteq> 0x27" using assms by auto
qed

lemma escape_digits:
  assumes "lx_in ls = ds @ tail" "list_all lj_char_isdigit ds" "tail \<noteq> []" "length ds = 3 \<or> (length ds = 1 \<or> length ds = 2) \<and> \<not> lj_char_isdigit (hd tail)"
    and v: "dec_val ds = u32_of_u8 c"
  obtains ls' where "lex_escape ls = Inr ls'" "lx_in ls' = tail" "lx_sb ls' = lx_sb ls @ [c]" "lx_line ls' = lx_line ls"
proof -
  obtain t ts where tail: "tail = t # ts" using assms(3) by (cases tail) auto
  have "sint (u32_of_u8 c) = int (unat (u32_of_u8 c))" by (rule sint_of_small) (use unat_less_8 [of c] in simp)
  then have le: "\<not> sint (u32_of_u8 c) > 255" using unat_less_8 [of c] unfolding unat_widen by linarith
  consider d1 where "ds = [d1]" | d1 d2 where "ds = [d1, d2]" | d1 d2 d3 where "ds = [d1, d2, d3]"
    using assms(4) by (auto simp: length_Suc_conv numeral_eq_Suc)
  then show thesis
  proof cases
    case 1
    then have "lex_escape ls = esc_dec ls d1" using assms(1,2) digit_not_escape [of d1] by (simp add: lex_escape_def Let_def)
    also have "\<dots> = Inr (lex_save (lex_next ls) (dec_val ds))"
      using 1 assms tail by (simp add: esc_dec_def Let_def dec_val_def)
    finally show ?thesis using that [of "lex_save (lex_next ls) (dec_val ds)"] 1 assms(1) v by simp
  next
    case 2
    then have "lex_escape ls = esc_dec ls d1" using assms(1,2) digit_not_escape [of d1] by (simp add: lex_escape_def Let_def)
    also have "\<dots> = Inr (lex_save (lex_next (lex_next ls)) (dec_val ds))"
      using 2 assms tail by (simp add: esc_dec_def Let_def dec_val_def)
    finally show ?thesis using that [of "lex_save (lex_next (lex_next ls)) (dec_val ds)"] 2 assms(1) v by simp
  next
    case 3
    then have "lex_escape ls = esc_dec ls d1" using assms(1,2) digit_not_escape [of d1] by (simp add: lex_escape_def Let_def)
    also have "\<dots> = (if sint (dec_val ds) > 255 then Inl LJ_ERR_XESC else Inr (lex_save (lex_next (lex_next (lex_next ls))) (dec_val ds)))"
      using 3 assms tail by (simp add: esc_dec_def Let_def dec_val_def)
    finally show ?thesis using that [of "lex_save (lex_next (lex_next (lex_next ls))) (dec_val ds)"] 3 assms(1) v le by simp
  qed
qed

lemma loop_quote_char:
  assumes inp: "lx_in ls = quote_char c nx @ tail" and tail: "tail \<noteq> []" "hd tail \<noteq> 0x0a" "hd tail \<noteq> 0x0d"
    and nx: "lj_char_isdigit (hd tail) \<longrightarrow> lj_char_isdigit nx" and line: "lx_line ls + 1 < LJ_MAX_LINE"
  obtains ls' where "lex_string_loop 0x22 ls = lex_string_loop 0x22 ls'" "reads ls tail c ls'"
proof -
  obtain t ts where t: "tail = t # ts" using tail(1) by (cases tail) auto
  have w: "u32_of_u8 c = 0x22 \<longleftrightarrow> c = 0x22" "u32_of_u8 c = 0x5c \<longleftrightarrow> c = 0x5c" "u32_of_u8 c = 0x0a \<longleftrightarrow> c = 0x0a"
    by (simp_all add: word_unat_eq_iff)
  consider (esc) "c = 0x22 \<or> c = 0x5c" | (nl) "c = 0x0a" | (cntrl) "lj_char_iscntrl c" "c \<noteq> 0x22" "c \<noteq> 0x5c" "c \<noteq> 0x0a"
    | (plain) "\<not> lj_char_iscntrl c" "c \<noteq> 0x22" "c \<noteq> 0x5c" "c \<noteq> 0x0a" by blast
  then show thesis
  proof cases
    case esc
    then have "lx_in ls = 0x5c # c # tail" using inp by (auto simp: quote_char_def)
    moreover from this esc have "lex_escape (lex_next ls) = Inr (lex_next (lex_save (lex_next ls) (u32_of_u8 c)))"
      by (auto simp: lex_escape_def Let_def)
    ultimately show ?thesis using that loop_escape by (simp add: reads_def)
  next
    case nl
    then have i: "lx_in ls = 0x5c # 0x0a # tail" using inp by (simp add: quote_char_def)
    define ls1 where "ls1 = lex_next (lex_save (lex_next ls) 0x0a)"
    have "lex_escape (lex_next ls) = Inr (ls1\<lparr>lx_line := lx_line ls + 1\<rparr>)"
      using i tail t line by (simp add: lex_escape_def lex_newline_def lex_iseol_def Let_def ls1_def)
    with i show ?thesis using that [OF loop_escape [OF i]] nl by (simp add: reads_def ls1_def)
  next
    case cntrl
    obtain ds where ds: "quote_char c nx = 0x5c # ds" "list_all lj_char_isdigit ds" "dec_val ds = u32_of_u8 c"
      "length ds = 3 \<or> (length ds = 1 \<or> length ds = 2) \<and> \<not> lj_char_isdigit nx"
      using quote_char_cntrl [OF cntrl(1,4), of nx] by (auto simp: dec_escape_def split: list.splits)
    have i: "lx_in (lex_next ls) = ds @ tail" "lx_in ls = 0x5c # ds @ tail" using inp ds(1) by simp_all
    have l: "length ds = 3 \<or> (length ds = 1 \<or> length ds = 2) \<and> \<not> lj_char_isdigit (hd tail)" using ds(4) nx by blast
    obtain ls' where "lex_escape (lex_next ls) = Inr ls'" "lx_in ls' = tail" "lx_sb ls' = lx_sb (lex_next ls) @ [c]" "lx_line ls' = lx_line (lex_next ls)"
      by (rule escape_digits [OF i(1) ds(2) tail(1) l ds(3)])
    then show ?thesis using that [of ls'] loop_escape [OF i(2)] by (simp add: reads_def)
  next
    case plain
    have "lj_char_iscntrl 0x0d" by code_simp
    then have "c \<noteq> 0x0d" using plain(1) by auto
    moreover have i: "lx_in ls = c # tail" using inp plain w by (simp add: quote_char_def Let_def)
    ultimately have "lex_string_loop 0x22 ls = lex_string_loop 0x22 (lex_savenext ls)"
      using plain by (simp add: lex_string_loop.simps [of _ ls])
    then show ?thesis using that [of "lex_savenext ls"] i by (simp add: reads_def lex_savenext_def)
  qed
qed

lemma quote_char_head:
  "quote_char d n \<noteq> []" "hd (quote_char d n) \<noteq> 0x0a" "hd (quote_char d n) \<noteq> 0x0d" "lj_char_isdigit (hd (quote_char d n)) \<longrightarrow> lj_char_isdigit d"
proof -
  have c: "lj_char_iscntrl 0x0d" "\<not> lj_char_isdigit 0x5c" by code_simp+
  have "hd (quote_char d n) = 0x5c \<or> hd (quote_char d n) = d \<and> d \<noteq> 0x0a \<and> \<not> lj_char_iscntrl d"
    by (auto simp: quote_char_def Let_def word_unat_eq_iff)
  then show "hd (quote_char d n) \<noteq> 0x0a" "hd (quote_char d n) \<noteq> 0x0d" "lj_char_isdigit (hd (quote_char d n)) \<longrightarrow> lj_char_isdigit d" using c by auto
  show "quote_char d n \<noteq> []" by (simp add: quote_char_def Let_def)
qed

lemma loop_quoted:
  assumes "lx_in ls = quoted s nx @ 0x22 # rest" "lx_line ls + length s < LJ_MAX_LINE"
  shows "\<exists>ls'. lex_string_loop 0x22 ls = Inr ls' \<and> lx_in ls' = 0x22 # rest \<and> lx_sb ls' = lx_sb ls @ s"
  using assms
proof (induction s arbitrary: ls)
  case Nil
  then show ?case by (simp add: lex_string_loop.simps [of _ ls])
next
  case (Cons c s)
  let ?tail = "quoted s nx @ 0x22 # rest" and ?n = "case s of [] \<Rightarrow> nx | d # _ \<Rightarrow> d"
  have "\<not> lj_char_isdigit 0x22" by code_simp
  then have t: "?tail \<noteq> []" "hd ?tail \<noteq> 0x0a" "hd ?tail \<noteq> 0x0d" "lj_char_isdigit (hd ?tail) \<longrightarrow> lj_char_isdigit ?n"
    using quote_char_head by (cases s; simp)+
  have "lx_in ls = quote_char c ?n @ ?tail" "lx_line ls + 1 < LJ_MAX_LINE" using Cons.prems by simp_all
  then obtain ls' where ls': "lex_string_loop 0x22 ls = lex_string_loop 0x22 ls'" "reads ls ?tail c ls'"
    by (rule loop_quote_char [OF _ t])
  then have "lx_in ls' = ?tail" "lx_line ls' + length s < LJ_MAX_LINE" using Cons.prems(2) by (auto simp: reads_def)
  from Cons.IH [OF this] ls' show ?case by (auto simp: reads_def)
qed

lemma quote_char_length: "length (quote_char c n) \<le> 4"
proof (cases "lj_char_iscntrl c \<and> c \<noteq> 0x0a")
  case True
  then have "dec_escape c (lj_char_isdigit n) (quote_char c n)" using quote_char_cntrl by blast
  then show ?thesis by (auto simp: dec_escape_def split: list.splits)
qed (auto simp: quote_char_def Let_def word_unat_eq_iff)

lemma quote_loop_appends:
  "sbuf_ok sb \<Longrightarrow> 4 * length s \<le> sbuf_room sb \<Longrightarrow> sb.appends sb (quote_loop s nx sb) (quoted s nx)"
proof (induction s arbitrary: sb)
  case (Cons c s)
  let ?q = "quote_char c (case s of [] \<Rightarrow> nx | d # _ \<Rightarrow> d)"
  have "sb.appends sb (bindE (buf_write sb 4 ?q) (quote_loop s nx)) (?q @ quoted s nx)"
  proof (rule sb.appends_bind)
    show "sb.appends sb (buf_write sb 4 ?q) ?q" using Cons.prems by (intro sb.appends_write quote_char_length) auto
    fix sb' assume "sbuf_ok sb'" "sbuf_room sb \<le> sbuf_room sb' + length ?q"
    then show "sb.appends sb' (quote_loop s nx sb') (quoted s nx)"
      using Cons.prems quote_char_length [of c "case s of [] \<Rightarrow> nx | d # _ \<Rightarrow> d"] by (intro Cons.IH) auto
  qed
  then show ?case by simp
qed (simp add: sb.appends_refl)

lemma quoted_length: "length (quoted s nx) \<le> 4 * length s"
  by (induction s) (auto intro: add_mono quote_char_length)

lemma strfmt_putquotedlen_appends:
  assumes "sbuf_ok sb" "4 * length s + 2 \<le> sbuf_room sb"
  shows "sb.appends sb (strfmt_putquotedlen sb s nx) ([0x22] @ quoted s nx @ [0x22])"
  unfolding strfmt_putquotedlen_def lj_buf_putb_def
proof (rule sb.appends_bind)
  show "sb.appends sb (buf_write sb 1 [u8_of_u32 0x22]) [0x22]" using sb.appends_write [OF assms(1), of 1 "[0x22]"] assms(2) by simp
  fix b assume b: "sbuf_ok b" "sbuf_room sb \<le> sbuf_room b + length [0x22 :: u8]"
  show "sb.appends b (bindE (quote_loop s nx b) (\<lambda>sb. buf_write sb 1 [u8_of_u32 0x22])) (quoted s nx @ [0x22])"
  proof (rule sb.appends_bind)
    show "sb.appends b (quote_loop s nx b) (quoted s nx)" using b assms(2) by (intro quote_loop_appends) auto
    fix b' assume "sbuf_ok b'" "sbuf_room b \<le> sbuf_room b' + length (quoted s nx)"
    then show "sb.appends b' (buf_write b' 1 [u8_of_u32 0x22]) [0x22]"
      using sb.appends_write [of b' 1 "[0x22]"] b assms(2) quoted_length [of s nx] by simp
  qed
qed

text \<open>C6: The lexer reads back what string formatting quotes: the bytes written for \<^verbatim>\<open>%q\<close>, followed by anything, are a string
  token with exactly the original contents, for every string of bytes, control characters, quotes,
  backslashes, line ends and zero bytes included; the lexer stops behind the closing quote.\<close>

theorem quoted_string_roundtrip:
  assumes "sbuf_ok sb" "sbuf_data sb = []" "4 * length s + 2 \<le> sbuf_room sb" "line + length s < LJ_MAX_LINE"
  shows "\<exists>sb' ls'. lj_strfmt_putquoted sb s = Inr sb' \<and>
    lex_string \<lparr>lx_in = sbuf_data sb' @ rest, lx_sb = [], lx_line = line\<rparr> = Inr (s, ls') \<and> lx_in ls' = rest"
proof -
  obtain sb' where sb': "lj_strfmt_putquoted sb s = Inr sb'" "sbuf_data sb' = [0x22] @ quoted s 0 @ [0x22]"
    using strfmt_putquotedlen_appends [OF assms(1,3), of 0] assms(2) by (auto simp: lj_strfmt_putquoted_def sb.appends_def)
  let ?ls = "\<lparr>lx_in = sbuf_data sb' @ rest, lx_sb = [], lx_line = line\<rparr>"
  have i: "lx_in (lex_savenext ?ls) = quoted s 0 @ 0x22 # rest" "lx_line (lex_savenext ?ls) + length s < LJ_MAX_LINE" "lx_sb (lex_savenext ?ls) = [0x22]"
    using assms(4) sb'(2) by (simp_all add: lex_savenext_def)
  obtain ls1 where "lex_string_loop 0x22 (lex_savenext ?ls) = Inr ls1" "lx_in ls1 = 0x22 # rest" "lx_sb ls1 = [0x22] @ s"
    using loop_quoted [OF i(1,2)] i(3) by auto
  then have "lex_string ?ls = Inr (s, lex_savenext ls1)" "lx_in (lex_savenext ls1) = rest"
    using sb'(2) by (simp_all add: lex_string_def lex_savenext_def Let_def)
  then show ?thesis using sb'(1) by blast
qed

theorem quoted_string_roundtrip_witness:
  "\<exists>sb' ls'. lj_strfmt_putquoted lj_buf_init [0x61, 0x0a, 0x00, 0x31, 0x22, 0x7f] = Inr sb' \<and>
    lex_string \<lparr>lx_in = sbuf_data sb' @ [0x29], lx_sb = [], lx_line = 1\<rparr> = Inr ([0x61, 0x0a, 0x00, 0x31, 0x22, 0x7f], ls') \<and> lx_in ls' = [0x29]"
  by (rule quoted_string_roundtrip) (simp_all add: sbuf_ok_def sbuf_data_def sbuf_room_def lj_buf_init_def LJ_MAX_BUF_def LJ_MAX_LINE_def)

end
