(* ===== verification/Dce.thy ===== *)
theory Dce
  imports Snabb_Prelude "HOL-Library.Sublist"
begin

text \<open>
  Dead-code elimination before loop optimisation (\<^verbatim>\<open>lj_opt_dce.c\<close>) on the whole instruction set. Marks start at the
  snapshots, are propagated backwards to the operands, and what is neither marked nor a side effect becomes a NOP and is
  taken out of the chain of its opcode. An opcode is its index in \<^verbatim>\<open>IRDEF\<close>; a chain, linked through the instructions
  in the code, is the list of its references, most recent first.
\<close>

section \<open>Instruction modes\<close>

definition IRMref :: u8 where "IRMref = 0"
definition IRMlit :: u8 where "IRMlit = 1"
definition IRMcst :: u8 where "IRMcst = 2"
definition IRMnone :: u8 where "IRMnone = 3"

definition IRM_C :: u8 where "IRM_C = 0x10"
definition IRM_N :: u8 where "IRM_N = 0x00"
definition IRM_R :: u8 where "IRM_R = IRM_N"
definition IRM_A :: u8 where "IRM_A = 0x20"
definition IRM_L :: u8 where "IRM_L = 0x40"
definition IRM_S :: u8 where "IRM_S = 0x60"
definition IRM_W :: u8 where "IRM_W = 0x80"
definition IRM_NW :: u8 where "IRM_NW = IRM_N OR IRM_W"
definition IRM_CW :: u8 where "IRM_CW = IRM_C OR IRM_W"
definition IRM_AW :: u8 where "IRM_AW = IRM_A OR IRM_W"
definition IRM_LW :: u8 where "IRM_LW = IRM_L OR IRM_W"

definition IRMODE :: "u8 \<Rightarrow> u8 \<Rightarrow> u8 \<Rightarrow> u8" where
  "IRMODE m m1 m2 = (m1 OR push_bit 2 m2 OR m) XOR IRM_W"

definition irdef :: "(string \<times> u8) list" where
  "irdef =
   [(''LT'', IRMODE IRM_N IRMref IRMref), (''GE'', IRMODE IRM_N IRMref IRMref), (''LE'', IRMODE IRM_N IRMref IRMref),
    (''GT'', IRMODE IRM_N IRMref IRMref), (''ULT'', IRMODE IRM_N IRMref IRMref), (''UGE'', IRMODE IRM_N IRMref IRMref),
    (''ULE'', IRMODE IRM_N IRMref IRMref), (''UGT'', IRMODE IRM_N IRMref IRMref), (''EQ'', IRMODE IRM_C IRMref IRMref),
    (''NE'', IRMODE IRM_C IRMref IRMref), (''ABC'', IRMODE IRM_N IRMref IRMref),
    (''RETF'', IRMODE IRM_S IRMref IRMref), (''NOP'', IRMODE IRM_N IRMnone IRMnone),
    (''BASE'', IRMODE IRM_N IRMlit IRMlit), (''PVAL'', IRMODE IRM_N IRMlit IRMnone),
    (''GCSTEP'', IRMODE IRM_S IRMnone IRMnone), (''HIOP'', IRMODE IRM_S IRMref IRMref),
    (''LOOP'', IRMODE IRM_S IRMnone IRMnone), (''USE'', IRMODE IRM_S IRMref IRMnone),
    (''PHI'', IRMODE IRM_S IRMref IRMref), (''RENAME'', IRMODE IRM_S IRMref IRMlit),
    (''KPRI'', IRMODE IRM_N IRMnone IRMnone), (''KINT'', IRMODE IRM_N IRMcst IRMnone),
    (''KGC'', IRMODE IRM_N IRMcst IRMnone), (''KPTR'', IRMODE IRM_N IRMcst IRMnone),
    (''KKPTR'', IRMODE IRM_N IRMcst IRMnone), (''KNULL'', IRMODE IRM_N IRMcst IRMnone),
    (''KNUM'', IRMODE IRM_N IRMcst IRMnone), (''KINT64'', IRMODE IRM_N IRMcst IRMnone),
    (''KSLOT'', IRMODE IRM_N IRMref IRMlit), (''BNOT'', IRMODE IRM_N IRMref IRMnone),
    (''BSWAP'', IRMODE IRM_N IRMref IRMnone), (''BAND'', IRMODE IRM_C IRMref IRMref),
    (''BOR'', IRMODE IRM_C IRMref IRMref), (''BXOR'', IRMODE IRM_C IRMref IRMref),
    (''BSHL'', IRMODE IRM_N IRMref IRMref), (''BSHR'', IRMODE IRM_N IRMref IRMref),
    (''BSAR'', IRMODE IRM_N IRMref IRMref), (''BROL'', IRMODE IRM_N IRMref IRMref),
    (''BROR'', IRMODE IRM_N IRMref IRMref), (''ADD'', IRMODE IRM_C IRMref IRMref),
    (''SUB'', IRMODE IRM_N IRMref IRMref), (''MUL'', IRMODE IRM_C IRMref IRMref),
    (''DIV'', IRMODE IRM_N IRMref IRMref), (''MOD'', IRMODE IRM_N IRMref IRMref),
    (''POW'', IRMODE IRM_N IRMref IRMref), (''NEG'', IRMODE IRM_N IRMref IRMref),
    (''ABS'', IRMODE IRM_N IRMref IRMref), (''LDEXP'', IRMODE IRM_N IRMref IRMref),
    (''MIN'', IRMODE IRM_C IRMref IRMref), (''MAX'', IRMODE IRM_C IRMref IRMref),
    (''FPMATH'', IRMODE IRM_N IRMref IRMlit), (''ADDOV'', IRMODE IRM_CW IRMref IRMref),
    (''SUBOV'', IRMODE IRM_NW IRMref IRMref), (''MULOV'', IRMODE IRM_CW IRMref IRMref),
    (''AREF'', IRMODE IRM_R IRMref IRMref), (''HREFK'', IRMODE IRM_R IRMref IRMref),
    (''HREF'', IRMODE IRM_L IRMref IRMref), (''NEWREF'', IRMODE IRM_S IRMref IRMref),
    (''UREFO'', IRMODE IRM_LW IRMref IRMlit), (''UREFC'', IRMODE IRM_LW IRMref IRMlit),
    (''FREF'', IRMODE IRM_R IRMref IRMlit), (''TMPREF'', IRMODE IRM_S IRMref IRMlit),
    (''STRREF'', IRMODE IRM_N IRMref IRMref), (''LREF'', IRMODE IRM_L IRMnone IRMnone),
    (''ALOAD'', IRMODE IRM_L IRMref IRMnone), (''HLOAD'', IRMODE IRM_L IRMref IRMnone),
    (''ULOAD'', IRMODE IRM_L IRMref IRMnone), (''FLOAD'', IRMODE IRM_L IRMref IRMlit),
    (''XLOAD'', IRMODE IRM_L IRMref IRMlit), (''SLOAD'', IRMODE IRM_L IRMlit IRMlit),
    (''VLOAD'', IRMODE IRM_L IRMref IRMlit), (''ALEN'', IRMODE IRM_L IRMref IRMref),
    (''ASTORE'', IRMODE IRM_S IRMref IRMref), (''HSTORE'', IRMODE IRM_S IRMref IRMref),
    (''USTORE'', IRMODE IRM_S IRMref IRMref), (''FSTORE'', IRMODE IRM_S IRMref IRMref),
    (''XSTORE'', IRMODE IRM_S IRMref IRMref), (''SNEW'', IRMODE IRM_N IRMref IRMref),
    (''XSNEW'', IRMODE IRM_A IRMref IRMref), (''TNEW'', IRMODE IRM_AW IRMlit IRMlit),
    (''TDUP'', IRMODE IRM_AW IRMref IRMnone), (''CNEW'', IRMODE IRM_AW IRMref IRMref),
    (''CNEWI'', IRMODE IRM_NW IRMref IRMref), (''BUFHDR'', IRMODE IRM_L IRMref IRMlit),
    (''BUFPUT'', IRMODE IRM_LW IRMref IRMref), (''BUFSTR'', IRMODE IRM_AW IRMref IRMref),
    (''TBAR'', IRMODE IRM_S IRMref IRMnone), (''OBAR'', IRMODE IRM_S IRMref IRMref),
    (''XBAR'', IRMODE IRM_S IRMnone IRMnone), (''CONV'', IRMODE IRM_N IRMref IRMlit),
    (''TOBIT'', IRMODE IRM_N IRMref IRMref), (''TOSTR'', IRMODE IRM_N IRMref IRMlit),
    (''STRTO'', IRMODE IRM_N IRMref IRMnone), (''CALLN'', IRMODE IRM_NW IRMref IRMlit),
    (''CALLA'', IRMODE IRM_AW IRMref IRMlit), (''CALLL'', IRMODE IRM_LW IRMref IRMlit),
    (''CALLS'', IRMODE IRM_S IRMref IRMlit), (''CALLXS'', IRMODE IRM_S IRMref IRMref),
    (''CARG'', IRMODE IRM_N IRMref IRMref)]"

definition lj_ir_mode :: "nat \<Rightarrow> u8" where
  "lj_ir_mode o' = snd (irdef ! o')"

section \<open>The trace\<close>

record dins =
  d_o :: nat
  d_irt :: u8
  d_op1 :: nat
  d_op2 :: nat

text \<open>The buffer, the chains, and the snapshots as offset and number of entries in the snapshot map.\<close>

record dce_state =
  d_ir :: "nat \<Rightarrow> dins"
  d_nins :: nat
  d_chain :: "nat \<Rightarrow> nat list"
  d_snap :: "(nat \<times> nat) list"
  d_snapmap :: "u32 list"
  d_opt_dce :: bool
  d_bpropcache :: "u64 list"

definition REF_FIRST :: nat where "REF_FIRST = 0x8000 + 1"
definition IRT_MARK :: u8 where "IRT_MARK = 0x20"
definition IRT_GUARD :: u8 where "IRT_GUARD = 0x80"
definition IR_NOP :: nat where "IR_NOP = 12"

definition irt_ismarked :: "dins \<Rightarrow> bool" where "irt_ismarked ir \<longleftrightarrow> d_irt ir AND IRT_MARK \<noteq> 0"
definition irt_setmark :: "dins \<Rightarrow> dins" where "irt_setmark ir = ir\<lparr>d_irt := d_irt ir OR IRT_MARK\<rparr>"
definition irt_clearmark :: "dins \<Rightarrow> dins" where "irt_clearmark ir = ir\<lparr>d_irt := d_irt ir AND NOT IRT_MARK\<rparr>"

definition ir_sideeff :: "dins \<Rightarrow> bool" where
  "ir_sideeff ir \<longleftrightarrow> (d_irt ir OR NOT IRT_GUARD) AND lj_ir_mode (d_o ir) \<ge> IRM_S"

definition lj_ir_nop :: dins where
  "lj_ir_nop = \<lparr>d_o = IR_NOP, d_irt = 0, d_op1 = 0, d_op2 = 0\<rparr>"

definition snap_ref :: "u32 \<Rightarrow> nat" where
  "snap_ref sn = unat (sn AND 0xffff)"

section \<open>The pass\<close>

definition mark_ref :: "nat \<Rightarrow> dce_state \<Rightarrow> dce_state" where
  "mark_ref ref J = (if ref \<ge> REF_FIRST then J\<lparr>d_ir := (d_ir J)(ref := irt_setmark (d_ir J ref))\<rparr> else J)"

definition snap_refs :: "dce_state \<Rightarrow> nat list" where
  "snap_refs J = concat (map (\<lambda>(mapofs, nent). map snap_ref (take nent (drop mapofs (d_snapmap J)))) (d_snap J))"

definition dce_marksnap :: "dce_state \<Rightarrow> dce_state" where
  "dce_marksnap J = fold mark_ref (snap_refs J) J"

text \<open>\<^verbatim>\<open>pchain[op]\<close> points to the head of the chain (\<open>None\<close>) or to the link of an instruction on it. A store of \<^verbatim>\<open>ir->prev\<close> there cuts
  out what lies between.\<close>

definition reroute :: "nat list \<Rightarrow> nat option \<Rightarrow> nat \<Rightarrow> nat list" where
  "reroute l p ins =
     (case p of None \<Rightarrow> [] | Some r \<Rightarrow> takeWhile (\<lambda>x. x \<noteq> r) l @ [r]) @ tl (dropWhile (\<lambda>x. x \<noteq> ins) l)"

definition dce_step :: "nat \<Rightarrow> dce_state \<times> (nat \<Rightarrow> nat option) \<Rightarrow> dce_state \<times> (nat \<Rightarrow> nat option)" where
  "dce_step ins = (\<lambda>(J, pchain).
     (let ir = d_ir J ins in
      if irt_ismarked ir then
        (mark_ref (d_op2 ir) (mark_ref (d_op1 ir) (J\<lparr>d_ir := (d_ir J)(ins := irt_clearmark ir)\<rparr>)), pchain(d_o ir := Some ins))
      else if \<not> ir_sideeff ir then
        (J\<lparr>d_chain := (d_chain J)(d_o ir := reroute (d_chain J (d_o ir)) (pchain (d_o ir)) ins), d_ir := (d_ir J)(ins := lj_ir_nop)\<rparr>, pchain)
      else (mark_ref (d_op2 ir) (mark_ref (d_op1 ir) J), pchain)))"

definition dce_propagate :: "dce_state \<Rightarrow> dce_state" where
  "dce_propagate J = fst (fold dce_step (rev [REF_FIRST..<d_nins J]) (J, \<lambda>_. None))"

definition lj_opt_dce :: "dce_state \<Rightarrow> dce_state" where
  "lj_opt_dce J =
     (if d_opt_dce J then
        (let J = dce_propagate (dce_marksnap J) in J\<lparr>d_bpropcache := map (\<lambda>_. 0) (d_bpropcache J)\<rparr>)
      else J)"

section \<open>What is needed\<close>

text \<open>The instructions a trace needs: those of the snapshots, the side effects, and their operands.\<close>

inductive needed :: "dce_state \<Rightarrow> nat \<Rightarrow> bool" for J where
  needed_snap: "r \<in> set (snap_refs J) \<Longrightarrow> REF_FIRST \<le> r \<Longrightarrow> needed J r"
| needed_side: "REF_FIRST \<le> r \<Longrightarrow> r < d_nins J \<Longrightarrow> ir_sideeff (d_ir J r) \<Longrightarrow> needed J r"
| needed_op: "needed J s \<Longrightarrow> r = d_op1 (d_ir J s) \<or> r = d_op2 (d_ir J s) \<Longrightarrow> REF_FIRST \<le> r \<Longrightarrow> needed J r"

text \<open>A trace as the recorder leaves it: no marks, operands before their use, every instruction on the chain of its opcode.\<close>

definition dce_wf :: "dce_state \<Rightarrow> bool" where
  "dce_wf J \<longleftrightarrow>
     (\<forall>r. REF_FIRST \<le> r \<longrightarrow> r < d_nins J \<longrightarrow> \<not> irt_ismarked (d_ir J r) \<and> d_op1 (d_ir J r) < r \<and> d_op2 (d_ir J r) < r \<and> r \<in> set (d_chain J (d_o (d_ir J r)))) \<and>
     (\<forall>r \<in> set (snap_refs J). r < d_nins J) \<and> REF_FIRST \<le> d_nins J \<and>
     (\<forall>op. sorted_wrt (>) (d_chain J op) \<and> (\<forall>r \<in> set (d_chain J op). r < d_nins J \<and> (REF_FIRST \<le> r \<longrightarrow> d_o (d_ir J r) = op)))"

lemma needed_range:
  assumes "dce_wf J" "needed J r"
  shows "REF_FIRST \<le> r \<and> r < d_nins J"
  using assms(2)
proof induction
  case (needed_op s r)
  then have "d_op1 (d_ir J s) < s \<and> d_op2 (d_ir J s) < s" using assms(1) by (auto simp: dce_wf_def)
  with needed_op show ?case by auto
qed (use assms(1) in \<open>auto simp: dce_wf_def\<close>)

lemma mark_simps [simp]:
  "irt_setmark (irt_setmark ir) = irt_setmark ir" "irt_ismarked (irt_setmark ir)" "d_o (irt_setmark ir) = d_o ir"
  "d_op1 (irt_setmark ir) = d_op1 ir" "d_op2 (irt_setmark ir) = d_op2 ir" "ir_sideeff (irt_setmark ir) = ir_sideeff ir"
  "\<not> irt_ismarked ir \<Longrightarrow> irt_clearmark (irt_setmark ir) = ir"
proof -
  have b: "x AND 0x20 \<noteq> 0 \<longleftrightarrow> bit x 5" for x :: u8 using and_exp_eq_0_iff_not_bit [of x 5] by simp
  have c: "bit (0x20 :: int) n \<longleftrightarrow> n = 5" "bit (0x20 :: nat) n \<longleftrightarrow> n = 5" for n
    using bit_exp_iff [of 5 n, where 'a = int] bit_exp_iff [of 5 n, where 'a = nat] by auto
  show "irt_setmark (irt_setmark ir) = irt_setmark ir" by (simp add: irt_setmark_def or.assoc)
  show "irt_ismarked (irt_setmark ir)" unfolding irt_ismarked_def irt_setmark_def IRT_MARK_def b by (simp add: bit_or_iff)
  show "d_o (irt_setmark ir) = d_o ir" "d_op1 (irt_setmark ir) = d_op1 ir" "d_op2 (irt_setmark ir) = d_op2 ir" by (simp_all add: irt_setmark_def)
  have "(d_irt ir OR IRT_MARK) OR NOT IRT_GUARD = d_irt ir OR NOT IRT_GUARD" unfolding or.assoc by (simp add: IRT_MARK_def IRT_GUARD_def)
  then show "ir_sideeff (irt_setmark ir) = ir_sideeff ir" by (simp add: ir_sideeff_def irt_setmark_def)
  assume "\<not> irt_ismarked ir"
  then have n: "\<not> bit (d_irt ir) 5" unfolding irt_ismarked_def IRT_MARK_def b .
  have "(d_irt ir OR IRT_MARK) AND NOT IRT_MARK = d_irt ir" unfolding IRT_MARK_def
    by (rule bit_eqI) (use n in \<open>auto simp: bit_simps c\<close>)
  then show "irt_clearmark (irt_setmark ir) = ir" by (simp add: irt_clearmark_def irt_setmark_def)
qed

lemma mark_ref_simps [simp]:
  "d_nins (mark_ref r J) = d_nins J" "d_chain (mark_ref r J) = d_chain J" "d_snap (mark_ref r J) = d_snap J" "d_snapmap (mark_ref r J) = d_snapmap J"
  "d_bpropcache (mark_ref r J) = d_bpropcache J"
  "d_ir (mark_ref r J) q = (if q = r \<and> REF_FIRST \<le> r then irt_setmark (d_ir J q) else d_ir J q)"
  by (simp_all add: mark_ref_def)

lemma fold_mark:
  "d_ir (fold mark_ref rs J) q = (if q \<in> set rs \<and> REF_FIRST \<le> q then irt_setmark (d_ir J q) else d_ir J q)"
  "d_nins (fold mark_ref rs J) = d_nins J" "d_chain (fold mark_ref rs J) = d_chain J"
  by (induction rs arbitrary: J) auto

lemma subseq_keeps:
  assumes "subseq xs ys"
  shows "set xs \<subseteq> set ys" "sorted_wrt P ys \<Longrightarrow> sorted_wrt P xs"
proof -
  show sub: "set xs \<subseteq> set ys" using assms by induction auto
  show "sorted_wrt P ys \<Longrightarrow> sorted_wrt P xs" using assms
  proof induction
    case (list_emb_Cons2 x y xs ys)
    then have "set xs \<subseteq> set ys" by (auto dest: list_emb_set)
    with list_emb_Cons2 show ?case by auto
  qed simp_all
qed

section \<open>The loop\<close>

text \<open>The state of the loop when the instructions from \<open>i\<close> on have been visited.\<close>

definition marked_by :: "dce_state \<Rightarrow> nat \<Rightarrow> nat \<Rightarrow> bool" where
  "marked_by J i r \<longleftrightarrow> REF_FIRST \<le> r \<and> (r \<in> set (snap_refs J) \<or> (\<exists>s\<ge>i. needed J s \<and> (r = d_op1 (d_ir J s) \<or> r = d_op2 (d_ir J s))))"

definition chain_inv :: "dce_state \<Rightarrow> nat \<Rightarrow> nat \<Rightarrow> nat list \<Rightarrow> nat option \<Rightarrow> bool" where
  "chain_inv J0 i op l p \<longleftrightarrow> sorted_wrt (>) l \<and> subseq l (d_chain J0 op) \<and> (\<forall>r \<in> set (d_chain J0 op). r < i \<longrightarrow> r \<in> set l) \<and>
     (\<forall>r \<in> set l. i \<le> r \<longrightarrow> needed J0 r) \<and> (\<forall>r. p = Some r \<longrightarrow> r \<in> set l \<and> i \<le> r)"

definition dce_inv :: "dce_state \<Rightarrow> nat \<Rightarrow> dce_state \<times> (nat \<Rightarrow> nat option) \<Rightarrow> bool" where
  "dce_inv J0 i = (\<lambda>(J, pc).
     (\<forall>r. i \<le> r \<longrightarrow> r < d_nins J0 \<longrightarrow> d_ir J r = (if needed J0 r then d_ir J0 r else lj_ir_nop)) \<and>
     (\<forall>r<i. d_ir J r = (if marked_by J0 i r then irt_setmark (d_ir J0 r) else d_ir J0 r)) \<and>
     (\<forall>op. chain_inv J0 i op (d_chain J op) (pc op)))"

lemma dce_invI:
  assumes "\<And>r. i \<le> r \<Longrightarrow> r < d_nins J0 \<Longrightarrow> d_ir J r = (if needed J0 r then d_ir J0 r else lj_ir_nop)"
    "\<And>r. r < i \<Longrightarrow> d_ir J r = (if marked_by J0 i r then irt_setmark (d_ir J0 r) else d_ir J0 r)"
    "\<And>op. chain_inv J0 i op (d_chain J op) (pc op)"
  shows "dce_inv J0 i (J, pc)"
  unfolding dce_inv_def using assms by simp

lemma reroute_ok:
  assumes s: "sorted_wrt (>) l" and i: "i \<in> set l" and p: "\<forall>r. p = Some r \<longrightarrow> r \<in> set l \<and> i < r"
  shows "subseq (reroute l p i) l" "i \<notin> set (reroute l p i)" "\<forall>x \<in> set l. x < i \<longrightarrow> x \<in> set (reroute l p i)"
    "\<forall>r. p = Some r \<longrightarrow> r \<in> set (reroute l p i)"
proof -
  obtain a b where l: "l = a @ i # b" using i by (meson split_list)
  have ab: "\<forall>x \<in> set a. i < x" "\<forall>x \<in> set b. x < i" using s by (auto simp: l sorted_wrt_append)
  have "dropWhile (\<lambda>x. x \<noteq> i) l = dropWhile (\<lambda>x. x \<noteq> i) (i # b)" unfolding l by (rule dropWhile_append2) (use ab(1) in auto)
  then have d: "tl (dropWhile (\<lambda>x. x \<noteq> i) l) = b" by simp
  obtain a' where a': "reroute l p i = a' @ b" "subseq a' a" "\<forall>r. p = Some r \<longrightarrow> r \<in> set a'"
  proof (cases p)
    case None
    then show thesis using that [of "[]"] by (simp add: reroute_def d)
  next
    case (Some r)
    then have "r \<in> set a" using p ab(2) by (fastforce simp: l)
    then obtain a1 a2 where a: "a = a1 @ r # a2" "r \<notin> set a1" by (meson split_list_first)
    have "takeWhile (\<lambda>x. x \<noteq> r) l = a1 @ takeWhile (\<lambda>x. x \<noteq> r) (r # a2 @ i # b)"
      unfolding l a append_assoc append_Cons by (rule takeWhile_append2) (use a(2) in auto)
    then have "reroute l p i = (a1 @ [r]) @ b" using Some d by (simp add: reroute_def)
    moreover have "subseq (a1 @ [r]) a" unfolding a(1) by (intro list_emb_append_mono) auto
    ultimately show thesis using that [of "a1 @ [r]"] Some by simp
  qed
  have "subseq (a' @ b) (a @ i # b)" using a'(2) by (intro list_emb_append_mono) auto
  then show "subseq (reroute l p i) l" unfolding a'(1) unfolding l .
  show "i \<notin> set (reroute l p i)" using ab a'(1,2) by (auto dest: subseq_keeps(1))
  show "\<forall>x \<in> set l. x < i \<longrightarrow> x \<in> set (reroute l p i)" unfolding a'(1) using ab(1) by (auto simp: l)
  show "\<forall>r. p = Some r \<longrightarrow> r \<in> set (reroute l p i)" using a' by auto
qed

lemma marked_by_step:
  assumes "dce_wf J" "REF_FIRST \<le> i" "i < d_nins J"
  shows "marked_by J i r \<longleftrightarrow> marked_by J (Suc i) r \<or> needed J i \<and> REF_FIRST \<le> r \<and> (r = d_op1 (d_ir J i) \<or> r = d_op2 (d_ir J i))"
proof -
  have "(\<exists>s\<ge>i. P s) \<longleftrightarrow> (\<exists>s\<ge>Suc i. P s) \<or> P i" for P by (metis Suc_leD not_less_eq_eq le_antisym order_refl)
  from this [of "\<lambda>s. needed J s \<and> (r = d_op1 (d_ir J s) \<or> r = d_op2 (d_ir J s))"]
  show ?thesis unfolding marked_by_def by auto
qed

lemma needed_iff_marked:
  assumes wf: "dce_wf J" and i: "REF_FIRST \<le> i" "i < d_nins J"
  shows "needed J i \<longleftrightarrow> marked_by J (Suc i) i \<or> ir_sideeff (d_ir J i)"
proof
  assume "needed J i"
  then show "marked_by J (Suc i) i \<or> ir_sideeff (d_ir J i)"
  proof cases
    case (needed_op s)
    have "REF_FIRST \<le> s" "s < d_nins J" using needed_range [OF wf needed_op(1)] by auto
    then have "i < s" using wf needed_op(2) by (auto simp: dce_wf_def)
    then show ?thesis using needed_op i(1) by (auto simp: marked_by_def Suc_le_eq intro!: exI [of _ s])
  qed (auto simp: marked_by_def)
next
  assume "marked_by J (Suc i) i \<or> ir_sideeff (d_ir J i)"
  then show "needed J i" using i by (auto simp: marked_by_def intro: needed.intros)
qed

text \<open>Marking the operands of a needed instruction.\<close>

lemma mark_operands:
  assumes "dce_wf J0" "REF_FIRST \<le> i" "i < d_nins J0" "needed J0 i" "q < i"
    and J: "d_ir J q = (if marked_by J0 (Suc i) q then irt_setmark (d_ir J0 q) else d_ir J0 q)"
    and ir: "d_op1 ir = d_op1 (d_ir J0 i)" "d_op2 ir = d_op2 (d_ir J0 i)"
  shows "d_ir (mark_ref (d_op2 ir) (mark_ref (d_op1 ir) J)) q = (if marked_by J0 i q then irt_setmark (d_ir J0 q) else d_ir J0 q)"
  using J assms(4) unfolding ir marked_by_step [OF assms(1-3)] by auto

lemma chain_inv_keep:
  assumes "chain_inv J0 (Suc i) op l p" "i \<in> set l \<longrightarrow> needed J0 i"
  shows "chain_inv J0 i op l p" "i \<in> set l \<Longrightarrow> chain_inv J0 i op l (Some i)"
proof -
  have "needed J0 r" if "r \<in> set l" "i \<le> r" for r using assms that by (cases "r = i") (auto simp: chain_inv_def)
  then show "chain_inv J0 i op l p" "i \<in> set l \<Longrightarrow> chain_inv J0 i op l (Some i)" using assms by (auto simp: chain_inv_def)
qed

lemma chain_inv_reroute:
  assumes C: "chain_inv J0 (Suc i) op l p" and i: "i \<in> set l"
  shows "chain_inv J0 i op (reroute l p i) p"
proof -
  have l: "sorted_wrt (>) l" and p: "\<forall>r. p = Some r \<longrightarrow> r \<in> set l \<and> i < r" using C by (auto simp: chain_inv_def)
  note R = reroute_ok [OF l i p]
  have "sorted_wrt (>) (reroute l p i)" using R(1) l by (rule subseq_keeps(2))
  moreover have "subseq (reroute l p i) (d_chain J0 op)" using R(1) C by (auto simp: chain_inv_def intro: subseq_order.trans)
  moreover have "needed J0 r" if "r \<in> set (reroute l p i)" "i \<le> r" for r
    using that R(2) subseq_keeps(1) [OF R(1)] C by (cases "r = i") (auto simp: chain_inv_def)
  ultimately show ?thesis using R(3,4) C by (auto simp: chain_inv_def)
qed

lemma dce_step_inv:
  assumes wf: "dce_wf J0" and i: "REF_FIRST \<le> i" "i < d_nins J0" and inv: "dce_inv J0 (Suc i) (J, pc)"
  shows "dce_inv J0 i (dce_step i (J, pc))"
proof -
  let ?ir = "d_ir J i"
  have A: "d_ir J r = (if needed J0 r then d_ir J0 r else lj_ir_nop)" if "Suc i \<le> r" "r < d_nins J0" for r
    using inv that by (simp add: dce_inv_def)
  have B: "d_ir J r = (if marked_by J0 (Suc i) r then irt_setmark (d_ir J0 r) else d_ir J0 r)" if "r < Suc i" for r
    using inv that by (simp add: dce_inv_def)
  have C: "chain_inv J0 (Suc i) op (d_chain J op) (pc op)" for op using inv by (simp add: dce_inv_def)
  have ir: "?ir = (if marked_by J0 (Suc i) i then irt_setmark (d_ir J0 i) else d_ir J0 i)" by (rule B) simp
  have w: "\<not> irt_ismarked (d_ir J0 i)" "i \<in> set (d_chain J0 (d_o (d_ir J0 i)))" using wf i by (auto simp: dce_wf_def)
  have ops: "d_op1 ?ir = d_op1 (d_ir J0 i)" "d_op2 ?ir = d_op2 (d_ir J0 i)" "d_o ?ir = d_o (d_ir J0 i)" "ir_sideeff ?ir = ir_sideeff (d_ir J0 i)"
    unfolding ir by simp_all
  have lt: "d_op1 ?ir < i" "d_op2 ?ir < i" using wf i unfolding ops by (auto simp: dce_wf_def)
  have m: "irt_ismarked ?ir \<longleftrightarrow> marked_by J0 (Suc i) i" unfolding ir using w(1) by simp
  have on: "i \<in> set (d_chain J (d_o ?ir))" using C [of "d_o ?ir"] w(2) ops(3) by (simp add: chain_inv_def)
  note need = needed_iff_marked [OF wf i]
  show ?thesis
  proof (cases "needed J0 i")
    case True
    define J1 where "J1 = (if irt_ismarked ?ir then J\<lparr>d_ir := (d_ir J)(i := irt_clearmark ?ir)\<rparr> else J)"
    have step: "dce_step i (J, pc) = (mark_ref (d_op2 ?ir) (mark_ref (d_op1 ?ir) J1), if irt_ismarked ?ir then pc(d_o ?ir := Some i) else pc)"
      using True need m unfolding ops(4) [symmetric] by (auto simp: dce_step_def Let_def J1_def)
    have i1: "d_ir J1 i = d_ir J0 i" "\<And>r. r \<noteq> i \<Longrightarrow> d_ir J1 r = d_ir J r" "d_chain J1 = d_chain J"
      using w(1) m ir by (simp_all add: J1_def)
    show ?thesis unfolding step
    proof (rule dce_invI)
      show "d_ir (mark_ref (d_op2 ?ir) (mark_ref (d_op1 ?ir) J1)) r = (if marked_by J0 i r then irt_setmark (d_ir J0 r) else d_ir J0 r)" if "r < i" for r
        by (rule mark_operands [OF wf i True that _ ops(1,2)]) (use B [of r] i1(2) that in simp)
      show "d_ir (mark_ref (d_op2 ?ir) (mark_ref (d_op1 ?ir) J1)) r = (if needed J0 r then d_ir J0 r else lj_ir_nop)" if "i \<le> r" "r < d_nins J0" for r
        using that lt A [of r] i1 True by (cases "r = i") auto
      show "chain_inv J0 i op (d_chain (mark_ref (d_op2 ?ir) (mark_ref (d_op1 ?ir) J1)) op) ((if irt_ismarked ?ir then pc(d_o ?ir := Some i) else pc) op)" for op
        using chain_inv_keep [OF C] True on i1(3) by simp
    qed
  next
    case False
    then have nm: "\<not> irt_ismarked ?ir" "\<not> ir_sideeff ?ir" "\<not> marked_by J0 (Suc i) i" using need m ops(4) by auto
    let ?o = "d_o ?ir"
    have step: "dce_step i (J, pc) =
        (J\<lparr>d_chain := (d_chain J)(?o := reroute (d_chain J ?o) (pc ?o) i), d_ir := (d_ir J)(i := lj_ir_nop)\<rparr>, pc)"
      using nm by (simp add: dce_step_def Let_def)
    have mb: "marked_by J0 i r = marked_by J0 (Suc i) r" for r using marked_by_step [OF wf i] False by simp
    have off: "i \<notin> set (d_chain J op)" if "op \<noteq> ?o" for op
    proof
      assume "i \<in> set (d_chain J op)"
      then have "i \<in> set (d_chain J0 op)" using C [of op] by (auto simp: chain_inv_def dest: subseq_keeps(1))
      then show False using wf i that ops(3) by (auto simp: dce_wf_def)
    qed
    show ?thesis unfolding step
    proof (rule dce_invI)
      show "d_ir (J\<lparr>d_chain := (d_chain J)(?o := reroute (d_chain J ?o) (pc ?o) i), d_ir := (d_ir J)(i := lj_ir_nop)\<rparr>) r =
          (if needed J0 r then d_ir J0 r else lj_ir_nop)" if "i \<le> r" "r < d_nins J0" for r
        using A [of r] that False by (cases "r = i") auto
      show "d_ir (J\<lparr>d_chain := (d_chain J)(?o := reroute (d_chain J ?o) (pc ?o) i), d_ir := (d_ir J)(i := lj_ir_nop)\<rparr>) r =
          (if marked_by J0 i r then irt_setmark (d_ir J0 r) else d_ir J0 r)" if "r < i" for r
        using B [of r] that by (simp add: mb)
      show "chain_inv J0 i op (d_chain (J\<lparr>d_chain := (d_chain J)(?o := reroute (d_chain J ?o) (pc ?o) i), d_ir := (d_ir J)(i := lj_ir_nop)\<rparr>) op) (pc op)" for op
        using chain_inv_reroute [OF C on] chain_inv_keep(1) [OF C] off by (cases "op = ?o") auto
    qed
  qed
qed

lemma dce_inv_init:
  assumes wf: "dce_wf J"
  shows "dce_inv J (d_nins J) (dce_marksnap J, \<lambda>_. None)"
proof (rule dce_invI)
  show "d_ir (dce_marksnap J) r = (if marked_by J (d_nins J) r then irt_setmark (d_ir J r) else d_ir J r)" for r
    using needed_range [OF wf] by (fastforce simp: dce_marksnap_def fold_mark marked_by_def)
  show "chain_inv J (d_nins J) op (d_chain (dce_marksnap J) op) None" for op
    using wf by (fastforce simp: dce_marksnap_def fold_mark chain_inv_def dce_wf_def)
qed simp

lemma dce_loop_inv:
  assumes wf: "dce_wf J" and "dce_inv J i s" and "REF_FIRST \<le> i" "i \<le> d_nins J"
  shows "dce_inv J REF_FIRST (fold dce_step (rev [REF_FIRST..<i]) s)"
  using assms(2-)
proof (induction i arbitrary: s)
  case (Suc i)
  show ?case
  proof (cases "REF_FIRST \<le> i")
    case True
    obtain J' pc where "s = (J', pc)" by force
    then have "dce_inv J i (dce_step i s)" using dce_step_inv [OF wf True] Suc.prems by simp
    then show ?thesis using Suc.IH [of "dce_step i s"] True Suc.prems by simp
  qed (use Suc.prems le_Suc_eq in force)
qed (simp add: REF_FIRST_def)

lemma lj_opt_dce_inv:
  assumes "dce_wf J" "d_opt_dce J"
  obtains J' pc where "dce_inv J REF_FIRST (J', pc)" "lj_opt_dce J = J'\<lparr>d_bpropcache := map (\<lambda>_. 0) (d_bpropcache J')\<rparr>"
proof -
  let ?s = "fold dce_step (rev [REF_FIRST..<d_nins J]) (dce_marksnap J, \<lambda>_. None)"
  have "REF_FIRST \<le> d_nins J" using assms(1) by (simp add: dce_wf_def)
  then have "dce_inv J REF_FIRST (fst ?s, snd ?s)" using dce_loop_inv [OF assms(1) dce_inv_init [OF assms(1)]] by simp
  moreover have "lj_opt_dce J = (fst ?s)\<lparr>d_bpropcache := map (\<lambda>_. 0) (d_bpropcache (fst ?s))\<rparr>"
    using assms(2) by (simp add: lj_opt_dce_def dce_propagate_def dce_marksnap_def fold_mark Let_def)
  ultimately show thesis using that by blast
qed

text \<open>C7: Dead-code elimination keeps exactly what the trace needs. Every instruction reachable from a snapshot or from an
  instruction with a side effect through operands is left as it was, mark bit included; every other one is a NOP afterwards; the
  constants are untouched. The chain of each opcode is the old one with instructions left out, and contains no eliminated one, so a
  later search along it (CSE, load forwarding) never finds a NOP.\<close>

theorem lj_opt_dce_correct:
  assumes "dce_wf J" and "d_opt_dce J"
  shows "(\<forall>r. REF_FIRST \<le> r \<and> r < d_nins J \<longrightarrow> d_ir (lj_opt_dce J) r = (if needed J r then d_ir J r else lj_ir_nop)) \<and>
    (\<forall>r<REF_FIRST. d_ir (lj_opt_dce J) r = d_ir J r) \<and>
    (\<forall>op. subseq (d_chain (lj_opt_dce J) op) (d_chain J op) \<and> (\<forall>r \<in> set (d_chain (lj_opt_dce J) op). REF_FIRST \<le> r \<longrightarrow> needed J r))"
proof -
  obtain J' pc where inv: "dce_inv J REF_FIRST (J', pc)" and eq: "lj_opt_dce J = J'\<lparr>d_bpropcache := map (\<lambda>_. 0) (d_bpropcache J')\<rparr>"
    using lj_opt_dce_inv [OF assms] by blast
  show ?thesis using inv unfolding eq by (auto simp: dce_inv_def chain_inv_def marked_by_def)
qed

text \<open>A trace of a dead addition, an addition a snapshot refers to and a guarded comparison.\<close>

definition dce_example :: dce_state where
  "dce_example =
     \<lparr>d_ir = (\<lambda>r. if r = REF_FIRST then \<lparr>d_o = 40, d_irt = 19, d_op1 = 1, d_op2 = 2\<rparr>
                  else if r = REF_FIRST + 1 then \<lparr>d_o = 40, d_irt = 19, d_op1 = 3, d_op2 = 2\<rparr>
                  else \<lparr>d_o = 0, d_irt = 0x80 OR 19, d_op1 = 4, d_op2 = 2\<rparr>),
      d_nins = REF_FIRST + 3,
      d_chain = (\<lambda>op. if op = 40 then [REF_FIRST + 1, REF_FIRST] else if op = 0 then [REF_FIRST + 2] else []),
      d_snap = [(0, 1)], d_snapmap = [0x8002], d_opt_dce = True, d_bpropcache = [1]\<rparr>"

lemma dce_example_simps:
  "snap_refs dce_example = [0x8002]" "ir_sideeff (d_ir dce_example (REF_FIRST + 2))" "\<not> ir_sideeff (d_ir dce_example REF_FIRST)"
proof -
  show "snap_refs dce_example = [0x8002]" by (simp add: snap_refs_def snap_ref_def dce_example_def)
  have "ir_sideeff \<lparr>d_o = 0, d_irt = 0x80 OR 19, d_op1 = 4, d_op2 = 2\<rparr>" "\<not> ir_sideeff \<lparr>d_o = 40, d_irt = 19, d_op1 = 1, d_op2 = 2\<rparr>" by code_simp+
  then show "ir_sideeff (d_ir dce_example (REF_FIRST + 2))" "\<not> ir_sideeff (d_ir dce_example REF_FIRST)" by (simp_all add: dce_example_def)
qed

lemma dce_example_wf: "dce_wf dce_example"
proof -
  have r: "REF_FIRST \<le> r \<Longrightarrow> r < REF_FIRST + 3 \<Longrightarrow> r = REF_FIRST \<or> r = REF_FIRST + 1 \<or> r = REF_FIRST + 2" for r by auto
  show ?thesis unfolding dce_wf_def dce_example_simps
    by (auto simp: dce_example_def irt_ismarked_def IRT_MARK_def dest!: r) (simp_all add: REF_FIRST_def)
qed

theorem lj_opt_dce_correct_witness:
  "d_ir (lj_opt_dce dce_example) REF_FIRST = lj_ir_nop \<and> d_ir (lj_opt_dce dce_example) (REF_FIRST + 2) = d_ir dce_example (REF_FIRST + 2)"
proof -
  note T = lj_opt_dce_correct [OF dce_example_wf]
  have d: "d_opt_dce dce_example" "d_nins dce_example = REF_FIRST + 3" by (simp_all add: dce_example_def)
  have n2: "needed dce_example (REF_FIRST + 2)" by (intro needed_side) (simp_all add: d dce_example_simps del: add_2_eq_Suc')
  have "\<not> needed dce_example REF_FIRST"
  proof -
    have "r \<noteq> REF_FIRST" if "needed dce_example r" for r using that
    proof cases
      case needed_snap
      then show ?thesis by (simp add: dce_example_simps REF_FIRST_def)
    next
      case needed_side
      then show ?thesis using dce_example_simps(3) by blast
    next
      case (needed_op s)
      then show ?thesis by (auto simp: dce_example_def REF_FIRST_def split: if_splits)
    qed
    then show ?thesis by blast
  qed
  then show ?thesis using T d n2 by simp
qed

end
