(* ===== verification/Tvalue.thy ===== *)
theory Tvalue
  imports Ir
begin

text \<open>
  Tagged Lua values (\<^verbatim>\<open>lj_obj.h\<close>) as the 64-bit words the virtual machine stores: the upper 17 bits of a NaN carry the
  type tag of what is not a floating-point number. Table keys are compared and converted
  to integers on these words, so numbers are modelled by their IEEE bits: equality of two numbers, the conversion of an
  \<^verbatim>\<open>int32_t\<close> to a number, and the truncating conversion back as x86-64 performs it.
\<close>

section \<open>Tags\<close>

definition LJ_TNIL :: u32 where "LJ_TNIL = NOT 0"
definition LJ_TFALSE :: u32 where "LJ_TFALSE = NOT 1"
definition LJ_TTRUE :: u32 where "LJ_TTRUE = NOT 2"
definition LJ_TSTR :: u32 where "LJ_TSTR = NOT 4"
definition LJ_TNUMX :: u32 where "LJ_TNUMX = NOT 13"
definition LJ_TISNUM :: u32 where "LJ_TISNUM = LJ_TNUMX"
definition LJ_TISPRI :: u32 where "LJ_TISPRI = LJ_TTRUE"
definition LJ_KEYINDEX :: u32 where "LJ_KEYINDEX = 0xfffe7fff"
definition LJ_GCVMASK :: u64 where "LJ_GCVMASK = push_bit 47 1 - 1"

lemmas tag_defs = LJ_TNIL_def LJ_TFALSE_def LJ_TTRUE_def LJ_TSTR_def LJ_TNUMX_def LJ_TISNUM_def LJ_TISPRI_def

definition itype :: "u64 \<Rightarrow> u32" where "itype v = u32_of_u64 (signed_drop_bit 47 v)"
definition niltv :: u64 where "niltv = - 1"
definition tvisnil :: "u64 \<Rightarrow> bool" where "tvisnil v \<longleftrightarrow> v = - 1"
definition tvisfalse :: "u64 \<Rightarrow> bool" where "tvisfalse v \<longleftrightarrow> itype v = LJ_TFALSE"
definition tvistrue :: "u64 \<Rightarrow> bool" where "tvistrue v \<longleftrightarrow> itype v = LJ_TTRUE"
definition tvisbool :: "u64 \<Rightarrow> bool" where "tvisbool v \<longleftrightarrow> tvisfalse v \<or> tvistrue v"
definition tvisstr :: "u64 \<Rightarrow> bool" where "tvisstr v \<longleftrightarrow> itype v = LJ_TSTR"
definition tvisnumber :: "u64 \<Rightarrow> bool" where "tvisnumber v \<longleftrightarrow> itype v \<le> LJ_TISNUM"
definition tvisnum :: "u64 \<Rightarrow> bool" where "tvisnum v \<longleftrightarrow> itype v < LJ_TISNUM"
definition tvispri :: "u64 \<Rightarrow> bool" where "tvispri v \<longleftrightarrow> itype v \<ge> LJ_TISPRI"
definition tvismzero :: "u64 \<Rightarrow> bool" where "tvismzero v \<longleftrightarrow> v = 0x8000000000000000"
definition boolV :: "u64 \<Rightarrow> u32" where "boolV v = LJ_TFALSE - itype v"
definition strV :: "u64 \<Rightarrow> u64" where "strV v = v AND LJ_GCVMASK"
definition setboolV :: "bool \<Rightarrow> u64" where "setboolV x = NOT (push_bit 47 (of_bool x + 1))"
definition setstrV :: "u64 \<Rightarrow> u64" where "setstrV s = s OR push_bit 47 (u64_of_u32 LJ_TSTR)"
definition u32_lo :: "u64 \<Rightarrow> u32" where "u32_lo v = u32_of_u64 v"
definition u32_hi :: "u64 \<Rightarrow> u32" where "u32_hi v = u32_of_u64 (drop_bit 32 v)"

section \<open>Numbers\<close>

definition num_exp :: "u64 \<Rightarrow> nat" where "num_exp v = unat v div 2 ^ 52 mod 2048"
definition num_frac :: "u64 \<Rightarrow> nat" where "num_frac v = unat v mod 2 ^ 52"
definition num_isnan :: "u64 \<Rightarrow> bool" where "num_isnan v \<longleftrightarrow> num_exp v = 2047 \<and> num_frac v \<noteq> 0"
definition num_iszero :: "u64 \<Rightarrow> bool" where "num_iszero v \<longleftrightarrow> v = 0 \<or> v = 0x8000000000000000"

text \<open>The C operators \<^verbatim>\<open>==\<close> and \<^verbatim>\<open>!=\<close> on \<^verbatim>\<open>double\<close>.\<close>

definition num_eq :: "u64 \<Rightarrow> u64 \<Rightarrow> bool" where
  "num_eq a b \<longleftrightarrow> \<not> num_isnan a \<and> \<not> num_isnan b \<and> (a = b \<or> num_iszero a \<and> num_iszero b)"

definition tvisnan :: "u64 \<Rightarrow> bool" where "tvisnan v \<longleftrightarrow> \<not> num_eq v v"

text \<open>\<^verbatim>\<open>(int32_t)n\<close>: truncation; a value out of range gives \<open>INT_MIN\<close>, as \<^verbatim>\<open>cvttsd2si\<close> does.\<close>

definition lj_num2int :: "u64 \<Rightarrow> u32" where
  "lj_num2int v =
     (if num_exp v < 1023 then 0
      else if num_exp v > 1054 then 0x80000000
      else let t = int ((2 ^ 52 + num_frac v) div 2 ^ (1075 - num_exp v));
               i = (if bit v 63 then - t else t)
           in if - (2 ^ 31) \<le> i \<and> i < 2 ^ 31 then word_of_int i else 0x80000000)"

text \<open>\<^verbatim>\<open>(lua_Number)k\<close> for an \<^verbatim>\<open>int32_t\<close>: exact.\<close>

definition num_of_int :: "u32 \<Rightarrow> u64" where
  "num_of_int k =
     (if k = 0 then 0
      else let m = nat \<bar>sint k\<bar>; e = unat (lj_fls (of_nat m))
           in of_nat ((if sint k < 0 then 2 ^ 63 else 0) + (1023 + e) * 2 ^ 52 + (m * 2 ^ (52 - e) - 2 ^ 52)))"

definition lj_obj_equal :: "u64 \<Rightarrow> u64 \<Rightarrow> bool" where
  "lj_obj_equal o1 o2 =
     (if itype o1 = itype o2 then
        (if tvispri o1 then True else if \<not> tvisnum o1 then o1 = o2 else num_eq o1 o2)
      else if \<not> tvisnumber o1 \<or> \<not> tvisnumber o2 then False
      else num_eq o1 o2)"

section \<open>Facts on numbers\<close>

lemma lj_fls_bounds:
  assumes "x \<noteq> 0"
  shows "2 ^ unat (lj_fls x) \<le> unat x" "unat x < 2 * 2 ^ unat (lj_fls x)" "unat (lj_fls x) < 32"
proof -
  let ?P = "\<lambda>i. \<not> bit x i" and ?l = "rev [0..<32]"
  obtain i where i: "i < 32" "bit x i" using assms bit_word_eqI [of x 0] by auto
  define n where "n = builtin_clz x"
  have tw: "takeWhile ?P ?l \<noteq> ?l" using i by (auto simp: takeWhile_eq_all_conv)
  have n: "n < 32"
  proof -
    have "n = length (takeWhile ?P ?l)" by (simp add: n_def builtin_clz_def)
    moreover have "length (takeWhile ?P ?l) \<noteq> length ?l" using tw takeWhile_dropWhile_id [of ?P ?l]
      by (metis append_eq_append_conv append_self_conv)
    moreover have "length (takeWhile ?P ?l) \<le> length ?l" by (rule length_takeWhile_le)
    ultimately show ?thesis by simp
  qed
  define e where "e = 31 - n"
  have "?l ! n = e" using n by (simp add: rev_nth e_def)
  moreover have "bit x (?l ! n)" using nth_length_takeWhile [of ?P ?l] n by (simp add: n_def builtin_clz_def)
  ultimately have be: "bit x e" by simp
  have hi: "\<not> bit x j" if "e < j" for j
  proof (cases "j < 32")
    case True
    then have k: "31 - j < n" "?l ! (31 - j) = j" using that n by (auto simp: e_def rev_nth)
    have "takeWhile ?P ?l ! (31 - j) = j" using k takeWhile_nth [of "31 - j" ?P ?l] by (simp add: n_def builtin_clz_def)
    moreover have "takeWhile ?P ?l ! (31 - j) \<in> set (takeWhile ?P ?l)" using k(1) by (simp add: n_def builtin_clz_def)
    ultimately show ?thesis using set_takeWhileD by metis
  qed (use bit_imp_le_length [of x j] in auto)
  have "of_nat n XOR 31 = (of_nat (31 - n) :: u32)"
  proof -
    have "\<forall>n \<in> set [0..<32]. of_nat n XOR 31 = (of_nat (31 - n) :: u32)" by code_simp
    then show ?thesis using n by auto
  qed
  then have "unat (lj_fls x) = unat (of_nat e :: u32)" by (simp add: lj_fls_def n_def e_def)
  then have fls: "unat (lj_fls x) = e" by (simp add: e_def unsigned_of_nat take_bit_nat_eq_self)
  show "unat (lj_fls x) < 32" unfolding fls using n by (simp add: e_def)
  have "bit (unat x) e" using be by (simp add: bit_unsigned_iff bit_imp_possible_bit)
  then have "odd (unat x div 2 ^ e)" by (simp add: bit_iff_odd)
  then have "2 ^ e \<le> unat x" by (metis div_less even_zero not_less)
  then show "2 ^ unat (lj_fls x) \<le> unat x" unfolding fls .
  have "take_bit (Suc e) x = x" by (rule bit_word_eqI) (use hi in \<open>auto simp: bit_take_bit_iff simp flip: not_le\<close>)
  then have "unat x < 2 ^ Suc e" by (metis unsigned_take_bit_eq take_bit_nat_less_exp)
  then show "unat x < 2 * 2 ^ unat (lj_fls x)" unfolding fls by simp
qed

lemma sint_abs_bounds:
  fixes k :: u32
  assumes "k \<noteq> 0"
  shows "0 < nat \<bar>sint k\<bar>" "nat \<bar>sint k\<bar> \<le> 2 ^ 31"
  using assms sint_greater_eq [of k] sint_less [of k] signed_eq_0_iff [of k, where 'a = int] by auto

lemma num_of_int_parts:
  assumes "k \<noteq> 0"
  defines "m \<equiv> nat \<bar>sint k\<bar>" and "e \<equiv> unat (lj_fls (of_nat (nat \<bar>sint k\<bar>)))"
  shows "num_exp (num_of_int k) = 1023 + e" "2 ^ 52 + num_frac (num_of_int k) = m * 2 ^ (52 - e)" "e \<le> 31"
    "bit (num_of_int k) 63 \<longleftrightarrow> sint k < 0" "unat (num_of_int k) \<noteq> 0"
proof -
  have m: "0 < m" "m \<le> 2 ^ 31" using sint_abs_bounds [OF assms(1)] by (simp_all add: m_def)
  have u: "unat (of_nat m :: u32) = m" using m(2) by (simp add: unsigned_of_nat take_bit_nat_eq_self)
  then have "of_nat m \<noteq> (0 :: u32)" using m(1) by (metis unsigned_0 less_irrefl)
  from lj_fls_bounds [OF this] have e: "2 ^ e \<le> m" "m < 2 * 2 ^ e" "e < 32" unfolding u by (simp_all add: e_def m_def)
  then show e31: "e \<le> 31" by simp
  define f where "f = m * 2 ^ (52 - e) - 2 ^ 52"
  define sg where "sg = (if sint k < 0 then 1 else 0 :: nat)"
  have p: "(2::nat) ^ e * 2 ^ (52 - e) = 2 ^ 52" using e31 by (simp flip: power_add)
  have lo: "2 ^ 52 \<le> m * 2 ^ (52 - e)" using mult_le_mono1 [OF e(1), of "2 ^ (52 - e)"] p by simp
  have "m * 2 ^ (52 - e) < 2 * 2 ^ e * 2 ^ (52 - e)" using e(2) by simp
  then have f: "f < 2 ^ 52" using lo p by (simp add: f_def mult.assoc)
  define N where "N = (sg * 2048 + (1023 + e)) * 2 ^ 52 + f"
  have "N < 2 ^ 64" using f e31 by (simp add: N_def sg_def)
  moreover have "num_of_int k = of_nat N" using assms(1) by (simp add: num_of_int_def Let_def N_def f_def sg_def m_def e_def algebra_simps)
  ultimately have un: "unat (num_of_int k) = N" by (simp add: unsigned_of_nat take_bit_nat_eq_self)
  have fr: "num_frac (num_of_int k) = f" unfolding num_frac_def un N_def using f by (simp only: mod_mult_self3 mod_less)
  have dv: "N div 2 ^ 52 = sg * 2048 + (1023 + e)" unfolding N_def using f by (subst div_mult_self3) simp_all
  show "num_exp (num_of_int k) = 1023 + e" unfolding num_exp_def un dv using e31 by (simp add: sg_def)
  show "2 ^ 52 + num_frac (num_of_int k) = m * 2 ^ (52 - e)" unfolding fr using lo by (simp add: f_def)
  have "N div 2 ^ 63 = sg" using dv e31 f by (simp add: N_def sg_def)
  then show "bit (num_of_int k) 63 \<longleftrightarrow> sint k < 0"
    using bit_unsigned_iff [of "num_of_int k" 63, where 'a = nat] bit_iff_odd [of N 63] by (simp add: un sg_def split: if_splits)
  show "unat (num_of_int k) \<noteq> 0" unfolding un N_def by simp
qed

lemma lj_num2int_of_int [simp]: "lj_num2int (num_of_int k) = k"
proof (cases "k = 0")
  case False
  let ?e = "unat (lj_fls (of_nat (nat \<bar>sint k\<bar>)))"
  note P = num_of_int_parts [OF False]
  have "1075 - num_exp (num_of_int k) = 52 - ?e" using P(1) by simp
  then have "(2 ^ 52 + num_frac (num_of_int k)) div 2 ^ (1075 - num_exp (num_of_int k)) = nat \<bar>sint k\<bar>"
    unfolding P(2) by simp
  then have "lj_num2int (num_of_int k) = word_of_int (sint k)"
    using P(1,3,4) sint_greater_eq [of k] sint_less [of k] by (simp add: lj_num2int_def Let_def)
  then show ?thesis by simp
qed (simp add: num_of_int_def lj_num2int_def num_exp_def)

lemma num_of_int_inj [simp]: "num_of_int a = num_of_int b \<longleftrightarrow> a = b"
  by (metis lj_num2int_of_int)

lemma num_exp_of_int: "num_exp (num_of_int k) \<le> 1054"
  using num_of_int_parts(1,3) [of k] by (cases "k = 0") (auto simp: num_of_int_def num_exp_def)

lemma nonnum_exp:
  assumes "\<not> tvisnum v"
  shows "num_exp v = 2047 \<and> 2 ^ 63 \<le> unat v"
proof -
  define q where "q = sint v div 2 ^ 47"
  have b: "- (2 ^ 63) \<le> sint v" "sint v < 2 ^ 63" using sint_greater_eq [of v] sint_less [of v] by simp_all
  have q: "- (2 ^ 16) \<le> q" "q < 2 ^ 16" using b unfolding q_def by simp_all
  have "sint (signed_drop_bit 47 v) = q" by (simp add: sint_signed_drop_bit_eq drop_bit_eq_div q_def)
  moreover have "signed_drop_bit 47 v = word_of_int (sint (signed_drop_bit 47 v))" by simp
  ultimately have "signed_drop_bit 47 v = word_of_int q" by simp
  moreover have "u32_of_u64 (word_of_int q) = word_of_int q" by (rule bit_word_eqI) (simp add: bit_simps)
  ultimately have it: "itype v = word_of_int q" by (simp add: itype_def)
  have n: "uint (itype v) \<ge> 2 ^ 32 - 14" using assms by (simp add: tvisnum_def tag_defs word_less_def not_less)
  have "uint (word_of_int q :: u32) = q mod 2 ^ 32" by (simp add: uint_word_of_int)
  then have m: "q mod 2 ^ 32 \<ge> 2 ^ 32 - 14" using n it by simp
  have "q < 0"
  proof (rule ccontr)
    assume "\<not> q < 0"
    then have "q mod 2 ^ 32 = q" using q(2) by simp
    then show False using m q(2) by simp
  qed
  then have "q mod 2 ^ 32 = q + 2 ^ 32" using mod_pos_pos_trivial [of "q + 2 ^ 32" "2 ^ 32"] q(1) by simp
  then have "q \<ge> - 14" using m by simp
  then have lo: "sint v \<ge> - 14 * 2 ^ 47" using div_mult_mod_eq [of "sint v" "2 ^ 47"] pos_mod_sign [of "2 ^ 47" "sint v"] by (simp add: q_def)
  have neg: "sint v < 0" using \<open>q < 0\<close> by (simp add: q_def)
  have "uint v = sint v mod 2 ^ 64" by (simp add: uint_sint take_bit_eq_mod)
  also have "\<dots> = sint v + 2 ^ 64" using mod_pos_pos_trivial [of "sint v + 2 ^ 64" "2 ^ 64"] b(1) neg by simp
  finally have "uint v \<ge> 18444773748872577024" using lo by simp
  then have "int (unat v) \<ge> 18444773748872577024" by simp
  then have un: "unat v \<ge> 18444773748872577024" "unat v < 18446744073709551616" using unat_less_64 [of v] by linarith+
  then have "unat v div 2 ^ 52 = 4095" by (intro div_nat_eqI) simp_all
  then show ?thesis using un by (simp add: num_exp_def)
qed

lemma num_of_int_tags [simp]:
  "tvisnum (num_of_int k)" "num_isnan (num_of_int k) = False" "num_of_int k \<noteq> - 1" "tvismzero (num_of_int k) = False"
proof -
  note e = num_exp_of_int [of k]
  show t: "tvisnum (num_of_int k)" using nonnum_exp e by fastforce
  show "num_isnan (num_of_int k) = False" using e by (simp add: num_isnan_def)
  show "num_of_int k \<noteq> - 1"
  proof
    assume "num_of_int k = - 1"
    moreover have "num_exp (- 1) = 2047" by (simp add: num_exp_def unsigned_minus_1_eq_mask mask_eq_exp_minus_1)
    ultimately show False using e by simp
  qed
  show "tvismzero (num_of_int k) = False"
  proof (cases "k = 0")
    case False
    have "num_exp 0x8000000000000000 = 0" by (simp add: num_exp_def)
    then show ?thesis using num_of_int_parts(1) [OF False] by (auto simp: tvismzero_def)
  qed (simp add: num_of_int_def tvismzero_def)
qed

section \<open>Keys\<close>

text \<open>A value as the virtual machine forms it: the payload of a primitive is all ones. A table key is neither nil nor NaN, and
  the key of a hash node is not the negative zero.\<close>

definition tv_ok :: "u64 \<Rightarrow> bool" where
  "tv_ok v \<longleftrightarrow> (tvispri v \<longrightarrow> v = - 1 \<or> v = setboolV False \<or> v = setboolV True)"

definition ckey :: "u64 \<Rightarrow> u64" where "ckey v = (if tvismzero v then 0 else v)"

definition key_ok :: "u64 \<Rightarrow> bool" where
  "key_ok v \<longleftrightarrow> tv_ok v \<and> \<not> tvisnil v \<and> \<not> (tvisnum v \<and> num_isnan v)"

definition node_key :: "u64 \<Rightarrow> bool" where "node_key v \<longleftrightarrow> key_ok v \<and> \<not> tvismzero v"

lemma tag_values [simp]:
  "itype (- 1) = - 1" "itype (setboolV False) = - 2" "itype (setboolV True) = - 3" "itype 0 = 0" "itype 0x8000000000000000 = 0xffff0000"
  by code_simp+

lemma nil_tags [simp]: "\<not> tvisnum (- 1)" "\<not> tvisnumber (- 1)" "tvispri (- 1)" "\<not> tvisstr (- 1)"
  by code_simp+

lemma node_key_nil [simp]: "\<not> node_key (- 1)" "\<not> key_ok (- 1)"
  by (simp_all add: node_key_def key_ok_def tvisnil_def)

lemma node_key_ckey [intro]: "key_ok v \<Longrightarrow> node_key (ckey v)"
  by (auto simp: node_key_def ckey_def key_ok_def tvismzero_def tv_ok_def tvispri_def tag_defs tvisnil_def num_isnan_def num_exp_def)

lemma ckey_node_key [simp]: "node_key v \<Longrightarrow> ckey v = v" by (simp add: node_key_def ckey_def)

lemma node_key_num_of_int [simp]: "node_key (num_of_int k)" "ckey (num_of_int k) = num_of_int k" "tvisstr (num_of_int k) = False"
proof -
  have "\<not> tvispri (num_of_int k)" "\<not> tvisstr (num_of_int k)"
    using num_of_int_tags(1) [of k] by (auto simp: tvisnum_def tvispri_def tvisstr_def tag_defs word_less_nat_alt word_le_nat_alt)
  then show "node_key (num_of_int k)" "tvisstr (num_of_int k) = False" by (simp_all add: node_key_def key_ok_def tv_ok_def tvisnil_def)
  then show "ckey (num_of_int k) = num_of_int k" by simp
qed

lemma num_eq_canon:
  assumes "\<not> num_isnan a" "\<not> tvismzero a"
  shows "num_eq a b \<longleftrightarrow> \<not> num_isnan b \<and> a = ckey b"
  using assms by (auto simp: num_eq_def num_iszero_def ckey_def tvismzero_def)

lemma mzero_num [simp]: "tvismzero v \<Longrightarrow> tvisnum v \<and> \<not> tvisstr v \<and> \<not> num_isnan v"
  by (auto simp: tvismzero_def tvisnum_def tvisstr_def tag_defs num_isnan_def num_exp_def word_less_nat_alt)

lemma lj_obj_equal_node_key:
  assumes a: "node_key a" and b: "tv_ok b" "\<not> tvisnil b"
  shows "lj_obj_equal a b \<longleftrightarrow> key_ok b \<and> a = ckey b"
proof -
  have kb: "key_ok b \<longleftrightarrow> \<not> (tvisnum b \<and> num_isnan b)" using b by (simp add: key_ok_def)
  have ca: "tv_ok a" "\<not> tvisnil a" "\<not> tvismzero a" "tvisnum a \<Longrightarrow> \<not> num_isnan a" using a by (auto simp: node_key_def key_ok_def)
  have ck: "ckey b = b" if "\<not> tvisnum b" using that mzero_num by (auto simp: ckey_def)
  show ?thesis
  proof (cases "itype a = itype b")
    case True
    consider "tvispri a" | "\<not> tvispri a" "\<not> tvisnum a" | "\<not> tvispri a" "tvisnum a" by blast
    then show ?thesis
    proof cases
      case 1
      then have "tvispri b" using True by (simp add: tvispri_def)
      then have "a = b" using 1 True ca(1,2) b by (auto simp: tv_ok_def tvisnil_def)
      moreover have "\<not> tvisnum b" using \<open>tvispri b\<close> by (auto simp: tvispri_def tvisnum_def tag_defs word_less_nat_alt word_le_nat_alt)
      ultimately show ?thesis using 1 True kb ck by (simp add: lj_obj_equal_def)
    next
      case 2
      then have "\<not> tvisnum b" using True by (simp add: tvisnum_def)
      then show ?thesis using 2 True kb ck by (simp add: lj_obj_equal_def)
    next
      case 3
      then have "tvisnum b" using True by (simp add: tvisnum_def)
      then show ?thesis using 3 True kb num_eq_canon [OF ca(4,3)] by (simp add: lj_obj_equal_def)
    qed
  next
    case False
    show ?thesis
    proof (cases "tvisnum a \<and> tvisnum b")
      case True
      then have "tvisnumber a" "tvisnumber b" by (auto simp: tvisnum_def tvisnumber_def)
      then show ?thesis using True False kb num_eq_canon [OF ca(4,3)] by (simp add: lj_obj_equal_def)
    next
      case nn: False
      have "a \<noteq> ckey b" using False nn by (auto simp: ckey_def tvismzero_def tvisnum_def tag_defs word_less_nat_alt)
      moreover have "\<not> num_eq a b" using False nn by (auto simp: num_eq_def num_iszero_def tvisnum_def tag_defs word_less_nat_alt)
      ultimately show ?thesis using False by (simp add: lj_obj_equal_def)
    qed
  qed
qed

lemma int_key_eq: "node_key a \<or> a = - 1 \<Longrightarrow> tvisnum a \<and> num_eq a (num_of_int k) \<longleftrightarrow> a = num_of_int k"
proof -
  have n: "\<not> tvisnum (- 1)" by (simp add: tvisnum_def tag_defs)
  have "num_of_int k \<noteq> - 1" by (rule num_of_int_tags)
  then show "node_key a \<or> a = - 1 \<Longrightarrow> ?thesis"
    using num_eq_canon [of a "num_of_int k"] n by (auto simp: node_key_def key_ok_def)
qed

lemma str_bits:
  assumes "tvisstr v"
  shows "setstrV (strV v) = v"
proof (rule bit_word_eqI)
  fix i assume i: "i < LENGTH(64)"
  have m: "LJ_GCVMASK = mask 47" by (simp add: LJ_GCVMASK_def mask_eq_exp_minus_1 push_bit_eq_mult)
  show "bit (setstrV (strV v)) i = bit v i"
  proof (cases "i < 47")
    case False
    then have j: "i = 47 + (i - 47)" "i - 47 < 17" using i by auto
    have "bit (signed_drop_bit 47 v) (i - 47) = bit v i" using i False by (auto simp: bit_signed_drop_bit_iff)
    moreover have "bit (itype v) (i - 47) = bit (signed_drop_bit 47 v) (i - 47)" using j(2) by (simp add: itype_def bit_simps)
    ultimately have "bit LJ_TSTR (i - 47) = bit v i" using assms by (simp add: tvisstr_def)
    then show ?thesis using i False j(2) by (simp add: setstrV_def strV_def m bit_simps)
  qed (simp add: setstrV_def strV_def m bit_simps)
qed

lemma str_key_eq: "tvisstr v \<Longrightarrow> tvisstr a \<and> strV a = strV v \<longleftrightarrow> a = v"
  using str_bits by metis

lemma tvisstr_ckey [simp]: "tvisstr v \<Longrightarrow> ckey v = v"
  using mzero_num by (auto simp: ckey_def)

lemma setstrV_parts:
  assumes "a < 2 ^ 47"
  shows "tvisstr (setstrV a)" "strV (setstrV a) = a"
proof -
  have a: "i < 47" if "bit a i" for i
  proof -
    have "unat a < 2 ^ 47" using assms by (simp add: word_less_nat_alt)
    then have "take_bit 47 a = a" by (simp add: word_unat_eq_iff unsigned_take_bit_eq take_bit_nat_eq_self)
    then show ?thesis using that by (metis bit_take_bit_iff)
  qed
  have g: "LJ_GCVMASK = mask 47" by (simp add: LJ_GCVMASK_def mask_eq_exp_minus_1 push_bit_eq_mult)
  have t: "bit (LJ_TSTR) i \<longleftrightarrow> i < 32 \<and> i \<noteq> 2" for i
  proof -
    have "bit (4 :: u32) i \<longleftrightarrow> i = 2" using bit_exp_iff [of 2 i, where 'a = u32] by auto
    then show ?thesis by (simp add: LJ_TSTR_def bit_simps)
  qed
  have s: "bit (setstrV a) i \<longleftrightarrow> i < 64 \<and> (bit a i \<or> 47 \<le> i \<and> i \<noteq> 49)" for i
    using a [of i] by (auto simp: setstrV_def bit_simps t)
  show "strV (setstrV a) = a" by (rule bit_word_eqI) (use a s in \<open>auto simp: strV_def g bit_simps\<close>)
  have "itype (setstrV a) = LJ_TSTR"
  proof (rule bit_word_eqI)
    fix i assume "i < LENGTH(32)"
    then show "bit (itype (setstrV a)) i = bit LJ_TSTR i"
      using a [of "47 + i"] a [of 63] by (auto simp: itype_def bit_simps s t bit_signed_drop_bit_iff)
  qed
  then show "tvisstr (setstrV a)" by (simp add: tvisstr_def)
qed

end
