(* ===== verification/Tab.thy ===== *)
theory Tab
  imports Tvalue Buf
begin

text \<open>
  Lua tables (\<^verbatim>\<open>lj_tab.c\<close>, \<^verbatim>\<open>lj_tab.h\<close>): an array part for small integer keys and a hash part of chained nodes with
  Brent's variation. The hash part is the list of its nodes, a pointer to a node is its index; a table without a hash part
  has the shared nil node, as in the code. The parameter \<open>sh\<close> reads the hash stored in a string object. Setters return the
  slot into which the caller stores the value. Inserting a key may rehash the table, which inserts keys again: the
  definitions below \<open>lj_tab_newkey\<close> take the function that inserts a key as an argument, and \<open>lj_tab_newkey\<close> ties the knot on the depth
  of nested rehashes.
\<close>

datatype tab_err = LJ_ERR_TABOV | LJ_ERR_NANIDX | LJ_ERR_NILIDX | TAB_FAULT | TAB_LOOP

record tnode =
  n_val :: u64
  n_key :: u64
  n_next :: "nat option"

record gctab =
  t_nomm :: u8
  t_colo :: u8
  t_array :: "u64 list"
  t_node :: "tnode list"
  t_hmask :: u32
  t_freetop :: nat

definition asize :: "gctab \<Rightarrow> nat" where "asize t = length (t_array t)"

definition LJ_MAX_HBITS :: nat where "LJ_MAX_HBITS = 26"
definition LJ_MAX_ABITS :: nat where "LJ_MAX_ABITS = 28"
definition LJ_MAX_ASIZE :: nat where "LJ_MAX_ASIZE = 2 ^ (LJ_MAX_ABITS - 1) + 1"
definition LJ_MAX_COLOSIZE :: nat where "LJ_MAX_COLOSIZE = 16"

section \<open>Hashing\<close>

definition hashrot :: "u32 \<Rightarrow> u32 \<Rightarrow> u32" where
  "hashrot lo hi =
     (let lo = lo XOR hi; hi = lj_rol32 hi 14;
          lo = lo - hi; hi = lj_rol32 hi 5;
          hi = hi XOR lo; hi = hi - lj_rol32 lo 13
      in hi)"

definition hashmask :: "u32 \<Rightarrow> u32 \<Rightarrow> nat" where "hashmask hmask hash = unat (hash AND hmask)"
definition hashlohi :: "u32 \<Rightarrow> u32 \<Rightarrow> u32 \<Rightarrow> nat" where "hashlohi hmask lo hi = hashmask hmask (hashrot lo hi)"
definition hashnum :: "u32 \<Rightarrow> u64 \<Rightarrow> nat" where "hashnum hmask v = hashlohi hmask (u32_lo v) (push_bit 1 (u32_hi v))"
definition hashgcref :: "u32 \<Rightarrow> u64 \<Rightarrow> nat" where "hashgcref hmask v = hashlohi hmask (u32_lo v) (u32_hi v)"

definition hashkey :: "(u64 \<Rightarrow> u32) \<Rightarrow> u32 \<Rightarrow> u64 \<Rightarrow> nat" where
  "hashkey sh hmask key =
     (if tvisstr key then hashmask hmask (sh (strV key))
      else if tvisnum key then hashnum hmask key
      else if tvisbool key then hashmask hmask (boolV key)
      else hashgcref hmask key)"

definition hsize2hbits :: "u32 \<Rightarrow> nat" where
  "hsize2hbits s = (if s \<noteq> 0 then (if s = 1 then 1 else 1 + unat (lj_fls (s - 1))) else 0)"

section \<open>Creation\<close>

definition nilnode :: tnode where "nilnode = \<lparr>n_val = - 1, n_key = - 1, n_next = None\<rparr>"

text \<open>Fresh memory, before it is cleared.\<close>

definition rawnode :: tnode where "rawnode = \<lparr>n_val = 0, n_key = 0, n_next = None\<rparr>"

definition newhpart :: "gctab \<Rightarrow> nat \<Rightarrow> tab_err + gctab" where
  "newhpart t hbits =
     (if hbits > LJ_MAX_HBITS then Inl LJ_ERR_TABOV
      else Inr (t\<lparr>t_node := replicate (2 ^ hbits) rawnode, t_freetop := 2 ^ hbits, t_hmask := of_nat (2 ^ hbits - 1)\<rparr>))"

definition clearhpart :: "gctab \<Rightarrow> gctab" where
  "clearhpart t = t\<lparr>t_node := map (\<lambda>n. n\<lparr>n_next := None, n_key := - 1, n_val := - 1\<rparr>) (t_node t)\<rparr>"

definition clearapart :: "gctab \<Rightarrow> gctab" where
  "clearapart t = t\<lparr>t_array := map (\<lambda>_. - 1) (t_array t)\<rparr>"

definition newtab :: "nat \<Rightarrow> nat \<Rightarrow> tab_err + gctab" where
  "newtab as hbits =
     bindE
       (if as > 0 \<and> as \<le> LJ_MAX_COLOSIZE then
          Inr \<lparr>t_nomm = NOT 0, t_colo = of_nat as, t_array = replicate as 0, t_node = [nilnode], t_hmask = 0, t_freetop = 0\<rparr>
        else if as > LJ_MAX_ASIZE then Inl LJ_ERR_TABOV
        else Inr \<lparr>t_nomm = NOT 0, t_colo = 0, t_array = replicate as 0, t_node = [nilnode], t_hmask = 0, t_freetop = 0\<rparr>)
       (\<lambda>t. if hbits \<noteq> 0 then newhpart t hbits else Inr t)"

definition lj_tab_new :: "nat \<Rightarrow> nat \<Rightarrow> tab_err + gctab" where
  "lj_tab_new as hbits =
     bindE (newtab as hbits) (\<lambda>t. let t = clearapart t in Inr (if t_hmask t > 0 then clearhpart t else t))"

definition lj_tab_new_ah :: "c_int \<Rightarrow> c_int \<Rightarrow> tab_err + gctab" where
  "lj_tab_new_ah a h = lj_tab_new (unat (if sint a > 0 then a + 1 else 0)) (hsize2hbits h)"

definition lj_tab_new1 :: "u32 \<Rightarrow> tab_err + gctab" where
  "lj_tab_new1 ahsize =
     bindE (newtab (unat (ahsize AND 0xffffff)) (unat (drop_bit 24 ahsize)))
       (\<lambda>t. let t = clearapart t in Inr (if t_hmask t > 0 then clearhpart t else t))"

definition lj_tab_dup :: "gctab \<Rightarrow> tab_err + gctab" where
  "lj_tab_dup kt =
     bindE (newtab (asize kt) (if t_hmask kt > 0 then unat (lj_fls (t_hmask kt)) + 1 else 0))
       (\<lambda>t. let t = t\<lparr>t_nomm := 0, t_array := map (\<lambda>i. t_array kt ! i) [0..<asize kt]\<rparr>
             in Inr (if t_hmask kt > 0
                     then t\<lparr>t_freetop := t_freetop kt, t_node := map (\<lambda>i. t_node kt ! i) [0..<unat (t_hmask kt) + 1]\<rparr>
                     else t))"

definition lj_tab_clear :: "gctab \<Rightarrow> gctab" where
  "lj_tab_clear t =
     (let t = clearapart t
      in if t_hmask t > 0 then clearhpart (t\<lparr>t_freetop := unat (t_hmask t) + 1\<rparr>) else t)"

section \<open>Getters\<close>

text \<open>The loop \<^verbatim>\<open>do ... while ((n = nextnode(n)))\<close>: the first node of the chain from \<open>i\<close> whose key satisfies \<open>eq\<close>.\<close>

fun chain_walk :: "(u64 \<Rightarrow> bool) \<Rightarrow> tnode list \<Rightarrow> nat \<Rightarrow> nat \<Rightarrow> tab_err + nat option" where
  "chain_walk eq ns 0 i = Inl TAB_LOOP"
| "chain_walk eq ns (Suc fuel) i =
     (case aget ns i of
        None \<Rightarrow> Inl TAB_FAULT
      | Some n \<Rightarrow>
          if eq (n_key n) then Inr (Some i)
          else (case n_next n of None \<Rightarrow> Inr None | Some j \<Rightarrow> chain_walk eq ns fuel j))"

definition tab_find :: "gctab \<Rightarrow> (u64 \<Rightarrow> bool) \<Rightarrow> nat \<Rightarrow> tab_err + nat option" where
  "tab_find t eq i = chain_walk eq (t_node t) (length (t_node t)) i"

datatype slot = ASlot nat | NSlot nat

fun slot_read :: "gctab \<Rightarrow> slot \<Rightarrow> u64" where
  "slot_read t (ASlot i) = t_array t ! i"
| "slot_read t (NSlot i) = n_val (t_node t ! i)"

fun slot_store :: "gctab \<Rightarrow> slot \<Rightarrow> u64 \<Rightarrow> gctab" where
  "slot_store t (ASlot i) v = t\<lparr>t_array := (t_array t)[i := v]\<rparr>"
| "slot_store t (NSlot i) v = t\<lparr>t_node := (t_node t)[i := (t_node t ! i)\<lparr>n_val := v\<rparr>]\<rparr>"

definition inarray :: "gctab \<Rightarrow> u32 \<Rightarrow> bool" where "inarray t key \<longleftrightarrow> unat key < asize t"

definition lj_tab_getinth :: "gctab \<Rightarrow> c_int \<Rightarrow> tab_err + slot option" where
  "lj_tab_getinth t key =
     (let k = num_of_int key
      in bindE (tab_find t (\<lambda>nk. tvisnum nk \<and> num_eq nk k) (hashnum (t_hmask t) k)) (\<lambda>r. Inr (map_option NSlot r)))"

definition lj_tab_getint :: "gctab \<Rightarrow> c_int \<Rightarrow> tab_err + slot option" where
  "lj_tab_getint t key = (if inarray t key then Inr (Some (ASlot (unat key))) else lj_tab_getinth t key)"

definition lj_tab_getstr :: "(u64 \<Rightarrow> u32) \<Rightarrow> gctab \<Rightarrow> u64 \<Rightarrow> tab_err + slot option" where
  "lj_tab_getstr sh t s =
     bindE (tab_find t (\<lambda>nk. tvisstr nk \<and> strV nk = s) (hashmask (t_hmask t) (sh s))) (\<lambda>r. Inr (map_option NSlot r))"

text \<open>\<open>None\<close> stands for \<^verbatim>\<open>niltv(L)\<close>, the nil of the global state.\<close>

definition lj_tab_get :: "(u64 \<Rightarrow> u32) \<Rightarrow> gctab \<Rightarrow> u64 \<Rightarrow> tab_err + slot option" where
  "lj_tab_get sh t key =
     (let genlookup = bindE (tab_find t (\<lambda>nk. lj_obj_equal nk key) (hashkey sh (t_hmask t) key)) (\<lambda>r. Inr (map_option NSlot r))
      in if tvisstr key then lj_tab_getstr sh t (strV key)
         else if tvisnum key then
           (let k = lj_num2int key
            in if num_eq key (num_of_int k) then lj_tab_getint t k else genlookup)
         else if \<not> tvisnil key then genlookup
         else Inr None)"

definition get_value :: "gctab \<Rightarrow> slot option \<Rightarrow> u64" where
  "get_value t r = (case r of None \<Rightarrow> niltv | Some s \<Rightarrow> slot_read t s)"

section \<open>Inserting a key\<close>

text \<open>The search for a free node below \<^verbatim>\<open>freetop\<close>: \<open>Some None\<close> when there is none.\<close>

fun find_free :: "tnode list \<Rightarrow> nat \<Rightarrow> nat option option" where
  "find_free ns 0 = Some None"
| "find_free ns (Suc f) =
     (case aget ns f of None \<Rightarrow> None | Some n \<Rightarrow> if tvisnil (n_key n) then Some (Some f) else find_free ns f)"

text \<open>\<^verbatim>\<open>while (noderef(collide->next) != n) collide = nextnode(collide)\<close>\<close>

fun find_pred :: "tnode list \<Rightarrow> nat \<Rightarrow> nat \<Rightarrow> nat \<Rightarrow> tab_err + nat" where
  "find_pred ns 0 c n = Inl TAB_LOOP"
| "find_pred ns (Suc fuel) c n =
     (case aget ns c of
        None \<Rightarrow> Inl TAB_FAULT
      | Some nd \<Rightarrow>
          if n_next nd = Some n then Inr c
          else (case n_next nd of None \<Rightarrow> Inl TAB_FAULT | Some j \<Rightarrow> find_pred ns fuel j n))"

definition set_next :: "tnode list \<Rightarrow> nat \<Rightarrow> nat option \<Rightarrow> tnode list" where
  "set_next ns i x = ns[i := (ns ! i)\<lparr>n_next := x\<rparr>]"

text \<open>The loops that rechain string keys with a changed hash.\<close>

fun rechain_rest :: "(u64 \<Rightarrow> u32) \<Rightarrow> u32 \<Rightarrow> tnode list \<Rightarrow> nat \<Rightarrow> nat \<Rightarrow> tab_err + tnode list" where
  "rechain_rest sh hmask ns 0 fr = Inl TAB_LOOP"
| "rechain_rest sh hmask ns (Suc fuel) fr =
     (case aget ns fr of
        None \<Rightarrow> Inl TAB_FAULT
      | Some fn \<Rightarrow>
          (case n_next fn of
             None \<Rightarrow> Inr ns
           | Some nn \<Rightarrow>
               (case aget ns nn of
                  None \<Rightarrow> Inl TAB_FAULT
                | Some nd \<Rightarrow>
                    if \<not> tvisnil (n_val nd) then
                      (let mn = hashkey sh hmask (n_key nd)
                       in if mn \<noteq> fr \<and> mn \<noteq> nn then
                            (let ns = set_next ns fr (n_next nd);
                                 ns = set_next ns nn (n_next (ns ! mn));
                                 ns = set_next ns mn (Some nn)
                             in rechain_rest sh hmask ns fuel fr)
                          else rechain_rest sh hmask ns fuel nn)
                    else rechain_rest sh hmask ns fuel nn)))"

fun rechain :: "(u64 \<Rightarrow> u32) \<Rightarrow> u32 \<Rightarrow> tnode list \<Rightarrow> nat \<Rightarrow> nat \<Rightarrow> nat \<Rightarrow> tab_err + tnode list" where
  "rechain sh hmask ns 0 n fr = Inl TAB_LOOP"
| "rechain sh hmask ns (Suc fuel) n fr =
     (case aget ns fr of
        None \<Rightarrow> Inl TAB_FAULT
      | Some fn \<Rightarrow>
          (case n_next fn of
             None \<Rightarrow> Inr ns
           | Some nn \<Rightarrow>
               (case aget ns nn of
                  None \<Rightarrow> Inl TAB_FAULT
                | Some nd \<Rightarrow>
                    if \<not> tvisnil (n_val nd) \<and> hashkey sh hmask (n_key nd) = n then
                      (let ns = set_next ns fr (n_next nd);
                           ns = set_next ns nn (n_next (ns ! n));
                           ns = set_next ns n (Some nn)
                       in rechain_rest sh hmask ns (length ns) fr)
                    else rechain sh hmask ns fuel n nn)))"

definition set_key :: "gctab \<Rightarrow> nat \<Rightarrow> u64 \<Rightarrow> gctab" where
  "set_key t n key = t\<lparr>t_node := (t_node t)[n := (t_node t ! n)\<lparr>n_key := (if tvismzero key then 0 else key)\<rparr>]\<rparr>"

text \<open>The insertion into a table with a free node: the colliding node \<open>n\<close> is not in its main position and moves to the free node,
  or the new key takes the free node.\<close>

definition move_colliding :: "(u64 \<Rightarrow> u32) \<Rightarrow> gctab \<Rightarrow> nat \<Rightarrow> nat \<Rightarrow> nat \<Rightarrow> tab_err + gctab" where
  "move_colliding sh t n collide fr =
     bindE (find_pred (t_node t) (length (t_node t)) collide n)
       (\<lambda>p. let ns = set_next (t_node t) p (Some fr);
                ns = ns[fr := ns ! n];
                ns = ns[n := (ns ! n)\<lparr>n_next := None, n_val := - 1\<rparr>]
            in bindE (rechain sh (t_hmask t) ns (length ns) n fr) (\<lambda>ns. Inr (t\<lparr>t_node := ns\<rparr>)))"

definition chain_free :: "gctab \<Rightarrow> nat \<Rightarrow> nat \<Rightarrow> gctab" where
  "chain_free t n fr =
     (let ns = set_next (t_node t) fr (n_next (t_node t ! n)); ns = set_next ns n (Some fr) in t\<lparr>t_node := ns\<rparr>)"

text \<open>\<open>Inr None\<close>: there is no free node and the table has to be rehashed.\<close>

definition newkey_insert :: "(u64 \<Rightarrow> u32) \<Rightarrow> gctab \<Rightarrow> u64 \<Rightarrow> tab_err + (slot \<times> gctab) option" where
  "newkey_insert sh t key =
     (let n = hashkey sh (t_hmask t) key
      in case aget (t_node t) n of
           None \<Rightarrow> Inl TAB_FAULT
         | Some nd \<Rightarrow>
             if \<not> tvisnil (n_val nd) \<or> t_hmask t = 0 then
               (case find_free (t_node t) (t_freetop t) of
                  None \<Rightarrow> Inl TAB_FAULT
                | Some None \<Rightarrow> Inr None
                | Some (Some fr) \<Rightarrow>
                    (let t = t\<lparr>t_freetop := fr\<rparr>; collide = hashkey sh (t_hmask t) (n_key nd)
                     in if collide \<noteq> n
                        then bindE (move_colliding sh t n collide fr) (\<lambda>t. Inr (Some (NSlot n, set_key t n key)))
                        else Inr (Some (NSlot fr, set_key (chain_free t n fr) fr key))))
             else Inr (Some (NSlot n, set_key t n key)))"

section \<open>Setters\<close>

type_synonym inserter = "gctab \<Rightarrow> u64 \<Rightarrow> tab_err + slot \<times> gctab"

definition tab_setinth :: "inserter \<Rightarrow> gctab \<Rightarrow> c_int \<Rightarrow> tab_err + slot \<times> gctab" where
  "tab_setinth newkey t key =
     (let k = num_of_int key
      in bindE (tab_find t (\<lambda>nk. tvisnum nk \<and> num_eq nk k) (hashnum (t_hmask t) k))
           (\<lambda>r. case r of Some i \<Rightarrow> Inr (NSlot i, t) | None \<Rightarrow> newkey t k))"

definition tab_setint :: "inserter \<Rightarrow> gctab \<Rightarrow> c_int \<Rightarrow> tab_err + slot \<times> gctab" where
  "tab_setint newkey t key = (if inarray t key then Inr (ASlot (unat key), t) else tab_setinth newkey t key)"

definition tab_setstr :: "(u64 \<Rightarrow> u32) \<Rightarrow> inserter \<Rightarrow> gctab \<Rightarrow> u64 \<Rightarrow> tab_err + slot \<times> gctab" where
  "tab_setstr sh newkey t s =
     bindE (tab_find t (\<lambda>nk. tvisstr nk \<and> strV nk = s) (hashmask (t_hmask t) (sh s)))
       (\<lambda>r. case r of Some i \<Rightarrow> Inr (NSlot i, t) | None \<Rightarrow> newkey t (setstrV s))"

definition tab_set :: "(u64 \<Rightarrow> u32) \<Rightarrow> inserter \<Rightarrow> gctab \<Rightarrow> u64 \<Rightarrow> tab_err + slot \<times> gctab" where
  "tab_set sh newkey t key =
     (let t = t\<lparr>t_nomm := 0\<rparr>;
          generic = bindE (tab_find t (\<lambda>nk. lj_obj_equal nk key) (hashkey sh (t_hmask t) key))
                      (\<lambda>r. case r of Some i \<Rightarrow> Inr (NSlot i, t) | None \<Rightarrow> newkey t key)
      in if tvisstr key then tab_setstr sh newkey t (strV key)
         else if tvisnum key then
           (let k = lj_num2int key
            in if num_eq key (num_of_int k) then tab_setint newkey t k
               else if tvisnan key then Inl LJ_ERR_NANIDX
               else generic)
         else if tvisnil key then Inl LJ_ERR_NILIDX
         else generic)"

section \<open>Resizing\<close>

text \<open>The loops that reinsert the old array values from index \<open>i\<close> on, and the pairs of the old hash part.\<close>

fun reinsert_array :: "inserter \<Rightarrow> nat \<Rightarrow> u64 list \<Rightarrow> gctab \<Rightarrow> tab_err + gctab" where
  "reinsert_array newkey i [] t = Inr t"
| "reinsert_array newkey i (v # vs) t =
     (if tvisnil v then reinsert_array newkey (Suc i) vs t
      else bindE (tab_setinth newkey t (of_nat i)) (\<lambda>(s, t). reinsert_array newkey (Suc i) vs (slot_store t s v)))"

fun reinsert_hash :: "(u64 \<Rightarrow> u32) \<Rightarrow> inserter \<Rightarrow> tnode list \<Rightarrow> gctab \<Rightarrow> tab_err + gctab" where
  "reinsert_hash sh newkey [] t = Inr t"
| "reinsert_hash sh newkey (n # ns) t =
     (if tvisnil (n_val n) then reinsert_hash sh newkey ns t
      else bindE (tab_set sh newkey t (n_key n)) (\<lambda>(s, t). reinsert_hash sh newkey ns (slot_store t s (n_val n))))"

text \<open>The growth of the array part (separating a colocated one), and the new hash part.\<close>

definition grow_array :: "gctab \<Rightarrow> nat \<Rightarrow> tab_err + gctab" where
  "grow_array t as =
     (if as > asize t then
        (if as > LJ_MAX_ASIZE then Inl LJ_ERR_TABOV
         else Inr (t\<lparr>t_colo := (if sint (t_colo t) > 0 then t_colo t OR 0x80 else t_colo t),
                     t_array := t_array t @ replicate (as - asize t) (- 1)\<rparr>))
      else Inr t)"

definition fresh_hpart :: "gctab \<Rightarrow> nat \<Rightarrow> tab_err + gctab" where
  "fresh_hpart t hbits =
     (if hbits \<noteq> 0 then bindE (newhpart t hbits) (\<lambda>t. Inr (clearhpart t))
      else Inr (t\<lparr>t_node := [nilnode], t_freetop := 0, t_hmask := 0\<rparr>))"

definition tab_resize :: "(u64 \<Rightarrow> u32) \<Rightarrow> inserter \<Rightarrow> gctab \<Rightarrow> nat \<Rightarrow> nat \<Rightarrow> tab_err + gctab" where
  "tab_resize sh newkey t as hbits =
     (let oldnode = t_node t; oldarray = t_array t; oldhmask = t_hmask t
      in bindE (grow_array t as) (\<lambda>t.
         bindE (fresh_hpart t hbits) (\<lambda>t.
         bindE (if as < length oldarray
                then reinsert_array newkey as (drop as oldarray) (t\<lparr>t_array := take as (t_array t)\<rparr>)
                else Inr t) (\<lambda>t.
         if oldhmask > 0 then reinsert_hash sh newkey oldnode t else Inr t))))"

definition int_bin :: "u32 \<Rightarrow> nat" where
  "int_bin k = (if sint k > 2 then unat (lj_fls (k - 1)) else 0)"

definition countint :: "u64 \<Rightarrow> nat list \<Rightarrow> tab_err + nat \<times> nat list" where
  "countint key bins =
     (if tvisnum key then
        (let k = lj_num2int key
         in if unat k < LJ_MAX_ASIZE \<and> num_eq key (num_of_int k) then
              (case aget bins (int_bin k) of
                 None \<Rightarrow> Inl TAB_FAULT
               | Some c \<Rightarrow> Inr (1, bins[int_bin k := c + 1]))
            else Inr (0, bins))
      else Inr (0, bins))"

text \<open>The loop of \<^verbatim>\<open>countarray\<close> over the bins: \<open>i\<close> is the next index, the values of a bin are counted up to its top.\<close>

primrec countarray_loop :: "u64 list \<Rightarrow> nat \<Rightarrow> nat \<Rightarrow> nat \<Rightarrow> nat list \<Rightarrow> nat \<times> nat list" where
  "countarray_loop arr 0 i na bins = (na, bins)"
| "countarray_loop arr (Suc m) i na bins =
     (let b = LJ_MAX_ABITS - Suc m; tp = 2 * 2 ^ b
      in if tp \<ge> length arr \<and> i > length arr - 1 then (na, bins)
         else let tp = (if tp \<ge> length arr then length arr - 1 else tp);
                  n = length (filter (\<lambda>v. \<not> tvisnil v) (take (Suc tp - i) (drop i arr)))
              in countarray_loop arr m (max i (Suc tp)) (na + n) (bins[b := bins ! b + n]))"

definition countarray :: "gctab \<Rightarrow> nat list \<Rightarrow> nat \<times> nat list" where
  "countarray t bins = (if asize t = 0 then (0, bins) else countarray_loop (t_array t) LJ_MAX_ABITS 0 0 bins)"

primrec counthash_loop :: "tnode list \<Rightarrow> nat list \<Rightarrow> nat \<Rightarrow> nat \<Rightarrow> tab_err + nat \<times> nat \<times> nat list" where
  "counthash_loop [] bins cnt na = Inr (cnt, na, bins)"
| "counthash_loop (n # ns) bins cnt na =
     (if tvisnil (n_val n) then counthash_loop ns bins cnt na
      else bindE (countint (n_key n) bins) (\<lambda>(c, bins). counthash_loop ns bins (cnt + 1) (na + c)))"

definition counthash :: "gctab \<Rightarrow> nat list \<Rightarrow> nat \<Rightarrow> tab_err + nat \<times> nat \<times> nat list" where
  "counthash t bins narray =
     bindE (counthash_loop (t_node t) bins 0 0) (\<lambda>(cnt, na, bins). Inr (cnt, narray + na, bins))"

function bestasize_loop :: "nat list \<Rightarrow> nat \<Rightarrow> nat \<Rightarrow> nat \<Rightarrow> nat \<Rightarrow> nat \<Rightarrow> (nat \<times> nat) option" where
  "bestasize_loop bins nn b acc na sz =
     (if 2 * nn > 2 ^ b \<and> acc \<noteq> nn then
        (case aget bins b of
           None \<Rightarrow> None
         | Some c \<Rightarrow>
             if c > 0 then
               (if 2 * (acc + c) > 2 ^ b then bestasize_loop bins nn (Suc b) (acc + c) (acc + c) (2 * 2 ^ b + 1)
                else bestasize_loop bins nn (Suc b) (acc + c) na sz)
             else bestasize_loop bins nn (Suc b) acc na sz)
      else Some (na, sz))"
  by pat_completeness auto
termination
  by (relation "measure (\<lambda>(bins, nn, b, _). length bins - b)") (auto simp: aget_eq_Some_iff)

definition bestasize :: "nat list \<Rightarrow> nat \<Rightarrow> (nat \<times> nat) option" where
  "bestasize bins narray = bestasize_loop bins narray 0 0 0 0"

definition rehashtab :: "(u64 \<Rightarrow> u32) \<Rightarrow> inserter \<Rightarrow> gctab \<Rightarrow> u64 \<Rightarrow> tab_err + gctab" where
  "rehashtab sh newkey t ek =
     (let bins = replicate LJ_MAX_ABITS 0;
          (as, bins) = countarray t bins;
          cnt = 1 + as
      in bindE (counthash t bins as) (\<lambda>(h, as, bins).
         let cnt = cnt + h
         in bindE (countint ek bins) (\<lambda>(c, bins).
            let as = as + c
            in case bestasize bins as of
                 None \<Rightarrow> Inl TAB_FAULT
               | Some (na, as) \<Rightarrow> tab_resize sh newkey t as (hsize2hbits (of_nat (cnt - na))))))"

section \<open>The recursion\<close>

definition newkey_step :: "(u64 \<Rightarrow> u32) \<Rightarrow> inserter \<Rightarrow> inserter" where
  "newkey_step sh retry t key =
     bindE (newkey_insert sh t key) (\<lambda>r. case r of Some st \<Rightarrow> Inr st | None \<Rightarrow> retry t key)"

primrec newkey :: "(u64 \<Rightarrow> u32) \<Rightarrow> nat \<Rightarrow> inserter" where
  "newkey sh 0 = newkey_step sh (\<lambda>t key. Inl TAB_LOOP)"
| "newkey sh (Suc d) =
     newkey_step sh (\<lambda>t key. bindE (rehashtab sh (newkey sh d) t key) (\<lambda>t. tab_set sh (newkey sh d) t key))"

text \<open>One nested level is enough: a table that has just been resized has room for all its keys.\<close>

definition lj_tab_newkey :: "(u64 \<Rightarrow> u32) \<Rightarrow> inserter" where "lj_tab_newkey sh = newkey sh 1"
definition lj_tab_setinth :: "(u64 \<Rightarrow> u32) \<Rightarrow> gctab \<Rightarrow> c_int \<Rightarrow> tab_err + slot \<times> gctab" where "lj_tab_setinth sh = tab_setinth (lj_tab_newkey sh)"
definition lj_tab_setstr :: "(u64 \<Rightarrow> u32) \<Rightarrow> gctab \<Rightarrow> u64 \<Rightarrow> tab_err + slot \<times> gctab" where "lj_tab_setstr sh = tab_setstr sh (lj_tab_newkey sh)"
definition lj_tab_set :: "(u64 \<Rightarrow> u32) \<Rightarrow> gctab \<Rightarrow> u64 \<Rightarrow> tab_err + slot \<times> gctab" where "lj_tab_set sh = tab_set sh (lj_tab_newkey sh)"
definition lj_tab_resize :: "(u64 \<Rightarrow> u32) \<Rightarrow> gctab \<Rightarrow> nat \<Rightarrow> nat \<Rightarrow> tab_err + gctab" where "lj_tab_resize sh = tab_resize sh (lj_tab_newkey sh)"
definition lj_tab_rehash :: "(u64 \<Rightarrow> u32) \<Rightarrow> gctab \<Rightarrow> tab_err + gctab" where "lj_tab_rehash sh t = rehashtab sh (lj_tab_newkey sh) t niltv"

definition lj_tab_reasize :: "(u64 \<Rightarrow> u32) \<Rightarrow> gctab \<Rightarrow> nat \<Rightarrow> tab_err + gctab" where
  "lj_tab_reasize sh t nasize =
     lj_tab_resize sh t ((nasize + 1) mod 2 ^ 32) (if t_hmask t > 0 then unat (lj_fls (t_hmask t)) + 1 else 0)"

end
