(* ===== verification/Tab_Chain.thy ===== *)
theory Tab_Chain
  imports Tab
begin

text \<open>
  The chains of the hash part. Nodes are linked by \<open>nx\<close> and hold the keys \<open>ky\<close>; \<open>h\<close> is the main position of a key.
  The invariant \<open>chains\<close> says that the links form disjoint finite lists, that every key is found on the list that starts at
  its main position, and that a main position somebody refers to holds a key of its own. The three ways in which a key is
  inserted keep it.
\<close>

section \<open>Linked lists of nodes\<close>

primrec nlist :: "(nat \<Rightarrow> nat option) \<Rightarrow> nat option \<Rightarrow> nat list \<Rightarrow> bool" where
  "nlist nx x [] \<longleftrightarrow> x = None"
| "nlist nx x (a # as) \<longleftrightarrow> x = Some a \<and> nlist nx (nx a) as"

lemma nlist_None [simp]: "nlist nx None as \<longleftrightarrow> as = []"
  by (cases as) auto

lemma nlist_Some: "nlist nx (Some a) as \<longleftrightarrow> (\<exists>bs. as = a # bs \<and> nlist nx (nx a) bs)"
  by (cases as) auto

lemma nlist_functional: "nlist nx x as \<Longrightarrow> nlist nx x bs \<Longrightarrow> as = bs"
  by (induction as arbitrary: x bs) (auto simp: nlist_Some)

lemma nlist_suffix: "nlist nx x (as @ b # bs) \<Longrightarrow> nlist nx (Some b) (b # bs)"
  by (induction as arbitrary: x) auto

lemma nlist_acyclic: "nlist nx (nx a) as \<Longrightarrow> a \<notin> set as"
proof
  assume l: "nlist nx (nx a) as" and "a \<in> set as"
  then obtain us vs where "as = us @ a # vs" by (meson split_list)
  then have "nlist nx (nx a) vs" using nlist_suffix l by fastforce
  then have "as = vs" by (rule nlist_functional [OF l])
  then show False using \<open>as = us @ a # vs\<close> by simp
qed

lemma nlist_distinct: "nlist nx x as \<Longrightarrow> distinct as"
  by (induction as arbitrary: x) (auto simp: nlist_acyclic)

lemma nlist_cong: "nlist nx x as \<Longrightarrow> (\<And>a. a \<in> set as \<Longrightarrow> nx' a = nx a) \<Longrightarrow> nlist nx' x as"
  by (induction as arbitrary: x) auto

text \<open>A node \<open>fr\<close> outside all lists is linked in behind \<open>n\<close>, or takes the place of \<open>n\<close>.\<close>

lemma nlist_insert:
  assumes "nlist nx x as" "fr \<notin> set as"
  shows "nlist (nx(fr := nx n, n := Some fr)) x (concat (map (\<lambda>a. if a = n then [n, fr] else [a]) as))"
  using assms by (induction as arbitrary: x) auto

lemma nlist_replace:
  assumes "nlist nx x as" "fr \<notin> set as" "\<And>a. a \<in> set as \<Longrightarrow> nx a = Some n \<longleftrightarrow> a = p" "p \<noteq> n" "fr \<noteq> n"
  defines "f \<equiv> \<lambda>a. if a = n then fr else a"
  shows "nlist (nx(p := Some fr, fr := nx n, n := None)) (map_option f x) (map f as)"
  using assms(1-5)
proof (induction as arbitrary: x)
  case (Cons a as)
  let ?nx = "nx(p := Some fr, fr := nx n, n := None)"
  have x: "x = Some a" and l: "nlist nx (nx a) as" using Cons.prems(1) by auto
  have IH: "nlist ?nx (map_option f (nx a)) (map f as)" by (rule Cons.IH [OF l]) (use Cons.prems in simp_all)
  have "?nx (f a) = map_option f (nx a)"
  proof (cases "a = p")
    case True
    then have "nx a = Some n" using Cons.prems(3) [of a] by simp
    then show ?thesis using True Cons.prems(2) assms(4,5) by (simp add: f_def)
  next
    case False
    then have "nx a \<noteq> Some n" using Cons.prems(3) [of a] by simp
    then have "map_option f (nx a) = nx a" by (cases "nx a") (auto simp: f_def)
    then show ?thesis using False Cons.prems(2) by (auto simp: f_def)
  qed
  with IH have "nlist ?nx (?nx (f a)) (map f as)" by (simp only:)
  then show ?case unfolding x by (simp only: list.map nlist.simps option.map)
qed simp

section \<open>The invariant\<close>

definition reach :: "(nat \<Rightarrow> nat option) \<Rightarrow> nat \<Rightarrow> nat \<Rightarrow> bool" where
  "reach nx i j \<longleftrightarrow> (\<exists>as. nlist nx (Some i) as \<and> j \<in> set as)"

definition lists_ok :: "nat \<Rightarrow> (nat \<Rightarrow> nat option) \<Rightarrow> bool" where
  "lists_ok N nx \<longleftrightarrow> (\<forall>i<N. \<exists>as. nlist nx (Some i) as \<and> set as \<subseteq> {..<N}) \<and>
     (\<forall>i<N. \<forall>j<N. \<forall>k. nx i = Some k \<longrightarrow> nx j = Some k \<longrightarrow> i = j)"

definition free_ok :: "nat \<Rightarrow> (nat \<Rightarrow> nat option) \<Rightarrow> (nat \<Rightarrow> u64) \<Rightarrow> bool" where
  "free_ok N nx ky \<longleftrightarrow> (\<forall>i<N. ky i = - 1 \<longrightarrow> nx i = None \<and> (\<forall>j<N. nx j \<noteq> Some i))"

definition main_ok :: "nat \<Rightarrow> (nat \<Rightarrow> nat option) \<Rightarrow> (nat \<Rightarrow> u64) \<Rightarrow> (u64 \<Rightarrow> nat) \<Rightarrow> nat \<Rightarrow> bool" where
  "main_ok N nx ky h i \<longleftrightarrow> h (ky i) < N \<and> reach nx (h (ky i)) i \<and> h (ky (h (ky i))) = h (ky i)"

definition keys_ok :: "nat \<Rightarrow> (nat \<Rightarrow> u64) \<Rightarrow> bool" where
  "keys_ok N ky \<longleftrightarrow> (\<forall>i<N. \<forall>j<N. ky i = ky j \<longrightarrow> ky i \<noteq> - 1 \<longrightarrow> i = j)"

definition chains :: "nat \<Rightarrow> (nat \<Rightarrow> nat option) \<Rightarrow> (nat \<Rightarrow> u64) \<Rightarrow> (u64 \<Rightarrow> nat) \<Rightarrow> bool" where
  "chains N nx ky h \<longleftrightarrow> lists_ok N nx \<and> free_ok N nx ky \<and> (\<forall>i<N. ky i \<noteq> - 1 \<longrightarrow> main_ok N nx ky h i) \<and> keys_ok N ky"

lemma chainsI:
  assumes "\<And>i. i < N \<Longrightarrow> \<exists>as. nlist nx (Some i) as \<and> set as \<subseteq> {..<N}"
    "\<And>i j k. i < N \<Longrightarrow> j < N \<Longrightarrow> nx i = Some k \<Longrightarrow> nx j = Some k \<Longrightarrow> i = j"
    "\<And>i. i < N \<Longrightarrow> ky i = - 1 \<Longrightarrow> nx i = None \<and> (\<forall>j<N. nx j \<noteq> Some i)"
    "\<And>i. i < N \<Longrightarrow> ky i \<noteq> - 1 \<Longrightarrow> main_ok N nx ky h i"
    "\<And>i j. i < N \<Longrightarrow> j < N \<Longrightarrow> ky i = ky j \<Longrightarrow> ky i \<noteq> - 1 \<Longrightarrow> i = j"
  shows "chains N nx ky h"
proof -
  have "lists_ok N nx" unfolding lists_ok_def using assms(1,2) by blast
  moreover have "free_ok N nx ky" unfolding free_ok_def using assms(3) by blast
  moreover have "keys_ok N ky" unfolding keys_ok_def using assms(5) by blast
  ultimately show ?thesis unfolding chains_def using assms(4) by blast
qed

lemma chains_inj: "chains N nx ky h \<Longrightarrow> i < N \<Longrightarrow> j < N \<Longrightarrow> nx i = Some k \<Longrightarrow> nx j = Some k \<Longrightarrow> i = j"
  unfolding chains_def lists_ok_def by blast

lemma chains_key_inj: "chains N nx ky h \<Longrightarrow> i < N \<Longrightarrow> j < N \<Longrightarrow> ky i = ky j \<Longrightarrow> ky i \<noteq> - 1 \<Longrightarrow> i = j"
  unfolding chains_def keys_ok_def by blast

lemma chains_path:
  assumes "chains N nx ky h" "i < N"
  shows "\<exists>as. nlist nx (Some i) as \<and> set as \<subseteq> {..<N} \<and> length as \<le> N"
proof -
  obtain as where as: "nlist nx (Some i) as" "set as \<subseteq> {..<N}" using assms unfolding chains_def lists_ok_def by blast
  have "length as = card (set as)" using nlist_distinct [OF as(1)] by (simp add: distinct_card)
  also have "\<dots> \<le> N" using card_mono [OF _ as(2)] by simp
  finally show ?thesis using as by blast
qed

lemma chains_nil: "chains N nx ky h \<Longrightarrow> i < N \<Longrightarrow> ky i = - 1 \<Longrightarrow> nx i = None \<and> (\<forall>j<N. nx j \<noteq> Some i)"
  unfolding chains_def free_ok_def by blast

lemma chains_main: "chains N nx ky h \<Longrightarrow> i < N \<Longrightarrow> ky i \<noteq> - 1 \<Longrightarrow> main_ok N nx ky h i"
  unfolding chains_def by blast

lemma chains_key:
  assumes "chains N nx ky h" "i < N" "ky i \<noteq> - 1"
  shows "h (ky i) < N" "reach nx (h (ky i)) i" "h (ky (h (ky i))) = h (ky i)"
  using chains_main [OF assms] unfolding main_ok_def by blast+

lemma chains_next: "chains N nx ky h \<Longrightarrow> i < N \<Longrightarrow> nx i = Some j \<Longrightarrow> j < N"
proof -
  assume c: "chains N nx ky h" "i < N" "nx i = Some j"
  obtain as where "nlist nx (Some i) as" "set as \<subseteq> {..<N}" using chains_path [OF c(1,2)] by blast
  then show ?thesis using c(3) by (auto simp: nlist_Some)
qed

lemma chains_off_path:
  assumes c: "chains N nx ky h" and fr: "fr < N" "ky fr = - 1" and l: "nlist nx (Some i) as" "set as \<subseteq> {..<N}" and i: "i \<noteq> fr"
  shows "fr \<notin> set as"
proof
  assume "fr \<in> set as"
  then obtain us vs where s: "as = us @ fr # vs" by (meson split_list)
  with l(1) i have "us \<noteq> []" by (cases us) auto
  then obtain us' b where b: "us = us' @ [b]" by (metis rev_exhaust)
  then have "nlist nx (Some b) (b # fr # vs)" using nlist_suffix [of nx "Some i" us' b "fr # vs"] l(1) s by simp
  then have "nx b = Some fr" by simp
  moreover have "b < N" using l(2) s b by auto
  ultimately show False using chains_nil [OF c fr] by simp
qed

lemma chains_main_key:
  assumes c: "chains N nx ky h" and i: "i < N" "ky i \<noteq> - 1"
  shows "ky (h (ky i)) \<noteq> - 1"
proof
  assume n: "ky (h (ky i)) = - 1"
  note k = chains_key [OF c i]
  have "nx (h (ky i)) = None" using chains_nil [OF c k(1) n] by simp
  then have "i = h (ky i)" using k(2) by (auto simp: reach_def nlist_Some)
  then show False using n i(2) by simp
qed

section \<open>Insertion\<close>

text \<open>The main position is free or holds a dead key.\<close>

lemma chains_set_key:
  assumes c: "chains N nx ky h" and n: "n < N" "h k = n" and k: "k \<noteq> - 1" "\<And>i. i < N \<Longrightarrow> ky i \<noteq> k"
  shows "chains N nx (ky(n := k)) h"
proof -
  have r: "reach nx n n" using chains_path [OF c n(1)] by (metis reach_def list.set_intros(1) nlist_Some)
  show ?thesis
  proof (rule chainsI)
    show "\<exists>as. nlist nx (Some i) as \<and> set as \<subseteq> {..<N}" if "i < N" for i using chains_path [OF c that] by blast
    show "i = j" if "i < N" "j < N" "nx i = Some m" "nx j = Some m" for i j m by (rule chains_inj [OF c that])
    show "nx i = None \<and> (\<forall>j<N. nx j \<noteq> Some i)" if "i < N" "(ky(n := k)) i = - 1" for i
      using chains_nil [OF c] that k(1) by (auto split: if_splits)
    show "main_ok N nx (ky(n := k)) h i" if "i < N" "(ky(n := k)) i \<noteq> - 1" for i
      using chains_key [OF c, of i] that n r unfolding main_ok_def by (cases "i = n") auto
    show "i = j" if "i < N" "j < N" "(ky(n := k)) i = (ky(n := k)) j" "(ky(n := k)) i \<noteq> - 1" for i j
      using chains_key_inj [OF c, of i j] that k(2) by (auto split: if_splits)
  qed
qed

text \<open>The main position holds a key of its own: the free node is linked in behind it.\<close>

lemma chains_insert:
  assumes c: "chains N nx ky h" and n: "n < N" "h k = n" "ky n \<noteq> - 1" "h (ky n) = n"
    and fr: "fr < N" "ky fr = - 1" and k: "k \<noteq> - 1" "\<And>i. i < N \<Longrightarrow> ky i \<noteq> k"
  shows "chains N (nx(fr := nx n, n := Some fr)) (ky(fr := k)) h"
proof -
  let ?nx = "nx(fr := nx n, n := Some fr)" and ?g = "\<lambda>as. concat (map (\<lambda>a. if a = n then [n, fr] else [a]) as)"
  have ne: "n \<noteq> fr" using n(3) fr(2) by auto
  have f: "nx fr = None" "\<And>j. j < N \<Longrightarrow> nx j \<noteq> Some fr" using chains_nil [OF c fr] by auto
  have path: "\<exists>bs. nlist ?nx (Some i) bs \<and> set as \<subseteq> set bs \<and> set bs \<subseteq> insert fr (set as) \<and> (n \<in> set as \<longrightarrow> fr \<in> set bs)"
    if "nlist nx (Some i) as" and "set as \<subseteq> {..<N}" and "i \<noteq> fr" for i as
    using nlist_insert [OF that(1) chains_off_path [OF c fr that], of n] by (intro exI [of _ "?g as"]) auto
  have rch: "reach ?nx i j" if r: "reach nx i j" and "i < N" and nf: "i \<noteq> fr" for i j
  proof -
    obtain as where as: "nlist nx (Some i) as" "set as \<subseteq> {..<N}" using chains_path [OF c \<open>i < N\<close>] by blast
    moreover have "j \<in> set as" using r nlist_functional [OF as(1)] by (auto simp: reach_def)
    ultimately show ?thesis using path [OF as nf] by (auto simp: reach_def)
  qed
  obtain as where as: "nlist nx (Some n) as" "set as \<subseteq> {..<N}" using chains_path [OF c n(1)] by blast
  have nas: "n \<in> set as" using as(1) by (auto simp: nlist_Some)
  obtain bs where bs: "nlist ?nx (Some n) bs" "fr \<in> set bs" "set bs \<subseteq> {..<N}" using path [OF as ne] as(2) nas fr(1) by auto
  have P1: "\<exists>as. nlist ?nx (Some i) as \<and> set as \<subseteq> {..<N}" if iN: "i < N" for i
  proof (cases "i = fr")
    case True
    obtain us vs where s: "bs = us @ fr # vs" using bs(2) by (meson split_list)
    then show ?thesis using nlist_suffix [of ?nx "Some n" us fr vs] bs True by (intro exI [of _ "fr # vs"]) auto
  next
    case False
    obtain as where "nlist nx (Some i) as" "set as \<subseteq> {..<N}" using chains_path [OF c iN] by blast
    then show ?thesis using path False fr(1) by (metis (no_types, lifting) insert_subset lessThan_iff subset_trans)
  qed
  have P2: "i = j" if "i < N" "j < N" "?nx i = Some m" "?nx j = Some m" for i j m
    using that chains_inj [OF c] n(1) f(2) by (auto split: if_splits)
  have P4: "h (ky i) < N \<and> reach ?nx (h (ky i)) i \<and> h ((ky(fr := k)) (h (ky i))) = h (ky i)" if "i < N" "ky i \<noteq> - 1" for i
    using chains_key [OF c that] chains_main_key [OF c that] rch fr(2) by (metis fun_upd_other)
  show ?thesis
  proof (rule chainsI)
    show "?nx i = None \<and> (\<forall>j<N. ?nx j \<noteq> Some i)" if "i < N" "(ky(fr := k)) i = - 1" for i
    proof -
      have i: "ky i = - 1" "i \<noteq> fr" using that(2) k(1) by (auto split: if_splits)
      then show ?thesis using chains_nil [OF c that(1) i(1)] n(1,3) by auto
    qed
    show "main_ok N ?nx (ky(fr := k)) h i" if "i < N" "(ky(fr := k)) i \<noteq> - 1" for i
    proof (cases "i = fr")
      case True
      then show ?thesis using n bs(1,2) ne by (auto simp: main_ok_def reach_def)
    next
      case False
      then show ?thesis using P4 [of i] that by (simp add: main_ok_def)
    qed
    show "i = j" if "i < N" "j < N" "(ky(fr := k)) i = (ky(fr := k)) j" "(ky(fr := k)) i \<noteq> - 1" for i j
      using that k(2) chains_key_inj [OF c, of i j] by (auto split: if_splits)
  qed (use P1 P2 in blast)+
qed

text \<open>The node \<open>n\<close> at the main position belongs to another chain: the free node takes its place there. \<open>p\<close> is the node before it.\<close>

lemma moved_links:
  assumes c: "chains N nx ky h" and n: "n < N" "ky n \<noteq> - 1" and fr: "fr < N" "ky fr = - 1" and p: "p < N" "nx p = Some n"
  shows "fr \<noteq> n" "p \<noteq> n" "p \<noteq> fr" "\<And>a. a < N \<Longrightarrow> nx a = Some n \<longleftrightarrow> a = p" "\<And>j. j < N \<Longrightarrow> nx j \<noteq> Some fr"
proof -
  show "fr \<noteq> n" using n(2) fr(2) by auto
  show "\<And>j. j < N \<Longrightarrow> nx j \<noteq> Some fr" "p \<noteq> fr" using chains_nil [OF c fr] p(2) by auto
  show "nx a = Some n \<longleftrightarrow> a = p" if "a < N" for a using chains_inj [OF c that p(1), of n] p(2) by auto
  obtain bs where "nlist nx (Some n) bs" using chains_path [OF c n(1)] by blast
  then obtain cs where cs: "nlist nx (nx n) cs" unfolding nlist_Some by blast
  show "p \<noteq> n"
  proof
    assume "p = n"
    then have "nlist nx (Some n) cs" using cs p(2) by metis
    then have "n \<in> set cs" unfolding nlist_Some by (metis list.set_intros(1))
    then show False using nlist_acyclic [OF cs] by simp
  qed
qed

lemma moved_path:
  assumes c: "chains N nx ky h" "n < N" "ky n \<noteq> - 1" "fr < N" "ky fr = - 1" "p < N" "nx p = Some n"
    and l: "nlist nx (Some i) as" "set as \<subseteq> {..<N}" and i: "i \<noteq> fr" "i \<noteq> n"
  shows "nlist (nx(p := Some fr, fr := nx n, n := None)) (Some i) (map (\<lambda>a. if a = n then fr else a) as)"
proof -
  note L = moved_links [OF c]
  show ?thesis using nlist_replace [OF l(1) chains_off_path [OF c(1,4,5) l i(1)] _ L(2,1)] L(4) l(2) i(2) by auto
qed

lemma moved_reach:
  assumes c: "chains N nx ky h" "n < N" "ky n \<noteq> - 1" "fr < N" "ky fr = - 1" "p < N" "nx p = Some n"
    and r: "reach nx i j" and i: "i < N" "i \<noteq> fr" "i \<noteq> n"
  shows "reach (nx(p := Some fr, fr := nx n, n := None)) i (if j = n then fr else j)"
proof -
  obtain as where as: "nlist nx (Some i) as" "set as \<subseteq> {..<N}" using chains_path [OF c(1) i(1)] by blast
  moreover have "j \<in> set as" using r nlist_functional [OF as(1)] by (auto simp: reach_def)
  ultimately show ?thesis using moved_path [OF c as i(2,3)] by (auto simp: reach_def)
qed

lemma moved_tail:
  assumes c: "chains N nx ky h" "n < N" "ky n \<noteq> - 1" "fr < N" "ky fr = - 1" "p < N" "nx p = Some n"
    and l: "nlist nx (nx n) as"
  shows "nlist (nx(p := Some fr, fr := nx n, n := None)) (Some fr) (fr # as)" "set as \<subseteq> {..<N}"
proof -
  note L = moved_links [OF c]
  have ln: "nlist nx (Some n) (n # as)" using l by simp
  obtain bs where bs: "nlist nx (Some n) bs" "set bs \<subseteq> {..<N}" using chains_path [OF c(1,2)] by blast
  have sub: "set (n # as) \<subseteq> {..<N}" using nlist_functional [OF bs(1) ln] bs(2) by simp
  then show "set as \<subseteq> {..<N}" by simp
  have "fr \<notin> set (n # as)" by (rule chains_off_path [OF c(1,4,5) ln sub L(1) [symmetric]])
  moreover have na: "n \<notin> set as" by (rule nlist_acyclic [OF l])
  moreover have "p \<notin> set as"
  proof
    assume "p \<in> set as"
    then obtain us vs where s: "as = us @ p # vs" by (meson split_list)
    then have "nlist nx (Some p) (p # vs)" using nlist_suffix l by metis
    then have "n \<in> set vs" using c(7) by (auto simp: nlist_Some)
    then show False using na s by simp
  qed
  ultimately have "nlist (nx(p := Some fr, fr := nx n, n := None)) (nx n) as" by (intro nlist_cong [OF l]) auto
  then show "nlist (nx(p := Some fr, fr := nx n, n := None)) (Some fr) (fr # as)" using L(1) by simp
qed

lemma moved_lists:
  assumes c: "chains N nx ky h" "n < N" "ky n \<noteq> - 1" "fr < N" "ky fr = - 1" "p < N" "nx p = Some n" and i: "i < N"
  shows "\<exists>as. nlist (nx(p := Some fr, fr := nx n, n := None)) (Some i) as \<and> set as \<subseteq> {..<N}"
proof -
  consider "i = n" | "i = fr" | "i \<noteq> n" "i \<noteq> fr" by blast
  then show ?thesis
  proof cases
    case 1
    then show ?thesis using c(2) by (intro exI [of _ "[n]"]) simp
  next
    case 2
    obtain cs where "nlist nx (nx n) cs" using chains_path [OF c(1,2)] unfolding nlist_Some by blast
    note T = moved_tail [OF c this]
    show ?thesis using T 2 c(4) by (intro exI [of _ "fr # cs"]) auto
  next
    case 3
    obtain as where as: "nlist nx (Some i) as" "set as \<subseteq> {..<N}" using chains_path [OF c(1) i] by blast
    then show ?thesis using moved_path [OF c as 3(2,1)] c(4) by (intro exI [of _ "map (\<lambda>a. if a = n then fr else a) as"]) auto
  qed
qed

lemma moved_main:
  assumes c: "chains N nx ky h" "n < N" "ky n \<noteq> - 1" "fr < N" "ky fr = - 1" "p < N" "nx p = Some n"
    and n: "h k = n" "h (ky n) \<noteq> n" and i: "i < N" "(ky(fr := ky n, n := k)) i \<noteq> - 1"
  shows "main_ok N (nx(p := Some fr, fr := nx n, n := None)) (ky(fr := ky n, n := k)) h i"
proof (cases "i = n")
  case True
  have "reach (nx(p := Some fr, fr := nx n, n := None)) n n" unfolding reach_def by (intro exI [of _ "[n]"]) simp
  then show ?thesis using True c(2) n(1) by (simp add: main_ok_def)
next
  case False
  define j where "j = (if i = fr then n else i)"
  have j: "j < N" "ky j \<noteq> - 1" "(ky(fr := ky n, n := k)) i = ky j" "(if j = n then fr else j) = i"
    using False i c(2,3) moved_links(1) [OF c] by (auto simp: j_def)
  note K = chains_key [OF c(1) j(1,2)]
  have m: "h (ky j) \<noteq> n" using K(3) n(2) by auto
  have mf: "h (ky j) \<noteq> fr" using chains_main_key [OF c(1) j(1,2)] c(5) by auto
  have "reach (nx(p := Some fr, fr := nx n, n := None)) (h (ky j)) i" using moved_reach [OF c K(2,1) mf m] j(4) by simp
  then show ?thesis using K m mf j(3) by (simp add: main_ok_def)
qed

lemma chains_move:
  assumes c: "chains N nx ky h" "n < N" "ky n \<noteq> - 1" "fr < N" "ky fr = - 1" "p < N" "nx p = Some n"
    and n: "h k = n" "h (ky n) \<noteq> n" and k: "k \<noteq> - 1" "\<And>i. i < N \<Longrightarrow> ky i \<noteq> k"
  shows "chains N (nx(p := Some fr, fr := nx n, n := None)) (ky(fr := ky n, n := k)) h" (is "chains N ?nx ?ky h")
proof (rule chainsI)
  note L = moved_links [OF c]
  show "i = j" if "i < N" "j < N" "?nx i = Some m" "?nx j = Some m" for i j m
    using that chains_inj [OF c(1), of i j m] chains_inj [OF c(1), of i n m] chains_inj [OF c(1), of n j m] c(2) L(2,4,5) by (auto split: if_splits)
  show "?nx i = None \<and> (\<forall>j<N. ?nx j \<noteq> Some i)" if "i < N" "?ky i = - 1" for i
    using chains_nil [OF c(1) that(1)] that k(1) c(2,3,6,7) L(1) by (auto split: if_splits)
  show "i = j" if "i < N" "j < N" "?ky i = ?ky j" "?ky i \<noteq> - 1" for i j
    using that k(2) chains_key_inj [OF c(1), of i j] chains_key_inj [OF c(1), of n j] chains_key_inj [OF c(1), of i n] c(2,3) by (auto split: if_splits)
qed (use moved_lists [OF c] moved_main [OF c n] in blast)+

end
