(* ===== verification/Tab_Insert.thy ===== *)
theory Tab_Insert
  imports Tab_Chain
begin

text \<open>
  Well-formed tables and what they map keys to. A table denotes the function \<open>tab_value\<close> from keys to values, nil where there is
  no pair. The getters compute it, a slot returned by a setter is the place where it is changed, and inserting a new key
  into the hash part keeps it.
\<close>

section \<open>Well-formed tables\<close>

definition nxt :: "tnode list \<Rightarrow> nat \<Rightarrow> nat option" where "nxt ns i = n_next (ns ! i)"
definition kyt :: "tnode list \<Rightarrow> nat \<Rightarrow> u64" where "kyt ns i = n_key (ns ! i)"

definition hpart_ok :: "(u64 \<Rightarrow> u32) \<Rightarrow> gctab \<Rightarrow> bool" where
  "hpart_ok sh t \<longleftrightarrow>
     length (t_node t) = unat (t_hmask t) + 1 \<and> (\<exists>b\<le>LJ_MAX_HBITS. unat (t_hmask t) + 1 = 2 ^ b) \<and>
     chains (length (t_node t)) (nxt (t_node t)) (kyt (t_node t)) (hashkey sh (t_hmask t)) \<and>
     (\<forall>n \<in> set (t_node t). n_key n = - 1 \<and> n_val n = - 1 \<or> node_key (n_key n)) \<and>
     t_freetop t \<le> length (t_node t) \<and> (t_hmask t = 0 \<longrightarrow> t_node t = [nilnode] \<and> t_freetop t = 0)"

definition tab_wf :: "(u64 \<Rightarrow> u32) \<Rightarrow> gctab \<Rightarrow> bool" where
  "tab_wf sh t \<longleftrightarrow> hpart_ok sh t \<and> asize t \<le> LJ_MAX_ASIZE \<and>
     (\<forall>n \<in> set (t_node t). \<forall>k. n_key n = num_of_int k \<longrightarrow> \<not> inarray t k)"

lemma hashmask_less: "hashmask hmask x < unat hmask + 1"
  using word_and_le1 [of x hmask] by (simp add: hashmask_def less_Suc_eq_le word_le_nat_alt)

lemma hashkey_less: "hpart_ok sh t \<Longrightarrow> hashkey sh (t_hmask t) k < length (t_node t)"
  using hashmask_less [of "t_hmask t"]
  by (auto simp: hpart_ok_def hashkey_def hashnum_def hashgcref_def hashlohi_def)

lemma hashkey_ckey [simp]: "hashkey sh hmask (ckey k) = hashkey sh hmask k"
proof (cases "tvismzero k")
  case True
  then have "k = 0x8000000000000000" by (simp add: tvismzero_def)
  moreover have "\<not> tvisstr 0" "tvisnum 0" by (simp_all add: tvisstr_def tvisnum_def tag_defs word_less_nat_alt)
  moreover have "hashnum hmask 0x8000000000000000 = hashnum hmask 0"
  proof -
    have "u32_lo 0x8000000000000000 = 0" "push_bit 1 (u32_hi 0x8000000000000000) = 0" "u32_lo 0 = 0" "push_bit 1 (u32_hi 0) = 0" by code_simp+
    then show ?thesis by (simp only: hashnum_def)
  qed
  ultimately show ?thesis using True mzero_num [OF True] by (simp add: hashkey_def ckey_def)
qed (simp add: ckey_def)

section \<open>Walking a chain\<close>

lemma chain_walk_nlist:
  assumes "nlist (nxt ns) (Some i) as" "set as \<subseteq> {..<length ns}" "length as \<le> fuel"
  shows "chain_walk eq ns fuel i = Inr (find (\<lambda>j. eq (kyt ns j)) as)"
  using assms
proof (induction fuel arbitrary: i as)
  case 0
  then show ?case by (auto simp: nlist_Some)
next
  case (Suc fuel)
  obtain bs where as: "as = i # bs" "nlist (nxt ns) (nxt ns i) bs" using Suc.prems(1) unfolding nlist_Some by blast
  show ?case
  proof (cases "nxt ns i")
    case None
    then show ?thesis using as Suc.prems(2) by (simp add: nxt_def kyt_def)
  next
    case (Some j)
    then have "chain_walk eq ns fuel j = Inr (find (\<lambda>j. eq (kyt ns j)) bs)"
      using Suc.IH [of j bs] as Suc.prems by simp
    then show ?thesis using as Suc.prems(2) Some by (simp add: nxt_def kyt_def)
  qed
qed

lemma tab_find_key:
  assumes h: "hpart_ok sh t" and k: "k \<noteq> - 1" and eq: "\<And>n. n \<in> set (t_node t) \<Longrightarrow> eq (n_key n) \<longleftrightarrow> n_key n = k"
  shows "(\<exists>j<length (t_node t). kyt (t_node t) j = k \<and> tab_find t eq (hashkey sh (t_hmask t) k) = Inr (Some j)) \<or>
    (\<forall>j<length (t_node t). kyt (t_node t) j \<noteq> k) \<and> tab_find t eq (hashkey sh (t_hmask t) k) = Inr None"
proof -
  let ?N = "length (t_node t)" and ?i = "hashkey sh (t_hmask t) k"
  have c: "chains ?N (nxt (t_node t)) (kyt (t_node t)) (hashkey sh (t_hmask t))" using h unfolding hpart_ok_def by blast
  obtain as where as: "nlist (nxt (t_node t)) (Some ?i) as" "set as \<subseteq> {..<?N}" "length as \<le> ?N"
    using chains_path [OF c hashkey_less [OF h]] by blast
  have w: "tab_find t eq ?i = Inr (find (\<lambda>j. eq (kyt (t_node t) j)) as)" unfolding tab_find_def by (rule chain_walk_nlist [OF as])
  have e: "eq (kyt (t_node t) j) \<longleftrightarrow> kyt (t_node t) j = k" if "j < ?N" for j using eq [of "t_node t ! j"] that by (simp add: kyt_def)
  show ?thesis
  proof (cases "find (\<lambda>j. eq (kyt (t_node t) j)) as")
    case None
    have "kyt (t_node t) j \<noteq> k" if j: "j < ?N" for j
    proof
      assume kj: "kyt (t_node t) j = k"
      then have "reach (nxt (t_node t)) ?i j" using chains_key(2) [OF c j] k by simp
      then have "j \<in> set as" using nlist_functional [OF as(1)] by (auto simp: reach_def)
      then show False using None e [OF j] kj by (auto simp: find_None_iff)
    qed
    then show ?thesis using w None by simp
  next
    case (Some j)
    then have "j \<in> set as" "eq (kyt (t_node t) j)" by (auto simp: find_Some_iff)
    then show ?thesis using w Some e as(2) by auto
  qed
qed

section \<open>The function a table denotes\<close>

definition node_value :: "tnode list \<Rightarrow> u64 \<Rightarrow> u64" where
  "node_value ns k = (case find (\<lambda>n. n_key n = k) ns of Some n \<Rightarrow> n_val n | None \<Rightarrow> - 1)"

definition arr_index :: "gctab \<Rightarrow> u64 \<Rightarrow> nat option" where
  "arr_index t k = (let i = lj_num2int k in if tvisnum k \<and> num_eq k (num_of_int i) \<and> inarray t i then Some (unat i) else None)"

definition tab_value :: "gctab \<Rightarrow> u64 \<Rightarrow> u64" where
  "tab_value t k = (case arr_index t k of Some i \<Rightarrow> t_array t ! i | None \<Rightarrow> node_value (t_node t) (ckey k))"

definition live_pairs :: "tnode list \<Rightarrow> (u64 \<times> u64) set" where
  "live_pairs ns = (\<lambda>n. (n_key n, n_val n)) ` {n \<in> set ns. n_val n \<noteq> - 1}"

lemma node_value_at:
  assumes "keys_ok (length ns) (kyt ns)" "j < length ns" "kyt ns j = k" "k \<noteq> - 1"
  shows "node_value ns k = n_val (ns ! j)"
proof -
  obtain n where n: "find (\<lambda>n. n_key n = k) ns = Some n" using assms(2,3) find_None_iff2 [of "\<lambda>n. n_key n = k" ns]
    by (metis kyt_def not_None_eq nth_mem)
  then obtain i where "i < length ns" "n_key (ns ! i) = k" "n = ns ! i" by (auto simp: find_Some_iff)
  then show ?thesis using n assms by (auto simp: node_value_def keys_ok_def kyt_def)
qed

lemma node_value_none: "(\<And>j. j < length ns \<Longrightarrow> kyt ns j \<noteq> k) \<Longrightarrow> node_value ns k = - 1"
  by (auto simp: node_value_def kyt_def find_Some_iff split: option.split)

lemma live_pairs_iff: "(k, v) \<in> live_pairs ns \<longleftrightarrow> v \<noteq> - 1 \<and> (\<exists>j<length ns. kyt ns j = k \<and> n_val (ns ! j) = v)"
  by (auto simp: live_pairs_def kyt_def in_set_conv_nth)

lemma node_value_live:
  assumes "keys_ok (length ns) (kyt ns)" "k \<noteq> - 1" "v \<noteq> - 1"
  shows "node_value ns k = v \<longleftrightarrow> (k, v) \<in> live_pairs ns"
proof (cases "\<exists>j<length ns. kyt ns j = k")
  case True
  then obtain j where j: "j < length ns" "kyt ns j = k" by blast
  show ?thesis using node_value_at [OF assms(1) j assms(2)] j assms by (auto simp: live_pairs_iff keys_ok_def)
next
  case False
  then show ?thesis using node_value_none [of ns k] assms(3) by (auto simp: live_pairs_iff)
qed

lemma node_value_cong:
  assumes "keys_ok (length ns) (kyt ns)" "keys_ok (length ns') (kyt ns')" "live_pairs ns = live_pairs ns'" "k \<noteq> - 1"
  shows "node_value ns k = node_value ns' k"
  using node_value_live [OF assms(1,4)] node_value_live [OF assms(2,4)] assms(3) by metis

section \<open>The loops of the insertion\<close>

lemma find_free_spec:
  assumes "tp \<le> length ns"
  shows "\<exists>r. find_free ns tp = Some r \<and> (case r of None \<Rightarrow> \<forall>i<tp. kyt ns i \<noteq> - 1
    | Some f \<Rightarrow> f < tp \<and> kyt ns f = - 1 \<and> (\<forall>i. f < i \<and> i < tp \<longrightarrow> kyt ns i \<noteq> - 1))"
  using assms
proof (induction tp)
  case (Suc tp)
  then obtain r where r: "find_free ns tp = Some r"
    "case r of None \<Rightarrow> \<forall>i<tp. kyt ns i \<noteq> - 1 | Some f \<Rightarrow> f < tp \<and> kyt ns f = - 1 \<and> (\<forall>i. f < i \<and> i < tp \<longrightarrow> kyt ns i \<noteq> - 1)" by auto
  show ?case
  proof (cases "kyt ns tp = - 1")
    case True
    then show ?thesis using Suc.prems by (auto simp: kyt_def tvisnil_def)
  next
    case False
    then have "find_free ns (Suc tp) = Some r" using Suc.prems r(1) by (simp add: kyt_def tvisnil_def)
    then show ?thesis using r(2) False by (cases r) (auto simp: less_Suc_eq)
  qed
qed simp

lemma find_pred_spec:
  assumes "nlist (nxt ns) (Some c) as" "set as \<subseteq> {..<length ns}" "length as \<le> fuel" "n \<in> set as" "c \<noteq> n"
  shows "\<exists>p<length ns. find_pred ns fuel c n = Inr p \<and> nxt ns p = Some n"
  using assms
proof (induction fuel arbitrary: c as)
  case 0
  then show ?case by simp
next
  case (Suc fuel)
  obtain bs where as: "as = c # bs" "nlist (nxt ns) (nxt ns c) bs" using Suc.prems(1) unfolding nlist_Some by blast
  have nb: "n \<in> set bs" using as(1) Suc.prems(4,5) by simp
  then obtain j where j: "nxt ns c = Some j" using as(2) by (cases "nxt ns c") auto
  show ?case
  proof (cases "j = n")
    case True
    then show ?thesis using j as(1) Suc.prems(2) by (intro exI [of _ c]) (simp add: nxt_def)
  next
    case False
    then have "\<exists>p<length ns. find_pred ns fuel j n = Inr p \<and> nxt ns p = Some n"
      using Suc.IH [of j bs] as j nb Suc.prems by simp
    then show ?thesis using j False as(1) Suc.prems(2) by (simp add: nxt_def)
  qed
qed

lemma rechain_idle:
  assumes "nlist (nxt ns) (Some fr) (fr # as)" "set (fr # as) \<subseteq> {..<length ns}" "length as < fuel"
    "\<And>j. j \<in> set as \<Longrightarrow> tvisnil (n_val (ns ! j)) \<or> hashkey sh hmask (kyt ns j) \<noteq> n"
  shows "rechain sh hmask ns fuel n fr = Inr ns"
  using assms
proof (induction fuel arbitrary: fr as)
  case (Suc fuel)
  show ?case
  proof (cases as)
    case Nil
    then show ?thesis using Suc.prems by (simp add: nxt_def)
  next
    case (Cons j bs)
    have "rechain sh hmask ns fuel n j = Inr ns" by (rule Suc.IH [of j bs]) (use Suc.prems Cons in auto)
    moreover have "nxt ns fr = Some j" using Suc.prems(1) Cons by simp
    moreover have "\<not> (\<not> tvisnil (n_val (ns ! j)) \<and> hashkey sh hmask (n_key (ns ! j)) = n)" using Suc.prems(4) [of j] Cons by (auto simp: kyt_def)
    ultimately show ?thesis using Suc.prems(2) Cons by (auto simp: nxt_def)
  qed
qed simp

lemma nxt_upd: "i < length ns \<Longrightarrow> nxt (ns[i := x]) = (nxt ns)(i := n_next x)"
  by (auto simp: nxt_def fun_eq_iff nth_list_update)

lemma kyt_upd: "i < length ns \<Longrightarrow> kyt (ns[i := x]) = (kyt ns)(i := n_key x)"
  by (auto simp: kyt_def fun_eq_iff nth_list_update)

lemma set_next_simps:
  assumes "i < length ns"
  shows "length (set_next ns i x) = length ns" "nxt (set_next ns i x) = (nxt ns)(i := x)" "kyt (set_next ns i x) = kyt ns"
    "\<And>j. n_val (set_next ns i x ! j) = n_val (ns ! j)"
  using assms by (auto simp: set_next_def nxt_upd kyt_upd fun_eq_iff kyt_def nth_list_update)

section \<open>Inserting a key into the hash part\<close>

definition nodes_used :: "tnode list \<Rightarrow> nat" where "nodes_used ns = card {i. i < length ns \<and> kyt ns i \<noteq> - 1}"

definition full_above :: "gctab \<Rightarrow> bool" where
  "full_above t \<longleftrightarrow> (\<forall>i. t_freetop t \<le> i \<and> i < length (t_node t) \<longrightarrow> kyt (t_node t) i \<noteq> - 1)"

definition inserted :: "(u64 \<Rightarrow> u32) \<Rightarrow> gctab \<Rightarrow> u64 \<Rightarrow> nat \<Rightarrow> gctab \<Rightarrow> bool" where
  "inserted sh t k j t' \<longleftrightarrow> hpart_ok sh t' \<and> t' = t\<lparr>t_node := t_node t', t_freetop := t_freetop t'\<rparr> \<and>
     length (t_node t') = length (t_node t) \<and> j < length (t_node t') \<and> kyt (t_node t') j = ckey k \<and> n_val (t_node t' ! j) = - 1 \<and>
     live_pairs (t_node t') = live_pairs (t_node t) \<and> (\<forall>i<length (t_node t'). kyt (t_node t') i = ckey k \<or> (\<exists>j<length (t_node t). kyt (t_node t') i = kyt (t_node t) j)) \<and>
     nodes_used (t_node t') \<le> Suc (nodes_used (t_node t)) \<and> (full_above t \<longrightarrow> full_above t')"

lemma insertedI:
  assumes h: "hpart_ok sh t" "t_hmask t \<noteq> 0" and k: "key_ok k"
    and len: "length ns = length (t_node t)" and c: "chains (length (t_node t)) (nxt ns) (kyt ns) (hashkey sh (t_hmask t))"
    and j: "j < length ns" "kyt ns j = ckey k" "n_val (ns ! j) = - 1" and live: "live_pairs ns = live_pairs (t_node t)"
    and keys: "\<And>i. i < length ns \<Longrightarrow> i \<noteq> j \<Longrightarrow> \<exists>m<length (t_node t). ns ! i = (t_node t ! m)\<lparr>n_next := n_next (ns ! i)\<rparr>"
    and f: "f \<le> length ns" and full: "full_above t \<Longrightarrow> full_above (t\<lparr>t_node := ns, t_freetop := f\<rparr>)"
    and us: "nodes_used ns \<le> Suc (nodes_used (t_node t))"
  shows "inserted sh t k j (t\<lparr>t_node := ns, t_freetop := f\<rparr>)"
proof -
  have nk: "n_key n = - 1 \<and> n_val n = - 1 \<or> node_key (n_key n)" if n: "n \<in> set ns" for n
  proof -
    obtain i where i: "i < length ns" "n = ns ! i" using n by (auto simp: in_set_conv_nth)
    show ?thesis
    proof (cases "i = j")
      case True
      then show ?thesis using i j(2) node_key_ckey [OF k] by (simp add: kyt_def)
    next
      case False
      then obtain m where m: "m < length (t_node t)" "n = (t_node t ! m)\<lparr>n_next := n_next n\<rparr>" using keys i by blast
      have "n_key n = n_key (t_node t ! m)" "n_val n = n_val (t_node t ! m)" using m(2) by (metis tnode.select_convs(1,2) tnode.surjective tnode.update_convs(3))+
      then show ?thesis using h(1) m(1) by (simp add: hpart_ok_def)
    qed
  qed
  have "hpart_ok sh (t\<lparr>t_node := ns, t_freetop := f\<rparr>)" using h len c nk f unfolding hpart_ok_def by simp
  moreover have "kyt ns i = ckey k \<or> (\<exists>m<length (t_node t). kyt ns i = kyt (t_node t) m)" if il: "i < length ns" for i
  proof (cases "i = j")
    case False
    then obtain m where m: "m < length (t_node t)" "ns ! i = (t_node t ! m)\<lparr>n_next := n_next (ns ! i)\<rparr>" using keys [OF il] by blast
    then have "kyt ns i = kyt (t_node t) m" unfolding kyt_def by (metis tnode.select_convs(2) tnode.surjective tnode.update_convs(3))
    then show ?thesis using m(1) by blast
  qed (use j in simp)
  ultimately show ?thesis using len j live full us unfolding inserted_def by simp
qed

lemma live_pairs_upd:
  assumes "i < length ns" "n_val (ns ! i) = - 1" "n_val x = - 1"
  shows "live_pairs (ns[i := x]) = live_pairs ns"
proof -
  have "(k, v) \<in> live_pairs (ns[i := x]) \<longleftrightarrow> (k, v) \<in> live_pairs ns" for k v
    using assms unfolding live_pairs_iff kyt_def by (auto simp: nth_list_update)
  then show ?thesis by (simp add: set_eq_iff split_paired_all)
qed

lemma live_pairs_next: "live_pairs (set_next ns i x) = live_pairs ns"
proof (cases "i < length ns")
  case True
  then show ?thesis using set_next_simps [OF True] by (auto simp: set_eq_iff live_pairs_iff split_paired_all)
qed (simp add: set_next_def list_update_beyond)

lemma nodes_used_upd: "i < length ns \<Longrightarrow> nodes_used (ns[i := x]) \<le> Suc (nodes_used ns)"
proof -
  assume i: "i < length ns"
  have "{j. j < length ns \<and> kyt (ns[i := x]) j \<noteq> - 1} \<subseteq> insert i {j. j < length ns \<and> kyt ns j \<noteq> - 1}"
    using i by (auto simp: kyt_upd)
  then have "nodes_used (ns[i := x]) \<le> card (insert i {j. j < length ns \<and> kyt ns j \<noteq> - 1})" unfolding nodes_used_def by (intro card_mono) auto
  also have "\<dots> \<le> Suc (nodes_used ns)" unfolding nodes_used_def by (rule card_insert_le_m1) simp_all
  finally show ?thesis .
qed

text \<open>The three cases.\<close>

lemma insert_at_main:
  assumes h: "hpart_ok sh t" "t_hmask t \<noteq> 0" and k: "key_ok k" "\<And>i. i < length (t_node t) \<Longrightarrow> kyt (t_node t) i \<noteq> ckey k"
    and n: "n = hashkey sh (t_hmask t) k" "n_val (t_node t ! n) = - 1"
  shows "inserted sh t k n (set_key t n k)"
proof -
  let ?ns = "(t_node t)[n := (t_node t ! n)\<lparr>n_key := ckey k\<rparr>]"
  have nl: "n < length (t_node t)" using hashkey_less [OF h(1)] n(1) by simp
  have "chains (length (t_node t)) (nxt (t_node t)) (kyt (t_node t)) (hashkey sh (t_hmask t))" using h(1) unfolding hpart_ok_def by blast
  then have c: "chains (length (t_node t)) (nxt (t_node t)) ((kyt (t_node t))(n := ckey k)) (hashkey sh (t_hmask t))"
    using chains_set_key [of "length (t_node t)"] nl n(1) k node_key_ckey [OF k(1)] by (metis hashkey_ckey node_key_nil(1))
  have e: "set_key t n k = t\<lparr>t_node := ?ns, t_freetop := t_freetop t\<rparr>" by (simp add: set_key_def ckey_def)
  have nx: "nxt ?ns = nxt (t_node t)" using nl by (simp add: nxt_upd) (simp add: nxt_def fun_upd_idem)
  have ky: "kyt ?ns = (kyt (t_node t))(n := ckey k)" using nl by (simp add: kyt_upd)
  show ?thesis unfolding e
  proof (rule insertedI [OF h k(1)])
    show "chains (length (t_node t)) (nxt ?ns) (kyt ?ns) (hashkey sh (t_hmask t))" unfolding nx ky by (rule c)
    show "live_pairs ?ns = live_pairs (t_node t)" by (rule live_pairs_upd [OF nl]) (use n(2) in simp_all)
    show "\<exists>m<length (t_node t). ?ns ! i = (t_node t ! m)\<lparr>n_next := n_next (?ns ! i)\<rparr>" if "i < length ?ns" "i \<noteq> n" for i
      using that by (intro exI [of _ i]) simp
    show "full_above (t\<lparr>t_node := ?ns, t_freetop := t_freetop t\<rparr>)" if "full_above t"
      using that node_key_ckey [OF k(1)] unfolding full_above_def by (auto simp: ky)
    show "nodes_used ?ns \<le> Suc (nodes_used (t_node t))" by (rule nodes_used_upd [OF nl])
    show "t_freetop t \<le> length ?ns" using h(1) by (simp add: hpart_ok_def)
  qed (use nl n(2) ky in simp_all)
qed

text \<open>Of a free node found below \<^verbatim>\<open>freetop\<close>: the nodes above it are in use.\<close>

lemma full_above_taken:
  assumes "full_above t" "fr < t_freetop t" "\<forall>i. fr < i \<and> i < t_freetop t \<longrightarrow> kyt (t_node t) i \<noteq> - 1"
    and "length ns = length (t_node t)" "\<And>i. i < length ns \<Longrightarrow> kyt (t_node t) i \<noteq> - 1 \<or> i = fr \<Longrightarrow> kyt ns i \<noteq> - 1"
  shows "full_above (t\<lparr>t_node := ns, t_freetop := fr\<rparr>)"
  unfolding full_above_def
proof (intro allI impI)
  fix i assume i: "t_freetop (t\<lparr>t_node := ns, t_freetop := fr\<rparr>) \<le> i \<and> i < length (t_node (t\<lparr>t_node := ns, t_freetop := fr\<rparr>))"
  have "kyt (t_node t) i \<noteq> - 1 \<or> i = fr"
  proof (cases "i < t_freetop t")
    case True
    then show ?thesis using assms(3) i by (cases "i = fr") auto
  next
    case False
    then show ?thesis using assms(1,4) i by (simp add: full_above_def)
  qed
  then show "kyt (t_node (t\<lparr>t_node := ns, t_freetop := fr\<rparr>)) i \<noteq> - 1" using assms(5) [of i] i by simp
qed

lemma insert_behind_main:
  assumes h: "hpart_ok sh t" "t_hmask t \<noteq> 0" and k: "key_ok k" "\<And>i. i < length (t_node t) \<Longrightarrow> kyt (t_node t) i \<noteq> ckey k"
    and n: "n = hashkey sh (t_hmask t) k" "n_val (t_node t ! n) \<noteq> - 1" "hashkey sh (t_hmask t) (kyt (t_node t) n) = n"
    and fr: "fr < t_freetop t" "kyt (t_node t) fr = - 1" "\<forall>i. fr < i \<and> i < t_freetop t \<longrightarrow> kyt (t_node t) i \<noteq> - 1"
  shows "inserted sh t k fr (set_key (chain_free (t\<lparr>t_freetop := fr\<rparr>) n fr) fr k)"
proof -
  let ?ms = "set_next (set_next (t_node t) fr (nxt (t_node t) n)) n (Some fr)"
  let ?ns = "?ms[fr := (?ms ! fr)\<lparr>n_key := ckey k\<rparr>]"
  have nl: "n < length (t_node t)" using hashkey_less [OF h(1)] n(1) by simp
  have fl: "fr < length (t_node t)" "t_freetop t \<le> length (t_node t)" using fr(1) h(1) by (auto simp: hpart_ok_def)
  have pairs: "n_key x = - 1 \<and> n_val x = - 1 \<or> node_key (n_key x)" if "x \<in> set (t_node t)" for x using h(1) that by (simp add: hpart_ok_def)
  have kn: "kyt (t_node t) n \<noteq> - 1" using pairs [of "t_node t ! n"] nl n(2) by (auto simp: kyt_def)
  have vf: "n_val (t_node t ! fr) = - 1" using pairs [of "t_node t ! fr"] fl fr(2) by (auto simp: kyt_def)
  have ne: "n \<noteq> fr" using kn fr(2) by auto
  have c0: "chains (length (t_node t)) (nxt (t_node t)) (kyt (t_node t)) (hashkey sh (t_hmask t))" using h(1) unfolding hpart_ok_def by blast
  have ck: "ckey k \<noteq> - 1" using node_key_ckey [OF k(1)] by auto
  have c: "chains (length (t_node t)) ((nxt (t_node t))(fr := nxt (t_node t) n, n := Some fr)) ((kyt (t_node t))(fr := ckey k)) (hashkey sh (t_hmask t))"
    by (rule chains_insert [OF c0 nl _ kn n(3) fl(1) fr(2) ck]) (use n(1) k(2) in simp_all)
  have S: "length ?ms = length (t_node t)" "nxt ?ms = (nxt (t_node t))(fr := nxt (t_node t) n, n := Some fr)" "kyt ?ms = kyt (t_node t)"
    "n_val (?ms ! j) = n_val (t_node t ! j)" for j
    using nl fl by (simp_all add: set_next_simps)
  have e: "set_key (chain_free (t\<lparr>t_freetop := fr\<rparr>) n fr) fr k = t\<lparr>t_node := ?ns, t_freetop := fr\<rparr>"
    by (simp add: set_key_def chain_free_def Let_def ckey_def nxt_def)
  have nx: "nxt ?ns = (nxt (t_node t))(fr := nxt (t_node t) n, n := Some fr)"
    using fl S(1) nxt_upd [of fr ?ms] S(2) ne by (auto simp: fun_eq_iff nxt_def [symmetric])
  have ky: "kyt ?ns = (kyt (t_node t))(fr := ckey k)" using fl S(1) by (simp add: kyt_upd S(3))
  show ?thesis unfolding e
  proof (rule insertedI [OF h k(1)])
    show "chains (length (t_node t)) (nxt ?ns) (kyt ?ns) (hashkey sh (t_hmask t))" unfolding nx ky by (rule c)
    have "live_pairs ?ns = live_pairs ?ms" by (rule live_pairs_upd) (use S vf fl in simp_all)
    then show "live_pairs ?ns = live_pairs (t_node t)" by (simp add: live_pairs_next)
    show "\<exists>m<length (t_node t). ?ns ! i = (t_node t ! m)\<lparr>n_next := n_next (?ns ! i)\<rparr>" if "i < length ?ns" "i \<noteq> fr" for i
      using that S(1) nl ne by (intro exI [of _ i], cases "i = n") (simp_all add: set_next_def)
    show "full_above (t\<lparr>t_node := ?ns, t_freetop := fr\<rparr>)" if "full_above t"
      by (rule full_above_taken [OF that fr(1,3)]) (use S(1) ky ck in \<open>auto\<close>)
    have "nodes_used ?ns \<le> Suc (nodes_used ?ms)" by (rule nodes_used_upd) (use S fl in simp)
    then show "nodes_used ?ns \<le> Suc (nodes_used (t_node t))" unfolding nodes_used_def using S by simp
  qed (use fl S ky vf in simp_all)
qed

lemma moved_nodes:
  assumes l: "n < length ns" "fr < length ns" "p < length ns" and ne: "n \<noteq> fr" "p \<noteq> n" "p \<noteq> fr"
  defines "m \<equiv> (set_next ns p (Some fr))[fr := set_next ns p (Some fr) ! n, n := ((set_next ns p (Some fr))[fr := set_next ns p (Some fr) ! n] ! n)\<lparr>n_next := None, n_val := - 1\<rparr>]"
  shows "length m = length ns" "nxt m = (nxt ns)(p := Some fr, fr := nxt ns n, n := None)" "kyt m = (kyt ns)(fr := kyt ns n)"
    "\<And>i. i < length ns \<Longrightarrow> m ! i = (if i = n then (ns ! n)\<lparr>n_next := None, n_val := - 1\<rparr> else if i = fr then ns ! n
      else if i = p then (ns ! p)\<lparr>n_next := Some fr\<rparr> else ns ! i)"
  using l ne unfolding m_def by (auto simp: nxt_upd kyt_upd set_next_simps fun_eq_iff nxt_def kyt_def set_next_def nth_list_update)

lemma moved_live:
  assumes l: "length ns' = length ns" "n < length ns" "fr < length ns" "n \<noteq> fr" "n_val (ns ! fr) = - 1"
    and ky: "kyt ns' = (kyt ns)(fr := kyt ns n, n := k)"
    and vl: "\<And>i. i < length ns \<Longrightarrow> n_val (ns' ! i) = (if i = n then - 1 else if i = fr then n_val (ns ! n) else n_val (ns ! i))"
  shows "live_pairs ns' = live_pairs ns"
proof -
  have "(q, v) \<in> live_pairs ns' \<longleftrightarrow> (q, v) \<in> live_pairs ns" for q v
  proof
    assume "(q, v) \<in> live_pairs ns'"
    then obtain i where i: "v \<noteq> - 1" "i < length ns" "kyt ns' i = q" "n_val (ns' ! i) = v" using l(1) by (auto simp: live_pairs_iff)
    then show "(q, v) \<in> live_pairs ns" unfolding live_pairs_iff
      using l(2) by (intro conjI exI [of _ "if i = fr then n else i"]) (auto simp: vl ky split: if_splits)
  next
    assume "(q, v) \<in> live_pairs ns"
    then obtain i where i: "v \<noteq> - 1" "i < length ns" "kyt ns i = q" "n_val (ns ! i) = v" by (auto simp: live_pairs_iff)
    then show "(q, v) \<in> live_pairs ns'" unfolding live_pairs_iff
      using l by (intro conjI exI [of _ "if i = n then fr else i"]) (auto simp: vl ky)
  qed
  then show ?thesis by (simp add: set_eq_iff split_paired_all)
qed

lemma moved_used:
  assumes "length ns' = length ns" "n < length ns" "kyt ns n \<noteq> - 1" "kyt ns' = (kyt ns)(fr := kyt ns n, n := k)"
  shows "nodes_used ns' \<le> Suc (nodes_used ns)"
proof -
  have "{i. i < length ns \<and> kyt ns' i \<noteq> - 1} \<subseteq> insert fr {i. i < length ns \<and> kyt ns i \<noteq> - 1}" using assms(2-4) by (auto split: if_splits)
  then have "card {i. i < length ns \<and> kyt ns' i \<noteq> - 1} \<le> card (insert fr {i. i < length ns \<and> kyt ns i \<noteq> - 1})" by (intro card_mono) auto
  also have "\<dots> \<le> Suc (nodes_used ns)" unfolding nodes_used_def by (rule card_insert_le_m1) simp_all
  finally show ?thesis unfolding nodes_used_def using assms(1) by simp
qed

text \<open>What a move needs to know of the table: the colliding node has a key, the free node none, and the search for the node before it succeeds.\<close>

lemma move_setup:
  assumes h: "hpart_ok sh t" and n: "n < length (t_node t)" "n_val (t_node t ! n) \<noteq> - 1" "hashkey sh (t_hmask t) (kyt (t_node t) n) \<noteq> n"
    and fr: "fr < t_freetop t" "kyt (t_node t) fr = - 1"
  shows "kyt (t_node t) n \<noteq> - 1" "n_val (t_node t ! fr) = - 1" "fr < length (t_node t)"
    "\<exists>p<length (t_node t). find_pred (t_node t) (length (t_node t)) (hashkey sh (t_hmask t) (kyt (t_node t) n)) n = Inr p \<and> nxt (t_node t) p = Some n"
proof -
  let ?N = "length (t_node t)" and ?nx = "nxt (t_node t)" and ?ky = "kyt (t_node t)"
  have pairs: "n_key x = - 1 \<and> n_val x = - 1 \<or> node_key (n_key x)" if "x \<in> set (t_node t)" for x using h that by (simp add: hpart_ok_def)
  show fl: "fr < ?N" using fr(1) h by (auto simp: hpart_ok_def)
  show kn: "?ky n \<noteq> - 1" using pairs [of "t_node t ! n"] n(1,2) by (auto simp: kyt_def)
  show "n_val (t_node t ! fr) = - 1" using pairs [of "t_node t ! fr"] fl fr(2) by (auto simp: kyt_def)
  have c: "chains ?N ?nx ?ky (hashkey sh (t_hmask t))" using h unfolding hpart_ok_def by blast
  note K = chains_key [OF c n(1) kn]
  obtain as where as: "nlist ?nx (Some (hashkey sh (t_hmask t) (?ky n))) as" "set as \<subseteq> {..<?N}" "length as \<le> ?N" using chains_path [OF c K(1)] by blast
  have "n \<in> set as" using K(2) nlist_functional [OF as(1)] by (auto simp: reach_def)
  then show "\<exists>p<?N. find_pred (t_node t) ?N (hashkey sh (t_hmask t) (?ky n)) n = Inr p \<and> ?nx p = Some n" using find_pred_spec [OF as] n(3) by blast
qed

text \<open>The hash of a key does not change, so no node behind the moved one has to be rechained.\<close>

lemma rechain_moved:
  assumes h: "hpart_ok sh t" and n: "n < length (t_node t)" "kyt (t_node t) n \<noteq> - 1" "hashkey sh (t_hmask t) (kyt (t_node t) n) \<noteq> n"
    and fr: "fr < length (t_node t)" "kyt (t_node t) fr = - 1" and p: "p < length (t_node t)" "nxt (t_node t) p = Some n"
    and m: "length m = length (t_node t)" "nxt m = (nxt (t_node t))(p := Some fr, fr := nxt (t_node t) n, n := None)"
      "\<And>i. i < length (t_node t) \<Longrightarrow> i \<noteq> n \<Longrightarrow> i \<noteq> fr \<Longrightarrow> n_val (m ! i) = n_val (t_node t ! i) \<and> kyt m i = kyt (t_node t) i"
  shows "rechain sh (t_hmask t) m (length m) n fr = Inr m"
proof -
  let ?N = "length (t_node t)" and ?nx = "nxt (t_node t)" and ?ky = "kyt (t_node t)" and ?h = "hashkey sh (t_hmask t)"
  have c: "chains ?N ?nx ?ky ?h" using h unfolding hpart_ok_def by blast
  have ne: "n \<noteq> fr" using n(2) fr(2) by auto
  obtain bs where bs: "nlist ?nx (Some n) bs" "set bs \<subseteq> {..<?N}" "length bs \<le> ?N" using chains_path [OF c n(1)] by blast
  then obtain cs where cs: "bs = n # cs" "nlist ?nx (?nx n) cs" unfolding nlist_Some by blast
  have ncs: "n \<notin> set cs" by (rule nlist_acyclic [OF cs(2)])
  have fcs: "fr \<notin> set bs" by (rule chains_off_path [OF c fr bs(1,2) ne])
  have "nlist (nxt m) (Some fr) (fr # cs)" unfolding m(2) by (rule moved_tail(1) [OF c n(1,2) fr p cs(2)])
  moreover have "tvisnil (n_val (m ! j)) \<or> ?h (kyt m j) \<noteq> n" if j: "j \<in> set cs" for j
  proof -
    have jl: "j < ?N" "j \<noteq> n" "j \<noteq> fr" using j cs(1) bs(2) ncs fcs by auto
    have v: "n_val (t_node t ! j) = - 1" if "?ky j = - 1"
    proof -
      have "n_key (t_node t ! j) = - 1 \<and> n_val (t_node t ! j) = - 1 \<or> node_key (n_key (t_node t ! j))" using h jl(1) unfolding hpart_ok_def by (meson nth_mem)
      then show ?thesis using that by (auto simp: kyt_def)
    qed
    show ?thesis using v m(3) [OF jl] chains_key(3) [OF c jl(1)] n(3) by (cases "?ky j = - 1") (auto simp: tvisnil_def)
  qed
  ultimately show ?thesis using cs(1) bs(2,3) fr(1) m(1) by (intro rechain_idle) auto
qed

lemma insert_move:
  assumes h: "hpart_ok sh t" "t_hmask t \<noteq> 0" and k: "key_ok k" "\<And>i. i < length (t_node t) \<Longrightarrow> kyt (t_node t) i \<noteq> ckey k"
    and n: "n = hashkey sh (t_hmask t) k" "n_val (t_node t ! n) \<noteq> - 1" "hashkey sh (t_hmask t) (kyt (t_node t) n) \<noteq> n"
    and fr: "fr < t_freetop t" "kyt (t_node t) fr = - 1" "\<forall>i. fr < i \<and> i < t_freetop t \<longrightarrow> kyt (t_node t) i \<noteq> - 1"
  shows "\<exists>t'. move_colliding sh (t\<lparr>t_freetop := fr\<rparr>) n (hashkey sh (t_hmask t) (kyt (t_node t) n)) fr = Inr t' \<and>
    inserted sh t k n (set_key t' n k)"
proof -
  let ?N = "length (t_node t)" and ?h = "hashkey sh (t_hmask t)" and ?nx = "nxt (t_node t)" and ?ky = "kyt (t_node t)"
  have nl: "n < ?N" using hashkey_less [OF h(1)] n(1) by simp
  note S = move_setup [OF h(1) nl n(2,3) fr(1,2)]
  obtain p where p: "p < ?N" "find_pred (t_node t) ?N (?h (?ky n)) n = Inr p" "?nx p = Some n" using S(4) by blast
  have c: "chains ?N ?nx ?ky ?h" using h(1) unfolding hpart_ok_def by blast
  have ck: "ckey k \<noteq> - 1" using node_key_ckey [OF k(1)] by auto
  note L = moved_links [OF c nl S(1,3) fr(2) p(1,3)]
  define m where "m = (set_next (t_node t) p (Some fr))[fr := set_next (t_node t) p (Some fr) ! n, n := ((set_next (t_node t) p (Some fr))[fr := set_next (t_node t) p (Some fr) ! n] ! n)\<lparr>n_next := None, n_val := - 1\<rparr>]"
  note M = moved_nodes [OF nl S(3) p(1) L(1) [symmetric] L(2,3), folded m_def]
  have rc: "rechain sh (t_hmask t) m (length m) n fr = Inr m"
    by (rule rechain_moved [OF h(1) nl S(1) n(3) S(3) fr(2) p(1,3) M(1,2)]) (use M(3,4) in auto)
  have mv: "move_colliding sh (t\<lparr>t_freetop := fr\<rparr>) n (?h (?ky n)) fr = Inr (t\<lparr>t_node := m, t_freetop := fr\<rparr>)"
    using rc p(2) unfolding m_def by (simp add: move_colliding_def Let_def)
  define ns where "ns = m[n := (m ! n)\<lparr>n_key := ckey k\<rparr>]"
  have e: "set_key (t\<lparr>t_node := m, t_freetop := fr\<rparr>) n k = t\<lparr>t_node := ns, t_freetop := fr\<rparr>" by (simp add: set_key_def ckey_def ns_def)
  have lens: "length ns = ?N" using M(1) by (simp add: ns_def)
  have nx: "nxt ns = ?nx(p := Some fr, fr := ?nx n, n := None)" and ky: "kyt ns = ?ky(fr := ?ky n, n := ckey k)"
    using nl M(1-3) M(4) [OF nl] by (auto simp: ns_def nxt_upd kyt_upd fun_eq_iff)
  have vl: "n_val (ns ! i) = (if i = n then - 1 else if i = fr then n_val (t_node t ! n) else n_val (t_node t ! i))" if "i < ?N" for i
    using that M(4) [OF that] nl M(1) by (auto simp: ns_def nth_list_update)
  have "inserted sh t k n (t\<lparr>t_node := ns, t_freetop := fr\<rparr>)"
  proof (rule insertedI [OF h k(1)])
    show "chains ?N (nxt ns) (kyt ns) ?h" unfolding nx ky by (rule chains_move [OF c nl S(1,3) fr(2) p(1,3) _ n(3) ck k(2)]) (simp add: n(1))
    show "live_pairs ns = live_pairs (t_node t)" by (rule moved_live [OF lens nl S(3) L(1) [symmetric] S(2) ky vl])
    show "\<exists>j<?N. ns ! i = (t_node t ! j)\<lparr>n_next := n_next (ns ! i)\<rparr>" if "i < length ns" "i \<noteq> n" for i
      using that M(4) [of i] nl M(1) by (intro exI [of _ "if i = fr then n else i"]) (auto simp: ns_def)
    show "full_above (t\<lparr>t_node := ns, t_freetop := fr\<rparr>)" if "full_above t"
      by (rule full_above_taken [OF that fr(1,3)]) (use lens ky ck S(1) in auto)
    show "nodes_used ns \<le> Suc (nodes_used (t_node t))" by (rule moved_used [OF lens nl S(1) ky])
  qed (use nl S(3) lens ky vl in simp_all)
  then show ?thesis using mv e by auto
qed

lemma newkey_insert_spec:
  assumes h: "hpart_ok sh t" and k: "key_ok k" "\<And>i. i < length (t_node t) \<Longrightarrow> kyt (t_node t) i \<noteq> ckey k"
  shows "(\<exists>j t'. newkey_insert sh t k = Inr (Some (NSlot j, t')) \<and> inserted sh t k j t') \<or>
    newkey_insert sh t k = Inr None \<and> (\<forall>i<t_freetop t. kyt (t_node t) i \<noteq> - 1)"
proof -
  define n where "n = hashkey sh (t_hmask t) k"
  have nl: "n < length (t_node t)" using hashkey_less [OF h] by (simp add: n_def)
  have ft: "t_freetop t \<le> length (t_node t)" "t_hmask t = 0 \<Longrightarrow> t_freetop t = 0" using h by (auto simp: hpart_ok_def)
  show ?thesis
  proof (cases "n_val (t_node t ! n) \<noteq> - 1 \<or> t_hmask t = 0")
    case False
    then have "newkey_insert sh t k = Inr (Some (NSlot n, set_key t n k))" using nl by (simp add: newkey_insert_def Let_def n_def [symmetric] tvisnil_def)
    then show ?thesis using insert_at_main [OF h _ k n_def] False by auto
  next
    case True
    obtain r where r: "find_free (t_node t) (t_freetop t) = Some r" "case r of None \<Rightarrow> \<forall>i<t_freetop t. kyt (t_node t) i \<noteq> - 1
      | Some f \<Rightarrow> f < t_freetop t \<and> kyt (t_node t) f = - 1 \<and> (\<forall>i. f < i \<and> i < t_freetop t \<longrightarrow> kyt (t_node t) i \<noteq> - 1)"
      using find_free_spec [OF ft(1)] by blast
    show ?thesis
    proof (cases r)
      case None
      then show ?thesis using True r nl by (simp add: newkey_insert_def Let_def n_def [symmetric] tvisnil_def)
    next
      case (Some fr)
      then have fr: "fr < t_freetop t" "kyt (t_node t) fr = - 1" "\<forall>i. fr < i \<and> i < t_freetop t \<longrightarrow> kyt (t_node t) i \<noteq> - 1" using r(2) by auto
      then have hm: "t_hmask t \<noteq> 0" using ft(2) by auto
      then have live: "n_val (t_node t ! n) \<noteq> - 1" using True by simp
      show ?thesis
      proof (cases "hashkey sh (t_hmask t) (kyt (t_node t) n) = n")
        case main: True
        have "newkey_insert sh t k = Inr (Some (NSlot fr, set_key (chain_free (t\<lparr>t_freetop := fr\<rparr>) n fr) fr k))"
          using live r(1) Some nl main by (simp add: newkey_insert_def Let_def n_def [symmetric] tvisnil_def kyt_def)
        then show ?thesis using insert_behind_main [OF h hm k n_def live main fr] by blast
      next
        case moved: False
        obtain t' where t': "move_colliding sh (t\<lparr>t_freetop := fr\<rparr>) n (hashkey sh (t_hmask t) (kyt (t_node t) n)) fr = Inr t'"
          "inserted sh t k n (set_key t' n k)" using insert_move [OF h hm k n_def live moved fr] by blast
        then have "newkey_insert sh t k = Inr (Some (NSlot n, set_key t' n k))"
          using live r(1) Some nl moved by (simp add: newkey_insert_def Let_def n_def [symmetric] tvisnil_def kyt_def)
        then show ?thesis using t'(2) by blast
      qed
    qed
  qed
qed

end
