(* ===== verification/Tab_Set.thy ===== *)
theory Tab_Set
  imports Tab_Insert
begin

text \<open>
  Getters and setters. A getter returns the slot that holds the value of a key. The setters rely on a function that inserts
  a key; the locale \<open>key_inserter\<close> states what they need of it, and is interpreted on the insertion into a table with room.
\<close>

section \<open>Keys of the array part\<close>

lemma num_eq_sym: "num_eq a b = num_eq b a" by (auto simp: num_eq_def)

lemma ckey_simps [simp]: "ckey (ckey k) = ckey k" "key_ok k \<Longrightarrow> key_ok (ckey k)"
  using node_key_ckey [of k] by (auto simp: ckey_def node_key_def tvismzero_def)

lemma ckey_not_nil [simp]: "key_ok k \<Longrightarrow> ckey k \<noteq> - 1"
  using node_key_ckey [of k] node_key_nil(1) by metis

lemma num_eq_int: "num_eq k (num_of_int i) \<longleftrightarrow> \<not> num_isnan k \<and> ckey k = num_of_int i"
  using num_eq_canon [of "num_of_int i" k] num_eq_sym by (metis num_of_int_tags(2,4))

lemma int_num: "ckey k = num_of_int i \<Longrightarrow> tvisnum k \<and> \<not> num_isnan k \<and> lj_num2int k = i"
proof -
  assume c: "ckey k = num_of_int i"
  show ?thesis
  proof (cases "tvismzero k")
    case True
    then have k: "k = 0x8000000000000000" "num_of_int i = num_of_int 0" using c by (auto simp: tvismzero_def ckey_def num_of_int_def)
    moreover have "lj_num2int 0x8000000000000000 = 0" by (simp add: lj_num2int_def num_exp_def)
    ultimately show ?thesis using mzero_num [OF True] by simp
  next
    case False
    then have "k = num_of_int i" using c by (simp add: ckey_def)
    then show ?thesis by simp
  qed
qed

lemma arr_index_iff: "arr_index t k = Some j \<longleftrightarrow> (\<exists>i. ckey k = num_of_int i \<and> inarray t i \<and> j = unat i)"
proof
  assume "arr_index t k = Some j"
  then have "ckey k = num_of_int (lj_num2int k) \<and> inarray t (lj_num2int k) \<and> j = unat (lj_num2int k)"
    unfolding arr_index_def Let_def num_eq_int by (simp split: if_splits)
  then show "\<exists>i. ckey k = num_of_int i \<and> inarray t i \<and> j = unat i" by blast
next
  assume "\<exists>i. ckey k = num_of_int i \<and> inarray t i \<and> j = unat i"
  then obtain i where i: "ckey k = num_of_int i" "inarray t i" "j = unat i" by blast
  show "arr_index t k = Some j" using int_num [OF i(1)] i unfolding arr_index_def Let_def num_eq_int by simp
qed

lemma arr_index_ckey [simp]: "arr_index t (ckey k) = arr_index t k"
  by (metis arr_index_iff ckey_simps(1) not_None_eq)

lemma tab_value_ckey [simp]: "tab_value t (ckey k) = tab_value t k"
  unfolding tab_value_def arr_index_ckey ckey_simps ..

lemma arr_index_None: "arr_index t k = None \<longleftrightarrow> (\<forall>i. ckey k = num_of_int i \<longrightarrow> \<not> inarray t i)"
  using arr_index_iff by (metis not_None_eq)

section \<open>Slots\<close>

fun slot_for :: "gctab \<Rightarrow> u64 \<Rightarrow> slot \<Rightarrow> bool" where
  "slot_for t k (ASlot i) \<longleftrightarrow> arr_index t k = Some i"
| "slot_for t k (NSlot j) \<longleftrightarrow> arr_index t k = None \<and> j < length (t_node t) \<and> kyt (t_node t) j = ckey k"

lemma hpart_keys: "hpart_ok sh t \<Longrightarrow> keys_ok (length (t_node t)) (kyt (t_node t))"
  unfolding hpart_ok_def chains_def by blast

lemma slot_read_value:
  assumes "hpart_ok sh t" "slot_for t k s" "key_ok k"
  shows "slot_read t s = tab_value t k"
proof (cases s)
  case (NSlot j)
  then have "node_value (t_node t) (ckey k) = n_val (t_node t ! j)"
    using node_value_at [OF hpart_keys [OF assms(1)]] assms by simp
  then show ?thesis using NSlot assms by (simp add: tab_value_def)
qed (use assms in \<open>simp add: tab_value_def\<close>)

lemma arr_index_less: "arr_index t k = Some i \<Longrightarrow> i < length (t_array t)"
  by (auto simp: arr_index_iff inarray_def asize_def)

lemma slot_store_simps:
  "asize (slot_store t s v) = asize t" "inarray (slot_store t s v) = inarray t" "arr_index (slot_store t s v) = arr_index t"
  "length (t_node (slot_store t s v)) = length (t_node t)" "t_hmask (slot_store t s v) = t_hmask t" "t_freetop (slot_store t s v) = t_freetop t"
  "nxt (t_node (slot_store t s v)) = nxt (t_node t)" "kyt (t_node (slot_store t s v)) = kyt (t_node t)"
proof -
  show a: "asize (slot_store t s v) = asize t" by (cases s) (simp_all add: asize_def)
  then show i: "inarray (slot_store t s v) = inarray t" by (simp add: inarray_def fun_eq_iff)
  then show "arr_index (slot_store t s v) = arr_index t" by (simp add: arr_index_def fun_eq_iff)
  show "length (t_node (slot_store t s v)) = length (t_node t)" "t_hmask (slot_store t s v) = t_hmask t" "t_freetop (slot_store t s v) = t_freetop t"
    by (cases s; simp)+
  have "nxt (ns[j := (ns ! j)\<lparr>n_val := v\<rparr>]) = nxt ns \<and> kyt (ns[j := (ns ! j)\<lparr>n_val := v\<rparr>]) = kyt ns" for ns j
    by (cases "j < length ns") (auto simp: nxt_upd kyt_upd nxt_def kyt_def list_update_beyond fun_eq_iff)
  then show "nxt (t_node (slot_store t s v)) = nxt (t_node t)" "kyt (t_node (slot_store t s v)) = kyt (t_node t)"
    by (cases s; simp)+
qed

lemma slot_store_value:
  assumes h: "hpart_ok sh t" "hpart_ok sh (slot_store t s v)" and s: "slot_for t k s" and k: "key_ok k" "key_ok k'"
  shows "tab_value (slot_store t s v) k' = (if ckey k' = ckey k then v else tab_value t k')"
proof -
  have nk: "ckey k \<noteq> - 1" "ckey k' \<noteq> - 1" using k by simp_all
  show ?thesis
  proof (cases s)
    case (ASlot i)
    then have i: "arr_index t k = Some i" "i < length (t_array t)" using s arr_index_less by auto
    have inj: "unat a = unat b \<Longrightarrow> a = b" for a b :: u32 by (simp add: word_unat_eq_iff)
    have "arr_index t k' = Some i \<longleftrightarrow> ckey k' = ckey k"
      using i(1) arr_index_iff [of t k i] arr_index_iff [of t k' i] by (auto dest!: inj)
    then show ?thesis using ASlot i arr_index_ckey [of t k] arr_index_ckey [of t k']
      by (cases "arr_index t k'") (auto simp: tab_value_def slot_store_simps(3) [of t "ASlot i", simplified])
  next
    case (NSlot j)
    then have j: "arr_index t k = None" "j < length (t_node t)" "kyt (t_node t) j = ckey k" using s by auto
    let ?ns = "(t_node t)[j := (t_node t ! j)\<lparr>n_val := v\<rparr>]"
    note K = hpart_keys [OF h(1)] and K' = hpart_keys [OF h(2)]
    have ky: "kyt ?ns = kyt (t_node t)" using slot_store_simps(8) [of t "NSlot j" v] by simp
    have ai: "arr_index (slot_store t s v) k' = arr_index t k'" by (simp add: slot_store_simps)
    show ?thesis
    proof (cases "arr_index t k'")
      case None
      have "node_value ?ns (ckey k') = (if ckey k' = ckey k then v else node_value (t_node t) (ckey k'))"
      proof (cases "\<exists>i<length (t_node t). kyt (t_node t) i = ckey k'")
        case True
        then obtain i where i: "i < length (t_node t)" "kyt (t_node t) i = ckey k'" by blast
        have "node_value ?ns (ckey k') = n_val (?ns ! i)" by (rule node_value_at) (use K' NSlot i ky nk in simp_all)
        moreover have "node_value (t_node t) (ckey k') = n_val (t_node t ! i)" by (rule node_value_at [OF K i nk(2)])
        moreover have "i = j \<longleftrightarrow> ckey k' = ckey k" using K i j nk unfolding keys_ok_def by metis
        ultimately show ?thesis using i(1) by (auto simp: nth_list_update)
      next
        case False
        then show ?thesis using j node_value_none [of ?ns "ckey k'"] node_value_none [of "t_node t" "ckey k'"] ky by auto
      qed
      then show ?thesis using None ai NSlot by (simp add: tab_value_def)
    next
      case (Some i)
      then have "ckey k' \<noteq> ckey k" using j(1) arr_index_ckey [of t k] arr_index_ckey [of t k'] by (auto simp del: arr_index_ckey)
      then show ?thesis using Some ai NSlot by (simp add: tab_value_def)
    qed
  qed
qed

lemma slot_store_wf:
  assumes w: "tab_wf sh t" and s: "slot_for t k s" "key_ok k"
  shows "tab_wf sh (slot_store t s v)"
proof -
  let ?t = "slot_store t s v"
  have h: "hpart_ok sh t" using w by (simp add: tab_wf_def)
  have nodes: "\<exists>m \<in> set (t_node t). n_key n = n_key m \<and> (n_key n = - 1 \<longrightarrow> n_val n = n_val m)" if n: "n \<in> set (t_node ?t)" for n
  proof -
    obtain i where i: "i < length (t_node t)" "n = t_node ?t ! i" using n by (auto simp: in_set_conv_nth slot_store_simps)
    have "n_key n = n_key (t_node t ! i)" using i slot_store_simps(8) [of t s v] by (simp add: kyt_def fun_eq_iff)
    moreover have "n_val n = n_val (t_node t ! i)" if "n_key n = - 1"
    proof (cases s)
      case (NSlot j)
      have "n_key (t_node t ! j) \<noteq> - 1" using s NSlot ckey_not_nil [OF s(2)] by (auto simp: kyt_def)
      then have "i \<noteq> j" using that calculation by auto
      then show ?thesis using i NSlot by simp
    qed (use i in simp)
    ultimately show ?thesis using i(1) nth_mem by blast
  qed
  have hm: "t_hmask t = 0 \<Longrightarrow> t_node ?t = t_node t"
  proof (cases s)
    case (NSlot j)
    assume "t_hmask t = 0"
    then have "t_node t = [nilnode]" using h by (simp add: hpart_ok_def)
    then have "kyt (t_node t) j = - 1" using NSlot s(1) by (auto simp: kyt_def nilnode_def)
    then have "ckey k = - 1" using NSlot s(1) by simp
    then show ?thesis using ckey_not_nil [OF s(2)] by blast
  qed simp
  have "hpart_ok sh ?t" unfolding hpart_ok_def slot_store_simps
    using h nodes hm unfolding hpart_ok_def by (metis (no_types, lifting))
  then show ?thesis using w nodes unfolding tab_wf_def slot_store_simps by metis
qed

section \<open>Getters\<close>

text \<open>The comparisons of the lookups, on the keys of the nodes.\<close>

lemma node_cases: "hpart_ok sh t \<Longrightarrow> n \<in> set (t_node t) \<Longrightarrow> n_key n = - 1 \<or> node_key (n_key n)"
  unfolding hpart_ok_def by blast

lemma find_int:
  assumes "hpart_ok sh t"
  shows "(\<exists>j<length (t_node t). kyt (t_node t) j = num_of_int i \<and> tab_find t (\<lambda>nk. tvisnum nk \<and> num_eq nk (num_of_int i)) (hashnum (t_hmask t) (num_of_int i)) = Inr (Some j)) \<or>
    (\<forall>j<length (t_node t). kyt (t_node t) j \<noteq> num_of_int i) \<and> tab_find t (\<lambda>nk. tvisnum nk \<and> num_eq nk (num_of_int i)) (hashnum (t_hmask t) (num_of_int i)) = Inr None"
proof -
  have "hashkey sh (t_hmask t) (num_of_int i) = hashnum (t_hmask t) (num_of_int i)" by (simp add: hashkey_def)
  moreover have "num_of_int i \<noteq> - 1" by (rule num_of_int_tags)
  moreover have "(tvisnum (n_key n) \<and> num_eq (n_key n) (num_of_int i)) \<longleftrightarrow> n_key n = num_of_int i" if "n \<in> set (t_node t)" for n
    using int_key_eq node_cases [OF assms that] by blast
  ultimately show ?thesis
    using tab_find_key [OF assms, of "num_of_int i" "\<lambda>nk. tvisnum nk \<and> num_eq nk (num_of_int i)"] by simp
qed

lemma find_str:
  assumes "hpart_ok sh t" "tvisstr k" "key_ok k"
  shows "(\<exists>j<length (t_node t). kyt (t_node t) j = k \<and> tab_find t (\<lambda>nk. tvisstr nk \<and> strV nk = strV k) (hashmask (t_hmask t) (sh (strV k))) = Inr (Some j)) \<or>
    (\<forall>j<length (t_node t). kyt (t_node t) j \<noteq> k) \<and> tab_find t (\<lambda>nk. tvisstr nk \<and> strV nk = strV k) (hashmask (t_hmask t) (sh (strV k))) = Inr None"
proof -
  have "hashkey sh (t_hmask t) k = hashmask (t_hmask t) (sh (strV k))" using assms(2) by (simp add: hashkey_def)
  moreover have "k \<noteq> - 1" using ckey_not_nil [OF assms(3)] assms(2) by simp
  ultimately show ?thesis
    using tab_find_key [OF assms(1), of k "\<lambda>nk. tvisstr nk \<and> strV nk = strV k"] str_key_eq [OF assms(2)] by simp
qed

lemma lj_obj_equal_nil: "key_ok k \<Longrightarrow> \<not> lj_obj_equal (- 1) k"
proof
  assume k: "key_ok k" and e: "lj_obj_equal (- 1) k"
  have "itype k = - 1" using e by (auto simp: lj_obj_equal_def split: if_splits)
  then have "k = - 1" using k by (auto simp: key_ok_def tv_ok_def tvispri_def tag_defs)
  then show False using k by simp
qed

lemma find_generic:
  assumes h: "hpart_ok sh t" and k: "tv_ok k" "\<not> tvisnil k"
  shows "key_ok k \<and> (\<exists>j<length (t_node t). kyt (t_node t) j = ckey k \<and> tab_find t (\<lambda>nk. lj_obj_equal nk k) (hashkey sh (t_hmask t) k) = Inr (Some j)) \<or>
    (key_ok k \<longrightarrow> (\<forall>j<length (t_node t). kyt (t_node t) j \<noteq> ckey k)) \<and> tab_find t (\<lambda>nk. lj_obj_equal nk k) (hashkey sh (t_hmask t) k) = Inr None"
proof (cases "key_ok k")
  case True
  have "lj_obj_equal (n_key n) k \<longleftrightarrow> n_key n = ckey k" if "n \<in> set (t_node t)" for n
    using node_cases [OF h that] lj_obj_equal_node_key [OF _ k] lj_obj_equal_nil [OF True] ckey_not_nil [OF True] True by metis
  then show ?thesis using tab_find_key [OF h ckey_not_nil [OF True], of "\<lambda>nk. lj_obj_equal nk k"] True by simp
next
  case False
  let ?i = "hashkey sh (t_hmask t) k"
  have c: "chains (length (t_node t)) (nxt (t_node t)) (kyt (t_node t)) (hashkey sh (t_hmask t))" using h unfolding hpart_ok_def by blast
  obtain as where as: "nlist (nxt (t_node t)) (Some ?i) as" "set as \<subseteq> {..<length (t_node t)}" "length as \<le> length (t_node t)"
    using chains_path [OF c hashkey_less [OF h]] by blast
  have num: "tvisnum k" "num_isnan k" using False k by (auto simp: key_ok_def)
  then have "itype k \<noteq> - 1" by (auto simp: tvisnum_def tag_defs)
  then have "\<not> lj_obj_equal (- 1) k" by (simp add: lj_obj_equal_def)
  moreover have "t_node t ! j \<in> set (t_node t)" if "j \<in> set as" for j using that as(2) by (intro nth_mem) auto
  ultimately have "\<not> lj_obj_equal (kyt (t_node t) j) k" if "j \<in> set as" for j
    using node_cases [OF h, of "t_node t ! j"] lj_obj_equal_node_key [OF _ k] False that unfolding kyt_def by metis
  then have "find (\<lambda>j. lj_obj_equal (kyt (t_node t) j) k) as = None" by (simp add: find_None_iff)
  then show ?thesis using chain_walk_nlist [OF as, of "\<lambda>nk. lj_obj_equal nk k"] False by (simp add: tab_find_def)
qed

definition got :: "gctab \<Rightarrow> u64 \<Rightarrow> slot option \<Rightarrow> bool" where
  "got t k r \<longleftrightarrow> (case r of Some s \<Rightarrow> key_ok k \<and> slot_for t k s | None \<Rightarrow> key_ok k \<longrightarrow> tab_value t k = - 1)"

lemma value_absent: "arr_index t k = None \<Longrightarrow> \<forall>j<length (t_node t). kyt (t_node t) j \<noteq> ckey k \<Longrightarrow> tab_value t k = - 1"
  using node_value_none by (simp add: tab_value_def)

lemma str_not_num: "tvisstr k \<Longrightarrow> \<not> tvisnum k" "tvisstr k \<Longrightarrow> tv_ok k \<Longrightarrow> key_ok k"
proof -
  assume s: "tvisstr k"
  then show n: "\<not> tvisnum k" by (simp add: tvisstr_def tvisnum_def tag_defs)
  have "k \<noteq> - 1" using s by (auto simp: tvisstr_def tag_defs)
  then show "tv_ok k \<Longrightarrow> key_ok k" using n by (simp add: key_ok_def tvisnil_def)
qed

lemma lj_tab_getint_spec:
  assumes h: "hpart_ok sh t" and k: "ckey k = num_of_int i" "key_ok k"
  shows "\<exists>r. lj_tab_getint t i = Inr r \<and> got t k r"
proof (cases "inarray t i")
  case True
  then show ?thesis using k arr_index_iff by (auto simp: lj_tab_getint_def got_def)
next
  case False
  then have a: "arr_index t k = None" using k(1) by (auto simp: arr_index_None)
  show ?thesis using find_int [OF h, of i] False a k value_absent [OF a]
    by (auto simp: lj_tab_getint_def lj_tab_getinth_def Let_def got_def)
qed

lemma lj_tab_get_spec:
  assumes h: "hpart_ok sh t" and k: "tv_ok k"
  shows "\<exists>r. lj_tab_get sh t k = Inr r \<and> got t k r"
proof -
  have generic: "\<exists>r. bindE (tab_find t (\<lambda>nk. lj_obj_equal nk k) (hashkey sh (t_hmask t) k)) (\<lambda>r. Inr (map_option NSlot r)) = (Inr r :: tab_err + slot option) \<and> got t k r"
    if "\<not> tvisnil k" "key_ok k \<Longrightarrow> arr_index t k = None"
    using find_generic [OF h k that(1)] that(2) value_absent [of t k] by (auto simp: got_def)
  consider "tvisstr k" | "\<not> tvisstr k" "tvisnum k" | "\<not> tvisstr k" "\<not> tvisnum k" by blast
  then show ?thesis
  proof cases
    case 1
    note n = str_not_num [OF 1]
    have a: "arr_index t k = None" using n(1) int_num [of k] by (auto simp: arr_index_None)
    show ?thesis using find_str [OF h 1 n(2) [OF k]] n(2) [OF k] a value_absent [OF a] 1
      by (auto simp: lj_tab_get_def Let_def lj_tab_getstr_def got_def)
  next
    case 2
    show ?thesis
    proof (cases "num_eq k (num_of_int (lj_num2int k))")
      case True
      then have c: "ckey k = num_of_int (lj_num2int k)" "\<not> num_isnan k" by (simp_all add: num_eq_int)
      moreover have "k \<noteq> - 1" using 2(2) nil_tags(1) by metis
      ultimately have "key_ok k" using k by (simp add: key_ok_def tvisnil_def)
      then show ?thesis using lj_tab_getint_spec [OF h c(1)] 2 True by (simp add: lj_tab_get_def Let_def)
    next
      case False
      then have a: "key_ok k \<Longrightarrow> arr_index t k = None" using 2 int_num [of k] by (auto simp: arr_index_None num_eq_int key_ok_def)
      have "\<not> tvisnil k" using 2 by (auto simp: tvisnil_def tvisnum_def tag_defs)
      then show ?thesis using generic a 2 False by (simp add: lj_tab_get_def Let_def)
    qed
  next
    case 3
    have a: "arr_index t k = None" using 3 int_num [of k] by (auto simp: arr_index_None)
    show ?thesis
    proof (cases "tvisnil k")
      case True
      then show ?thesis using 3 by (simp add: lj_tab_get_def Let_def got_def key_ok_def)
    qed (use generic a 3 in \<open>simp add: lj_tab_get_def Let_def\<close>)
  qed
qed

section \<open>Setters\<close>

definition set_ok :: "(u64 \<Rightarrow> u32) \<Rightarrow> gctab \<Rightarrow> u64 \<Rightarrow> slot \<Rightarrow> gctab \<Rightarrow> bool" where
  "set_ok sh t k s t' \<longleftrightarrow> tab_wf sh t' \<and> slot_for t' k s \<and> (\<forall>k'. key_ok k' \<longrightarrow> tab_value t' k' = tab_value t k')"

lemma nomm_simps [simp]:
  "asize (t\<lparr>t_nomm := x\<rparr>) = asize t" "inarray (t\<lparr>t_nomm := x\<rparr>) = inarray t" "arr_index (t\<lparr>t_nomm := x\<rparr>) = arr_index t"
  "tab_value (t\<lparr>t_nomm := x\<rparr>) = tab_value t" "slot_for (t\<lparr>t_nomm := x\<rparr>) k s = slot_for t k s" "tab_find (t\<lparr>t_nomm := x\<rparr>) = tab_find t"
  "hpart_ok sh (t\<lparr>t_nomm := x\<rparr>) = hpart_ok sh t" "tab_wf sh (t\<lparr>t_nomm := x\<rparr>) = tab_wf sh t" "set_ok sh (t\<lparr>t_nomm := x\<rparr>) k s t' = set_ok sh t k s t'"
proof -
  show a: "asize (t\<lparr>t_nomm := x\<rparr>) = asize t" by (simp add: asize_def)
  then show i: "inarray (t\<lparr>t_nomm := x\<rparr>) = inarray t" by (simp add: inarray_def fun_eq_iff)
  then show ai: "arr_index (t\<lparr>t_nomm := x\<rparr>) = arr_index t" by (simp add: arr_index_def fun_eq_iff)
  then show v: "tab_value (t\<lparr>t_nomm := x\<rparr>) = tab_value t" by (simp add: tab_value_def fun_eq_iff split: option.split)
  show "slot_for (t\<lparr>t_nomm := x\<rparr>) k s = slot_for t k s" by (cases s) (simp_all add: ai)
  show "tab_find (t\<lparr>t_nomm := x\<rparr>) = tab_find t" by (simp add: tab_find_def fun_eq_iff)
  show h: "hpart_ok sh (t\<lparr>t_nomm := x\<rparr>) = hpart_ok sh t" by (simp add: hpart_ok_def)
  show "tab_wf sh (t\<lparr>t_nomm := x\<rparr>) = tab_wf sh t" unfolding tab_wf_def h a i by simp
  show "set_ok sh (t\<lparr>t_nomm := x\<rparr>) k s t' = set_ok sh t k s t'" unfolding set_ok_def v ..
qed

locale key_inserter =
  fixes sh :: "u64 \<Rightarrow> u32" and newkey :: inserter and pre :: "nat \<Rightarrow> gctab \<Rightarrow> bool" and overflow :: "gctab \<Rightarrow> bool"
  assumes newkey_ok: "tab_wf sh t \<Longrightarrow> pre (Suc m) t \<Longrightarrow> key_ok k \<Longrightarrow> arr_index t k = None \<Longrightarrow>
      (\<And>i. i < length (t_node t) \<Longrightarrow> kyt (t_node t) i \<noteq> ckey k) \<Longrightarrow>
      newkey t k = Inl LJ_ERR_TABOV \<and> overflow t \<or> (\<exists>s t'. newkey t k = Inr (s, t') \<and> set_ok sh t k s t' \<and> pre m t')"
    and pre_less: "pre (Suc m) t \<Longrightarrow> pre m t"
    and pre_nomm: "pre m t \<Longrightarrow> pre m (t\<lparr>t_nomm := x\<rparr>)" and overflow_nomm: "overflow (t\<lparr>t_nomm := x\<rparr>) \<Longrightarrow> overflow t"
    and pre_store: "pre m t \<Longrightarrow> pre m (slot_store t s v)"
begin

definition set_res :: "gctab \<Rightarrow> nat \<Rightarrow> u64 \<Rightarrow> tab_err + slot \<times> gctab \<Rightarrow> bool" where
  "set_res t m k r \<longleftrightarrow> r = Inl LJ_ERR_TABOV \<and> overflow t \<or> (\<exists>s t'. r = Inr (s, t') \<and> set_ok sh t k s t' \<and> pre m t')"

lemma set_resI: "tab_wf sh t \<Longrightarrow> pre (Suc m) t \<Longrightarrow> slot_for t k s \<Longrightarrow> set_res t m k (Inr (s, t))"
  using pre_less by (auto simp: set_res_def set_ok_def)

lemma set_res_nomm: "set_res (t\<lparr>t_nomm := x\<rparr>) m k r \<Longrightarrow> set_res t m k r"
  using overflow_nomm by (auto simp: set_res_def)

text \<open>What all setters do after their search: use the node found, or insert the key.\<close>

lemma found_or_new:
  assumes w: "tab_wf sh t" and p: "pre (Suc m) t" and k: "key_ok k" "key_ok k'" "ckey k' = ckey k" "arr_index t k = None"
    and f: "(\<exists>j<length (t_node t). kyt (t_node t) j = ckey k \<and> fd = Inr (Some j)) \<or> (\<forall>j<length (t_node t). kyt (t_node t) j \<noteq> ckey k) \<and> fd = Inr None"
  shows "set_res t m k (bindE fd (\<lambda>r. case r of Some i \<Rightarrow> Inr (NSlot i, t) | None \<Rightarrow> newkey t k'))"
  using f
proof
  assume "\<exists>j<length (t_node t). kyt (t_node t) j = ckey k \<and> fd = Inr (Some j)"
  then show ?thesis using set_resI [OF w p] k(4) by auto
next
  assume f: "(\<forall>j<length (t_node t). kyt (t_node t) j \<noteq> ckey k) \<and> fd = Inr None"
  have "arr_index t k' = None" using k(3,4) arr_index_ckey by metis
  then have "newkey t k' = Inl LJ_ERR_TABOV \<and> overflow t \<or> (\<exists>s t'. newkey t k' = Inr (s, t') \<and> set_ok sh t k' s t' \<and> pre m t')"
    using newkey_ok [OF w p k(2)] f k(3) by simp
  moreover have "set_ok sh t k' s t' = set_ok sh t k s t'" for s t'
  proof -
    have "arr_index t' k' = arr_index t' k" using k(3) arr_index_ckey by metis
    then have "slot_for t' k' s = slot_for t' k s" using k(3) by (cases s) simp_all
    then show ?thesis by (simp add: set_ok_def)
  qed
  ultimately show ?thesis using f by (auto simp: set_res_def)
qed

lemma tab_setinth_ok:
  assumes w: "tab_wf sh t" and p: "pre (Suc m) t" and k: "\<not> inarray t i"
  shows "set_res t m (num_of_int i) (tab_setinth newkey t i)"
proof -
  have h: "hpart_ok sh t" using w by (simp add: tab_wf_def)
  have "key_ok (num_of_int i)" using node_key_num_of_int(1) node_key_def by blast
  moreover have "arr_index t (num_of_int i) = None" using k by (simp add: arr_index_None)
  ultimately show ?thesis unfolding tab_setinth_def Let_def
    using find_int [OF h, of i] by (intro found_or_new [OF w p]) simp_all
qed

lemma tab_setint_ok:
  assumes w: "tab_wf sh t" and p: "pre (Suc m) t" and k: "ckey k = num_of_int i" "key_ok k"
  shows "set_res t m k (tab_setint newkey t i)"
proof (cases "inarray t i")
  case True
  then show ?thesis using set_resI [OF w p, of k "ASlot (unat i)"] k(1) arr_index_iff by (auto simp: tab_setint_def)
next
  case False
  have "set_ok sh t (num_of_int i) s t' = set_ok sh t k s t'" for s t'
  proof -
    have "arr_index t' (num_of_int i) = arr_index t' k" using k(1) arr_index_ckey by metis
    then have "slot_for t' (num_of_int i) s = slot_for t' k s" using k(1) by (cases s) simp_all
    then show ?thesis by (simp add: set_ok_def)
  qed
  then show ?thesis using tab_setinth_ok [OF w p False] False by (simp add: tab_setint_def set_res_def)
qed

lemma tab_set_ok:
  assumes w: "tab_wf sh t" and p: "pre (Suc m) t" and k: "key_ok k"
  shows "set_res t m k (tab_set sh newkey t k)"
proof -
  let ?t = "t\<lparr>t_nomm := 0\<rparr>"
  have w': "tab_wf sh ?t" and p': "pre (Suc m) ?t" and h: "hpart_ok sh ?t" using w pre_nomm [OF p] by (simp_all add: tab_wf_def)
  have kk: "tv_ok k" "\<not> tvisnil k" using k by (simp_all add: key_ok_def)
  have generic: "set_res ?t m k (bindE (tab_find ?t (\<lambda>nk. lj_obj_equal nk k) (hashkey sh (t_hmask ?t) k)) (\<lambda>r. case r of Some i \<Rightarrow> Inr (NSlot i, ?t) | None \<Rightarrow> newkey ?t k))"
    if "arr_index t k = None"
    by (rule found_or_new [OF w' p' k k refl]) (use find_generic [OF h kk] k that in simp_all)
  have "set_res ?t m k (tab_set sh newkey t k)"
  proof -
    consider "tvisstr k" | "\<not> tvisstr k" "tvisnum k" | "\<not> tvisstr k" "\<not> tvisnum k" by blast
    then show ?thesis
    proof cases
      case 1
      have a: "arr_index ?t k = None" using str_not_num [OF 1] int_num [of k] by (auto simp: arr_index_None)
      have "set_res ?t m k (tab_setstr sh newkey ?t (strV k))" unfolding tab_setstr_def str_bits [OF 1]
        by (rule found_or_new [OF w' p' k k refl a]) (use find_str [OF h 1 k] 1 in simp)
      then show ?thesis using 1 by (simp add: tab_set_def Let_def)
    next
      case 2
      show ?thesis
      proof (cases "num_eq k (num_of_int (lj_num2int k))")
        case True
        then have "ckey k = num_of_int (lj_num2int k)" by (simp add: num_eq_int)
        then show ?thesis using tab_setint_ok [OF w' p' _ k] 2 True by (simp add: tab_set_def Let_def)
      next
        case False
        have "\<not> tvisnan k" using k 2 by (simp add: tvisnan_def num_eq_def key_ok_def)
        moreover have "arr_index t k = None" using False 2 k int_num [of k] by (auto simp: arr_index_None num_eq_int key_ok_def)
        ultimately show ?thesis using generic 2 False by (simp add: tab_set_def Let_def)
      qed
    next
      case 3
      have "arr_index t k = None" using 3 int_num [of k] by (auto simp: arr_index_None)
      then show ?thesis using generic 3 kk by (simp add: tab_set_def Let_def)
    qed
  qed
  then show ?thesis by (rule set_res_nomm)
qed

end

section \<open>A table with room\<close>

definition room :: "nat \<Rightarrow> gctab \<Rightarrow> bool" where
  "room m t \<longleftrightarrow> m = 0 \<or> t_hmask t \<noteq> 0 \<and> nodes_used (t_node t) + m \<le> length (t_node t) \<and> full_above t"

lemma inserted_set_ok:
  assumes w: "tab_wf sh t" and i: "inserted sh t k j t'" and k: "key_ok k" "arr_index t k = None"
  shows "set_ok sh t k (NSlot j) t'"
proof -
  have h: "hpart_ok sh t" "hpart_ok sh t'" and e: "t' = t\<lparr>t_node := t_node t', t_freetop := t_freetop t'\<rparr>" using w i by (auto simp: tab_wf_def inserted_def)
  have arr: "t_array t' = t_array t" by (subst e) simp
  then have as: "asize t' = asize t" "inarray t' = inarray t" by (simp_all add: asize_def inarray_def fun_eq_iff)
  then have ai: "arr_index t' = arr_index t" by (simp add: arr_index_def fun_eq_iff)
  have "\<not> inarray t q" if n: "n \<in> set (t_node t')" "n_key n = num_of_int q" for n q
  proof -
    obtain a where a: "a < length (t_node t')" "kyt (t_node t') a = num_of_int q" using n by (auto simp: in_set_conv_nth kyt_def)
    then have "ckey k = num_of_int q \<or> (\<exists>b<length (t_node t). kyt (t_node t) b = num_of_int q)" using i unfolding inserted_def by metis
    then show ?thesis using k(2) w nth_mem unfolding arr_index_None tab_wf_def kyt_def by metis
  qed
  then have "tab_wf sh t'" using w h(2) as unfolding tab_wf_def by simp
  moreover have "slot_for t' k (NSlot j)" using i k(2) ai by (simp add: inserted_def)
  moreover have "node_value (t_node t') (ckey q) = node_value (t_node t) (ckey q)" if "key_ok q" for q
    by (rule node_value_cong [OF hpart_keys [OF h(2)] hpart_keys [OF h(1)]]) (use i that in \<open>simp_all add: inserted_def\<close>)
  ultimately show ?thesis unfolding set_ok_def tab_value_def ai arr by (simp split: option.split)
qed

lemma room_insert:
  assumes w: "tab_wf sh t" and r: "room (Suc m) t" and k: "key_ok k" "\<And>i. i < length (t_node t) \<Longrightarrow> kyt (t_node t) i \<noteq> ckey k"
  shows "\<exists>j t'. newkey_insert sh t k = Inr (Some (NSlot j, t')) \<and> inserted sh t k j t' \<and> room m t'"
proof -
  have h: "hpart_ok sh t" using w by (simp add: tab_wf_def)
  have r': "t_hmask t \<noteq> 0" "nodes_used (t_node t) + Suc m \<le> length (t_node t)" "full_above t" using r by (auto simp: room_def)
  have "\<not> (\<forall>i<t_freetop t. kyt (t_node t) i \<noteq> - 1)"
  proof
    assume "\<forall>i<t_freetop t. kyt (t_node t) i \<noteq> - 1"
    then have "{i. i < length (t_node t) \<and> kyt (t_node t) i \<noteq> - 1} = {..<length (t_node t)}"
      using r'(3) unfolding full_above_def by (auto simp: not_less [symmetric])
    then have "nodes_used (t_node t) = length (t_node t)" by (simp add: nodes_used_def)
    then show False using r'(2) by simp
  qed
  then obtain j t' where t': "newkey_insert sh t k = Inr (Some (NSlot j, t'))" "inserted sh t k j t'" using newkey_insert_spec [OF h k] by blast
  have "t_hmask t' = t_hmask t" using t'(2) by (metis inserted_def gctab.select_convs(5) gctab.surjective gctab.update_convs(4,6))
  then have "room m t'" using t'(2) r' unfolding room_def inserted_def by auto
  then show ?thesis using t' by blast
qed

interpretation room_inserter: key_inserter sh "newkey sh d" "\<lambda>m t. room m t \<and> asize t = a" "\<lambda>_. False" for sh d a
proof
  show "newkey sh d t k = Inl LJ_ERR_TABOV \<and> False \<or> (\<exists>s t'. newkey sh d t k = Inr (s, t') \<and> set_ok sh t k s t' \<and> room m t' \<and> asize t' = a)"
    if w: "tab_wf sh t" "room (Suc m) t \<and> asize t = a" and k: "key_ok k" "arr_index t k = None" "\<And>i. i < length (t_node t) \<Longrightarrow> kyt (t_node t) i \<noteq> ckey k" for t m k
  proof -
    obtain j t' where t': "newkey_insert sh t k = Inr (Some (NSlot j, t'))" "inserted sh t k j t'" "room m t'" using room_insert [OF w(1) _ k(1,3)] w(2) by blast
    have "t_array t' = t_array t" using t'(2) by (metis inserted_def gctab.select_convs(3) gctab.surjective gctab.update_convs(4,6))
    then have "asize t' = a" using w(2) by (simp add: asize_def)
    moreover have "newkey sh d t k = Inr (NSlot j, t')" using t'(1) by (cases d) (simp_all add: newkey_step_def)
    ultimately show ?thesis using t' inserted_set_ok [OF w(1) t'(2) k(1,2)] by blast
  qed
  show "room m t \<and> asize t = a" if "room (Suc m) t \<and> asize t = a" for m t using that by (auto simp: room_def)
  show "room m (t\<lparr>t_nomm := x\<rparr>) \<and> asize (t\<lparr>t_nomm := x\<rparr>) = a" if "room m t \<and> asize t = a" for m t x
    using that by (simp add: room_def full_above_def)
  show "room m (slot_store t s v) \<and> asize (slot_store t s v) = a" if "room m t \<and> asize t = a" for m t s v
    using that by (simp add: room_def full_above_def nodes_used_def slot_store_simps)
qed simp

end
