(* ===== verification/Tab_Resize.thy ===== *)
theory Tab_Resize
  imports Tab_Set
begin

text \<open>
  Resizing keeps what a table denotes, given that the new hash part has a node for every pair that does not go to the array part; and
  the sizes that a rehash computes are such sizes, with room for the key that is about to be inserted.
\<close>

section \<open>The denotation on canonical keys\<close>

definition tab_map :: "gctab \<Rightarrow> u64 \<Rightarrow> u64" where
  "tab_map t k = (if node_key k then tab_value t k else - 1)"

lemma tab_map_eq: "tab_map t = tab_map t' \<longleftrightarrow> (\<forall>k. key_ok k \<longrightarrow> tab_value t k = tab_value t' k)"
proof
  assume e: "tab_map t = tab_map t'"
  show "\<forall>k. key_ok k \<longrightarrow> tab_value t k = tab_value t' k"
  proof (intro allI impI)
    fix k assume "key_ok k"
    then have "node_key (ckey k)" by (rule node_key_ckey)
    then show "tab_value t k = tab_value t' k" using fun_cong [OF e, of "ckey k"] by (simp add: tab_map_def)
  qed
qed (auto simp: tab_map_def fun_eq_iff node_key_def)

lemma set_ok_map: "set_ok sh t k s t' \<Longrightarrow> tab_map t' = tab_map t"
  by (simp add: set_ok_def tab_map_eq)

lemma slot_store_map:
  assumes "tab_wf sh t" "slot_for t k s" "key_ok k"
  shows "tab_map (slot_store t s v) = (tab_map t)(ckey k := v)"
proof
  fix q
  have h: "hpart_ok sh t" "hpart_ok sh (slot_store t s v)" using assms(1) slot_store_wf [OF assms] by (simp_all add: tab_wf_def)
  show "tab_map (slot_store t s v) q = ((tab_map t)(ckey k := v)) q"
  proof (cases "node_key q")
    case True
    then have "key_ok q" "ckey q = q" by (simp_all add: node_key_def)
    then show ?thesis using slot_store_value [OF h assms(2,3), of q] True by (simp add: tab_map_def)
  next
    case False
    then have "q \<noteq> ckey k" using node_key_ckey [OF assms(3)] by auto
    then show ?thesis using False by (simp add: tab_map_def)
  qed
qed

section \<open>Reinsertion\<close>

primrec put_array :: "nat \<Rightarrow> u64 list \<Rightarrow> (u64 \<Rightarrow> u64) \<Rightarrow> u64 \<Rightarrow> u64" where
  "put_array i [] f = f"
| "put_array i (v # vs) f = put_array (Suc i) vs (if v = - 1 then f else f(num_of_int (of_nat i) := v))"

primrec put_nodes :: "tnode list \<Rightarrow> (u64 \<Rightarrow> u64) \<Rightarrow> u64 \<Rightarrow> u64" where
  "put_nodes [] f = f"
| "put_nodes (n # ns) f = put_nodes ns (if n_val n = - 1 then f else f(n_key n := n_val n))"

definition live_vals :: "u64 list \<Rightarrow> nat" where "live_vals vs = length (filter (\<lambda>v. v \<noteq> - 1) vs)"

definition hash_nodes :: "nat \<Rightarrow> tnode list \<Rightarrow> nat" where
  "hash_nodes as ns = length (filter (\<lambda>n. n_val n \<noteq> - 1 \<and> \<not> (\<exists>i. n_key n = num_of_int i \<and> unat i < as)) ns)"

lemma reinsert_array_ok:
  assumes "tab_wf sh t" "room (live_vals vs + m) t" "asize t = a" "a \<le> i" "i + length vs \<le> LJ_MAX_ASIZE"
  shows "\<exists>t'. reinsert_array (newkey sh d) i vs t = Inr t' \<and> tab_wf sh t' \<and> room m t' \<and> asize t' = a \<and> tab_map t' = put_array i vs (tab_map t)"
  using assms
proof (induction vs arbitrary: i t)
  case Nil
  then show ?case by (simp add: live_vals_def)
next
  case (Cons v vs)
  show ?case
  proof (cases "v = - 1")
    case True
    then show ?thesis using Cons.IH [of t "Suc i"] Cons.prems by (simp add: live_vals_def tvisnil_def)
  next
    case False
    let ?k = "num_of_int (of_nat i)"
    have small: "i < 2 ^ 32" using Cons.prems(5) by (simp add: LJ_MAX_ASIZE_def LJ_MAX_ABITS_def)
    then have "\<not> inarray t (of_nat i)" using Cons.prems(3,4) by (simp add: inarray_def unsigned_of_nat take_bit_nat_eq_self)
    moreover have "room (Suc (live_vals vs + m)) t \<and> asize t = a" using Cons.prems(2,3) False by (simp add: live_vals_def)
    ultimately obtain s t1 where t1: "tab_setinth (newkey sh d) t (of_nat i) = Inr (s, t1)" "set_ok sh t ?k s t1" "room (live_vals vs + m) t1" "asize t1 = a"
      using room_inserter.tab_setinth_ok [OF Cons.prems(1)] unfolding room_inserter.set_res_def by blast
    have k: "key_ok ?k" using node_key_num_of_int(1) node_key_def by blast
    have w1: "tab_wf sh t1" "slot_for t1 ?k s" using t1(2) by (simp_all add: set_ok_def)
    let ?t2 = "slot_store t1 s v"
    have m2: "tab_map ?t2 = (tab_map t)(?k := v)" using slot_store_map [OF w1 k] set_ok_map [OF t1(2)] by simp
    have r2: "room (live_vals vs + m) ?t2" "asize ?t2 = a" using room_inserter.pre_store t1(3,4) by blast+
    have w2: "tab_wf sh ?t2" by (rule slot_store_wf [OF w1 k])
    have r: "reinsert_array (newkey sh d) i (v # vs) t = reinsert_array (newkey sh d) (Suc i) vs ?t2" using t1(1) False by (simp add: tvisnil_def)
    have e: "put_array i (v # vs) (tab_map t) = put_array (Suc i) vs (tab_map ?t2)" unfolding put_array.simps m2 by (simp only: False if_False)
    show ?thesis unfolding r e by (rule Cons.IH [OF w2 r2]) (use Cons.prems(4,5) in simp_all)
  qed
qed

lemma tab_set_array:
  assumes "arr_index t k = Some i" "key_ok k"
  shows "tab_set sh nk t k = Inr (ASlot i, t\<lparr>t_nomm := 0\<rparr>)"
proof -
  obtain q where q: "ckey k = num_of_int q" "inarray t q" "i = unat q" using assms(1) unfolding arr_index_iff by blast
  then have n: "tvisnum k" "lj_num2int k = q" "\<not> num_isnan k" using int_num by blast+
  moreover have "num_eq k (num_of_int q)" using n q(1) by (simp add: num_eq_int)
  moreover have "\<not> tvisstr k" using n(1) str_not_num by blast
  ultimately show ?thesis using q by (simp add: tab_set_def Let_def tab_setint_def)
qed

lemma reinsert_hash_ok:
  assumes "tab_wf sh t" "room (hash_nodes a ns + m) t" "asize t = a" "\<And>n. n \<in> set ns \<Longrightarrow> n_val n \<noteq> - 1 \<Longrightarrow> node_key (n_key n)"
  shows "\<exists>t'. reinsert_hash sh (newkey sh d) ns t = Inr t' \<and> tab_wf sh t' \<and> room m t' \<and> asize t' = a \<and> tab_map t' = put_nodes ns (tab_map t)"
  using assms
proof (induction ns arbitrary: t)
  case Nil
  then show ?case by (simp add: hash_nodes_def)
next
  case (Cons n ns)
  show ?case
  proof (cases "n_val n = - 1")
    case True
    then show ?thesis using Cons.IH [of t] Cons.prems by (simp add: hash_nodes_def tvisnil_def)
  next
    case False
    have nk: "node_key (n_key n)" "key_ok (n_key n)" "ckey (n_key n) = n_key n" using Cons.prems(4) False by (auto simp: node_key_def)
    have "\<exists>s t1. tab_set sh (newkey sh d) t (n_key n) = Inr (s, t1) \<and> set_ok sh t (n_key n) s t1 \<and> room (hash_nodes a ns + m) t1 \<and> asize t1 = a"
    proof (cases "arr_index t (n_key n)")
      case None
      then have "\<not> (\<exists>i. n_key n = num_of_int i \<and> unat i < a)" using Cons.prems(3) nk(3) by (auto simp: arr_index_None inarray_def)
      then have "room (Suc (hash_nodes a ns + m)) t \<and> asize t = a" using Cons.prems(2,3) False by (simp add: hash_nodes_def)
      then show ?thesis using room_inserter.tab_set_ok [OF Cons.prems(1) _ nk(2)] unfolding room_inserter.set_res_def by blast
    next
      case (Some i)
      then have "\<exists>i. n_key n = num_of_int i \<and> unat i < a" using Cons.prems(3) nk(3) by (auto simp: arr_index_iff inarray_def)
      then have "hash_nodes a (n # ns) = hash_nodes a ns" unfolding hash_nodes_def by auto
      then have "room (hash_nodes a ns + m) t" using Cons.prems(2) by simp
      moreover have "set_ok sh t (n_key n) (ASlot i) (t\<lparr>t_nomm := 0\<rparr>)" using Cons.prems(1) Some by (simp add: set_ok_def)
      ultimately show ?thesis using tab_set_array [OF Some nk(2)] Cons.prems(3) by (simp add: room_def full_above_def)
    qed
    then obtain s t1 where t1: "tab_set sh (newkey sh d) t (n_key n) = Inr (s, t1)" "set_ok sh t (n_key n) s t1" "room (hash_nodes a ns + m) t1" "asize t1 = a" by blast
    have w1: "tab_wf sh t1" "slot_for t1 (n_key n) s" using t1(2) by (simp_all add: set_ok_def)
    let ?t2 = "slot_store t1 s (n_val n)"
    have m2: "tab_map ?t2 = (tab_map t)(n_key n := n_val n)" using slot_store_map [OF w1 nk(2)] set_ok_map [OF t1(2)] nk(3) by simp
    have r2: "room (hash_nodes a ns + m) ?t2" "asize ?t2 = a" using room_inserter.pre_store t1(3,4) by blast+
    have w2: "tab_wf sh ?t2" by (rule slot_store_wf [OF w1 nk(2)])
    have r: "reinsert_hash sh (newkey sh d) (n # ns) t = reinsert_hash sh (newkey sh d) ns ?t2" using t1(1) False by (simp add: tvisnil_def)
    have e: "put_nodes (n # ns) (tab_map t) = put_nodes ns (tab_map ?t2)" unfolding put_nodes.simps m2 by (simp only: False if_False)
    show ?thesis unfolding r e by (rule Cons.IH [OF w2 r2]) (use Cons.prems(4) in simp)
  qed
qed

section \<open>Resizing\<close>

text \<open>A fresh hash part.\<close>

lemma unat_of_small: "n < 2 ^ 32 \<Longrightarrow> unat (of_nat n :: u32) = n"
  by (simp add: unsigned_of_nat take_bit_nat_eq_self)

lemma chains_empty:
  assumes "\<And>i. i < N \<Longrightarrow> nx i = None" "\<And>i. i < N \<Longrightarrow> ky i = - 1"
  shows "chains N nx ky h"
  by (rule chainsI) (use assms in \<open>auto intro!: exI [of _ "[_]"]\<close>)

lemma fresh_hpart_ok:
  assumes "hbits \<le> LJ_MAX_HBITS" "asize t \<le> LJ_MAX_ASIZE"
  shows "\<exists>ns. fresh_hpart t hbits = Inr (t\<lparr>t_node := ns, t_hmask := of_nat (2 ^ hbits - 1), t_freetop := (if hbits = 0 then 0 else 2 ^ hbits)\<rparr>) \<and>
    length ns = 2 ^ hbits \<and> (\<forall>n \<in> set ns. n = nilnode)"
proof (cases "hbits = 0")
  case True
  then show ?thesis by (auto simp: fresh_hpart_def intro!: exI [of _ "[nilnode]"])
next
  case False
  then show ?thesis using assms(1)
    by (auto simp: fresh_hpart_def newhpart_def clearhpart_def rawnode_def nilnode_def intro!: exI [of _ "replicate (2 ^ hbits) nilnode"])
qed

lemma fresh_table:
  assumes hb: "hbits \<le> LJ_MAX_HBITS" and as: "asize t \<le> LJ_MAX_ASIZE" and ns: "length ns = 2 ^ hbits" "\<forall>n \<in> set ns. n = nilnode"
    and t: "t_node t = ns" "t_hmask t = of_nat (2 ^ hbits - 1)" "t_freetop t = (if hbits = 0 then 0 else 2 ^ hbits)"
  shows "tab_wf sh t" "tab_map t = (\<lambda>k. case arr_index t k of Some i \<Rightarrow> if node_key k then t_array t ! i else - 1 | None \<Rightarrow> - 1)"
    "m \<le> (if hbits = 0 then 0 else 2 ^ hbits) \<Longrightarrow> room m t"
proof -
  have small: "(2::nat) ^ hbits \<le> 2 ^ 26" using hb by (intro power_increasing) (simp_all add: LJ_MAX_HBITS_def)
  then have um: "unat (t_hmask t) + 1 = 2 ^ hbits" unfolding t(2) by (subst unat_of_small) simp_all
  have nil: "ns ! i = nilnode" if "i < length ns" for i using ns(2) that nth_mem by blast
  have c: "chains (length ns) (nxt ns) (kyt ns) h" for h
    by (rule chains_empty) (simp_all add: nxt_def kyt_def nil nilnode_def)
  have hm: "t_hmask t = 0 \<longleftrightarrow> hbits = 0"
  proof
    assume "t_hmask t = 0"
    then show "hbits = 0" using um by (metis One_nat_def add.left_neutral nat_power_eq_Suc_0_iff numeral_eq_one_iff semiring_norm(85) unsigned_0)
  qed (simp add: t(2))
  have one: "ns = [nilnode]" if "hbits = 0" using ns that by (cases ns) auto
  have h: "hpart_ok sh t" unfolding hpart_ok_def t(1,3)
  proof (intro conjI)
    show "\<exists>b\<le>LJ_MAX_HBITS. unat (t_hmask t) + 1 = 2 ^ b" using um hb by blast
    show "\<forall>n \<in> set ns. n_key n = - 1 \<and> n_val n = - 1 \<or> node_key (n_key n)" using ns(2) by (metis nilnode_def tnode.select_convs(1,2))
    show "t_hmask t = 0 \<longrightarrow> ns = [nilnode] \<and> (if hbits = 0 then 0 else 2 ^ hbits) = 0" using hm one by simp
  qed (use um ns(1) c in simp_all)
  have nk: "n_key n \<noteq> num_of_int k" if "n \<in> set ns" for n k using ns(2) that num_of_int_tags(3) [of k] by (metis nilnode_def tnode.select_convs(2))
  then show "tab_wf sh t" using h as t(1) by (simp add: tab_wf_def)
  have "node_value ns (ckey k) = - 1" if "node_key k" for k
    using node_value_none [of ns "ckey k"] nil ckey_node_key [OF that] that node_key_nil(1) by (metis kyt_def nilnode_def tnode.select_convs(2))
  then show "tab_map t = (\<lambda>k. case arr_index t k of Some i \<Rightarrow> if node_key k then t_array t ! i else - 1 | None \<Rightarrow> - 1)"
    by (auto simp: tab_map_def tab_value_def t(1) fun_eq_iff split: option.split)
  have "nodes_used ns = 0" by (auto simp: nodes_used_def kyt_def nil nilnode_def)
  then show "m \<le> (if hbits = 0 then 0 else 2 ^ hbits) \<Longrightarrow> room m t"
    using ns(1) hm unfolding room_def full_above_def t(1,3) by auto
qed

text \<open>What the reinsertions add up to.\<close>

lemma put_array_int:
  assumes "i + length vs \<le> 2 ^ 32"
  shows "put_array i vs f (num_of_int q) =
    (if i \<le> unat q \<and> unat q < i + length vs \<and> vs ! (unat q - i) \<noteq> - 1 then vs ! (unat q - i) else f (num_of_int q))"
  using assms
proof (induction vs arbitrary: i f)
  case (Cons v vs)
  have "i < 2 ^ 32" using Cons.prems by simp
  then have q: "q = of_nat i \<longleftrightarrow> unat q = i" by (metis unat_of_small word_unat_eq_iff)
  show ?case
  proof (cases "unat q = i")
    case True
    then show ?thesis using Cons.IH [of "Suc i"] Cons.prems q by simp
  next
    case False
    then have "(v # vs) ! (unat q - i) = vs ! (unat q - Suc i)" if "i \<le> unat q" using that by (simp add: nth_Cons' Suc_diff_Suc)
    then show ?thesis using Cons.IH [of "Suc i"] Cons.prems q False by auto
  qed
qed auto

lemma put_array_other: "(\<And>q. k \<noteq> num_of_int q) \<Longrightarrow> put_array i vs f k = f k"
  by (induction vs arbitrary: i f) auto

lemma put_nodes_other: "(\<And>v. (k, v) \<notin> live_pairs ns) \<Longrightarrow> put_nodes ns f k = f k"
proof (induction ns arbitrary: f)
  case (Cons n ns)
  have "(k, v) \<notin> live_pairs ns" for v using Cons.prems [of v] by (auto simp: live_pairs_def)
  then have "put_nodes ns g k = g k" for g by (rule Cons.IH)
  moreover have "n_val n = - 1 \<or> n_key n \<noteq> k" using Cons.prems [of "n_val n"] by (auto simp: live_pairs_def)
  ultimately show ?case by auto
qed simp

lemma put_nodes_at:
  assumes "(k, v) \<in> live_pairs ns" "\<And>v'. (k, v') \<in> live_pairs ns \<Longrightarrow> v' = v"
  shows "put_nodes ns f k = v"
  using assms
proof (induction ns arbitrary: f)
  case (Cons n ns)
  show ?case
  proof (cases "\<exists>u. (k, u) \<in> live_pairs ns")
    case True
    then obtain u where u: "(k, u) \<in> live_pairs ns" by blast
    have sub: "live_pairs ns \<subseteq> live_pairs (n # ns)" by (auto simp: live_pairs_def)
    then have "u = v" using Cons.prems(2) u by blast
    then have "put_nodes ns g k = v" for g using Cons.IH u Cons.prems(2) sub by blast
    then show ?thesis by simp
  next
    case False
    then have "put_nodes ns g k = g k" for g by (intro put_nodes_other) blast
    moreover have "n_val n = v \<and> n_key n = k \<and> v \<noteq> - 1" using Cons.prems(1) False by (auto simp: live_pairs_def)
    ultimately show ?thesis by simp
  qed
qed (simp add: live_pairs_def)

lemma tab_map_nodes:
  assumes w: "tab_wf sh t" and k: "node_key k"
  shows "(k, v) \<in> live_pairs (t_node t) \<Longrightarrow> tab_map t k = v" "(\<And>v. (k, v) \<notin> live_pairs (t_node t)) \<Longrightarrow> tab_map t k = (case arr_index t k of Some i \<Rightarrow> t_array t ! i | None \<Rightarrow> - 1)"
proof -
  have h: "hpart_ok sh t" using w by (simp add: tab_wf_def)
  have kn: "k \<noteq> - 1" "ckey k = k" using k by auto
  have nv: "node_value (t_node t) k = u \<longleftrightarrow> (k, u) \<in> live_pairs (t_node t)" if "u \<noteq> - 1" for u by (rule node_value_live [OF hpart_keys [OF h] kn(1) that])
  show "tab_map t k = v" if l: "(k, v) \<in> live_pairs (t_node t)"
  proof -
    have "v \<noteq> - 1" using l by (auto simp: live_pairs_def)
    moreover have "arr_index t k = None" using l w kn(2) unfolding arr_index_None tab_wf_def live_pairs_def by auto
    ultimately show ?thesis using nv l k kn by (simp add: tab_map_def tab_value_def)
  qed
  show "tab_map t k = (case arr_index t k of Some i \<Rightarrow> t_array t ! i | None \<Rightarrow> - 1)" if "\<And>v. (k, v) \<notin> live_pairs (t_node t)"
    using nv that k kn unfolding tab_map_def tab_value_def by (auto split: option.split)
qed

lemma reinserted_map:
  assumes w: "tab_wf sh t" and as: "as \<le> LJ_MAX_ASIZE" and arr: "t_array t2 = take as (t_array t @ replicate (as - asize t) (- 1))"
    and m2: "tab_map t2 = (\<lambda>k. case arr_index t2 k of Some i \<Rightarrow> if node_key k then t_array t2 ! i else - 1 | None \<Rightarrow> - 1)"
  shows "put_nodes (t_node t) (put_array as (drop as (t_array t)) (tab_map t2)) = tab_map t"
proof
  fix k
  let ?f = "put_array as (drop as (t_array t)) (tab_map t2)"
  have big: "LJ_MAX_ASIZE < 2 ^ 32" by (simp add: LJ_MAX_ASIZE_def LJ_MAX_ABITS_def)
  have at: "asize t \<le> LJ_MAX_ASIZE" "asize t2 = as" using w arr by (auto simp: tab_wf_def asize_def)
  have nk: "node_key q" if "(q, v) \<in> live_pairs (t_node t)" for q v using that w unfolding live_pairs_def tab_wf_def hpart_ok_def by auto
  show "put_nodes (t_node t) ?f k = tab_map t k"
  proof (cases "node_key k")
    case False
    then have "\<And>v. (k, v) \<notin> live_pairs (t_node t)" using nk by blast
    moreover have "?f k = tab_map t2 k" by (rule put_array_other) (use False node_key_num_of_int(1) in metis)
    ultimately show ?thesis using put_nodes_other [of k "t_node t" ?f] False by (simp add: tab_map_def)
  next
    case k: True
    show ?thesis
    proof (cases "\<exists>v. (k, v) \<in> live_pairs (t_node t)")
      case True
      then show ?thesis using put_nodes_at [of k _ "t_node t" ?f] tab_map_nodes(1) [OF w k] by metis
    next
      case False
      then have e: "put_nodes (t_node t) ?f k = ?f k" "tab_map t k = (case arr_index t k of Some i \<Rightarrow> t_array t ! i | None \<Rightarrow> - 1)"
        using put_nodes_other tab_map_nodes(2) [OF w k] by blast+
      show ?thesis
      proof (cases "\<exists>i. k = num_of_int i")
        case True
        then obtain i where i: "k = num_of_int i" by blast
        have ix: "arr_index u k = (if unat i < asize u then Some (unat i) else None)" for u
          using arr_index_iff [of u k "unat i"] arr_index_None [of u k] i by (auto simp: inarray_def)
        have f: "?f k = (if as \<le> unat i \<and> unat i < as + length (drop as (t_array t)) \<and> drop as (t_array t) ! (unat i - as) \<noteq> - 1
            then drop as (t_array t) ! (unat i - as) else tab_map t2 k)" unfolding i by (rule put_array_int) (use at as big in \<open>auto simp: asize_def\<close>)
        have t2: "tab_map t2 k = (if unat i < as then t_array t2 ! unat i else - 1)" using ix [of t2] at(2) k m2 by simp
        show ?thesis unfolding e f t2 ix arr by (auto simp: asize_def nth_append)
      next
        case False
        then have "arr_index t k = None" "arr_index t2 k = None" using k by (auto simp: arr_index_None)
        moreover have "?f k = tab_map t2 k" by (rule put_array_other) (use False in auto)
        ultimately show ?thesis using e m2 by simp
      qed
    qed
  qed
qed

lemma tab_resize_steps:
  assumes w: "tab_wf sh t" and g: "as \<le> asize t \<or> as \<le> LJ_MAX_ASIZE"
  shows "tab_resize sh nk t as hbits = bindE (fresh_hpart (t\<lparr>t_colo := (if as > asize t \<and> sint (t_colo t) > 0 then t_colo t OR 0x80 else t_colo t),
        t_array := t_array t @ replicate (as - asize t) (- 1)\<rparr>) hbits)
      (\<lambda>u. bindE (reinsert_array nk as (drop as (t_array t)) (u\<lparr>t_array := take as (t_array t @ replicate (as - asize t) (- 1))\<rparr>)) (reinsert_hash sh nk (t_node t)))"
proof -
  let ?a = "t_array t @ replicate (as - asize t) (- 1)"
  have grow: "grow_array t as = Inr (t\<lparr>t_colo := (if as > asize t \<and> sint (t_colo t) > 0 then t_colo t OR 0x80 else t_colo t), t_array := ?a\<rparr>)"
    using g by (auto simp: grow_array_def asize_def)
  have fresh: "t_array u = t_array v" if "fresh_hpart v hbits = Inr u" for u v
    using that by (auto simp: fresh_hpart_def newhpart_def clearhpart_def split: if_splits)
  have arr: "(if as < length (t_array t) then reinsert_array nk as (drop as (t_array t)) (u\<lparr>t_array := take as (t_array u)\<rparr>) else Inr u) =
      reinsert_array nk as (drop as (t_array t)) (u\<lparr>t_array := take as ?a\<rparr>)" if "t_array u = ?a" for u :: gctab
    using that by (auto simp: asize_def)
  have hash: "(if t_hmask t > 0 then reinsert_hash sh nk (t_node t) u else Inr u) = reinsert_hash sh nk (t_node t) u" for u
  proof (cases "t_hmask t = 0")
    case True
    then have "t_node t = [nilnode]" using w by (simp add: tab_wf_def hpart_ok_def)
    then show ?thesis using True by (simp add: nilnode_def tvisnil_def)
  qed (simp add: word_neq_0_conv)
  show ?thesis unfolding tab_resize_def Let_def grow bindE_simps hash
  proof -
    let ?t1 = "t\<lparr>t_colo := (if as > asize t \<and> sint (t_colo t) > 0 then t_colo t OR 0x80 else t_colo t), t_array := ?a\<rparr>"
    show "bindE (fresh_hpart ?t1 hbits) (\<lambda>u. bindE (if as < length (t_array t) then reinsert_array nk as (drop as (t_array t)) (u\<lparr>t_array := take as (t_array u)\<rparr>) else Inr u) (reinsert_hash sh nk (t_node t))) =
      bindE (fresh_hpart ?t1 hbits) (\<lambda>u. bindE (reinsert_array nk as (drop as (t_array t)) (u\<lparr>t_array := take as ?a\<rparr>)) (reinsert_hash sh nk (t_node t)))"
    proof (cases "fresh_hpart ?t1 hbits")
      case (Inr u)
      then have "t_array u = ?a" using fresh [OF Inr] by simp
      then show ?thesis using Inr arr by simp
    qed simp
  qed
qed

lemma tab_resize_ok:
  assumes w: "tab_wf sh t" and as: "as \<le> LJ_MAX_ASIZE" and hb: "hbits \<le> LJ_MAX_HBITS"
    and fit: "live_vals (drop as (t_array t)) + hash_nodes as (t_node t) + m \<le> (if hbits = 0 then 0 else 2 ^ hbits)"
  shows "\<exists>t'. tab_resize sh (newkey sh d) t as hbits = Inr t' \<and> tab_wf sh t' \<and> room m t' \<and> asize t' = as \<and> tab_map t' = tab_map t"
proof -
  let ?a = "t_array t @ replicate (as - asize t) (- 1)"
  let ?t1 = "t\<lparr>t_colo := (if as > asize t \<and> sint (t_colo t) > 0 then t_colo t OR 0x80 else t_colo t), t_array := ?a\<rparr>"
  have at: "asize t \<le> LJ_MAX_ASIZE" using w by (simp add: tab_wf_def)
  then have "asize ?t1 \<le> LJ_MAX_ASIZE" using as by (simp add: asize_def)
  then obtain ns where ns: "fresh_hpart ?t1 hbits = Inr (?t1\<lparr>t_node := ns, t_hmask := of_nat (2 ^ hbits - 1), t_freetop := (if hbits = 0 then 0 else 2 ^ hbits)\<rparr>)"
      "length ns = 2 ^ hbits" "\<forall>n \<in> set ns. n = nilnode" using fresh_hpart_ok [OF hb] by blast
  define t2 where "t2 = ?t1\<lparr>t_node := ns, t_hmask := of_nat (2 ^ hbits - 1), t_freetop := (if hbits = 0 then 0 else 2 ^ hbits), t_array := take as ?a\<rparr>"
  have a2: "t_array t2 = take as ?a" "asize t2 = as" by (simp_all add: t2_def asize_def)
  have T: "tab_wf sh t2" "tab_map t2 = (\<lambda>k. case arr_index t2 k of Some i \<Rightarrow> if node_key k then t_array t2 ! i else - 1 | None \<Rightarrow> - 1)"
      "room (live_vals (drop as (t_array t)) + (hash_nodes as (t_node t) + m)) t2"
    using fresh_table [OF hb _ ns(2,3), of t2] a2(2) as fit unfolding t2_def by simp_all
  have ln: "as + length (drop as (t_array t)) \<le> LJ_MAX_ASIZE" using as at by (simp add: asize_def)
  obtain t3 where t3: "reinsert_array (newkey sh d) as (drop as (t_array t)) t2 = Inr t3" "tab_wf sh t3" "room (hash_nodes as (t_node t) + m) t3" "asize t3 = as"
      "tab_map t3 = put_array as (drop as (t_array t)) (tab_map t2)"
    using reinsert_array_ok [OF T(1,3) a2(2) order_refl, of d] ln by blast
  have nk: "node_key (n_key n)" if "n \<in> set (t_node t)" "n_val n \<noteq> - 1" for n using that w unfolding tab_wf_def hpart_ok_def by blast
  obtain t4 where t4: "reinsert_hash sh (newkey sh d) (t_node t) t3 = Inr t4" "tab_wf sh t4" "room m t4" "asize t4 = as" "tab_map t4 = put_nodes (t_node t) (tab_map t3)"
    using reinsert_hash_ok [OF t3(2,3,4) nk] by blast
  have "tab_map t4 = tab_map t" using t4(5) t3(5) reinserted_map [OF w as a2(1) T(2)] by simp
  moreover have "tab_resize sh (newkey sh d) t as hbits = Inr t4"
    using tab_resize_steps [OF w, of as "newkey sh d" hbits] as ns(1) t3(1) t4(1) by (simp add: t2_def)
  ultimately show ?thesis using t4 by blast
qed

end
