(* ===== verification/Tab_Rehash.thy ===== *)
theory Tab_Rehash
  imports Tab_Resize
begin

text \<open>
  The sizes a rehash computes. The bins count the live integer keys between powers of two; the best array size takes those of the first
  bins; what remains fits into the new hash part, with the key that is about to be inserted. Hence one level of rehashing is enough,
  and the setters succeed unless the table holds more than \<open>2^26\<close> pairs.
\<close>

section \<open>Bins\<close>

definition nbin :: "nat \<Rightarrow> nat" where "nbin i = int_bin (of_nat i)"

lemma max_asize: "LJ_MAX_ASIZE = 2 ^ 27 + 1"
  by (simp add: LJ_MAX_ASIZE_def LJ_MAX_ABITS_def)

lemma nbin_le:
  assumes "i < LJ_MAX_ASIZE"
  shows "nbin i \<le> b \<longleftrightarrow> i < 2 * 2 ^ b + 1"
proof -
  have u: "unat (of_nat i :: u32) = i" using assms by (intro unat_of_small) (simp add: max_asize)
  then have s: "sint (of_nat i :: u32) = int i" using sint_of_small [of "of_nat i :: u32"] assms by (simp add: max_asize)
  show ?thesis
  proof (cases "i \<le> 2")
    case True
    then have "nbin i = 0" using s by (simp add: nbin_def int_bin_def)
    moreover have "(1::nat) \<le> 2 ^ b" by simp
    ultimately show ?thesis using True by linarith
  next
    case False
    have "(of_nat i :: u32) - 1 = of_nat (i - 1)" using False by (simp add: of_nat_diff)
    then have u1: "unat ((of_nat i :: u32) - 1) = i - 1" using assms by (simp only:) (intro unat_of_small, simp add: max_asize)
    then have nz: "(of_nat i :: u32) - 1 \<noteq> 0" using False by (metis diff_is_0_eq nat_le_linear numeral_2_eq_2 one_le_numeral order_trans unsigned_0)
    define e where "e = unat (lj_fls ((of_nat i :: u32) - 1))"
    have e: "2 ^ e \<le> i - 1" "i - 1 < 2 * 2 ^ e" using lj_fls_bounds(1,2) [OF nz] by (simp_all add: e_def u1)
    have nb: "nbin i = e" using False s by (simp add: nbin_def int_bin_def e_def)
    show ?thesis unfolding nb
    proof
      assume "e \<le> b"
      then have "(2::nat) ^ e \<le> 2 ^ b" by (intro power_increasing) simp_all
      then show "i < 2 * 2 ^ b + 1" using e(2) by linarith
    next
      assume "i < 2 * 2 ^ b + 1"
      then have "(2::nat) ^ e < 2 ^ Suc b" using e(1) False by simp
      then show "e \<le> b" by (metis less_Suc_eq_le nat_power_less_imp_less zero_less_numeral)
    qed
  qed
qed

lemma nbin_max: "i < LJ_MAX_ASIZE \<Longrightarrow> nbin i \<le> 26"
  using nbin_le [of i 26] by (simp add: max_asize)

definition bins_of :: "nat list \<Rightarrow> nat list" where
  "bins_of S = map (\<lambda>b. length (filter (\<lambda>i. nbin i = b) S)) [0..<LJ_MAX_ABITS]"

lemma bins_of_Nil: "bins_of [] = replicate LJ_MAX_ABITS 0"
  by (simp add: bins_of_def map_replicate_const)

lemma bins_of_append:
  assumes "\<And>i. i \<in> set T \<Longrightarrow> nbin i = b" "b < LJ_MAX_ABITS"
  shows "bins_of (S @ T) = (bins_of S)[b := bins_of S ! b + length T]"
proof (rule nth_equalityI)
  fix c assume c: "c < length (bins_of (S @ T))"
  have "filter (\<lambda>i. nbin i = c) T = (if c = b then T else [])" using assms(1) by (auto simp: filter_empty_conv intro!: filter_True)
  then show "bins_of (S @ T) ! c = (bins_of S)[b := bins_of S ! b + length T] ! c" using c assms(2) by (simp add: bins_of_def nth_list_update)
qed (simp add: bins_of_def)

section \<open>Counting\<close>

definition cint :: "u64 \<Rightarrow> bool" where
  "cint k \<longleftrightarrow> tvisnum k \<and> unat (lj_num2int k) < LJ_MAX_ASIZE \<and> num_eq k (num_of_int (lj_num2int k))"

definition kidx :: "u64 \<Rightarrow> nat" where "kidx k = unat (lj_num2int k)"

definition key_ints :: "u64 \<Rightarrow> nat list" where "key_ints k = (if cint k then [kidx k] else [])"

lemma countint_bins: "countint k (bins_of S) = Inr (length (key_ints k), bins_of (S @ key_ints k))"
proof (cases "cint k")
  case True
  then have i: "kidx k < LJ_MAX_ASIZE" by (simp add: cint_def kidx_def)
  have nb: "nbin (kidx k) = int_bin (lj_num2int k)" by (simp add: nbin_def kidx_def)
  then have b: "int_bin (lj_num2int k) < LJ_MAX_ABITS" using nbin_max [OF i] by (simp add: LJ_MAX_ABITS_def)
  then have "aget (bins_of S) (int_bin (lj_num2int k)) = Some (bins_of S ! int_bin (lj_num2int k))" by (simp add: bins_of_def)
  moreover have "bins_of (S @ [kidx k]) = (bins_of S)[int_bin (lj_num2int k) := bins_of S ! int_bin (lj_num2int k) + length [kidx k]]"
    by (rule bins_of_append) (use nb b in auto)
  ultimately show ?thesis using True by (simp add: countint_def Let_def key_ints_def cint_def)
qed (auto simp: countint_def Let_def key_ints_def cint_def)

lemma counthash_loop_bins:
  "counthash_loop ns (bins_of S) c na =
     Inr (c + length (filter (\<lambda>n. n_val n \<noteq> - 1) ns), na + length (concat (map (\<lambda>n. key_ints (n_key n)) (filter (\<lambda>n. n_val n \<noteq> - 1) ns))),
       bins_of (S @ concat (map (\<lambda>n. key_ints (n_key n)) (filter (\<lambda>n. n_val n \<noteq> - 1) ns))))"
  by (induction ns arbitrary: S c na) (simp_all add: tvisnil_def countint_bins)

definition live_idx :: "u64 list \<Rightarrow> nat \<Rightarrow> nat \<Rightarrow> nat list" where
  "live_idx arr i j = filter (\<lambda>n. arr ! n \<noteq> - 1) [i..<j]"

lemma live_idx_vals: "j \<le> length arr \<Longrightarrow> length (live_idx arr i j) = live_vals (take (j - i) (drop i arr))"
proof -
  assume "j \<le> length arr"
  then have "take (j - i) (drop i arr) = map (\<lambda>n. arr ! n) [i..<j]" by (intro nth_equalityI) auto
  then show ?thesis by (simp add: live_idx_def live_vals_def filter_map o_def)
qed

lemma live_idx_split: "i \<le> j \<Longrightarrow> j \<le> k \<Longrightarrow> live_idx arr i k = live_idx arr i j @ live_idx arr j k"
proof -
  assume "i \<le> j" "j \<le> k"
  then have "[i..<k] = [i..<j] @ [j..<k]" using upt_add_eq_append [of i j "k - j"] by simp
  then show ?thesis by (simp add: live_idx_def)
qed

lemma seg_count:
  assumes "tp < length arr" "i \<le> length arr"
  shows "length (filter (\<lambda>v. \<not> tvisnil v) (take (Suc tp - i) (drop i arr))) = length (live_idx arr i (max i (Suc tp)))"
proof (cases "Suc tp \<le> i")
  case True
  then show ?thesis by (simp add: live_idx_def max_def)
next
  case False
  then have m: "max i (Suc tp) = Suc tp" by simp
  show ?thesis unfolding m using live_idx_vals [of "Suc tp" arr i] assms(1) by (simp add: live_vals_def tvisnil_def)
qed

text \<open>The indices of one bin.\<close>

lemma bin_range:
  assumes "n < LJ_MAX_ASIZE" "n \<le> 2 * 2 ^ b" "b \<noteq> 0 \<Longrightarrow> 2 ^ b + 1 \<le> n"
  shows "nbin n = b"
proof (cases b)
  case 0
  then show ?thesis using nbin_le [OF assms(1), of 0] assms(2) by simp
next
  case (Suc c)
  have "nbin n \<le> b" using nbin_le [OF assms(1), of b] assms(2) by simp
  moreover have "\<not> nbin n \<le> c" using nbin_le [OF assms(1), of c] assms(3) Suc by simp
  ultimately show ?thesis using Suc by linarith
qed

lemma countarray_loop_bins:
  assumes "length arr \<le> LJ_MAX_ASIZE" "arr \<noteq> []" "b + m = LJ_MAX_ABITS" "i \<le> length arr"
    and "i = length arr \<or> i = (if b = 0 then 0 else 2 ^ b + 1)"
  shows "countarray_loop arr m i (length (live_idx arr 0 i)) (bins_of (live_idx arr 0 i)) = (live_vals arr, bins_of (live_idx arr 0 (length arr)))"
  using assms(3-)
proof (induction m arbitrary: b i)
  case 0
  then have "i = length arr" using assms(1) by (auto simp: LJ_MAX_ABITS_def max_asize)
  then show ?case using live_idx_vals [of "length arr" arr 0] by simp
next
  case (Suc m)
  define tp where "tp = 2 * (2::nat) ^ b"
  define tp' where "tp' = (if tp \<ge> length arr then length arr - 1 else tp)"
  have bb: "LJ_MAX_ABITS - Suc m = b" "b < LJ_MAX_ABITS" using Suc.prems(1) by simp_all
  have step: "countarray_loop arr (Suc m) i na bins =
      (if tp \<ge> length arr \<and> i > length arr - 1 then (na, bins)
       else countarray_loop arr m (max i (Suc tp')) (na + length (filter (\<lambda>v. \<not> tvisnil v) (take (Suc tp' - i) (drop i arr))))
         (bins[b := bins ! b + length (filter (\<lambda>v. \<not> tvisnil v) (take (Suc tp' - i) (drop i arr)))]))" for na bins
    unfolding tp'_def tp_def by (simp add: Let_def bb)
  show ?case
  proof (cases "tp \<ge> length arr \<and> i > length arr - 1")
    case True
    then have "i = length arr" using assms(2) Suc.prems(2) by auto
    then show ?thesis unfolding step using True live_idx_vals [of "length arr" arr 0] by simp
  next
    case False
    define j where "j = max i (Suc tp')"
    have "length arr > 0" using assms(2) by simp
    then have tl: "tp' < length arr" by (auto simp: tp'_def)
    have jl: "i \<le> j" "j \<le> length arr" using Suc.prems(2) tl by (auto simp: j_def)
    have new: "length (filter (\<lambda>v. \<not> tvisnil v) (take (Suc tp' - i) (drop i arr))) = length (live_idx arr i j)"
      unfolding j_def by (rule seg_count [OF tl Suc.prems(2)])
    have bin: "nbin n = b" if n: "n \<in> set (live_idx arr i j)" for n
    proof (rule bin_range)
      have n': "i \<le> n" "n < j" using n by (auto simp: live_idx_def)
      then have "n \<le> tp'" by (auto simp: j_def)
      then show "n \<le> 2 * 2 ^ b" by (auto simp: tp'_def tp_def split: if_splits)
      show "n < LJ_MAX_ASIZE" using n' jl assms(1) by simp
      show "2 ^ b + 1 \<le> n" if "b \<noteq> 0" using that Suc.prems(3) n' jl by auto
    qed
    have sp: "live_idx arr 0 j = live_idx arr 0 i @ live_idx arr i j" by (rule live_idx_split) (use jl in simp_all)
    have bins: "bins_of (live_idx arr 0 j) = (bins_of (live_idx arr 0 i))[b := bins_of (live_idx arr 0 i) ! b + length (live_idx arr i j)]"
      unfolding sp by (rule bins_of_append [OF bin bb(2)])
    have pw: "(2::nat) ^ b \<le> 2 ^ Suc b" by simp
    have "j = length arr \<or> j = 2 ^ Suc b + 1"
    proof (cases "tp \<ge> length arr")
      case True
      then show ?thesis using Suc.prems(2) \<open>length arr > 0\<close> by (simp add: j_def tp'_def max_def)
    next
      case F: False
      then have "tp' = tp" by (simp add: tp'_def)
      then show ?thesis using Suc.prems(3) pw F unfolding j_def tp_def by (auto simp: max_def)
    qed
    then have "countarray_loop arr m j (length (live_idx arr 0 j)) (bins_of (live_idx arr 0 j)) = (live_vals arr, bins_of (live_idx arr 0 (length arr)))"
      using Suc.IH [of "Suc b" j] Suc.prems(1) jl by simp
    moreover have "length (live_idx arr 0 j) = length (live_idx arr 0 i) + length (live_idx arr i j)" by (simp add: sp)
    ultimately show ?thesis unfolding step if_not_P [OF False] new j_def [symmetric] bins [symmetric] by simp
  qed
qed

lemma countarray_bins:
  assumes "asize t \<le> LJ_MAX_ASIZE"
  shows "countarray t (bins_of []) = (live_vals (t_array t), bins_of (live_idx (t_array t) 0 (asize t)))"
proof (cases "t_array t = []")
  case True
  then show ?thesis by (simp add: countarray_def asize_def live_vals_def live_idx_def)
next
  case False
  then show ?thesis using countarray_loop_bins [of "t_array t" 0 LJ_MAX_ABITS 0] assms
    by (simp add: countarray_def asize_def live_idx_def)
qed

section \<open>The best array size\<close>

lemma filter_less_Suc: "length (filter (\<lambda>i. nbin i < Suc b) S) = length (filter (\<lambda>i. nbin i < b) S) + length (filter (\<lambda>i. nbin i = b) S)"
  by (induction S) (auto simp: less_Suc_eq)

lemma bestasize_loop_ok:
  assumes S: "\<And>i. i \<in> set S \<Longrightarrow> i < LJ_MAX_ASIZE" and acc: "acc = length (filter (\<lambda>i. nbin i < b) S)"
    and good: "na = length (filter (\<lambda>i. i < sz) S)" "sz \<le> LJ_MAX_ASIZE"
  shows "\<exists>sz'. bestasize_loop (bins_of S) (length S) b acc na sz = Some (length (filter (\<lambda>i. i < sz') S), sz') \<and> sz' \<le> LJ_MAX_ASIZE"
  using acc good
proof (induction "length S - acc + (27 - b)" arbitrary: b acc na sz rule: less_induct)
  case less
  show ?case
  proof (cases "2 * length S > 2 ^ b \<and> acc \<noteq> length S")
    case False
    then show ?thesis using less.prems by (subst bestasize_loop.simps) (simp only: if_False, blast)
  next
    case True
    have b: "b < 27"
    proof (rule ccontr)
      assume "\<not> b < 27"
      then have "nbin i < b" if "i \<in> set S" for i using nbin_max [OF S [OF that]] by simp
      then have "filter (\<lambda>i. nbin i < b) S = S" by (simp add: filter_id_conv)
      then show False using True less.prems(1) by simp
    qed
    define c where "c = bins_of S ! b"
    have c: "c = length (filter (\<lambda>i. nbin i = b) S)" using b by (simp add: c_def bins_of_def LJ_MAX_ABITS_def)
    have get: "aget (bins_of S) b = Some c" using b by (simp add: c_def bins_of_def LJ_MAX_ABITS_def)
    have acc': "acc + c = length (filter (\<lambda>i. nbin i < Suc b) S)" using less.prems(1) c filter_less_Suc by simp
    have le: "acc + c \<le> length S" unfolding acc' by simp
    have in_sz: "acc + c = length (filter (\<lambda>i. i < 2 * 2 ^ b + 1) S)"
    proof -
      have "nbin i < Suc b \<longleftrightarrow> i < 2 * 2 ^ b + 1" if "i \<in> set S" for i using nbin_le [OF S [OF that], of b] by (simp add: less_Suc_eq_le)
      then show ?thesis unfolding acc' using filter_cong [of S S "\<lambda>i. nbin i < Suc b" "\<lambda>i. i < 2 * 2 ^ b + 1"] by simp
    qed
    have szb: "2 * 2 ^ b + 1 \<le> LJ_MAX_ASIZE"
    proof -
      have "(2::nat) ^ b \<le> 2 ^ 26" using b by (intro power_increasing) simp_all
      then show ?thesis by (simp add: max_asize)
    qed
    have dec: "length S - (acc + c) + (27 - Suc b) < length S - acc + (27 - b)" using b by simp
    have unf: "bestasize_loop (bins_of S) (length S) b acc na sz =
        (if c > 0 then (if 2 * (acc + c) > 2 ^ b then bestasize_loop (bins_of S) (length S) (Suc b) (acc + c) (acc + c) (2 * 2 ^ b + 1)
           else bestasize_loop (bins_of S) (length S) (Suc b) (acc + c) na sz) else bestasize_loop (bins_of S) (length S) (Suc b) acc na sz)"
      by (subst bestasize_loop.simps) (simp only: get True if_True option.case simp_thms)
    note IH1 = less.hyps [OF dec acc' in_sz szb] and IH2 = less.hyps [OF dec acc' less.prems(2,3)]
    show ?thesis
    proof (cases "c > 0")
      case T: True
      show ?thesis unfolding unf if_P [OF T] by (cases "2 * (acc + c) > 2 ^ b") (use IH1 IH2 in \<open>simp_all only: if_True if_False\<close>)
    next
      case F: False
      then show ?thesis unfolding unf using IH2 by (simp only: if_False) simp
    qed
  qed
qed

lemma bestasize_ok:
  assumes "\<And>i. i \<in> set S \<Longrightarrow> i < LJ_MAX_ASIZE"
  shows "\<exists>sz. bestasize (bins_of S) (length S) = Some (length (filter (\<lambda>i. i < sz) S), sz) \<and> sz \<le> LJ_MAX_ASIZE"
  unfolding bestasize_def by (rule bestasize_loop_ok [OF assms]) simp_all

section \<open>Rehashing\<close>

lemma hsize2hbits_fits:
  assumes c: "c < 2 ^ 32"
  shows "c \<le> (if hsize2hbits (of_nat c) = 0 then 0 else 2 ^ hsize2hbits (of_nat c))" "hsize2hbits (of_nat c) > LJ_MAX_HBITS \<Longrightarrow> c > 2 ^ 26"
proof -
  have u: "unat (of_nat c :: u32) = c" by (rule unat_of_small [OF c])
  have z: "(of_nat c :: u32) = 0 \<longleftrightarrow> c = 0" "(of_nat c :: u32) = 1 \<longleftrightarrow> c = 1"
    using u unat_of_small [of 0] unat_of_small [of 1] by (auto simp: word_unat_eq_iff)
  consider "c \<le> 1" | "c > 1" by linarith
  then have "c \<le> (if hsize2hbits (of_nat c) = 0 then 0 else 2 ^ hsize2hbits (of_nat c)) \<and> (hsize2hbits (of_nat c) > LJ_MAX_HBITS \<longrightarrow> c > 2 ^ 26)"
  proof cases
    case 1
    then show ?thesis using z by (cases "c = 0") (auto simp: hsize2hbits_def LJ_MAX_HBITS_def)
  next
    case 2
    have "(of_nat c :: u32) - 1 = of_nat (c - 1)" using 2 by (simp add: of_nat_diff)
    then have u1: "unat ((of_nat c :: u32) - 1) = c - 1" using c by (simp only:) (intro unat_of_small, simp)
    then have "(of_nat c :: u32) - 1 \<noteq> 0" using 2 by (metis diff_is_0_eq not_less unsigned_0)
    note B = lj_fls_bounds(1,2) [OF this, unfolded u1]
    define e where "e = unat (lj_fls ((of_nat c :: u32) - 1))"
    have e: "2 ^ e \<le> c - 1" "c - 1 < 2 * 2 ^ e" using B by (simp_all add: e_def)
    have hb: "hsize2hbits (of_nat c) = Suc e" using 2 z by (simp add: hsize2hbits_def e_def)
    have "2 ^ 26 < c" if "Suc e > LJ_MAX_HBITS"
    proof -
      have "(2::nat) ^ 26 \<le> 2 ^ e" using that by (intro power_increasing) (simp_all add: LJ_MAX_HBITS_def)
      then show ?thesis using e(1) 2 by linarith
    qed
    then show ?thesis using e(2) unfolding hb by auto
  qed
  then show "c \<le> (if hsize2hbits (of_nat c) = 0 then 0 else 2 ^ hsize2hbits (of_nat c))" "hsize2hbits (of_nat c) > LJ_MAX_HBITS \<Longrightarrow> c > 2 ^ 26" by blast+
qed

lemma key_ints_less:
  assumes "key_ok k" "sz \<le> LJ_MAX_ASIZE"
  shows "length (filter (\<lambda>i. i < sz) (key_ints k)) = (if \<exists>i. ckey k = num_of_int i \<and> unat i < sz then 1 else 0)"
proof (cases "\<exists>i. ckey k = num_of_int i")
  case True
  then obtain i where i: "ckey k = num_of_int i" by blast
  note n = int_num [OF i]
  have "key_ints k = (if unat i < LJ_MAX_ASIZE then [unat i] else [])" using n i by (simp add: key_ints_def cint_def kidx_def num_eq_int)
  then show ?thesis using i assms(2) by auto
next
  case False
  then have "key_ints k = []" by (auto simp: key_ints_def cint_def num_eq_int)
  then show ?thesis using False by auto
qed

lemma ints_nodes:
  assumes "\<And>n. n \<in> set ns \<Longrightarrow> n_val n \<noteq> - 1 \<Longrightarrow> node_key (n_key n)" "sz \<le> LJ_MAX_ASIZE"
  shows "length (filter (\<lambda>i. i < sz) (concat (map (\<lambda>n. key_ints (n_key n)) (filter (\<lambda>n. n_val n \<noteq> - 1) ns)))) + hash_nodes sz ns =
    length (filter (\<lambda>n. n_val n \<noteq> - 1) ns)"
  using assms(1)
proof (induction ns)
  case (Cons n ns)
  have IH: "length (filter (\<lambda>i. i < sz) (concat (map (\<lambda>n. key_ints (n_key n)) (filter (\<lambda>n. n_val n \<noteq> - 1) ns)))) + hash_nodes sz ns =
    length (filter (\<lambda>n. n_val n \<noteq> - 1) ns)" using Cons.IH Cons.prems by simp
  show ?case
  proof (cases "n_val n = - 1")
    case True
    then show ?thesis using IH by (simp add: hash_nodes_def)
  next
    case False
    then have k: "key_ok (n_key n)" "ckey (n_key n) = n_key n" using Cons.prems by (auto simp: node_key_def)
    have hn: "hash_nodes sz (n # ns) = (if \<exists>i. n_key n = num_of_int i \<and> unat i < sz then 0 else 1) + hash_nodes sz ns"
      using False unfolding hash_nodes_def by auto
    show ?thesis using IH False key_ints_less [OF k(1) assms(2)] unfolding hn k(2) by simp
  qed
qed (simp add: hash_nodes_def)

lemma ints_array: "length (filter (\<lambda>i. i < sz) (live_idx arr 0 (length arr))) + live_vals (drop sz arr) = live_vals arr"
proof -
  let ?m = "min sz (length arr)"
  have "filter (\<lambda>i. i < sz) (live_idx arr 0 (length arr)) = live_idx arr 0 ?m"
  proof -
    have "live_idx arr 0 (length arr) = live_idx arr 0 ?m @ live_idx arr ?m (length arr)" by (rule live_idx_split) simp_all
    moreover have "filter (\<lambda>i. i < sz) (live_idx arr 0 ?m) = live_idx arr 0 ?m" by (rule filter_True) (simp add: live_idx_def)
    moreover have "filter (\<lambda>i. i < sz) (live_idx arr ?m (length arr)) = []" by (auto simp: live_idx_def filter_empty_conv min_def split: if_splits)
    ultimately show ?thesis by simp
  qed
  moreover have "length (live_idx arr 0 ?m) = live_vals (take sz arr)" using live_idx_vals [of ?m arr 0] by (simp add: min_def live_vals_def)
  moreover have "live_vals (take sz arr) + live_vals (drop sz arr) = live_vals arr"
    unfolding live_vals_def by (metis append_take_drop_id filter_append length_append)
  ultimately show ?thesis by simp
qed

definition tab_live :: "gctab \<Rightarrow> nat" where
  "tab_live t = live_vals (t_array t) + length (filter (\<lambda>n. n_val n \<noteq> - 1) (t_node t))"

lemma rehashtab_sizes:
  assumes w: "tab_wf sh t" and ek: "key_ok ek \<or> ek = - 1"
  shows "\<exists>sz c. rehashtab sh nk t ek = tab_resize sh nk t sz (hsize2hbits (of_nat c)) \<and> sz \<le> LJ_MAX_ASIZE \<and> c \<le> Suc (tab_live t) \<and> c < 2 ^ 32 \<and>
    live_vals (drop sz (t_array t)) + hash_nodes sz (t_node t) + (if ek = - 1 \<or> (\<exists>i. ckey ek = num_of_int i \<and> unat i < sz) then 0 else 1) \<le> c"
proof -
  have h: "hpart_ok sh t" and at: "asize t \<le> LJ_MAX_ASIZE" using w by (simp_all add: tab_wf_def)
  have nk: "\<And>n. n \<in> set (t_node t) \<Longrightarrow> n_val n \<noteq> - 1 \<Longrightarrow> node_key (n_key n)" using h unfolding hpart_ok_def by blast
  define S1 where "S1 = live_idx (t_array t) 0 (asize t)"
  define S2 where "S2 = concat (map (\<lambda>n. key_ints (n_key n)) (filter (\<lambda>n. n_val n \<noteq> - 1) (t_node t)))"
  define S where "S = (S1 @ S2) @ key_ints ek"
  define hn where "hn = length (filter (\<lambda>n. n_val n \<noteq> - 1) (t_node t))"
  have l1: "length S1 = live_vals (t_array t)" using live_idx_vals [of "asize t" "t_array t" 0] by (simp add: S1_def asize_def)
  have ca: "countarray t (replicate LJ_MAX_ABITS 0) = (length S1, bins_of S1)" using countarray_bins [OF at] l1 by (simp add: bins_of_Nil S1_def)
  have ch: "counthash t (bins_of S1) (length S1) = Inr (hn, length (S1 @ S2), bins_of (S1 @ S2))"
    by (simp add: counthash_def counthash_loop_bins S2_def hn_def)
  have S: "i < LJ_MAX_ASIZE" if "i \<in> set S" for i
    using that at by (auto simp: S_def S1_def S2_def live_idx_def key_ints_def cint_def kidx_def split: if_splits)
  obtain sz where sz: "bestasize (bins_of S) (length S) = Some (length (filter (\<lambda>i. i < sz) S), sz)" "sz \<le> LJ_MAX_ASIZE" using bestasize_ok [OF S] by blast
  define c where "c = 1 + length S1 + hn - length (filter (\<lambda>i. i < sz) S)"
  have lS: "length S1 + length S2 + length (key_ints ek) = length S" by (simp add: S_def)
  have re: "rehashtab sh nk t ek = tab_resize sh nk t sz (hsize2hbits (of_nat c))"
    unfolding rehashtab_def Let_def ca using sz(1) by (simp add: ch countint_bins S_def [symmetric] c_def lS del: append_assoc)
  have e3: "length (filter (\<lambda>i. i < sz) (key_ints ek)) = (if ek = - 1 then 0 else if \<exists>i. ckey ek = num_of_int i \<and> unat i < sz then 1 else 0)"
  proof (cases "ek = - 1")
    case False
    then have "key_ok ek" using ek by simp
    then show ?thesis unfolding key_ints_less [OF \<open>key_ok ek\<close> sz(2)] using False by simp
  qed (simp add: key_ints_def cint_def)
  have fS: "length (filter (\<lambda>i. i < sz) S) = length (filter (\<lambda>i. i < sz) S1) + length (filter (\<lambda>i. i < sz) S2) + length (filter (\<lambda>i. i < sz) (key_ints ek))"
    by (simp add: S_def)
  have a: "length (filter (\<lambda>i. i < sz) S1) + live_vals (drop sz (t_array t)) = length S1"
    using ints_array [of sz "t_array t"] l1 by (simp add: S1_def asize_def)
  have b: "length (filter (\<lambda>i. i < sz) S2) + hash_nodes sz (t_node t) = hn" unfolding S2_def hn_def by (rule ints_nodes [OF nk sz(2)])
  have need: "live_vals (drop sz (t_array t)) + hash_nodes sz (t_node t) + (if ek = - 1 \<or> (\<exists>i. ckey ek = num_of_int i \<and> unat i < sz) then 0 else 1) \<le> c"
    using a b e3 unfolding c_def fS by (auto split: if_splits)
  have cl: "c \<le> Suc (tab_live t)" unfolding c_def tab_live_def hn_def [symmetric] l1 by simp
  have "live_vals (t_array t) \<le> asize t" by (simp add: live_vals_def asize_def)
  moreover have "hn \<le> 2 ^ 26"
  proof -
    obtain b where "b \<le> LJ_MAX_HBITS" "length (t_node t) = 2 ^ b" using h unfolding hpart_ok_def by metis
    then have "length (t_node t) \<le> 2 ^ 26" using power_increasing [of b 26 "2::nat"] by (simp add: LJ_MAX_HBITS_def)
    then show ?thesis unfolding hn_def by (rule order_trans [OF length_filter_le])
  qed
  ultimately have "c < 2 ^ 32" using cl at unfolding tab_live_def hn_def [symmetric] by (simp add: max_asize)
  then show ?thesis using re sz(2) cl need by blast
qed

lemma rehashtab_ok:
  assumes w: "tab_wf sh t" and ek: "key_ok ek \<or> ek = - 1"
  shows "rehashtab sh (newkey sh d) t ek = Inl LJ_ERR_TABOV \<and> 2 ^ 26 \<le> tab_live t \<or>
    (\<exists>t'. rehashtab sh (newkey sh d) t ek = Inr t' \<and> tab_wf sh t' \<and> tab_map t' = tab_map t \<and> (key_ok ek \<longrightarrow> arr_index t' ek = None \<longrightarrow> room 1 t'))"
proof -
  obtain sz c where sz: "rehashtab sh (newkey sh d) t ek = tab_resize sh (newkey sh d) t sz (hsize2hbits (of_nat c))" "sz \<le> LJ_MAX_ASIZE" "c \<le> Suc (tab_live t)" "c < 2 ^ 32"
    and need: "live_vals (drop sz (t_array t)) + hash_nodes sz (t_node t) + (if ek = - 1 \<or> (\<exists>i. ckey ek = num_of_int i \<and> unat i < sz) then 0 else 1) \<le> c"
    using rehashtab_sizes [OF w ek] by blast
  note F = hsize2hbits_fits [OF sz(4)]
  show ?thesis
  proof (cases "hsize2hbits (of_nat c) > LJ_MAX_HBITS")
    case True
    then have "hsize2hbits (of_nat c) \<noteq> 0" by simp
    then have "tab_resize sh (newkey sh d) t sz (hsize2hbits (of_nat c)) = Inl LJ_ERR_TABOV"
      using tab_resize_steps [OF w] sz(2) True by (simp add: fresh_hpart_def newhpart_def)
    moreover have "2 ^ 26 \<le> tab_live t" using F(2) [OF True] sz(3) by linarith
    ultimately show ?thesis using sz(1) by simp
  next
    case False
    then have hb: "hsize2hbits (of_nat c) \<le> LJ_MAX_HBITS" by simp
    have "live_vals (drop sz (t_array t)) + hash_nodes sz (t_node t) + (if ek = - 1 \<or> (\<exists>i. ckey ek = num_of_int i \<and> unat i < sz) then 0 else 1) \<le> (if hsize2hbits (of_nat c) = 0 then 0 else 2 ^ hsize2hbits (of_nat c))"
      using need F(1) by (rule order_trans)
    from tab_resize_ok [OF w sz(2) hb this, of d]
    obtain t' where t': "tab_resize sh (newkey sh d) t sz (hsize2hbits (of_nat c)) = Inr t'" "tab_wf sh t'" "room (if ek = - 1 \<or> (\<exists>i. ckey ek = num_of_int i \<and> unat i < sz) then 0 else 1) t'" "asize t' = sz" "tab_map t' = tab_map t" by blast
    have "room 1 t'" if "key_ok ek" "arr_index t' ek = None"
      using t'(3,4) that by (auto simp: arr_index_None inarray_def split: if_splits)
    then show ?thesis using t' sz(1) by auto
  qed
qed

text \<open>Inserting with a rehash: the locale's contract without the condition on room.\<close>

interpretation any_inserter: key_inserter sh "newkey sh (Suc d)" "\<lambda>_ _. True" "\<lambda>t. 2 ^ 26 \<le> tab_live t" for sh d
proof
  show "newkey sh (Suc d) t k = Inl LJ_ERR_TABOV \<and> 2 ^ 26 \<le> tab_live t \<or> (\<exists>s t'. newkey sh (Suc d) t k = Inr (s, t') \<and> set_ok sh t k s t' \<and> True)"
    if w: "tab_wf sh t" and k: "key_ok k" "arr_index t k = None" "\<And>i. i < length (t_node t) \<Longrightarrow> kyt (t_node t) i \<noteq> ckey k" for t k
  proof -
    have h: "hpart_ok sh t" using w by (simp add: tab_wf_def)
    consider j t' where "newkey_insert sh t k = Inr (Some (NSlot j, t'))" "inserted sh t k j t'" | "newkey_insert sh t k = Inr None"
      using newkey_insert_spec [OF h k(1,3)] by blast
    then show ?thesis
    proof cases
      case 1
      then show ?thesis using inserted_set_ok [OF w 1(2) k(1,2)] by (auto simp: newkey_step_def)
    next
      case 2
      then have e: "newkey sh (Suc d) t k = bindE (rehashtab sh (newkey sh d) t k) (\<lambda>t. tab_set sh (newkey sh d) t k)" by (simp add: newkey_step_def)
      have "rehashtab sh (newkey sh d) t k = Inl LJ_ERR_TABOV \<and> 2 ^ 26 \<le> tab_live t \<or>
        (\<exists>t1. rehashtab sh (newkey sh d) t k = Inr t1 \<and> tab_wf sh t1 \<and> tab_map t1 = tab_map t \<and> (arr_index t1 k = None \<longrightarrow> room 1 t1))"
        using rehashtab_ok [OF w disjI1 [OF k(1)], of d] k(1) by simp
      then show ?thesis
      proof (elim disjE exE)
        assume "rehashtab sh (newkey sh d) t k = Inl LJ_ERR_TABOV \<and> 2 ^ 26 \<le> tab_live t"
        then show ?thesis using e by simp
      next
        fix t1 assume "rehashtab sh (newkey sh d) t k = Inr t1 \<and> tab_wf sh t1 \<and> tab_map t1 = tab_map t \<and> (arr_index t1 k = None \<longrightarrow> room 1 t1)"
        then have 2: "rehashtab sh (newkey sh d) t k = Inr t1" "tab_wf sh t1" "tab_map t1 = tab_map t" "arr_index t1 k = None \<longrightarrow> room 1 t1" by simp_all
        have "\<exists>s t'. tab_set sh (newkey sh d) t1 k = Inr (s, t') \<and> set_ok sh t1 k s t'"
        proof (cases "arr_index t1 k")
          case None
          then have "room (Suc 0) t1 \<and> asize t1 = asize t1" using 2(4) by simp
          then show ?thesis using room_inserter.tab_set_ok [OF 2(2) _ k(1)] unfolding room_inserter.set_res_def by blast
        next
          case (Some i)
          then show ?thesis using tab_set_array [OF Some k(1)] 2(2) by (simp add: set_ok_def)
        qed
        then obtain s t' where st: "tab_set sh (newkey sh d) t1 k = Inr (s, t')" "set_ok sh t1 k s t'" by blast
        moreover have "set_ok sh t k s t'" using st(2) 2(3) unfolding set_ok_def tab_map_eq by simp
        ultimately show ?thesis using e 2(1) by simp
      qed
    qed
  qed
qed (simp_all add: tab_live_def)

end
