(* ===== verification/Tab_Map.thy ===== *)
theory Tab_Map
  imports Tab_Rehash
begin

text \<open>
  Tables as maps. Every operation that creates or changes a table yields a well-formed one, and a lookup returns what was last stored under a
  key that Lua takes for equal, whatever was inserted, overwritten, set to nil or rehashed in between.
\<close>

lemma of_nat_unat_self: "of_nat (unat w) = (w :: u32)"
  by simp

section \<open>Creating, clearing and copying\<close>

lemma fresh_map:
  assumes "\<And>i. i < asize t \<Longrightarrow> t_array t ! i = - 1"
    and "tab_map t = (\<lambda>k. case arr_index t k of Some i \<Rightarrow> if node_key k then t_array t ! i else - 1 | None \<Rightarrow> - 1)"
  shows "tab_map t = (\<lambda>_. - 1)"
proof
  fix k
  show "tab_map t k = - 1" using assms arr_index_less [of t k] unfolding assms(2) by (auto simp: asize_def split: option.split)
qed

lemma hmask_pos: "hbits \<le> LJ_MAX_HBITS \<Longrightarrow> (of_nat (2 ^ hbits - 1) :: u32) > 0 \<longleftrightarrow> hbits \<noteq> 0"
proof -
  assume "hbits \<le> LJ_MAX_HBITS"
  then have "(2::nat) ^ hbits \<le> 2 ^ 26" by (intro power_increasing) (simp_all add: LJ_MAX_HBITS_def)
  then have "unat (of_nat (2 ^ hbits - 1) :: u32) = 2 ^ hbits - 1" by (intro unat_of_small) simp
  moreover have "(2::nat) ^ hbits - 1 = 0 \<longleftrightarrow> hbits = 0" using one_less_power [of "2::nat" hbits] by (cases "hbits = 0") auto
  ultimately show ?thesis by (metis unsigned_0 word_neq_0_conv word_unat_eq_iff)
qed

lemma lj_tab_new_ok:
  assumes n: "lj_tab_new as hbits = Inr t"
  shows "tab_wf sh t" "tab_map t = (\<lambda>_. - 1)"
proof -
  have b: "as \<le> LJ_MAX_ASIZE" "hbits \<le> LJ_MAX_HBITS"
    using n by (auto simp: lj_tab_new_def newtab_def newhpart_def LJ_MAX_COLOSIZE_def max_asize split: if_splits)
  have t: "length (t_node t) = 2 ^ hbits" "\<forall>n \<in> set (t_node t). n = nilnode" "t_hmask t = of_nat (2 ^ hbits - 1)"
      "t_freetop t = (if hbits = 0 then 0 else 2 ^ hbits)" "t_array t = replicate as (- 1)"
    using n b hmask_pos [OF b(2)]
    by (auto simp: lj_tab_new_def newtab_def newhpart_def clearapart_def clearhpart_def nilnode_def rawnode_def Let_def map_replicate_const split: if_splits)
  have as: "asize t \<le> LJ_MAX_ASIZE" using t(5) b(1) by (simp add: asize_def)
  note F = fresh_table [OF b(2) as t(1,2) refl t(3,4)]
  show "tab_wf sh t" by (rule F(1))
  show "tab_map t = (\<lambda>_. - 1)" by (rule fresh_map [OF _ F(2)]) (use t(5) in \<open>simp add: asize_def\<close>)
qed

lemma lj_tab_new1_new: "lj_tab_new1 ahsize = lj_tab_new (unat (ahsize AND 0xffffff)) (unat (drop_bit 24 ahsize))"
  by (simp add: lj_tab_new1_def lj_tab_new_def)

lemma lj_tab_clear_ok:
  assumes w: "tab_wf sh t"
  shows "tab_wf sh (lj_tab_clear t)" "tab_map (lj_tab_clear t) = (\<lambda>_. - 1)"
proof -
  let ?t = "lj_tab_clear t"
  obtain b where b: "b \<le> LJ_MAX_HBITS" "unat (t_hmask t) + 1 = 2 ^ b" and l: "length (t_node t) = unat (t_hmask t) + 1"
    using w unfolding tab_wf_def hpart_ok_def by blast
  have "unat (t_hmask t) = 2 ^ b - 1" using b(2) by simp
  then have hm: "t_hmask t = of_nat (2 ^ b - 1)" by (metis of_nat_unat_self)
  have z: "t_node t = [nilnode] \<and> t_freetop t = 0" if "t_hmask t = 0" using w that by (simp add: tab_wf_def hpart_ok_def)
  have bz: "t_hmask t > 0 \<longleftrightarrow> b \<noteq> 0" using hmask_pos [OF b(1)] hm by simp
  have nodes: "length (t_node ?t) = 2 ^ b" "\<forall>n \<in> set (t_node ?t). n = nilnode" "t_hmask ?t = of_nat (2 ^ b - 1)"
      "t_freetop ?t = (if b = 0 then 0 else 2 ^ b)" "t_array ?t = replicate (asize t) (- 1)"
    using l b(2) z bz hm by (auto simp: lj_tab_clear_def clearapart_def clearhpart_def Let_def nilnode_def map_replicate_const asize_def word_neq_0_conv)
  have as: "asize ?t \<le> LJ_MAX_ASIZE" using nodes(5) w by (simp add: asize_def tab_wf_def)
  note F = fresh_table [OF b(1) as nodes(1,2) refl nodes(3,4)]
  show "tab_wf sh ?t" by (rule F(1))
  show "tab_map ?t = (\<lambda>_. - 1)" by (rule fresh_map [OF _ F(2)]) (use nodes(5) in \<open>simp add: asize_def\<close>)
qed

lemma lj_tab_dup_ok:
  assumes w: "tab_wf sh t" and d: "lj_tab_dup t = Inr t'"
  shows "tab_wf sh t'" "tab_map t' = tab_map t"
proof -
  obtain b where b: "b \<le> LJ_MAX_HBITS" "unat (t_hmask t) + 1 = 2 ^ b" and l: "length (t_node t) = unat (t_hmask t) + 1"
    using w unfolding tab_wf_def hpart_ok_def by blast
  have "unat (t_hmask t) = 2 ^ b - 1" using b(2) by simp
  then have hm: "t_hmask t = of_nat (2 ^ b - 1)" by (metis of_nat_unat_self)
  have bz: "t_hmask t > 0 \<longleftrightarrow> b \<noteq> 0" using hmask_pos [OF b(1)] hm by simp
  have z: "t_node t = [nilnode] \<and> t_freetop t = 0" if "t_hmask t = 0" using w that by (simp add: tab_wf_def hpart_ok_def)
  have fls: "unat (lj_fls (t_hmask t)) + 1 = b" if "t_hmask t > 0"
  proof -
    define e where "e = unat (lj_fls (t_hmask t))"
    have "t_hmask t \<noteq> 0" using that by auto
    then have e: "2 ^ e \<le> unat (t_hmask t)" "unat (t_hmask t) < 2 ^ Suc e" using lj_fls_bounds by (simp_all add: e_def)
    have "(2::nat) ^ e < 2 ^ b" "(2::nat) ^ b \<le> 2 ^ Suc e" using e b(2) by linarith+
    then have "e < b" "b \<le> Suc e" by (simp_all only: power_strict_increasing_iff power_increasing_iff one_less_numeral_iff semiring_norm)
    then show ?thesis by (simp add: e_def)
  qed
  have arr: "map (\<lambda>i. t_array t ! i) [0..<asize t] = t_array t" by (simp add: asize_def map_nth)
  have nds: "map (\<lambda>i. t_node t ! i) [0..<unat (t_hmask t) + 1] = t_node t" using l by (metis map_nth)
  have e: "t_node t' = t_node t" "t_hmask t' = t_hmask t" "t_freetop t' = t_freetop t" "t_array t' = t_array t"
    using d fls bz z hm nds arr unfolding lj_tab_dup_def
    by (auto simp: newtab_def newhpart_def Let_def word_neq_0_conv split: if_splits)
  then have ar: "asize t' = asize t" "inarray t' = inarray t" by (simp_all add: asize_def inarray_def fun_eq_iff)
  then have ai: "arr_index t' = arr_index t" by (simp add: arr_index_def fun_eq_iff)
  show "tab_wf sh t'" using w unfolding tab_wf_def hpart_ok_def e ar .
  show "tab_map t' = tab_map t" unfolding tab_map_def tab_value_def e ai ..
qed

section \<open>Lookup\<close>

definition tab_lookup :: "(u64 \<Rightarrow> u32) \<Rightarrow> gctab \<Rightarrow> u64 \<Rightarrow> tab_err + u64" where
  "tab_lookup sh t k = bindE (lj_tab_get sh t k) (\<lambda>r. Inr (get_value t r))"

lemma tab_lookup_map:
  assumes w: "tab_wf sh t" and k: "tv_ok k"
  shows "tab_lookup sh t k = Inr (if key_ok k then tab_map t (ckey k) else niltv)"
proof -
  have h: "hpart_ok sh t" using w by (simp add: tab_wf_def)
  obtain r where r: "lj_tab_get sh t k = Inr r" "got t k r" using lj_tab_get_spec [OF h k] by blast
  have "get_value t r = (if key_ok k then tab_map t (ckey k) else niltv)"
  proof (cases r)
    case None
    then show ?thesis using r(2) node_key_ckey by (auto simp: got_def get_value_def niltv_def tab_map_def)
  next
    case (Some s)
    then have "key_ok k" "slot_for t k s" using r(2) by (simp_all add: got_def)
    then show ?thesis using slot_read_value [OF h] Some node_key_ckey by (simp add: get_value_def tab_map_def)
  qed
  then show ?thesis using r(1) by (simp add: tab_lookup_def)
qed

lemma lj_tab_set_spec:
  assumes w: "tab_wf sh t" and k: "tv_ok k"
  shows "lj_tab_set sh t k = (if tvisnil k then Inl LJ_ERR_NILIDX else Inl LJ_ERR_NANIDX) \<and> \<not> key_ok k \<or>
    lj_tab_set sh t k = Inl LJ_ERR_TABOV \<and> key_ok k \<and> 2 ^ 26 \<le> tab_live t \<or>
    (\<exists>s t'. lj_tab_set sh t k = Inr (s, t') \<and> key_ok k \<and> (\<forall>v. tab_wf sh (slot_store t' s v) \<and> tab_map (slot_store t' s v) = (tab_map t)(ckey k := v)))"
proof (cases "key_ok k")
  case True
  have "any_inserter.set_res sh t 0 k (tab_set sh (newkey sh (Suc 0)) t k)" by (rule any_inserter.tab_set_ok [OF w _ True]) simp
  then have r: "any_inserter.set_res sh t 0 k (lj_tab_set sh t k)" by (simp add: lj_tab_set_def lj_tab_newkey_def)
  have "tab_wf sh (slot_store t' s v) \<and> tab_map (slot_store t' s v) = (tab_map t)(ckey k := v)" if "set_ok sh t k s t'" for s t' v
    using slot_store_wf [of sh t' k s v] slot_store_map [of sh t' k s v] set_ok_map [OF that] that True by (simp add: set_ok_def)
  then show ?thesis using r True unfolding any_inserter.set_res_def by blast
next
  case False
  show ?thesis
  proof (cases "tvisnil k")
    case True
    then have "k = - 1" by (simp add: tvisnil_def)
    then show ?thesis using True False by (simp add: lj_tab_set_def tab_set_def Let_def)
  next
    case nn: False
    then have n: "tvisnum k" "num_isnan k" using False k by (auto simp: key_ok_def)
    have "\<not> tvisstr k" using n(1) str_not_num by blast
    then show ?thesis using n nn False by (simp add: lj_tab_set_def tab_set_def Let_def num_eq_def tvisnan_def)
  qed
qed

lemma setstrV_key: "a < 2 ^ 47 \<Longrightarrow> key_ok (setstrV a) \<and> tv_ok (setstrV a) \<and> ckey (setstrV a) = setstrV a"
proof -
  assume "a < 2 ^ 47"
  then have s: "tvisstr (setstrV a)" by (rule setstrV_parts)
  have "\<not> tvispri (setstrV a)" using s by (simp add: tvisstr_def tvispri_def tag_defs)
  then have "tv_ok (setstrV a)" by (simp add: tv_ok_def)
  then show ?thesis using s str_not_num(2) tvisstr_ckey by blast
qed

section \<open>Tables refine maps\<close>

text \<open>A table and the map it stands for, through any sequence of operations. A resize is asked for with a hash part that is large enough, as
  all callers do.\<close>

inductive table_run :: "(u64 \<Rightarrow> u32) \<Rightarrow> gctab \<Rightarrow> (u64 \<Rightarrow> u64) \<Rightarrow> bool" for sh where
  run_new: "lj_tab_new as hbits = Inr t \<Longrightarrow> table_run sh t (\<lambda>_. niltv)"
| run_new_ah: "lj_tab_new_ah a h = Inr t \<Longrightarrow> table_run sh t (\<lambda>_. niltv)"
| run_new1: "lj_tab_new1 ahsize = Inr t \<Longrightarrow> table_run sh t (\<lambda>_. niltv)"
| run_set: "table_run sh t m \<Longrightarrow> tv_ok k \<Longrightarrow> lj_tab_set sh t k = Inr (s, t') \<Longrightarrow> table_run sh (slot_store t' s v) (m(ckey k := v))"
| run_clear: "table_run sh t m \<Longrightarrow> table_run sh (lj_tab_clear t) (\<lambda>_. niltv)"
| run_dup: "table_run sh t m \<Longrightarrow> lj_tab_dup t = Inr t' \<Longrightarrow> table_run sh t' m"
| run_rehash: "table_run sh t m \<Longrightarrow> lj_tab_rehash sh t = Inr t' \<Longrightarrow> table_run sh t' m"
| run_resize: "table_run sh t m \<Longrightarrow> as \<le> LJ_MAX_ASIZE \<Longrightarrow> hbits \<le> LJ_MAX_HBITS \<Longrightarrow>
    live_vals (drop as (t_array t)) + hash_nodes as (t_node t) \<le> (if hbits = 0 then 0 else 2 ^ hbits) \<Longrightarrow>
    lj_tab_resize sh t as hbits = Inr t' \<Longrightarrow> table_run sh t' m"

lemma table_run_map: "table_run sh t m \<Longrightarrow> tab_wf sh t \<and> tab_map t = m"
proof (induction rule: table_run.induct)
  case (run_set t m k s t' v)
  then show ?case using lj_tab_set_spec [of sh t k] by (auto split: if_splits)
next
  case (run_rehash t m t')
  then show ?case using rehashtab_ok [of sh t "- 1" 1] by (auto simp: lj_tab_rehash_def lj_tab_newkey_def niltv_def)
next
  case (run_resize t m as hbits t')
  then show ?case using tab_resize_ok [of sh t as hbits 0 1] by (auto simp: lj_tab_resize_def lj_tab_newkey_def)
qed (use lj_tab_new_ok lj_tab_clear_ok lj_tab_dup_ok in \<open>auto simp: niltv_def lj_tab_new1_new lj_tab_new_ah_def\<close>)

text \<open>C2: Tables are maps. After any sequence of creations, stores, clears, copies, rehashes and resizes, a lookup terminates without touching
  memory outside the table, and returns the value last stored under a key that Lua takes for equal (zero and negative zero are equal), or
  nil when there is none or the key is nil or NaN.\<close>

theorem tables_are_maps:
  assumes "table_run sh t m" and "tv_ok k"
  shows "tab_lookup sh t k = Inr (if key_ok k then m (ckey k) else niltv)"
  using table_run_map [OF assms(1)] tab_lookup_map [OF _ assms(2)] by simp

definition tab_example :: gctab where
  "tab_example = \<lparr>t_nomm = - 1, t_colo = 2, t_array = [- 1, - 1], t_node = [nilnode, nilnode], t_hmask = 1, t_freetop = 2\<rparr>"

lemma tab_example_new: "lj_tab_new 2 1 = Inr tab_example"
  by (simp add: lj_tab_new_def newtab_def newhpart_def clearapart_def clearhpart_def tab_example_def LJ_MAX_COLOSIZE_def LJ_MAX_HBITS_def rawnode_def nilnode_def
      numeral_2_eq_2 Let_def)

lemma tab_example_set: "lj_tab_set sh tab_example (num_of_int 1) = Inr (ASlot 1, tab_example\<lparr>t_nomm := 0\<rparr>)"
proof -
  have "arr_index tab_example (num_of_int 1) = Some 1" by (auto simp: arr_index_iff inarray_def asize_def tab_example_def intro!: exI [of _ 1])
  moreover have "key_ok (num_of_int 1)" using node_key_num_of_int(1) node_key_def by blast
  ultimately show ?thesis unfolding lj_tab_set_def by (rule tab_set_array)
qed

lemma int_tv_ok: "tv_ok (num_of_int i)" "key_ok (num_of_int i)"
  using node_key_num_of_int(1) [of i] by (simp_all add: node_key_def key_ok_def)

theorem tables_are_maps_witness:
  "tab_lookup (\<lambda>_. 0) (slot_store (tab_example\<lparr>t_nomm := 0\<rparr>) (ASlot 1) 7) (num_of_int 1) = Inr 7"
proof -
  have "table_run (\<lambda>_. 0) (slot_store (tab_example\<lparr>t_nomm := 0\<rparr>) (ASlot 1) 7) ((\<lambda>_. niltv)(ckey (num_of_int 1) := 7))"
    by (rule run_set [OF run_new [OF tab_example_new] int_tv_ok(1) tab_example_set])
  from tables_are_maps [OF this int_tv_ok(1)] show ?thesis by (simp add: int_tv_ok)
qed

text \<open>C38: Storing into a table never fails for lack of fuel or by a stray access, although it may move nodes, rehash and resize: for every key the result is a
  slot, or the error for a nil key, the error for a NaN, or a table overflow; and an overflow is reported only by a table
  with at least \<open>2^26\<close> pairs.\<close>

theorem lj_tab_set_total:
  assumes "table_run sh t m" and "tv_ok k"
  shows "if tvisnil k then lj_tab_set sh t k = Inl LJ_ERR_NILIDX
    else if tvisnum k \<and> num_isnan k then lj_tab_set sh t k = Inl LJ_ERR_NANIDX
    else (\<exists>s t'. lj_tab_set sh t k = Inr (s, t')) \<or> lj_tab_set sh t k = Inl LJ_ERR_TABOV \<and> 2 ^ 26 \<le> tab_live t"
  using lj_tab_set_spec [of sh t k] table_run_map [OF assms(1)] assms(2) by (auto simp: key_ok_def)

theorem lj_tab_set_total_witness:
  "(\<exists>s t'. lj_tab_set (\<lambda>_. 0) tab_example (num_of_int 99) = Inr (s, t')) \<and> lj_tab_set (\<lambda>_. 0) tab_example niltv = Inl LJ_ERR_NILIDX"
proof -
  have "tab_live tab_example = 0" by (simp add: tab_live_def live_vals_def tab_example_def nilnode_def)
  moreover have "\<not> tvisnil (num_of_int 99)" by (simp add: tvisnil_def)
  moreover have "tv_ok niltv" "tvisnil niltv" by (simp_all add: tv_ok_def niltv_def tvisnil_def)
  ultimately show ?thesis
    using lj_tab_set_total [OF run_new [OF tab_example_new] int_tv_ok(1), of 99 "\<lambda>_. 0"] lj_tab_set_total [OF run_new [OF tab_example_new], of niltv "\<lambda>_. 0"] by simp
qed

end
