(* ===== verification/Tab_Iter.thy ===== *)
theory Tab_Iter
  imports Tab_Map
begin

text \<open>
  Traversal and length of tables (the end of \<^verbatim>\<open>lj_tab.c\<close>). A traversal that starts at nil and follows \<open>lj_tab_next\<close> visits every pair
  exactly once; the length operator returns a border.
\<close>

section \<open>Traversal\<close>

definition NO_INDEX :: nat where "NO_INDEX = 2 ^ 32 - 1"

definition lj_tab_keyindex :: "(u64 \<Rightarrow> u32) \<Rightarrow> gctab \<Rightarrow> u64 \<Rightarrow> tab_err + nat" where
  "lj_tab_keyindex sh t key =
     (let k = lj_num2int key
      in if tvisnum key \<and> unat k < asize t \<and> num_eq key (num_of_int k) then Inr (unat k + 1)
         else if \<not> tvisnil key then
           bindE (tab_find t (\<lambda>nk. lj_obj_equal nk key) (hashkey sh (t_hmask t) key))
             (\<lambda>r. case r of
                Some n \<Rightarrow> Inr (asize t + (n + 1))
              | None \<Rightarrow> if u32_hi key = LJ_KEYINDEX then Inr (unat (u32_lo key)) else Inr NO_INDEX)
         else Inr 0)"

datatype tab_next = NEXT u64 u64 | NEXT_END | NEXT_INVALID

text \<open>The two loops of \<^verbatim>\<open>lj_tab_next\<close>: the first index from \<open>idx\<close> on with a value.\<close>

definition next_array :: "gctab \<Rightarrow> nat \<Rightarrow> nat option" where
  "next_array t idx = find (\<lambda>i. \<not> tvisnil (t_array t ! i)) [idx..<asize t]"

definition next_node :: "gctab \<Rightarrow> nat \<Rightarrow> nat option" where
  "next_node t idx = find (\<lambda>i. \<not> tvisnil (n_val (t_node t ! i))) [idx..<unat (t_hmask t) + 1]"

definition lj_tab_next :: "(u64 \<Rightarrow> u32) \<Rightarrow> gctab \<Rightarrow> u64 \<Rightarrow> tab_err + tab_next" where
  "lj_tab_next sh t key =
     bindE (lj_tab_keyindex sh t key)
       (\<lambda>idx. case next_array t idx of
          Some i \<Rightarrow> Inr (NEXT (num_of_int (of_nat i)) (t_array t ! i))
        | None \<Rightarrow>
            (let idx = max idx (asize t) - asize t
             in case next_node t idx of
                  Some i \<Rightarrow> Inr (NEXT (n_key (t_node t ! i)) (n_val (t_node t ! i)))
                | None \<Rightarrow> if max idx (unat (t_hmask t) + 1) \<ge> 2 ^ 31 then Inr NEXT_INVALID else Inr NEXT_END))"

section \<open>Length\<close>

text \<open>The test \<^verbatim>\<open>(tv = lj_tab_getint(t, (int32_t)i)) && !tvisnil(tv)\<close>.\<close>

definition has_int :: "gctab \<Rightarrow> nat \<Rightarrow> tab_err + bool" where
  "has_int t i =
     bindE (lj_tab_getint t (of_nat i)) (\<lambda>r. Inr (case r of None \<Rightarrow> False | Some s \<Rightarrow> \<not> tvisnil (slot_read t s)))"

fun len_linear :: "gctab \<Rightarrow> nat \<Rightarrow> nat \<Rightarrow> tab_err + nat" where
  "len_linear t 0 lo = Inl TAB_LOOP"
| "len_linear t (Suc fuel) lo = bindE (has_int t lo) (\<lambda>b. if b then len_linear t fuel (lo + 1) else Inr (lo - 1))"

function len_binary :: "(nat \<Rightarrow> tab_err + bool) \<Rightarrow> nat \<Rightarrow> nat \<Rightarrow> tab_err + nat" where
  "len_binary has lo hi =
     (if hi - lo > 1 then
        (let mid = (lo + hi) div 2
         in bindE (has mid) (\<lambda>b. if b then len_binary has mid hi else len_binary has lo mid))
      else Inr lo)"
  by pat_completeness auto
termination
  by (relation "measure (\<lambda>(has, lo, hi). hi - lo)") (auto simp: bindE_def)

text \<open>The widening search: \<open>Inr (Inl n)\<close> is the result of the linear search it punts to.\<close>

fun len_widen :: "gctab \<Rightarrow> nat \<Rightarrow> nat \<Rightarrow> nat \<Rightarrow> tab_err + (nat + nat \<times> nat)" where
  "len_widen t 0 lo hi = Inl TAB_LOOP"
| "len_widen t (Suc fuel) lo hi =
     bindE (has_int t hi)
       (\<lambda>b. if b then
              (if hi + hi > 2 ^ 31 - 1 - 2 then bindE (len_linear t (2 ^ 28) 1) (\<lambda>n. Inr (Inl n))
               else len_widen t fuel hi (hi + hi))
            else Inr (Inr (lo, hi)))"

definition tab_len_slow :: "gctab \<Rightarrow> nat \<Rightarrow> tab_err + nat" where
  "tab_len_slow t hi =
     bindE (len_widen t 32 hi (hi + 1))
       (\<lambda>r. case r of Inl n \<Rightarrow> Inr n | Inr (lo, hi) \<Rightarrow> len_binary (has_int t) lo hi)"

definition lj_tab_len :: "gctab \<Rightarrow> tab_err + nat" where
  "lj_tab_len t =
     (let hi = (if asize t > 0 then asize t - 1 else 0)
      in if hi > 0 \<and> tvisnil (t_array t ! hi)
         then len_binary (\<lambda>i. Inr (\<not> tvisnil (t_array t ! i))) 0 hi
         else if t_hmask t \<noteq> 0 then tab_len_slow t hi else Inr hi)"

definition lj_tab_len_hint :: "gctab \<Rightarrow> u64 \<Rightarrow> tab_err + nat" where
  "lj_tab_len_hint t hint =
     (if unat (hint + 1) < asize t then
        (case (aget (t_array t) (unat hint), aget (t_array t) (unat (hint + 1))) of
           (Some v, Some v') \<Rightarrow> if \<not> tvisnil v \<and> tvisnil v' then Inr (unat hint) else lj_tab_len t
         | _ \<Rightarrow> Inl TAB_FAULT)
      else if unat (hint + 1) \<le> asize t \<and> t_hmask t = 0 then
        (case aget (t_array t) (unat hint) of
           Some v \<Rightarrow> if \<not> tvisnil v then Inr (unat hint) else lj_tab_len t
         | None \<Rightarrow> Inl TAB_FAULT)
      else lj_tab_len t)"

section \<open>A traversal visits every pair once\<close>

text \<open>The traversal index \<open>p\<close> of a pair, as the comment above \<^verbatim>\<open>lj_tab_keyindex\<close> numbers them.\<close>

definition pos_pair :: "gctab \<Rightarrow> nat \<Rightarrow> u64 \<times> u64" where
  "pos_pair t p =
     (if p < asize t then (num_of_int (of_nat p), t_array t ! p)
      else (n_key (t_node t ! (p - asize t)), n_val (t_node t ! (p - asize t))))"

definition pos_live :: "gctab \<Rightarrow> nat \<Rightarrow> bool" where "pos_live t p \<longleftrightarrow> snd (pos_pair t p) \<noteq> - 1"

definition positions :: "gctab \<Rightarrow> nat" where "positions t = asize t + length (t_node t)"

lemma find_append: "find P (xs @ ys) = (case find P xs of Some x \<Rightarrow> Some x | None \<Rightarrow> find P ys)"
  by (induction xs) auto

lemma find_map: "find P (map f xs) = map_option f (find (\<lambda>x. P (f x)) xs)"
  by (induction xs) auto

lemma find_upt_shift: "find P [a + i..<a + n] = map_option (\<lambda>j. a + j) (find (\<lambda>j. P (a + j)) [i..<n])"
proof -
  have "[a + i..<a + n] = map (\<lambda>j. a + j) [i..<n]" by (rule nth_equalityI) simp_all
  then show ?thesis by (simp add: find_map)
qed

lemma find_cong_set: "(\<And>x. x \<in> set xs \<Longrightarrow> P x = Q x) \<Longrightarrow> find P xs = find Q xs"
  by (induction xs) auto

lemma wf_bounds:
  assumes "tab_wf sh t"
  shows "asize t \<le> 2 ^ 27 + 1" "length (t_node t) \<le> 2 ^ 26" "length (t_node t) = unat (t_hmask t) + 1" "0 < length (t_node t)"
proof -
  obtain b where b: "b \<le> LJ_MAX_HBITS" "unat (t_hmask t) + 1 = 2 ^ b" and l: "length (t_node t) = unat (t_hmask t) + 1"
    using assms unfolding tab_wf_def hpart_ok_def by blast
  show "length (t_node t) = unat (t_hmask t) + 1" "0 < length (t_node t)" using l by simp_all
  have "(2::nat) ^ b \<le> 2 ^ 26" using b(1) by (intro power_increasing) (simp_all add: LJ_MAX_HBITS_def)
  then show "length (t_node t) \<le> 2 ^ 26" using l b(2) by simp
  show "asize t \<le> 2 ^ 27 + 1" using assms by (simp add: tab_wf_def LJ_MAX_ASIZE_def LJ_MAX_ABITS_def)
qed

lemma lj_tab_next_find:
  assumes w: "tab_wf sh t" and i: "lj_tab_keyindex sh t key = Inr idx" "idx \<le> positions t"
  shows "lj_tab_next sh t key = Inr (case find (pos_live t) [idx..<positions t] of Some p \<Rightarrow> NEXT (fst (pos_pair t p)) (snd (pos_pair t p)) | None \<Rightarrow> NEXT_END)"
proof -
  note B = wf_bounds [OF w]
  let ?a = "asize t" and ?N = "length (t_node t)" and ?j = "max idx (asize t) - asize t"
  have arr: "next_array t idx = find (pos_live t) [idx..<?a]"
    unfolding next_array_def by (rule find_cong_set) (simp add: pos_live_def pos_pair_def tvisnil_def)
  have nds: "map_option (\<lambda>j. ?a + j) (next_node t ?j) = find (pos_live t) [?a + ?j..<?a + ?N]"
    unfolding find_upt_shift next_node_def B(3) by (rule arg_cong [where f = "map_option _"], rule find_cong_set) (simp add: pos_live_def pos_pair_def tvisnil_def)
  have "[idx..<positions t] = [idx..<?a] @ [?a + ?j..<?a + ?N]"
    using upt_add_eq_append [of idx ?a ?N] by (cases "idx \<le> ?a") (simp_all add: positions_def)
  then have f: "find (pos_live t) [idx..<positions t] =
      (case next_array t idx of Some i \<Rightarrow> Some i | None \<Rightarrow> map_option (\<lambda>j. ?a + j) (next_node t ?j))"
    by (simp only: find_append arr nds)
  have small: "\<not> 2 ^ 31 \<le> max ?j (unat (t_hmask t) + 1)" using i(2) B by (simp add: positions_def)
  show ?thesis
  proof (cases "next_array t idx")
    case (Some p)
    then have "p < ?a" by (auto simp: next_array_def find_Some_iff)
    then show ?thesis using i(1) Some f by (simp add: lj_tab_next_def pos_pair_def)
  next
    case None
    then show ?thesis using i(1) f small by (auto simp: lj_tab_next_def Let_def pos_pair_def split: option.split)
  qed
qed

lemma node_at: "tab_wf sh t \<Longrightarrow> j < length (t_node t) \<Longrightarrow> n_val (t_node t ! j) \<noteq> - 1 \<Longrightarrow>
    node_key (n_key (t_node t ! j)) \<and> arr_index t (n_key (t_node t ! j)) = None"
proof -
  assume w: "tab_wf sh t" and j: "j < length (t_node t)" "n_val (t_node t ! j) \<noteq> - 1"
  have m: "t_node t ! j \<in> set (t_node t)" using j(1) by simp
  then have k: "node_key (n_key (t_node t ! j))" using w j(2) unfolding tab_wf_def hpart_ok_def by blast
  then show ?thesis using w m unfolding tab_wf_def arr_index_None by simp
qed

lemma keyindex_pos:
  assumes w: "tab_wf sh t" and p: "p < positions t" "pos_live t p"
  shows "lj_tab_keyindex sh t (fst (pos_pair t p)) = Inr (Suc p)" "node_key (fst (pos_pair t p))" "tab_map t (fst (pos_pair t p)) = snd (pos_pair t p)"
proof -
  note B = wf_bounds [OF w]
  have h: "hpart_ok sh t" using w by (simp add: tab_wf_def)
  let ?k = "fst (pos_pair t p)"
  have "lj_tab_keyindex sh t ?k = Inr (Suc p) \<and> node_key ?k \<and> tab_map t ?k = snd (pos_pair t p)"
  proof (cases "p < asize t")
    case True
    then have u: "unat (of_nat p :: u32) = p" using B(1) by (intro unat_of_small) simp
    then have "arr_index t (num_of_int (of_nat p)) = Some p" using True by (auto simp: arr_index_iff inarray_def)
    then show ?thesis using True u by (simp add: pos_pair_def lj_tab_keyindex_def num_eq_def tab_map_def tab_value_def)
  next
    case False
    let ?j = "p - asize t"
    have j: "?j < length (t_node t)" "n_val (t_node t ! ?j) \<noteq> - 1" using p False by (auto simp: positions_def pos_live_def pos_pair_def)
    note K = node_at [OF w j]
    have k: "?k = kyt (t_node t) ?j" using False by (simp add: pos_pair_def kyt_def)
    then have nk: "node_key ?k" "arr_index t ?k = None" using K by (simp_all add: kyt_def)
    have kk: "key_ok ?k" "tv_ok ?k" "\<not> tvisnil ?k" "ckey ?k = ?k" using nk(1) by (auto simp: node_key_def key_ok_def)
    obtain i where i: "i < length (t_node t)" "kyt (t_node t) i = ?k" "tab_find t (\<lambda>nk. lj_obj_equal nk ?k) (hashkey sh (t_hmask t) ?k) = Inr (Some i)"
      using find_generic [OF h kk(2,3)] kk(1,4) k j(1) by metis
    have "i = ?j" using hpart_keys [OF h] i(1,2) j(1) k nk(1) unfolding keys_ok_def by (metis node_key_nil(1))
    moreover have "\<not> (tvisnum ?k \<and> unat (lj_num2int ?k) < asize t \<and> num_eq ?k (num_of_int (lj_num2int ?k)))"
      using nk(2) by (auto simp: arr_index_def inarray_def Let_def split: if_splits)
    moreover have "tab_map t ?k = n_val (t_node t ! ?j)"
      using nk node_value_at [OF hpart_keys [OF h] j(1) k [symmetric]] kk(4) by (simp add: tab_map_def tab_value_def) (metis node_key_nil(1))
    ultimately show ?thesis using i(3) kk(3) False nk(1) by (auto simp: lj_tab_keyindex_def Let_def pos_pair_def)
  qed
  then show "lj_tab_keyindex sh t ?k = Inr (Suc p)" "node_key ?k" "tab_map t ?k = snd (pos_pair t p)" by blast+
qed

text \<open>The loop of a client: \<^verbatim>\<open>for k, v in next, t\<close>.\<close>

fun traverse :: "(u64 \<Rightarrow> u32) \<Rightarrow> gctab \<Rightarrow> nat \<Rightarrow> u64 \<Rightarrow> tab_err + (u64 \<times> u64) list" where
  "traverse sh t 0 key = Inl TAB_LOOP"
| "traverse sh t (Suc fuel) key =
     bindE (lj_tab_next sh t key)
       (\<lambda>r. case r of
          NEXT k v \<Rightarrow> bindE (traverse sh t fuel k) (\<lambda>ps. Inr ((k, v) # ps))
        | NEXT_END \<Rightarrow> Inr []
        | NEXT_INVALID \<Rightarrow> Inl TAB_FAULT)"

lemma find_filter: "find P [i..<n] = Some p \<Longrightarrow> filter P [i..<n] = p # filter P [Suc p..<n] \<and> i \<le> p \<and> p < n \<and> P p"
proof (induction "n - i" arbitrary: i)
  case (Suc m)
  then have "[i..<n] = i # [Suc i..<n]" "m = n - Suc i" "i < n" by (simp_all add: upt_conv_Cons)
  then show ?case using Suc.hyps(1) [of "Suc i"] Suc.prems by (auto split: if_splits)
qed simp

lemma traverse_from:
  assumes w: "tab_wf sh t" and "lj_tab_keyindex sh t key = Inr idx" "idx \<le> positions t" "length (filter (pos_live t) [idx..<positions t]) < fuel"
  shows "traverse sh t fuel key = Inr (map (pos_pair t) (filter (pos_live t) [idx..<positions t]))"
  using assms(2-)
proof (induction fuel arbitrary: key idx)
  case (Suc fuel)
  show ?case
  proof (cases "find (pos_live t) [idx..<positions t]")
    case None
    then have "filter (pos_live t) [idx..<positions t] = []" by (auto simp: find_None_iff filter_empty_conv)
    then show ?thesis using lj_tab_next_find [OF w Suc.prems(1,2)] None by simp
  next
    case (Some p)
    note F = find_filter [OF Some]
    have p: "p < positions t" "pos_live t p" using F by simp_all
    have "traverse sh t fuel (fst (pos_pair t p)) = Inr (map (pos_pair t) (filter (pos_live t) [Suc p..<positions t]))"
      by (rule Suc.IH [OF keyindex_pos(1) [OF w p]]) (use p(1) F Suc.prems(3) in simp_all)
    then show ?thesis using lj_tab_next_find [OF w Suc.prems(1,2)] Some F by simp
  qed
qed simp

lemma pos_of_key:
  assumes w: "tab_wf sh t" and k: "tab_map t k \<noteq> - 1"
  shows "\<exists>p<positions t. pos_live t p \<and> pos_pair t p = (k, tab_map t k)"
proof -
  have h: "hpart_ok sh t" using w by (simp add: tab_wf_def)
  have nk: "node_key k" using k by (simp add: tab_map_def split: if_splits)
  show ?thesis
  proof (cases "arr_index t k")
    case (Some i)
    then have "i < asize t" "k = num_of_int (of_nat i)" using nk by (auto simp: arr_index_iff inarray_def)
    then show ?thesis using k nk Some by (intro exI [of _ i]) (simp add: positions_def pos_live_def pos_pair_def tab_map_def tab_value_def)
  next
    case None
    then have v: "tab_map t k = node_value (t_node t) k" using nk by (simp add: tab_map_def tab_value_def)
    then obtain j where j: "j < length (t_node t)" "kyt (t_node t) j = k" using k node_value_none by metis
    have "k \<noteq> - 1" using nk by auto
    then have "n_val (t_node t ! j) = tab_map t k" using node_value_at [OF hpart_keys [OF h] j] v by simp
    then show ?thesis using j k by (intro exI [of _ "asize t + j"]) (simp add: positions_def pos_live_def pos_pair_def kyt_def)
  qed
qed

lemma length_filter_nth: "length (filter (\<lambda>i. P (xs ! i)) [0..<length xs]) = length (filter P xs)"
proof -
  have "length (filter P xs) = length (filter P (map ((!) xs) [0..<length xs]))" by (simp only: map_nth)
  then show ?thesis by (simp add: filter_map o_def)
qed

lemma live_positions: "length (filter (pos_live t) [0..<positions t]) = tab_live t"
proof -
  let ?a = "asize t" and ?N = "length (t_node t)"
  have "[0..<positions t] = [0..<?a] @ map (\<lambda>j. ?a + j) [0..<?N]" unfolding positions_def by (rule nth_equalityI) (simp_all add: nth_append)
  moreover have "filter (pos_live t) [0..<?a] = filter (\<lambda>i. t_array t ! i \<noteq> - 1) [0..<length (t_array t)]"
    unfolding asize_def by (rule filter_cong [OF refl]) (simp add: pos_live_def pos_pair_def asize_def)
  moreover have "(\<lambda>j. pos_live t (?a + j)) = (\<lambda>j. n_val (t_node t ! j) \<noteq> - 1)" by (simp add: fun_eq_iff pos_live_def pos_pair_def)
  ultimately show ?thesis
    using length_filter_nth [of "\<lambda>v. v \<noteq> - 1" "t_array t"] length_filter_nth [of "\<lambda>n. n_val n \<noteq> - 1" "t_node t"]
    by (simp add: tab_live_def live_vals_def filter_map o_def)
qed

lemma traverse_all:
  assumes w: "tab_wf sh t"
  defines "ps \<equiv> map (pos_pair t) (filter (pos_live t) [0..<positions t])"
  shows "traverse sh t (Suc (tab_live t)) niltv = Inr ps" "distinct (map fst ps)" "set ps = {(k, tab_map t k) | k. tab_map t k \<noteq> - 1}"
proof -
  have "lj_tab_keyindex sh t niltv = Inr 0" by (simp add: lj_tab_keyindex_def niltv_def tvisnil_def Let_def)
  then show "traverse sh t (Suc (tab_live t)) niltv = Inr ps" unfolding ps_def by (rule traverse_from [OF w]) (simp_all add: live_positions)
  have "inj_on (\<lambda>p. fst (pos_pair t p)) {p. p < positions t \<and> pos_live t p}"
    by (rule inj_onI) (metis (mono_tags, lifting) keyindex_pos(1) [OF w] mem_Collect_eq Inr_inject nat.inject)
  then show "distinct (map fst ps)" unfolding ps_def by (simp add: distinct_map o_def inj_on_def)
  show "set ps = {(k, tab_map t k) | k. tab_map t k \<noteq> - 1}"
  proof (rule set_eqI)
    fix q
    have "q \<in> set ps \<longleftrightarrow> (\<exists>p<positions t. pos_live t p \<and> q = pos_pair t p)" by (auto simp: ps_def)
    also have "\<dots> \<longleftrightarrow> tab_map t (fst q) \<noteq> - 1 \<and> q = (fst q, tab_map t (fst q))"
      using keyindex_pos(3) [OF w] pos_of_key [OF w, of "fst q"] unfolding pos_live_def by (metis prod.collapse)
    finally show "q \<in> set ps \<longleftrightarrow> q \<in> {(k, tab_map t k) | k. tab_map t k \<noteq> - 1}" by (cases q) auto
  qed
qed

text \<open>C14: A traversal of a table ends. Started at nil and continued with the key of the last pair, \<open>lj_tab_next\<close> returns every pair of the table
  exactly once, in whatever order the parts of the table hold them, and then reports the end; it never reports an invalid key.\<close>

theorem lj_tab_next_traverses:
  assumes "table_run sh t m"
  shows "\<exists>ps. traverse sh t (Suc (tab_live t)) niltv = Inr ps \<and> distinct (map fst ps) \<and> set ps = {(k, m k) | k. m k \<noteq> niltv}"
  using table_run_map [OF assms] traverse_all [of sh t] by (auto simp: niltv_def)

lemma tab_example_run: "table_run (\<lambda>_. 0) (slot_store (tab_example\<lparr>t_nomm := 0\<rparr>) (ASlot 1) 7) ((\<lambda>_. niltv)(num_of_int 1 := 7))"
  using run_set [OF run_new [OF tab_example_new] int_tv_ok(1) tab_example_set] by simp

theorem lj_tab_next_traverses_witness:
  "traverse (\<lambda>_. 0) (slot_store (tab_example\<lparr>t_nomm := 0\<rparr>) (ASlot 1) 7) 2 niltv = Inr [(num_of_int 1, 7)]"
proof -
  let ?t = "slot_store (tab_example\<lparr>t_nomm := 0\<rparr>) (ASlot 1) 7"
  let ?m = "(\<lambda>_. niltv)(num_of_int 1 := 7)"
  have l: "Suc (tab_live ?t) = 2" by (simp add: tab_live_def live_vals_def tab_example_def nilnode_def)
  have "(7::u64) \<noteq> niltv" by (simp add: niltv_def)
  then have m: "{(k, ?m k) | k. ?m k \<noteq> niltv} = {(num_of_int 1, 7)}" by auto
  obtain ps where ps: "traverse (\<lambda>_. 0) ?t 2 niltv = Inr ps" "distinct (map fst ps)" "set ps = {(num_of_int 1, 7)}"
    using lj_tab_next_traverses [OF tab_example_run] unfolding l m by blast
  have "distinct ps" using ps(2) by (simp add: distinct_map)
  then have "length ps = 1" using ps(3) distinct_card [of ps] by simp
  then show ?thesis using ps(1,3) by (cases ps) auto
qed

section \<open>The length is a border\<close>

definition tab_at :: "(u64 \<Rightarrow> u64) \<Rightarrow> nat \<Rightarrow> u64" where "tab_at m i = m (num_of_int (of_nat i))"

definition border :: "(u64 \<Rightarrow> u64) \<Rightarrow> nat \<Rightarrow> bool" where
  "border m n \<longleftrightarrow> (n = 0 \<or> tab_at m n \<noteq> niltv) \<and> tab_at m (n + 1) = niltv"

lemma has_int_map:
  assumes w: "tab_wf sh t"
  shows "has_int t i = Inr (tab_at (tab_map t) i \<noteq> - 1)"
proof -
  let ?k = "num_of_int (of_nat i)"
  have h: "hpart_ok sh t" using w by (simp add: tab_wf_def)
  obtain r where r: "lj_tab_getint t (of_nat i) = Inr r" "got t ?k r" using lj_tab_getint_spec [OF h, of ?k "of_nat i"] int_tv_ok(2) by auto
  have "tab_at (tab_map t) i = tab_value t ?k" by (simp add: tab_at_def tab_map_def)
  then show ?thesis using r slot_read_value [OF h] int_tv_ok(2) by (auto simp: has_int_def got_def tvisnil_def split: option.splits)
qed

lemma tab_at_array: "tab_wf sh t \<Longrightarrow> i < asize t \<Longrightarrow> tab_at (tab_map t) i = t_array t ! i"
proof -
  assume w: "tab_wf sh t" and i: "i < asize t"
  then have "unat (of_nat i :: u32) = i" using wf_bounds(1) [OF w] by (intro unat_of_small) simp
  then have "arr_index t (num_of_int (of_nat i)) = Some i" using i by (auto simp: arr_index_iff inarray_def)
  then show ?thesis by (simp add: tab_at_def tab_map_def tab_value_def)
qed

lemma len_binary_border:
  assumes "\<And>i. lo < i \<Longrightarrow> i < hi \<Longrightarrow> has i = Inr (P i)" "lo < hi" "lo = 0 \<or> P lo" "\<not> P hi"
  shows "\<exists>n. len_binary has lo hi = Inr n \<and> (n = 0 \<or> P n) \<and> \<not> P (n + 1)"
  using assms
proof (induction "hi - lo" arbitrary: lo hi rule: less_induct)
  case less
  show ?case
  proof (cases "hi - lo > 1")
    case True
    let ?mid = "(lo + hi) div 2"
    have m: "lo < ?mid" "?mid < hi" using True by auto
    have "\<exists>n. len_binary has ?mid hi = Inr n \<and> (n = 0 \<or> P n) \<and> \<not> P (n + 1)" if "P ?mid"
      by (rule less.hyps) (use m that less.prems in auto)
    moreover have "\<exists>n. len_binary has lo ?mid = Inr n \<and> (n = 0 \<or> P n) \<and> \<not> P (n + 1)" if "\<not> P ?mid"
      by (rule less.hyps) (use m that less.prems in auto)
    moreover have "len_binary has lo hi = (if P ?mid then len_binary has ?mid hi else len_binary has lo ?mid)"
      by (subst len_binary.simps) (use True m less.prems(1) in \<open>simp add: Let_def\<close>)
    ultimately show ?thesis by simp
  next
    case False
    then have "hi = lo + 1" "len_binary has lo hi = Inr lo" using less.prems(2) by (simp_all add: len_binary.simps [of has lo hi])
    then show ?thesis using less.prems(3,4) by blast
  qed
qed

lemma has_nil: "tab_wf sh t \<Longrightarrow> \<exists>i. 1 \<le> i \<and> i < 2 ^ 28 \<and> tab_at (tab_map t) i = - 1"
proof (rule ccontr)
  assume w: "tab_wf sh t" and a: "\<nexists>i. 1 \<le> i \<and> i < 2 ^ 28 \<and> tab_at (tab_map t) i = - 1"
  let ?k = "\<lambda>i. num_of_int (of_nat i)" and ?I = "{1..<2 ^ 28 :: nat}"
  have "inj_on ?k ?I"
  proof (rule inj_onI)
    fix x y assume x: "x \<in> ?I" "y \<in> ?I" and e: "?k x = ?k y"
    have "x < 2 ^ 32" "y < 2 ^ 32" using x by simp_all
    then have u: "unat (of_nat x :: u32) = x" "unat (of_nat y :: u32) = y" by (simp_all only: unat_of_small)
    have "(of_nat x :: u32) = of_nat y" using e by (simp only: num_of_int_inj)
    then show "x = y" using u by argo
  qed
  moreover have "?k ` ?I \<subseteq> (\<lambda>p. fst (pos_pair t p)) ` {..<positions t}"
  proof
    fix k assume "k \<in> ?k ` ?I"
    then have "tab_map t k \<noteq> - 1" using a by (auto simp: tab_at_def)
    then obtain p where "p < positions t" "pos_pair t p = (k, tab_map t k)" using pos_of_key [OF w] by blast
    then show "k \<in> (\<lambda>p. fst (pos_pair t p)) ` {..<positions t}" by (intro image_eqI [of _ _ p]) simp_all
  qed
  ultimately have "card ?I \<le> card ((\<lambda>p. fst (pos_pair t p)) ` {..<positions t})"
    using card_mono [OF finite_imageI [OF finite_lessThan]] card_image by metis
  then have "2 ^ 28 - 1 \<le> positions t" using card_image_le [of "{..<positions t}" "\<lambda>p. fst (pos_pair t p)"] by simp
  moreover have "positions t \<le> 2 ^ 27 + 1 + 2 ^ 26" using wf_bounds [OF w] by (simp add: positions_def)
  ultimately show False by simp
qed

lemma len_linear_border:
  assumes w: "tab_wf sh t" and "lo \<le> i" "i < lo + fuel" "tab_at (tab_map t) i = - 1" "lo = 1 \<or> 1 < lo \<and> tab_at (tab_map t) (lo - 1) \<noteq> - 1"
  shows "\<exists>n. len_linear t fuel lo = Inr n \<and> border (tab_map t) n"
  using assms(2-)
proof (induction fuel arbitrary: lo)
  case (Suc fuel)
  show ?case
  proof (cases "tab_at (tab_map t) lo = - 1")
    case True
    then have "border (tab_map t) (lo - 1)" using Suc.prems(4) by (auto simp: border_def niltv_def)
    then show ?thesis using True has_int_map [OF w] by simp
  next
    case False
    then have "lo \<noteq> i" using Suc.prems(3) by auto
    then have "\<exists>n. len_linear t fuel (lo + 1) = Inr n \<and> border (tab_map t) n"
      using Suc.prems False by (intro Suc.IH) auto
    then show ?thesis using False has_int_map [OF w] by simp
  qed
qed simp

lemma len_widen_spec:
  assumes w: "tab_wf sh t" and "lo < hi" "hi \<le> 2 ^ 31 - 3" "2 ^ 32 \<le> hi * 2 ^ fuel" "lo = 0 \<or> tab_at (tab_map t) lo \<noteq> - 1"
  shows "(\<exists>n. len_widen t fuel lo hi = Inr (Inl n) \<and> border (tab_map t) n) \<or>
    (\<exists>lo' hi'. len_widen t fuel lo hi = Inr (Inr (lo', hi')) \<and> lo' < hi' \<and> (lo' = 0 \<or> tab_at (tab_map t) lo' \<noteq> - 1) \<and> tab_at (tab_map t) hi' = - 1)"
  using assms(2-)
proof (induction fuel arbitrary: lo hi)
  case (Suc fuel)
  let ?P = "\<lambda>i. tab_at (tab_map t) i \<noteq> - 1"
  have hi: "has_int t hi = Inr (?P hi)" by (rule has_int_map [OF w])
  consider (nil) "\<not> ?P hi" | (punt) "?P hi" "hi + hi > 2 ^ 31 - 1 - 2" | (widen) "?P hi" "hi + hi \<le> 2 ^ 31 - 1 - 2" by linarith
  then show ?case
  proof cases
    case nil
    then show ?thesis using hi Suc.prems by simp
  next
    case punt
    obtain i where "1 \<le> i" "i < 2 ^ 28" "tab_at (tab_map t) i = - 1" using has_nil [OF w] by blast
    then obtain n where "len_linear t (2 ^ 28) 1 = Inr n" "border (tab_map t) n" using len_linear_border [OF w, of 1 i "2 ^ 28"] by auto
    then show ?thesis using hi punt by simp
  next
    case widen
    have "len_widen t (Suc fuel) lo hi = len_widen t fuel hi (hi + hi)" using hi widen by simp
    moreover have "hi < hi + hi" "hi + hi \<le> 2 ^ 31 - 3" "2 ^ 32 \<le> (hi + hi) * 2 ^ fuel" using widen Suc.prems by (simp_all add: algebra_simps)
    ultimately show ?thesis using Suc.IH [of hi "hi + hi"] widen(1) by simp
  qed
qed simp

lemma tab_len_slow_border:
  assumes w: "tab_wf sh t" and hi: "hi \<le> 2 ^ 27 + 1" "hi = 0 \<or> tab_at (tab_map t) hi \<noteq> - 1"
  shows "\<exists>n. tab_len_slow t hi = Inr n \<and> border (tab_map t) n"
proof -
  have "2 ^ 32 \<le> (hi + 1) * 2 ^ 32" by simp
  then consider n where "len_widen t 32 hi (hi + 1) = Inr (Inl n)" "border (tab_map t) n"
    | lo' hi' where "len_widen t 32 hi (hi + 1) = Inr (Inr (lo', hi'))" "lo' < hi'" "lo' = 0 \<or> tab_at (tab_map t) lo' \<noteq> - 1" "tab_at (tab_map t) hi' = - 1"
    using len_widen_spec [OF w, of hi "hi + 1" 32] hi by fastforce
  then show ?thesis
  proof cases
    case 2
    then have "\<exists>n. len_binary (has_int t) lo' hi' = Inr n \<and> (n = 0 \<or> tab_at (tab_map t) n \<noteq> - 1) \<and> \<not> tab_at (tab_map t) (n + 1) \<noteq> - 1"
      by (intro len_binary_border has_int_map [OF w]) simp_all
    then show ?thesis using 2(1) by (auto simp: tab_len_slow_def border_def niltv_def)
  qed (simp add: tab_len_slow_def)
qed

lemma no_hash_nil:
  assumes w: "tab_wf sh t" and "t_hmask t = 0" "asize t \<le> i" "i < 2 ^ 32"
  shows "tab_at (tab_map t) i = - 1"
proof -
  have "t_node t = [nilnode]" using w assms(2) by (simp add: tab_wf_def hpart_ok_def)
  moreover have "arr_index t (num_of_int (of_nat i)) = None" using assms(3,4) unat_of_small [of i] by (simp add: arr_index_None inarray_def)
  ultimately show ?thesis by (simp add: tab_at_def tab_map_def tab_value_def node_value_def nilnode_def)
qed

lemma lj_tab_len_ok:
  assumes w: "tab_wf sh t"
  shows "\<exists>n. lj_tab_len t = Inr n \<and> border (tab_map t) n"
proof -
  define hi where "hi = (if asize t > 0 then asize t - 1 else 0)"
  have len: "lj_tab_len t = (if hi > 0 \<and> tvisnil (t_array t ! hi) then len_binary (\<lambda>i. Inr (\<not> tvisnil (t_array t ! i))) 0 hi
      else if t_hmask t \<noteq> 0 then tab_len_slow t hi else Inr hi)"
    unfolding lj_tab_len_def Let_def hi_def ..
  have hb: "hi \<le> 2 ^ 27 + 1" using wf_bounds(1) [OF w] by (auto simp: hi_def)
  have at: "tab_at (tab_map t) hi = t_array t ! hi" if "hi > 0" using that tab_at_array [OF w, of hi] by (simp add: hi_def split: if_splits)
  show ?thesis
  proof (cases "hi > 0 \<and> tvisnil (t_array t ! hi)")
    case True
    have "\<exists>n. len_binary (\<lambda>i. Inr (\<not> tvisnil (t_array t ! i))) 0 hi = (Inr n :: tab_err + nat) \<and> (n = 0 \<or> tab_at (tab_map t) n \<noteq> - 1) \<and> \<not> tab_at (tab_map t) (n + 1) \<noteq> - 1"
      by (rule len_binary_border) (use True at tab_at_array [OF w] in \<open>auto simp: hi_def tvisnil_def split: if_splits\<close>)
    then show ?thesis unfolding len if_P [OF True] border_def niltv_def by blast
  next
    case False
    then have nn: "hi = 0 \<or> tab_at (tab_map t) hi \<noteq> - 1" using at by (auto simp: tvisnil_def)
    have "border (tab_map t) hi" if "t_hmask t = 0"
      using nn no_hash_nil [OF w that, of "hi + 1"] hb by (simp add: border_def niltv_def hi_def split: if_splits)
    then show ?thesis unfolding len if_not_P [OF False] using tab_len_slow_border [OF w hb nn] by (cases "t_hmask t = 0") simp_all
  qed
qed

lemma lj_tab_len_hint_ok:
  assumes w: "tab_wf sh t" and "hint \<noteq> - 1"
  shows "\<exists>n. lj_tab_len_hint t hint = Inr n \<and> border (tab_map t) n"
proof -
  have "1 + hint \<noteq> 0" using assms(2) by (simp add: add_eq_0_iff)
  then have u: "unat (hint + 1) = unat hint + 1" using unatSuc [of hint] by (simp add: add.commute)
  obtain n where n: "lj_tab_len t = Inr n" "border (tab_map t) n" using lj_tab_len_ok [OF w] by blast
  have in_array: "border (tab_map t) (unat hint)"
    if "unat hint + 1 < asize t" "\<not> tvisnil (t_array t ! unat hint)" "tvisnil (t_array t ! (unat hint + 1))"
    using that tab_at_array [OF w, of "unat hint"] tab_at_array [OF w, of "unat hint + 1"] by (simp add: border_def niltv_def tvisnil_def)
  have last: "border (tab_map t) (unat hint)"
    if "unat hint + 1 = asize t" "t_hmask t = 0" "\<not> tvisnil (t_array t ! unat hint)"
    using that tab_at_array [OF w, of "unat hint"] no_hash_nil [OF w that(2), of "unat hint + 1"] wf_bounds(1) [OF w]
    by (simp add: border_def niltv_def tvisnil_def)
  consider "unat hint + 1 < asize t" | "unat hint + 1 = asize t" | "asize t < unat hint + 1" by linarith
  then show ?thesis
    by cases (use n in_array last in \<open>simp_all add: lj_tab_len_hint_def u aget_def asize_def [symmetric]\<close>)
qed

text \<open>C39: The length of a table is a border: the value at the returned index is not nil, unless the index is zero, and the value after it is nil.
  The search ends and touches no memory outside the table, whatever values the table has beyond the array part, and a
  hint is only trusted when it is a border. The hint is any number but the largest of type \<^verbatim>\<open>size_t\<close>, for which the code reads
  before the array; the trace compiler passes the index of a previous border.\<close>

theorem lj_tab_len_border:
  assumes "table_run sh t m" and "hint \<noteq> - 1"
  shows "(\<exists>n. lj_tab_len t = Inr n \<and> border m n) \<and> (\<exists>n. lj_tab_len_hint t hint = Inr n \<and> border m n)"
  using table_run_map [OF assms(1)] lj_tab_len_ok [of sh t] lj_tab_len_hint_ok [OF _ assms(2)] by blast

theorem lj_tab_len_border_witness:
  "\<exists>n. lj_tab_len (slot_store (tab_example\<lparr>t_nomm := 0\<rparr>) (ASlot 1) 7) = Inr n \<and> border ((\<lambda>_. niltv)(num_of_int 1 := 7)) n"
  using lj_tab_len_border [OF tab_example_run, of 0] by simp

end
