(* ===== verification/Spec2Isabelle.thy ===== *)
theory Spec2Isabelle
  imports Delay_Buffer Checksum Seq_Tracker Lpm Mac_Table Device_Poll Vhost_User Dma_Memory Prng Fold_Sound Strtab Strfmt_Parse Lex_String Dce Tab_Iter
begin

text \<open>
  \<^bold>\<open>The C code of HybridAccess.\<close>

  HybridAccess is a Snabb network program. Its C code has two halves: the packet-path helpers of Snabb that
  the Lua applications call through the FFI (below \<^verbatim>\<open>src/src\<close>), and RaptorJIT, the Lua virtual machine that runs
  everything (below \<^verbatim>\<open>src/lib/luajit/src\<close>). This development models the helpers but for the memory barriers, the
  prefetches and the floating-point clocks of \<^verbatim>\<open>core/lib.c\<close>, and of RaptorJIT the parts whose correctness is a matter
  of algorithms on integers, bytes and small heaps.

  \<^bold>\<open>Theories and sources.\<close> Each theory holds the state, the operations and the lemmas of one part.

  \<^item> \<open>Snabb_Prelude\<close>: machine words, bounds-checked arrays, and the lemmas on words that the others share.
  \<^item> \<open>Ring\<close>, \<open>Delay_Buffer\<close>: the packet delay line of \<^verbatim>\<open>program/hybrid_access/base/delay_buffer.c\<close>. The ring
    of packets refines a list, a locale is the contract of the queue.
  \<^item> \<open>Checksum\<close>: \<^verbatim>\<open>lib/checksum.c\<close>, the internet checksum, its incremental updates and the pseudo header.
  \<^item> \<open>Seq_Tracker\<close>: \<^verbatim>\<open>lib/ipsec/track_seq_no.c\<close>, the anti-replay window with extended sequence numbers, and its use by
    \<^verbatim>\<open>lib/ipsec/esp.lua\<close> without the resynchronisation.
  \<^item> \<open>Lpm\<close>: \<^verbatim>\<open>lib/lpm/lpm4_248.c\<close> and \<^verbatim>\<open>lpm4_dxr.c\<close>, longest prefix match by tables and by binary search.
  \<^item> \<open>Mac_Table\<close>: \<^verbatim>\<open>apps/bridge/mac_table.c\<close>, the buckets of the learning bridge.
  \<^item> \<open>Device_Poll\<close>: \<^verbatim>\<open>apps/solarflare/poll.c\<close>, the table of devices and the event loop; the ef_vi library is a parameter.
  \<^item> \<open>Vhost_User\<close>: \<^verbatim>\<open>apps/vhost/vhost_user.c\<close>, sockets, messages and the descriptors they pass.
  \<^item> \<open>Dma_Memory\<close>: \<^verbatim>\<open>core/memory.c\<close> (mapping pages on demand), \<^verbatim>\<open>lib/ipc/shmem/shmem.c\<close> and \<^verbatim>\<open>core/lib.c\<close>.
  \<^item> \<open>Prng\<close>: \<^verbatim>\<open>lj_prng.c\<close>, the Tausworthe generator, its seeding and conditioning.
  \<^item> \<open>Carith\<close>: \<^verbatim>\<open>lj_carith.c\<close>, \<^verbatim>\<open>lib_bit.c\<close>, \<^verbatim>\<open>lj_vmmath.c\<close>, 64-bit arithmetic on FFI values.
  \<^item> \<open>Ir\<close>, \<open>Ir_Sem\<close>: \<^verbatim>\<open>lj_ir.h\<close>, \<^verbatim>\<open>lj_ir.c\<close>: the instruction buffer of a trace, interned constants,
    emission, common-subexpression elimination, and the meaning of the integer instructions.
  \<^item> \<open>Fold\<close>: \<^verbatim>\<open>lj_opt_fold.c\<close>, one definition per fold function of the integer rules, and the engine
    \<^verbatim>\<open>lj_opt_fold\<close> that dispatches on the opcodes of an instruction and its operands.
  \<^item> \<open>Fold_Contract\<close>, \<open>Fold_Rules\<close>, \<open>Fold_Bitops\<close>, \<open>Fold_Reassoc\<close>, \<open>Fold_Sound\<close>: the contract of a rule,
    its proof for every rule, and the theorems on the engine.
  \<^item> \<open>Buf\<close>: \<^verbatim>\<open>lj_buf.c\<close>, \<^verbatim>\<open>lj_buf.h\<close>, string buffers; \<open>Str\<close>: \<^verbatim>\<open>lj_str.c\<close>, \<^verbatim>\<open>lj_char.c\<close>, comparison and search.
  \<^item> \<open>Strtab\<close>: \<^verbatim>\<open>lj_str.c\<close> and the string sweep of \<^verbatim>\<open>lj_gc.c\<close>, interning.
  \<^item> \<open>Strfmt\<close>, \<open>Strfmt_Parse\<close>: \<^verbatim>\<open>lj_strfmt.c\<close>, the conversion of integers, pointers and strings, and the parser of
    format strings.
  \<^item> \<open>Lex_String\<close>: \<^verbatim>\<open>lex_string\<close> of \<^verbatim>\<open>lj_lex.c\<close>, string tokens with their escapes; what \<^verbatim>\<open>%q\<close> writes reads back as
    the string it was made from.
  \<^item> \<open>Dce\<close>: \<^verbatim>\<open>lj_opt_dce.c\<close>, dead-code elimination on the whole instruction set.
  \<^item> \<open>Tvalue\<close>: \<^verbatim>\<open>lj_obj.h\<close>, \<^verbatim>\<open>lj_obj.c\<close>, tagged values as 64-bit words, and of floating-point numbers their equality and their
    conversion to and from integers, on the bit patterns.
  \<^item> \<open>Tab\<close>: \<^verbatim>\<open>lj_tab.c\<close>, \<^verbatim>\<open>lj_tab.h\<close>, Lua tables with their array part and their hash part of chained nodes. \<open>Tab_Chain\<close>: the
    invariant of the chains; \<open>Tab_Insert\<close>: the insertion of a key with Brent's variation; \<open>Tab_Set\<close>: getters and setters;
    \<open>Tab_Resize\<close>, \<open>Tab_Rehash\<close>: resizing and the choice of the sizes; \<open>Tab_Map\<close>: tables as maps; \<open>Tab_Iter\<close>: traversal and length.

  \<^bold>\<open>How the parts interact.\<close> The formatting functions write into string buffers and know of a buffer only the
  contract \<open>byte_buffer\<close>, which \<open>Buf\<close> interprets. The fold rules emit instructions and constants through
  the operations of \<open>Ir\<close>, and evaluate constants with the functions of \<open>Carith\<close>; every rule is proved
  against the contract \<open>rule_ok\<close>, from which the theorems on the engine follow. The collector sweeps the
  chains that interning builds. Setting a field of a table may rehash it, and a rehash sets the fields of the new parts: the setters and
  the resizing know of the insertion of a key only the contract \<open>key_inserter\<close>, which \<open>Tab_Set\<close> interprets for tables with
  room and \<open>Tab_Rehash\<close> for all tables. The descriptors of vhost-user messages and the mapping of DMA pages
  are explicit parts of the state, so that leaks and double mappings are statements about it. The fields of a table are found by the
  references of interned strings; the last theorem of this theory composes the two parts.

  \<^bold>\<open>What is shown.\<close> For each part: its invariant and that every operation keeps it; what each operation
  returns, errors included; and where there is a simpler meaning, that the code agrees with it: lists for the ring, the buffers
  and the device table, sums modulo \<open>2^16 - 1\<close> for the checksum, the set of seen numbers for the
  replay window, the longest matching prefix for the routing tables, the lexicographic order for the
  comparison of strings, decimal digits for the conversion of integers, the value of the original
  instruction for the fold engine, maps from keys to values for tables, reachability from snapshots and side effects for dead-code elimination.

  \<^bold>\<open>Errors, bounds and fuel.\<close> An access out of bounds, a use after free and a loop that does not end are
  values of the models (\<open>None\<close>, or a constructor of an error type), so that a theorem that a function returns is a
  statement of memory safety and termination. Machine integers are words of their width. The fold engine runs on fuel;
  \<open>lj_opt_fold_converges\<close> shows that a bound that depends on the instruction only is enough. The walks along the chains of a table
  have as much fuel as the table has nodes, a rehash is nested at most once since the new hash part has room for
  all keys, the widening search of the length takes at most 32 steps and its linear search ends within \<open>2^28\<close>
  steps, because the two parts of a table are smaller; the theorems on tables show that none of these bounds is ever reached.

  \<^bold>\<open>The contract of the fold engine\<close> (\<open>fins_ok\<close>) is for well-typed integer instructions and leaves out what the code gets wrong or
  what rests on the recorder: division and power and 64-bit modulo (common-subexpression elimination ignores their sign), all
  64-bit logical right shifts and rotates (the mask of a masked operand is folded wrongly), and the bounds check of pointer type
  in a trace with a loop (it is dropped because the recorder has emitted the same check before the loop). The table of rules
  has the integer rules; those for floating-point numbers, conversions, strings, loads and stores are left out.

  \<^bold>\<open>The contract of tables.\<close> The hash of a string object does not change while it is a key. The code
  also rechains string keys whose hash has changed; those loops are modelled, and shown to be idle under this contract. A
  resize is asked for with a hash part that is large enough for the keys it takes over, which the rehash guarantees.

  \<^bold>\<open>Not modelled.\<close> The Lua code; \<^verbatim>\<open>core/snabbswitch.c\<close> (a \<^verbatim>\<open>main\<close> that calls the virtual machine); the assembler
  \<^verbatim>\<open>dasm_x86\<close> and the C stubs of ljsyscall; and of RaptorJIT the parser, the interpreter (generated
  assembly), the trace recorder, the machine-code back end, the marking phases of the collector, the FFI
  type system and the libraries, which rest on the layout of Lua objects in memory, on floating-point
  arithmetic or on machine code. Of tables: \<^verbatim>\<open>lj_tab_free\<close>, the write barriers, metatables, and the table that an overflow
  error leaves behind.
\<close>

section \<open>Fields of a table are named by the contents of strings\<close>

text \<open>C40: Strings and tables compose: the fields of a table are named by the contents of strings. A string \<open>a\<close> is interned and a value stored under it; then
  a string \<open>b\<close> is interned, whatever the collector and other strings did before, and looked up: the lookup finds the value when the
  two have the same bytes, and otherwise what the table had for \<open>b\<close> before. The allocator puts different string objects
  at different addresses of 47 bits.\<close>

theorem fields_by_name:
  assumes "str_reachable g" and "lj_str_new g a = Inr (r, g1)" and "lj_str_new g1 b = Inr (r', g2)"
    and "inj_on addr {r, r'}" and "addr r < 2 ^ 47" and "addr r' < 2 ^ 47"
    and "table_run sh t m" and "lj_tab_set sh t (setstrV (addr r)) = Inr (s, t')"
  shows "tab_lookup sh (slot_store t' s v) (setstrV (addr r')) = Inr (if a = b then v else m (setstrV (addr r')))"
proof -
  have ok: "strtab_ok g" by (rule reachable_ok [OF assms(1)])
  have len: "length a < LJ_MAX_STR" "length b < LJ_MAX_STR" using assms(2,3) by (auto simp: lj_str_new_def split: if_splits)
  have a: "strtab_ok g1" "str_at g1 r = Some a" using lj_str_new_ok [OF ok len(1)] assms(2) by (metis Inr_inject Pair_inject)+
  have b: "strtab_ok g2" "str_at g2 r' = Some b" "str_at g2 r = Some a" using lj_str_new_ok [OF a(1) len(2)] assms(3) a(2) by (metis Inr_inject Pair_inject)+
  have "r = r' \<longleftrightarrow> a = b" using b str_at_inj [OF b(1)] by auto
  then have same: "setstrV (addr r) = setstrV (addr r') \<longleftrightarrow> a = b"
    using assms(4) setstrV_parts(2) [OF assms(5)] setstrV_parts(2) [OF assms(6)] by (metis inj_on_def insertI1 insertI2)
  note K = setstrV_key [OF assms(5)] setstrV_key [OF assms(6)]
  have "table_run sh (slot_store t' s v) (m(ckey (setstrV (addr r)) := v))" by (rule run_set [OF assms(7) _ assms(8)]) (use K in blast)
  then have "tab_wf sh (slot_store t' s v)" "tab_map (slot_store t' s v) = m(setstrV (addr r) := v)" using table_run_map K by auto
  then show ?thesis using tab_lookup_map [of sh _ "setstrV (addr r')"] K same by auto
qed

theorem fields_by_name_witness:
  "\<exists>g r g1 r' g2 s t'. str_init = Some g \<and> lj_str_new g [1, 2] = Inr (r, g1) \<and> lj_str_new g1 [1, 3] = Inr (r', g2) \<and>
     lj_tab_set (\<lambda>_. 0) tab_example (setstrV 1) = Inr (s, t') \<and> tab_lookup (\<lambda>_. 0) (slot_store t' s 7) (setstrV 2) = Inr niltv"
proof -
  obtain g where g: "str_init = Some g" "str_reachable g" "strtab_ok g" using str_init_ok reach_init by blast
  have len: "length [1 :: u8, 2] < LJ_MAX_STR" "length [1 :: u8, 3] < LJ_MAX_STR" by (simp_all add: LJ_MAX_STR_def)
  obtain r g1 where 1: "lj_str_new g [1, 2] = Inr (r, g1)" "strtab_ok g1" "str_at g1 r = Some [1, 2]" by (rule lj_str_new_ok [OF g(3) len(1)])
  obtain r' g2 where 2: "lj_str_new g1 [1, 3] = Inr (r', g2)" "str_at g2 r' = Some [1, 3]"
    "\<forall>q t. str_at g1 q = Some t \<longrightarrow> str_at g2 q = Some t" by (rule lj_str_new_ok [OF 1(2) len(2)])
  have ne: "r' \<noteq> r" using 1(3) 2(2,3) by fastforce
  define addr where "addr = (\<lambda>q. if q = r then 1 else 2 :: u64)"
  have addr: "inj_on addr {r, r'}" "addr r = 1" "addr r' = 2" using ne by (simp_all add: addr_def)
  have b: "addr r < 2 ^ 47" "addr r' < 2 ^ 47" by (simp_all add: addr_def)
  have run: "table_run (\<lambda>_. 0) tab_example (\<lambda>_. niltv)" by (rule run_new [OF tab_example_new])
  have "tab_live tab_example = 0" by (simp add: tab_live_def live_vals_def tab_example_def nilnode_def)
  then obtain s t' where s: "lj_tab_set (\<lambda>_. 0) tab_example (setstrV (addr r)) = Inr (s, t')"
    using lj_tab_set_spec [of "\<lambda>_. 0" tab_example "setstrV (addr r)"] table_run_map [OF run] setstrV_key [OF b(1)] by auto
  from fields_by_name [OF g(2) 1(1) 2(1) addr(1) b run s, of 7] show ?thesis using g(1) 1(1) 2(1) s addr by auto
qed

end
